(* ===== verification/Prelude.thy ===== *)
theory Prelude
  imports Main "HOL-Library.Word" "HOL-Library.Monad_Syntax"
begin

text \<open>
  Shared vocabulary of the ProtoCache development: the machine integers of the C++ code, memory
  reads that may leave their array (\<open>None\<close>), little-endian conversion between bytes and words, and
  the generic lemmas on lists and words the components use.
\<close>

unbundle bit_operations_syntax

type_synonym u8 = "8 word"
type_synonym u16 = "16 word"
type_synonym u32 = "32 word"
type_synonym u64 = "64 word"

named_theorems byte_simps \<open>little-endian conversions\<close>
named_theorems unat_bridge \<open>word operations read as operations on natural numbers\<close>

subsection \<open>Words as natural numbers\<close>

lemma unat_pow2: "s < LENGTH('a) \<Longrightarrow> unat (2 ^ s :: 'a::len word) = 2 ^ s"
  by (metis unat_of_nat of_nat_numeral of_nat_power mod_less one_less_numeral_iff
      power_strict_increasing semiring_norm(76))

lemma unat_push_bit [unat_bridge]:
  "unat (push_bit n w :: 'a::len word) = (unat w * 2 ^ n) mod 2 ^ LENGTH('a)"
  by (simp only: unsigned_push_bit_eq push_bit_eq_mult [of n "unat w"] take_bit_eq_mod)

lemma unat_drop_bit [unat_bridge]: "unat (drop_bit n w :: 'a::len word) = unat w div 2 ^ n"
  by (simp only: unat_drop_bit_eq drop_bit_eq_div [of n "unat w"])

lemma unat_ucast:
  "unat (ucast (w :: 'b::len word) :: 'a::len word) = unat w mod 2 ^ LENGTH('a)"
  by (simp add: unsigned_ucast_eq take_bit_eq_mod)

lemma unat_minus_1 [unat_bridge]: "unat (- 1 :: 'a::len word) = 2 ^ LENGTH('a) - 1"
  by (metis mask_eq_exp_minus_1 unsigned_minus_1_eq_mask)

lemma unat_lt_exp: "unat (w :: 'a::len word) < 2 ^ LENGTH('a)"
  by (rule unsigned_less)

lemma unat_u8: "unat (w :: u8) < 256"
  using unat_lt_exp [of w] by simp

lemma unat_u32: "unat (w :: u32) < 4294967296"
  using unat_lt_exp [of w] by simp

lemma unat_u64: "unat (w :: u64) < 18446744073709551616"
  using unat_lt_exp [of w] by simp

lemma unat_ucast_up [simp]:
  "LENGTH('b) \<le> LENGTH('a) \<Longrightarrow> unat (ucast (w :: 'b::len word) :: 'a::len word) = unat w"
  by (metis unat_ucast mod_less order_less_le_trans unat_lt_exp power_increasing one_le_numeral)

lemma unat_ucast_down [unat_bridge]:
  "LENGTH('a) < LENGTH('b) \<Longrightarrow>
    unat (ucast (w :: 'b::len word) :: 'a::len word) = unat w mod 2 ^ LENGTH('a)"
  by (rule unat_ucast)

lemma word_eq_unatI: "unat v = unat w \<Longrightarrow> v = w"
  by (rule unsigned_word_eqI)

lemma word_eq_of_natI: "unat w = n \<Longrightarrow> w = of_nat n"
  by (drule sym) simp

lemmas unat_arith_simps = unat_word_ariths(1,2) unat_div unat_mod

subsection \<open>Bitwise conjunction on digits\<close>

lemma and_digit:
  fixes x y m z :: nat
  assumes "x < 2 ^ k" and "m < 2 ^ k"
  shows "(x + 2 ^ k * y) AND (m + 2 ^ k * z) = (x AND m) + 2 ^ k * (y AND z)"
proof -
  let ?a = "x + 2 ^ k * y" and ?b = "m + 2 ^ k * z"
  have "take_bit k ?a = x" "drop_bit k ?a = y" "take_bit k ?b = m" "drop_bit k ?b = z"
    using assms by (simp_all add: take_bit_eq_mod drop_bit_eq_div)
  then have "take_bit k (?a AND ?b) = (x AND m)" "drop_bit k (?a AND ?b) = (y AND z)"
    by (simp_all only: take_bit_and drop_bit_and)
  moreover have "(?a AND ?b) = take_bit k (?a AND ?b) + 2 ^ k * drop_bit k (?a AND ?b)"
    by (simp only: take_bit_eq_mod drop_bit_eq_div) simp
  ultimately show ?thesis by simp
qed

lemma nat_and_mask: "(x :: nat) AND (2 ^ j - 1) = x mod 2 ^ j"
  using take_bit_eq_mask [of j x] by (simp add: take_bit_eq_mod mask_eq_exp_minus_1)

subsection \<open>Checked memory reads\<close>

text \<open>A read of an array element; \<open>None\<close> is an access outside of the array.\<close>

definition rd :: "'a list \<Rightarrow> nat \<Rightarrow> 'a option" where
  "rd xs i = (if i < length xs then Some (xs ! i) else None)"

text \<open>A read of \<open>n\<close> consecutive elements from position \<open>i\<close>.\<close>

definition rd_range :: "'a list \<Rightarrow> nat \<Rightarrow> nat \<Rightarrow> 'a list option" where
  "rd_range xs i n = (if i + n \<le> length xs then Some (take n (drop i xs)) else None)"

lemma rd_Some [simp]: "i < length xs \<Longrightarrow> rd xs i = Some (xs ! i)"
  by (simp add: rd_def)

lemma rd_eq_Some_iff: "rd xs i = Some x \<longleftrightarrow> i < length xs \<and> xs ! i = x"
  by (auto simp: rd_def)

lemma rd_range_Some [simp]: "i + n \<le> length xs \<Longrightarrow> rd_range xs i n = Some (take n (drop i xs))"
  by (simp add: rd_range_def)

lemma rd_range_eq_Some_iff:
  "rd_range xs i n = Some ys \<longleftrightarrow> i + n \<le> length xs \<and> take n (drop i xs) = ys"
  by (auto simp: rd_range_def)

text \<open>A write of consecutive elements at position \<open>i\<close>; \<open>None\<close> is a write outside of the array.\<close>

definition wr_range :: "'a list \<Rightarrow> nat \<Rightarrow> 'a list \<Rightarrow> 'a list option" where
  "wr_range xs i ys =
    (if i + length ys \<le> length xs then Some (take i xs @ ys @ drop (i + length ys) xs) else None)"

lemma wr_range_Some [simp]:
  "i + length ys \<le> length xs \<Longrightarrow> wr_range xs i ys = Some (take i xs @ ys @ drop (i + length ys) xs)"
  by (simp add: wr_range_def)

lemma wr_range_eq_Some_iff:
  "wr_range xs i ys = Some zs \<longleftrightarrow>
    i + length ys \<le> length xs \<and> zs = take i xs @ ys @ drop (i + length ys) xs"
  by (auto simp: wr_range_def)

subsection \<open>Little-endian words\<close>

fun word_of_bytes :: "u8 list \<Rightarrow> 'a::len word" where
  "word_of_bytes [] = 0"
| "word_of_bytes (b # bs) = ucast b OR push_bit 8 (word_of_bytes bs)"

fun bytes_of_word :: "nat \<Rightarrow> 'a::len word \<Rightarrow> u8 list" where
  "bytes_of_word 0 w = []"
| "bytes_of_word (Suc n) w = ucast w # bytes_of_word n (drop_bit 8 w)"

lemma bytes_of_word_numeral [simp]:
  "bytes_of_word (numeral k) w = ucast w # bytes_of_word (pred_numeral k) (drop_bit 8 w)"
  by (simp add: numeral_eq_Suc)

lemma length_bytes_of_word [simp]: "length (bytes_of_word n w) = n"
  by (induction n arbitrary: w) auto

lemma bit_word_of_bytes:
  fixes bs :: "u8 list"
  shows "bit (word_of_bytes bs :: 'a::len word) i \<longleftrightarrow>
    i < LENGTH('a) \<and> i div 8 < length bs \<and> bit (bs ! (i div 8)) (i mod 8)"
proof (induction bs arbitrary: i)
  case Nil
  then show ?case by simp
next
  case (Cons b bs)
  show ?case
  proof (cases "i < 8")
    case True
    then show ?thesis
      by (simp add: bit_or_iff bit_push_bit_iff bit_ucast_iff bit_imp_le_length)
  next
    case False
    then obtain k where k: "i = 8 + k"
      using le_Suc_ex not_less by blast
    have "\<not> bit b (8 + k)"
      using bit_imp_le_length [of b "8 + k"] by auto
    moreover have "(8 + k) div 8 = Suc (k div 8)" and "(8 + k) mod 8 = k mod 8"
      by simp_all
    ultimately show ?thesis
      using Cons.IH [of k] by (auto simp: k bit_or_iff bit_push_bit_iff bit_ucast_iff)
  qed
qed

lemma nth_bytes_of_word:
  "k < n \<Longrightarrow> bytes_of_word n w ! k = ucast (drop_bit (8 * k) w)"
proof (induction n arbitrary: w k)
  case 0
  then show ?case by simp
next
  case (Suc n)
  then show ?case
    by (cases k) (auto simp: drop_bit_drop_bit algebra_simps)
qed

lemma word_of_bytes_of_word [byte_simps]:
  fixes w :: "'a::len word"
  assumes "LENGTH('a) \<le> 8 * n"
  shows "word_of_bytes (bytes_of_word n w) = w"
proof (rule bit_word_eqI)
  fix i assume i: "i < LENGTH('a)"
  then have "i div 8 < n" using assms by auto
  moreover have "8 * (i div 8) + i mod 8 = i" by simp
  moreover have "i mod 8 < 8" by simp
  ultimately show "bit (word_of_bytes (bytes_of_word n w) :: 'a word) i = bit w i"
    using i by (simp add: bit_word_of_bytes nth_bytes_of_word bit_ucast_iff bit_drop_bit_eq)
qed

lemma bytes_of_word_of_bytes [byte_simps]:
  assumes "length bs = n" and "8 * n \<le> LENGTH('a)"
  shows "bytes_of_word n (word_of_bytes bs :: 'a::len word) = bs"
proof (rule nth_equalityI)
  show "length (bytes_of_word n (word_of_bytes bs :: 'a word)) = length bs"
    using assms by simp
next
  fix k assume "k < length (bytes_of_word n (word_of_bytes bs :: 'a word))"
  then have k: "k < n" by simp
  show "bytes_of_word n (word_of_bytes bs :: 'a word) ! k = bs ! k"
  proof (rule bit_word_eqI)
    fix j assume "j < LENGTH(8)"
    then have j: "j < 8" by simp
    have "8 * k + j < LENGTH('a)"
      using assms k j by linarith
    then show "bit (bytes_of_word n (word_of_bytes bs :: 'a word) ! k) j = bit (bs ! k) j"
      using k j assms
      by (simp add: nth_bytes_of_word bit_ucast_iff bit_drop_bit_eq bit_word_of_bytes)
  qed
qed

end
