(* ===== verification/Divisor.thy ===== *)
theory Divisor
  imports Prelude
begin

text \<open>
  The \<open>Divisor\<close> class of src/perfect_hash.cc: division of 32-bit integers by a run-time constant
  with one 64-bit multiplication (Robison's method). The perfect hash uses it to reduce hash codes
  modulo the section size.
\<close>

subsection \<open>Model\<close>

record Divisor =
  d_val :: u32
  d_fac :: u32
  d_tip :: u32
  d_sft :: nat

text \<open>The loop \<open>for (; m > n; m >>= 1U) sft_--;\<close> of the assignment operator.\<close>

function norm_loop :: "u32 \<Rightarrow> u32 \<Rightarrow> nat \<Rightarrow> u32 \<times> nat" where
  "norm_loop n m s = (if m > n then norm_loop n (drop_bit 1 m) (s - 1) else (m, s))"
  by pat_completeness auto
termination
proof (relation "measure (\<lambda>(n, m, s). unat m)", goal_cases)
  case 1
  show ?case by simp
next
  case (2 n m s)
  then have "0 < unat m" by (simp add: word_less_nat_alt)
  then show ?case by (simp add: drop_bit_eq_div unat_div)
qed

declare norm_loop.simps [simp del]

definition assign :: "u32 \<Rightarrow> Divisor" where
  "assign n =
    (let d = \<lparr>d_val = n, d_fac = 0, d_tip = 0, d_sft = 0\<rparr>
     in if n = 0 then d
        else let (m, sft) = norm_loop n (push_bit 31 1) 31;
                 d = d\<lparr>d_sft := sft, d_fac := NOT 0, d_tip := NOT 0\<rparr>
             in if m = n then d
                else let fac = ucast (push_bit 32 (ucast m :: u64) div ucast n);
                         r = fac * n + n
                     in if r \<le> m then d\<lparr>d_fac := fac + 1, d_tip := 0\<rparr>
                        else d\<lparr>d_fac := fac, d_tip := fac\<rparr>)"

definition div_by :: "u32 \<Rightarrow> Divisor \<Rightarrow> u32" where
  "div_by m d = ucast (drop_bit (32 + d_sft d) (ucast (d_fac d) * (ucast m :: u64) + ucast (d_tip d)))"

definition mod_by :: "u32 \<Rightarrow> Divisor \<Rightarrow> u32" where
  "mod_by m d = m - d_val d * div_by m d"

subsection \<open>The normalisation loop\<close>

lemma unat_push_bit_1: "s < 32 \<Longrightarrow> unat (push_bit s 1 :: u32) = 2 ^ s"
  by (simp add: push_bit_eq_mult unat_pow2)

lemma norm_loop_log:
  assumes "n \<noteq> 0" and "unat m = 2 ^ s" and "unat n < 2 ^ Suc s"
  shows "\<exists>k \<le> s. snd (norm_loop n m s) = k \<and> unat (fst (norm_loop n m s)) = 2 ^ k \<and>
           2 ^ k \<le> unat n \<and> unat n < 2 ^ Suc k"
  using assms
proof (induction n m s rule: norm_loop.induct)
  case (1 n m s)
  show ?case
  proof (cases "n < m")
    case True
    then have lt: "unat n < 2 ^ s" using "1.prems" by (simp add: word_less_nat_alt)
    have "0 < unat n" using "1.prems"(1) by (simp add: unat_gt_0)
    with lt obtain s' where s: "s = Suc s'"
      by (cases s) auto
    have "unat (drop_bit 1 m) = 2 ^ s'"
      using "1.prems"(2) by (simp add: s drop_bit_eq_div unat_div)
    moreover have "unat n < 2 ^ Suc s'" using lt s by simp
    ultimately obtain k where "k \<le> s'" "snd (norm_loop n (drop_bit 1 m) s') = k"
      "unat (fst (norm_loop n (drop_bit 1 m) s')) = 2 ^ k" "2 ^ k \<le> unat n" "unat n < 2 ^ Suc k"
      using "1.IH" [OF True] "1.prems"(1) s by auto
    moreover have "norm_loop n m s = norm_loop n (drop_bit 1 m) s'"
      using True s by (subst norm_loop.simps) simp
    ultimately show ?thesis using s by (metis le_SucI)
  next
    case False
    then have "norm_loop n m s = (m, s)" by (simp add: norm_loop.simps)
    moreover have "2 ^ s \<le> unat n"
      using False "1.prems"(2) by (simp add: word_less_nat_alt)
    ultimately show ?thesis using "1.prems" by auto
  qed
qed

subsection \<open>Arithmetic of the reciprocal\<close>

lemma dvd_pow2_is_pow2:
  fixes n :: nat
  shows "n dvd 2 ^ k \<Longrightarrow> \<exists>i. n = 2 ^ i"
proof (induction k arbitrary: n)
  case 0
  then show ?case by (metis nat_dvd_1_iff_1 power_0)
next
  case (Suc k)
  show ?case
  proof (cases "even n")
    case True
    then obtain m where m: "n = 2 * m" by blast
    with Suc.prems have "m dvd 2 ^ k" by simp
    with Suc.IH m show ?thesis by (metis power_Suc)
  next
    case False
    then have "coprime n (2 ^ Suc k)" by simp
    with Suc.prems have "n = 1"
      using coprime_absorb_left by (metis nat_dvd_1_iff_1)
    then show ?thesis by (metis power_0)
  qed
qed

lemma div_eqI:
  fixes a b q :: nat
  assumes "q * b \<le> a" and "a < (q + 1) * b"
  shows "a div b = q"
  using assms by (metis Suc_eq_plus1 div_nat_eqI mult.commute)

text \<open>Rounding the reciprocal up: the error \<open>e\<close> is at most \<open>2 ^ s\<close>.\<close>

lemma reciprocal_up:
  fixes F N K e x :: nat
  assumes F: "F * N = K + e" and e: "e * x < K" and N: "0 < N"
  shows "F * x div K = x div N"
proof -
  let ?q = "x div N" and ?t = "x mod N"
  have Fx: "F * x = ?q * K + (?q * e + F * ?t)"
  proof -
    have "?q * (F * N) + F * ?t = F * (?q * N + ?t)" by (simp only: algebra_simps)
    then have "F * x = ?q * (F * N) + F * ?t" by simp
    then show ?thesis by (simp add: F algebra_simps)
  qed
  have "N * (?q * e + F * ?t) = e * (?q * N) + ?t * (F * N)" by (simp add: algebra_simps)
  also have "\<dots> = e * (?q * N + ?t) + ?t * K" by (simp only: F algebra_simps)
  also have "\<dots> = e * x + ?t * K" by simp
  also have "\<dots> < K + ?t * K" using e by simp
  also have "\<dots> \<le> N * K"
  proof -
    have "Suc ?t \<le> N" using N by (simp add: Suc_leI)
    then have "Suc ?t * K \<le> N * K" by (rule mult_le_mono1)
    then show ?thesis by simp
  qed
  finally have "?q * e + F * ?t < K" by simp
  then have "F * x div K = ?q" using Fx by (intro div_eqI) auto
  then show ?thesis .
qed

text \<open>Rounding it down, with the added \<open>tip\<close>: the error is positive and below \<open>2 ^ s\<close>.\<close>

lemma reciprocal_down:
  fixes F N K r x :: nat
  assumes F: "F * N + r = K" and r: "0 < r" and b: "r * (x + 1) \<le> K" and N: "0 < N"
  shows "(F * x + F) div K = x div N"
proof -
  let ?q = "x div N" and ?t = "x mod N"
  have split: "F * x + F + ?q * r = ?q * K + F * (?t + 1)"
  proof -
    have "?q * (F * N) + F * (?t + 1) = F * (?q * N + ?t) + F" by (simp only: algebra_simps)
    then have "F * x + F = ?q * (F * N) + F * (?t + 1)" by simp
    then have "F * x + F + ?q * r = ?q * (F * N + r) + F * (?t + 1)" by (simp add: algebra_simps)
    then show ?thesis by (simp only: F)
  qed
  have *: "N * (F * (?t + 1)) + r * (?t + 1) = K * (?t + 1)"
  proof -
    have "N * (F * (?t + 1)) + r * (?t + 1) = (F * N + r) * (?t + 1)" by (simp add: algebra_simps)
    then show ?thesis by (simp only: F)
  qed
  have rx: "r * (x + 1) = N * (?q * r) + r * (?t + 1)"
  proof -
    have "N * (?q * r) + r * (?t + 1) = r * (?q * N + ?t + 1)" by (simp only: algebra_simps)
    then show ?thesis by simp
  qed
  have low: "?q * r \<le> F * (?t + 1)"
  proof -
    have "N * (?q * r) + r * (?t + 1) \<le> K" using b rx by simp
    also have "\<dots> \<le> N * (F * (?t + 1)) + r * (?t + 1)" using * by simp
    finally have "N * (?q * r) \<le> N * (F * (?t + 1))" by simp
    then show ?thesis using N by simp
  qed
  have high: "F * (?t + 1) < ?q * r + K"
  proof -
    have t: "?t + 1 \<le> N" using N by (simp add: Suc_leI)
    have "N * (F * (?t + 1)) + r * (?t + 1) \<le> K * N"
      using * mult_le_mono2 [OF t, of K] by simp
    moreover have "0 < r * (?t + 1)" using r by simp
    ultimately have "N * (F * (?t + 1)) < K * N" by linarith
    then have "F * (?t + 1) < K" using N by (simp add: mult.commute)
    then show ?thesis by simp
  qed
  show ?thesis
  proof (rule div_eqI)
    show "?q * K \<le> F * x + F" using split low by linarith
    show "F * x + F < (?q + 1) * K" using split high by simp
  qed
qed

subsection \<open>Correctness\<close>

lemma div_by_unat:
  assumes "d_sft d < 32"
  shows "unat (div_by m d) =
    ((unat (d_fac d) * unat m + unat (d_tip d)) div 2 ^ (32 + d_sft d)) mod 2 ^ 32"
proof -
  have "unat (d_fac d) \<le> 4294967295" and "unat m \<le> 4294967295"
    using unat_u32 [of m] unat_u32 [of "d_fac d"] by linarith+
  then have "unat (d_fac d) * unat m \<le> 4294967295 * 4294967295"
    by (rule mult_le_mono)
  then have "unat (d_fac d) * unat m + unat (d_tip d) < 2 ^ 64"
    using unat_u32 [of "d_tip d"] unfolding power2_eq_square [symmetric] by simp
  then show ?thesis
    by (simp add: div_by_def unat_bridge unat_word_ariths mod_less)
qed

lemma div_by_eqI:
  assumes "d_sft d < 32"
    and "(unat (d_fac d) * unat m + unat (d_tip d)) div 2 ^ (32 + d_sft d) = unat m div unat n"
  shows "div_by m d = m div n"
proof (rule word_eq_unatI)
  have "unat m div unat n < 2 ^ 32"
    using unat_u32 [of m] by (simp add: le_less_trans [OF div_le_dividend])
  then show "unat (div_by m d) = unat (m div n)"
    using assms by (simp add: div_by_unat unat_div)
qed

text \<open>What the assignment computes, in each of its branches.\<close>

lemma assign_norm:
  assumes "n \<noteq> 0"
  obtains m k where "norm_loop n (push_bit 31 1) 31 = (m, k)" "k < 32" "unat m = 2 ^ k"
    "2 ^ k \<le> unat n" "unat n < 2 ^ Suc k"
proof -
  obtain m k where mk: "norm_loop n (push_bit 31 1) 31 = (m, k)" by fastforce
  have "unat (push_bit 31 1 :: u32) = 2 ^ 31" by (rule unat_push_bit_1) simp
  moreover have "unat n < 2 ^ Suc 31" using unat_u32 [of n] by simp
  ultimately have "k \<le> 31" "unat m = 2 ^ k" "2 ^ k \<le> unat n" "unat n < 2 ^ Suc k"
    using norm_loop_log [OF assms, of "push_bit 31 1" 31] mk by auto
  then show thesis using mk that by force
qed

lemma reciprocal_word:
  fixes n m :: u32
  assumes m: "unat m = 2 ^ k" and k: "k < 32" and lt: "2 ^ k < unat n"
  defines "fac \<equiv> ucast (push_bit 32 (ucast m :: u64) div ucast n) :: u32"
  shows "unat fac = 2 ^ (32 + k) div unat n"
    and "unat (fac * n + n) = unat n - 2 ^ (32 + k) mod unat n"
    and "unat (fac + 1) = unat fac + 1"
proof -
  let ?K = "2 ^ (32 + k) :: nat" and ?N = "unat n"
  have K: "?K = 2 ^ 32 * 2 ^ k" by (simp add: power_add)
  have "(2::nat) ^ k * 2 ^ 32 < 2 ^ 64"
    using k power_strict_increasing [of "k + 32" 64 "2::nat"] by (simp add: power_add)
  then have "unat (push_bit 32 (ucast m :: u64)) = ?K"
    using m K k by (simp add: unat_bridge mult.commute)
  then have "unat (push_bit 32 (ucast m :: u64) div ucast n) = ?K div ?N"
    using unat_u32 [of n] by (simp add: unat_div unat_bridge)
  moreover have small: "?K div ?N + 1 < 2 ^ 32"
  proof -
    have "?K < 2 ^ 32 * ?N - ?N"
    proof -
      have "?K + 2 ^ 32 \<le> 2 ^ 32 * ?N" using lt K by (metis Suc_leI mult_Suc_right mult_le_mono2 add.commute)
      then show ?thesis using unat_u32 [of n] by simp
    qed
    then have "?K < (2 ^ 32 - 1) * ?N" by (simp add: diff_mult_distrib)
    then have "?K div ?N < 2 ^ 32 - 1" by (rule less_mult_imp_div_less)
    then show ?thesis by simp
  qed
  ultimately show fac: "unat fac = ?K div ?N"
    by (simp add: fac_def unat_bridge)
  show "unat (fac + 1) = unat fac + 1"
    using fac small by (simp add: unat_word_ariths)
  have N: "0 < ?N" using lt by simp
  have "?K div ?N * ?N + ?N = ?K + (?N - ?K mod ?N)"
    using mod_less_divisor [OF N, of ?K] div_mult_mod_eq [of ?K ?N] by linarith
  then have "(?K div ?N * ?N + ?N) mod 2 ^ 32 = (?N - ?K mod ?N) mod 2 ^ 32"
    by (simp add: K)
  also have "\<dots> = ?N - ?K mod ?N" using unat_u32 [of n] by simp
  finally show "unat (fac * n + n) = ?N - ?K mod ?N"
    by (simp add: fac unat_word_ariths mod_add_left_eq)
qed

lemma pow2_mod_pos:
  fixes N :: nat
  assumes "2 ^ k < N" and "N < 2 ^ Suc k"
  shows "0 < 2 ^ j mod N"
proof (rule ccontr)
  assume "\<not> 0 < 2 ^ j mod N"
  then have "N dvd 2 ^ j" by (simp add: dvd_eq_mod_eq_0)
  then obtain i where i: "N = 2 ^ i" using dvd_pow2_is_pow2 by blast
  with assms have "k < i" and "i < Suc k"
    by (metis power_strict_increasing_iff one_less_numeral_iff semiring_norm(76))+
  then show False by simp
qed

text \<open>
  The reciprocal is rounded up with an error of at most \<open>2 ^ sft\<close> and no tip, or down with a
  positive error of at most \<open>2 ^ sft\<close> and the factor itself as the tip; powers of two are in the
  second case, with \<open>2 ^ 32 - 1\<close> as the factor.
\<close>

definition good_reciprocal :: "Divisor \<Rightarrow> bool" where
  "good_reciprocal d \<longleftrightarrow> d_sft d < 32 \<and>
     (\<exists>e \<le> 2 ^ d_sft d.
       d_tip d = 0 \<and> unat (d_fac d) * unat (d_val d) = 2 ^ (32 + d_sft d) + e \<or>
       d_tip d = d_fac d \<and> 0 < e \<and> unat (d_fac d) * unat (d_val d) + e = 2 ^ (32 + d_sft d))"

lemma good_reciprocal_assign:
  assumes n: "n \<noteq> 0"
  shows "good_reciprocal (assign n)"
proof -
  obtain m k where mk: "norm_loop n (push_bit 31 1) 31 = (m, k)" and k: "k < 32"
    and m: "unat m = 2 ^ k" and lo: "2 ^ k \<le> unat n" and hi: "unat n < 2 ^ Suc k"
    using assign_norm [OF n] by blast
  show ?thesis
  proof (cases "m = n")
    case True
    then have "assign n = \<lparr>d_val = n, d_fac = NOT 0, d_tip = NOT 0, d_sft = k\<rparr>"
      using n mk by (simp add: assign_def)
    moreover have "(2 ^ 32 - 1) * 2 ^ k + 2 ^ k = (2 ^ (32 + k) :: nat)" by (simp add: power_add)
    ultimately show ?thesis
      using True m k by (auto simp: good_reciprocal_def unat_minus_1 intro!: exI [of _ "2 ^ k"])
  next
    case False
    then have lt: "2 ^ k < unat n" using lo m by (metis le_neq_implies_less word_eq_unatI)
    define fac where "fac = (ucast (push_bit 32 (ucast m :: u64) div ucast n) :: u32)"
    note rec = reciprocal_word [OF m k lt, folded fac_def]
    let ?r = "2 ^ (32 + k) mod unat n"
    have r: "?r < unat n" "unat fac * unat n + ?r = 2 ^ (32 + k)"
      using lt by (simp_all add: rec(1))
    have d: "assign n = (if fac * n + n \<le> m
        then \<lparr>d_val = n, d_fac = fac + 1, d_tip = 0, d_sft = k\<rparr>
        else \<lparr>d_val = n, d_fac = fac, d_tip = fac, d_sft = k\<rparr>)"
      using n mk False by (simp add: assign_def fac_def Let_def)
    show ?thesis
    proof (cases "fac * n + n \<le> m")
      case True
      then have "unat n - ?r \<le> 2 ^ k" using rec(2) m by (simp add: word_le_nat_alt)
      moreover have "(unat fac + 1) * unat n = 2 ^ (32 + k) + (unat n - ?r)" using r by simp
      ultimately show ?thesis using d True k rec(3) by (auto simp: good_reciprocal_def)
    next
      case False
      then have "?r \<le> 2 ^ k" using rec(2) m hi by (simp add: word_le_nat_alt)
      moreover have "0 < ?r" using lt hi by (rule pow2_mod_pos)
      ultimately show ?thesis using d False k r(2) by (auto simp: good_reciprocal_def)
    qed
  qed
qed

lemma div_by_good_reciprocal:
  assumes d: "good_reciprocal d" and n: "d_val d \<noteq> 0"
  shows "div_by x d = x div d_val d"
proof -
  let ?K = "2 ^ (32 + d_sft d) :: nat" and ?N = "unat (d_val d)" and ?x = "unat x"
  have N: "0 < ?N" using n by (simp add: unat_gt_0)
  have bound: "e * (?x + 1) \<le> ?K" if "e \<le> 2 ^ d_sft d" for e
    unfolding power_add using unat_u32 [of x] that
    by (subst mult.commute) (rule mult_le_mono, auto)
  have "(unat (d_fac d) * ?x + unat (d_tip d)) div ?K = ?x div ?N"
  proof -
    obtain e where e: "e \<le> 2 ^ d_sft d" and
      "d_tip d = 0 \<and> unat (d_fac d) * ?N = ?K + e \<or>
       d_tip d = d_fac d \<and> 0 < e \<and> unat (d_fac d) * ?N + e = ?K"
      using d by (auto simp: good_reciprocal_def)
    then consider (up) "d_tip d = 0" "unat (d_fac d) * ?N = ?K + e"
      | (down) "d_tip d = d_fac d" "0 < e" "unat (d_fac d) * ?N + e = ?K" by blast
    then show ?thesis
    proof cases
      case up
      have "e * ?x < ?K" using bound [OF e] by (cases "e = 0") auto
      with up show ?thesis using reciprocal_up [OF up(2) _ N] by simp
    next
      case down
      with bound [OF e] show ?thesis using reciprocal_down [OF down(3,2) _ N] by simp
    qed
  qed
  then show ?thesis using d by (intro div_by_eqI) (auto simp: good_reciprocal_def)
qed

lemma d_val_assign [simp]: "d_val (assign n) = n"
  by (simp add: assign_def Let_def split: prod.split)

lemma div_by_assign: "n \<noteq> 0 \<Longrightarrow> div_by m (assign n) = m div n"
  using div_by_good_reciprocal [OF good_reciprocal_assign] by simp

lemma mod_by_assign: "n \<noteq> 0 \<Longrightarrow> mod_by m (assign n) = m mod n"
  by (simp add: mod_by_def div_by_assign minus_mult_div_eq_mod)

text \<open>
  Claim C12: for every divisor other than zero, the multiplication and shift of the
  \<open>Divisor\<close> class give exactly the quotient and the remainder of the 32-bit division.
\<close>

theorem divisor_correct:
  assumes "n \<noteq> 0"
  shows "div_by m (assign n) = m div n \<and> mod_by m (assign n) = m mod n"
  using assms by (simp add: div_by_assign mod_by_assign)

theorem divisor_correct_witness:
  "(7 :: u32) \<noteq> 0 \<and> div_by 4294967295 (assign 7) = 613566756 \<and> mod_by 4294967295 (assign 7) = 3"
  using divisor_correct [of 7 4294967295] by simp

end
