(* ===== verification/Bits.thy ===== *)
theory Bits
  imports Prelude
begin

text \<open>
  The population counts over two-bit fields: \<open>Count32\<close> and \<open>Count64\<close> of
  include/protocache/access.h (field widths of a message section) and \<open>CountValidSlot\<close> of
  src/perfect_hash.cc (occupied slots of an index block), each in the two variants of the source,
  with and without the popcount instruction.
\<close>

subsection \<open>Model\<close>

text \<open>The compiler's \<open>__builtin_popcount\<close>: the number of one bits.\<close>

definition popcount :: "'a::len word \<Rightarrow> u32" where
  "popcount v = (\<Sum>i \<leftarrow> [0..<LENGTH('a)]. of_bool (bit v i))"

definition Count32_popcnt :: "u32 \<Rightarrow> u32" where
  "Count32_popcnt v = popcount (v AND 0xaaaaaaaa) + popcount v"

definition Count64_popcnt :: "u64 \<Rightarrow> u32" where
  "Count64_popcnt v = popcount (v AND 0xaaaaaaaaaaaaaaaa) + popcount v"

definition Count32 :: "u32 \<Rightarrow> u32" where
  "Count32 v =
    (let v = (v AND 0x33333333) + (drop_bit 2 v AND 0x33333333);
         v = v + drop_bit 4 v;
         v = (v AND 0xf0f0f0f) + (drop_bit 8 v AND 0xf0f0f0f);
         v = v + drop_bit 16 v
     in v AND 0xff)"

definition Count64 :: "u64 \<Rightarrow> u32" where
  "Count64 v =
    (let v = (v AND 0x3333333333333333) + (drop_bit 2 v AND 0x3333333333333333);
         v = v + drop_bit 4 v;
         v = (v AND 0xf0f0f0f0f0f0f0f) + (drop_bit 8 v AND 0xf0f0f0f0f0f0f0f);
         v = v + drop_bit 16 v;
         v = v + drop_bit 32 v
     in ucast (v AND 0xff))"

definition CountValidSlot_popcnt :: "u64 \<Rightarrow> u32" where
  "CountValidSlot_popcnt v =
    (let v = (v AND 0x5555555555555555) AND drop_bit 1 v in 32 - popcount v)"

definition CountValidSlot :: "u64 \<Rightarrow> u32" where
  "CountValidSlot v =
    (let v = v AND drop_bit 1 v;
         v = (v AND 0x1111111111111111) + (drop_bit 2 v AND 0x1111111111111111);
         v = v + drop_bit 4 v;
         v = v + drop_bit 8 v;
         v = (v AND 0xf0f0f0f0f0f0f0f) + (drop_bit 16 v AND 0xf0f0f0f0f0f0f0f);
         v = v + drop_bit 32 v
     in 32 - ucast (v AND 0xff))"

subsection \<open>Digit sums\<close>

text \<open>A number given by its first \<open>n\<close> digits in base \<open>B\<close>.\<close>

definition dsum :: "nat \<Rightarrow> nat \<Rightarrow> (nat \<Rightarrow> nat) \<Rightarrow> nat" where
  "dsum B n f = (\<Sum>i<n. f i * B ^ i)"

lemma dsum_0 [simp]: "dsum B 0 f = 0"
  by (simp add: dsum_def)

lemma dsum_Suc: "dsum B (Suc n) f = f 0 + B * dsum B n (\<lambda>i. f (Suc i))"
  by (simp add: dsum_def sum.lessThan_Suc_shift sum_distrib_left algebra_simps del: sum.lessThan_Suc)

lemma dsum_add: "dsum B n f + dsum B n g = dsum B n (\<lambda>i. f i + g i)"
  by (simp add: dsum_def sum.distrib algebra_simps)

lemma dsum_cong: "(\<And>i. i < n \<Longrightarrow> f i = g i) \<Longrightarrow> dsum B n f = dsum B n g"
  by (simp add: dsum_def)

lemma dsum_less:
  assumes "\<And>i. i < n \<Longrightarrow> f i < B"
  shows "dsum B n f < B ^ n"
  using assms
proof (induction n arbitrary: f)
  case 0
  then show ?case by simp
next
  case (Suc n)
  then have "dsum B n (\<lambda>i. f (Suc i)) + 1 \<le> B ^ n" by (simp add: Suc_le_eq)
  then have "B * (dsum B n (\<lambda>i. f (Suc i)) + 1) \<le> B * B ^ n" by (rule mult_le_mono2)
  moreover have "f 0 < B" using Suc.prems by simp
  ultimately show ?case by (simp add: dsum_Suc)
qed

lemma dsum_div_base:
  assumes "f 0 < B" and "f n = 0"
  shows "dsum B n f div B = dsum B n (\<lambda>i. f (Suc i))"
proof -
  have "dsum B n f = dsum B (Suc n) f" using assms(2) by (simp add: dsum_def)
  then show ?thesis using assms(1) by (simp add: dsum_Suc)
qed

lemma dsum_div:
  assumes "\<And>i. f i < B" and "\<And>i. n \<le> i \<Longrightarrow> f i = 0"
  shows "dsum B n f div B ^ m = dsum B n (\<lambda>i. f (i + m))"
proof (induction m)
  case 0
  then show ?case by simp
next
  case (Suc m)
  have "dsum B n f div B ^ Suc m = dsum B n (\<lambda>i. f (i + m)) div B"
    by (simp only: Suc.IH [symmetric] power_Suc2 div_mult2_eq)
  also have "\<dots> = dsum B n (\<lambda>i. f (Suc i + m))"
    by (rule dsum_div_base) (simp_all add: assms)
  finally show ?case by simp
qed

lemma dsum_digit:
  assumes "\<And>i. f i < B" and "\<And>i. n \<le> i \<Longrightarrow> f i = 0" and "0 < n"
  shows "dsum B n f div B ^ m mod B = f m"
proof -
  obtain k where n: "n = Suc k" using assms(3) by (cases n) auto
  have "dsum B n f div B ^ m = dsum B n (\<lambda>i. f (i + m))" by (rule dsum_div) (fact assms)+
  then show ?thesis using assms(1) [of m] by (simp add: n dsum_Suc)
qed

text \<open>Masking with the same \<open>j\<close> low bits in each of \<open>n\<close> digits.\<close>

lemma and_dsum_mask:
  assumes M: "M = 2 ^ j - 1" and "j \<le> k"
  shows "(v AND dsum (2 ^ k) n (\<lambda>_. M)) = dsum (2 ^ k) n (\<lambda>i. v div (2 ^ k) ^ i mod 2 ^ j)"
proof (induction n arbitrary: v)
  case 0
  then show ?case by simp
next
  case (Suc n)
  let ?B = "2 ^ k :: nat"
  have "M < 2 ^ j" by (simp add: M)
  also have "2 ^ j \<le> ?B" using assms by simp
  finally have "(v mod ?B + ?B * (v div ?B)) AND (M + ?B * dsum ?B n (\<lambda>_. M)) =
      (v mod ?B AND M) + ?B * (v div ?B AND dsum ?B n (\<lambda>_. M))"
    by (intro and_digit) simp_all
  moreover have "(v mod ?B AND M) = v mod 2 ^ j"
    using assms by (simp only: nat_and_mask) (simp add: mod_mod_cancel le_imp_power_dvd)
  ultimately show ?case by (simp add: dsum_Suc Suc.IH div_mult2_eq)
qed

subsection \<open>The counting routines\<close>

definition field2 :: "nat \<Rightarrow> nat \<Rightarrow> nat" where
  "field2 v i = v div 4 ^ i mod 4"

lemma field2_less [simp]: "field2 v i < 4"
  by (simp add: field2_def)

lemma field2_zero: "v < 4 ^ n \<Longrightarrow> n \<le> i \<Longrightarrow> field2 v i = 0"
proof -
  assume "v < 4 ^ n" "n \<le> i"
  then have "v < 4 ^ i" by (meson order_less_le_trans power_increasing one_le_numeral)
  then show ?thesis by (simp add: field2_def)
qed

lemma div_16_pow: "v div 16 ^ i = v div 4 ^ (2 * i)" and div_256_pow: "v div 256 ^ i = v div 16 ^ (2 * i)"
  for v :: nat
  by (simp_all add: power_mult)

lemma unat_plus_small:
  "unat a + unat b < 2 ^ LENGTH('a) \<Longrightarrow> unat (a + b :: 'a::len word) = unat a + unat b"
  by (simp add: unat_word_ariths)

text \<open>
  The two kinds of steps of the counting routines on a word of \<open>n\<close> digits: adding two masked
  copies, and folding a copy shifted by whole digits. Neither overflows a digit.
\<close>

lemma mask_step:
  fixes v :: "'a::len word"
  assumes M: "unat M = dsum (2 ^ k) n (\<lambda>_. 2 ^ j - 1)" and "j < k" and n: "(2 ^ k) ^ n = (2::nat) ^ LENGTH('a)"
  shows "unat ((v AND M) + (drop_bit s v AND M)) =
    dsum (2 ^ k) n (\<lambda>i. unat v div (2 ^ k) ^ i mod 2 ^ j + unat v div 2 ^ s div (2 ^ k) ^ i mod 2 ^ j)"
    (is "_ = dsum _ _ ?f")
proof -
  have "?f i < 2 ^ k" for i
  proof -
    have "x mod 2 ^ j + y mod 2 ^ j < 2 ^ Suc j" for x y :: nat
      using add_strict_mono [OF mod_less_divisor mod_less_divisor, of "2 ^ j" "2 ^ j" x y] by simp
    also have "(2::nat) ^ Suc j \<le> 2 ^ k" using assms by (intro power_increasing) auto
    finally show ?thesis .
  qed
  then have "dsum (2 ^ k) n ?f < (2 ^ k) ^ n" by (intro dsum_less)
  moreover have "unat (v AND M) + unat (drop_bit s v AND M) = dsum (2 ^ k) n ?f"
    using assms(2) by (simp only: unsigned_and_eq M unat_drop_bit and_dsum_mask [OF refl less_imp_le] dsum_add)
  ultimately show ?thesis using n by (simp add: unat_plus_small)
qed

lemma fold_step:
  fixes v :: "'a::len word"
  assumes v: "unat v = dsum B n f" and c: "\<And>i. f i \<le> c" and z: "\<And>i. n \<le> i \<Longrightarrow> f i = 0"
    and B: "2 * c < B" "B ^ m = 2 ^ s" and n: "B ^ n = 2 ^ LENGTH('a)"
  shows "unat (v + drop_bit s v) = dsum B n (\<lambda>i. f i + f (i + m))"
proof -
  have "f i < B" for i using c [of i] B(1) by linarith
  then have "dsum B n f div B ^ m = dsum B n (\<lambda>i. f (i + m))" using z by (rule dsum_div)
  then have sum: "unat v + unat (drop_bit s v) = dsum B n (\<lambda>i. f i + f (i + m))"
    by (simp add: unat_drop_bit v B(2) [symmetric] dsum_add)
  also have "\<dots> < B ^ n"
  proof (rule dsum_less)
    show "f i + f (i + m) < B" for i using c [of i] c [of "i + m"] B(1) by linarith
  qed
  finally show ?thesis using sum by (simp add: n unat_plus_small)
qed

lemma unat_and_0xff: "LENGTH('a) \<ge> 8 \<Longrightarrow> unat (v AND 0xff :: 'a::len word) = unat v mod 256"
proof -
  assume "LENGTH('a) \<ge> 8"
  have "(0xff :: 'a word) = mask 8" by (simp add: mask_eq_exp_minus_1)
  then have "v AND 0xff = take_bit 8 v" by (simp only: take_bit_eq_mask)
  then have "unat (v AND 0xff) = take_bit 8 (unat v)" by (simp only: unsigned_take_bit_eq)
  then show ?thesis by (simp add: take_bit_eq_mod)
qed

lemma mask_values:
  "dsum 16 8 (\<lambda>_. 3) = 0x33333333" "dsum 16 16 (\<lambda>_. 3) = 0x3333333333333333"
  "dsum 16 16 (\<lambda>_. 1) = 0x1111111111111111" "dsum 256 4 (\<lambda>_. 15) = 0xf0f0f0f"
  "dsum 256 8 (\<lambda>_. 15) = 0xf0f0f0f0f0f0f0f"
  by (simp_all add: dsum_def lessThan_nat_numeral)

lemma next_digit:
  fixes x :: nat
  shows "x div 4 div 4 ^ (2 * i) = x div 4 ^ Suc (2 * i)"
    "x div 256 div 16 ^ (2 * i) = x div 16 ^ Suc (Suc (2 * i))"
    "x div 65536 div 16 ^ (2 * i) = x div 16 ^ Suc (Suc (Suc (Suc (2 * i))))"
  by (simp_all add: div_mult2_eq [symmetric])

lemma dsum_mod_base: "0 < n \<Longrightarrow> f 0 < B \<Longrightarrow> dsum B n f mod B = f 0"
  by (cases n) (simp_all add: dsum_Suc)

lemma Count32_sum: "unat (Count32 v) = (\<Sum>i<16. field2 (unat v) i)"
proof -
  define F where "F = field2 (unat v)"
  define G where "G i = F (2 * i) + F (2 * i + 1)" for i
  define H where "H i = G (2 * i) + G (2 * i + 1)" for i
  define K where "K i = H i + H (i + 1)" for i
  have F3: "F i \<le> 3" for i using field2_less [of "unat v" i] unfolding F_def by linarith
  have F0: "F i = 0" if "16 \<le> i" for i
    unfolding F_def by (rule field2_zero [of _ 16]) (use unat_u32 [of v] that in auto)
  have G6: "G i \<le> 6" for i using F3 [of "2 * i"] F3 [of "2 * i + 1"] by (simp add: G_def)
  have G0: "G i = 0" if "8 \<le> i" for i using that by (simp add: G_def F0)
  have H12: "H i \<le> 12" for i using G6 [of "2 * i"] G6 [of "2 * i + 1"] by (simp add: H_def)
  have K24: "K i \<le> 24" for i using H12 [of i] H12 [of "i + 1"] by (simp add: K_def)
  have H0: "H i = 0" if "4 \<le> i" for i using that by (simp add: H_def G0)
  define v1 where "v1 = (v AND 0x33333333) + (drop_bit 2 v AND 0x33333333)"
  define v2 where "v2 = v1 + drop_bit 4 v1"
  define v3 where "v3 = (v2 AND 0xf0f0f0f) + (drop_bit 8 v2 AND 0xf0f0f0f)"
  define v4 where "v4 = v3 + drop_bit 16 v3"
  have "unat v1 = dsum 16 8 G"
    unfolding v1_def G_def F_def using mask_step [of "0x33333333 :: u32" 4 8 2 v 2]
    by (simp add: mask_values field2_def div_16_pow div_mult2_eq)
  then have "unat v2 = dsum 16 8 (\<lambda>i. G i + G (i + 1))"
    unfolding v2_def by (rule fold_step [where c = 6]) (simp_all add: G6 G0)
  then have d2: "unat v2 div 16 ^ i mod 16 = G i + G (i + 1)" for i
  proof -
    have "G i + G (i + 1) < 16" for i using G6 [of i] G6 [of "i + 1"] by linarith
    then show ?thesis using G0 by (simp only: \<open>unat v2 = _\<close>) (rule dsum_digit, auto)
  qed
  have "unat v3 = dsum 256 4 K"
    unfolding v3_def K_def H_def using mask_step [of "0xf0f0f0f :: u32" 8 4 4 v2 8]
    by (simp add: mask_values div_256_pow next_digit d2 del: power_Suc)
  then have "unat v4 = dsum 256 4 (\<lambda>i. K i + K (i + 2))"
    unfolding v4_def by (rule fold_step [where c = 24 and m = 2]) (use K24 H0 in \<open>auto simp: K_def\<close>)
  then have "unat v4 mod 256 = K 0 + K 2"
    using dsum_mod_base [of 4 "\<lambda>i. K i + K (i + 2)" 256] K24 [of 0] K24 [of 2]
    by (simp add: numeral_2_eq_2)
  moreover have "unat (Count32 v) = unat v4 mod 256"
    by (simp add: Count32_def Let_def v1_def v2_def v3_def v4_def unat_and_0xff)
  ultimately show ?thesis
    by (simp add: F_def [symmetric] G_def H_def K_def lessThan_nat_numeral)
qed

lemma Count64_sum: "unat (Count64 v) = (\<Sum>i<32. field2 (unat v) i)"
proof -
  define F where "F = field2 (unat v)"
  define G where "G i = F (2 * i) + F (2 * i + 1)" for i
  define H where "H i = G (2 * i) + G (2 * i + 1)" for i
  define K where "K i = H i + H (i + 1)" for i
  define L where "L i = K i + K (i + 2)" for i
  have F3: "F i \<le> 3" for i using field2_less [of "unat v" i] unfolding F_def by linarith
  have F0: "F i = 0" if "32 \<le> i" for i
    unfolding F_def by (rule field2_zero [of _ 32]) (use unat_u64 [of v] that in auto)
  have G6: "G i \<le> 6" for i using F3 [of "2 * i"] F3 [of "2 * i + 1"] by (simp add: G_def)
  have G0: "G i = 0" if "16 \<le> i" for i using that by (simp add: G_def F0)
  have H12: "H i \<le> 12" for i using G6 [of "2 * i"] G6 [of "2 * i + 1"] by (simp add: H_def)
  have K24: "K i \<le> 24" for i using H12 [of i] H12 [of "i + 1"] by (simp add: K_def)
  have L48: "L i \<le> 48" for i using K24 [of i] K24 [of "i + 2"] by (simp add: L_def)
  have H0: "H i = 0" if "8 \<le> i" for i using that by (simp add: H_def G0)
  define v1 where "v1 = (v AND 0x3333333333333333) + (drop_bit 2 v AND 0x3333333333333333)"
  define v2 where "v2 = v1 + drop_bit 4 v1"
  define v3 where "v3 = (v2 AND 0xf0f0f0f0f0f0f0f) + (drop_bit 8 v2 AND 0xf0f0f0f0f0f0f0f)"
  define v4 where "v4 = v3 + drop_bit 16 v3"
  define v5 where "v5 = v4 + drop_bit 32 v4"
  have "unat v1 = dsum 16 16 G"
    unfolding v1_def G_def F_def using mask_step [of "0x3333333333333333 :: u64" 4 16 2 v 2]
    by (simp add: mask_values field2_def div_16_pow div_mult2_eq)
  then have v2: "unat v2 = dsum 16 16 (\<lambda>i. G i + G (i + 1))"
    unfolding v2_def by (rule fold_step [where c = 6]) (simp_all add: G6 G0)
  have d2: "unat v2 div 16 ^ i mod 16 = G i + G (i + 1)" for i
  proof -
    have "G i + G (i + 1) < 16" for i using G6 [of i] G6 [of "i + 1"] by linarith
    then show ?thesis using G0 by (simp only: v2) (rule dsum_digit, auto)
  qed
  have "unat v3 = dsum 256 8 K"
    unfolding v3_def K_def H_def using mask_step [of "0xf0f0f0f0f0f0f0f :: u64" 8 8 4 v2 8]
    by (simp add: mask_values div_256_pow next_digit d2 del: power_Suc)
  then have "unat v4 = dsum 256 8 L"
    unfolding v4_def L_def by (rule fold_step [where c = 24 and m = 2]) (use K24 H0 in \<open>auto simp: K_def\<close>)
  then have "unat v5 = dsum 256 8 (\<lambda>i. L i + L (i + 4))"
    unfolding v5_def by (rule fold_step [where c = 48 and m = 4]) (use L48 H0 in \<open>auto simp: K_def L_def\<close>)
  then have "unat v5 mod 256 = L 0 + L 4"
    using dsum_mod_base [of 8 "\<lambda>i. L i + L (i + 4)" 256] L48 [of 0] L48 [of 4] by simp
  moreover have "unat (Count64 v) = unat v5 mod 256"
    by (simp add: Count64_def Let_def v1_def v2_def v3_def v4_def v5_def unat_and_0xff unat_bridge)
  ultimately show ?thesis
    by (simp add: F_def [symmetric] G_def H_def K_def L_def lessThan_nat_numeral)
qed

text \<open>A two-bit field is \<open>11\<close> where the word and the word shifted by one both have its low bit.\<close>

lemma field2_bits:
  "field2 (unat v) i = of_bool (bit v (2 * i)) + 2 * of_bool (bit v (2 * i + 1))"
proof -
  have "x mod 4 = of_bool (odd x) + 2 * of_bool (odd (x div 2))" for x :: nat
    using mod_mult2_eq [of x 2 2] by (simp add: mod_2_eq_odd)
  moreover have "unat v div 2 ^ (2 * i + 1) = unat v div 4 ^ i div 2"
    by (simp only: power_add power_mult div_mult2_eq) simp
  moreover have "bit v k \<longleftrightarrow> odd (unat v div 2 ^ k)" for k
    by (metis bit_nat_def bit_unsigned_iff bit_imp_le_length le_eq_less_or_eq possible_bit_nat)
  ultimately show ?thesis
    by (simp add: field2_def power_mult del: power_Suc power_add power_even_eq)
qed

lemma and_shift_low_bit:
  "unat (v AND drop_bit 1 v :: u64) div 4 ^ i mod 2 = of_bool (field2 (unat v) i = 3)"
proof -
  have "unat w div 4 ^ i mod 2 = of_bool (bit w (2 * i))" for w :: u64
    using field2_bits [of w i] mod_mod_cancel [of 2 4 "unat w div 4 ^ i"] by (simp add: field2_def)
  then show ?thesis by (simp add: field2_bits bit_and_iff bit_drop_bit_eq)
qed

lemma CountValidSlot_sum:
  "unat (CountValidSlot v) = 32 - (\<Sum>i<32. of_bool (field2 (unat v) i = 3))"
proof -
  define w where "w = v AND drop_bit 1 v"
  define C where "C i = (of_bool (field2 (unat v) i = 3) :: nat)" for i
  define G where "G i = C (2 * i) + C (2 * i + 1)" for i
  define E where "E i = G i + G (i + 1)" for i
  define P where "P i = E i + E (i + 2)" for i
  define Q where "Q i = P (2 * i) + P (2 * (i + 2))" for i
  have C0: "C i = 0" if "32 \<le> i" for i
    unfolding C_def using field2_zero [of "unat v" 32 i] unat_u64 [of v] that by simp
  have C1: "C i \<le> 1" for i by (simp add: C_def)
  have G2: "G i \<le> 2" for i using C1 [of "2 * i"] C1 [of "2 * i + 1"] by (simp add: G_def)
  have G0: "G i = 0" if "16 \<le> i" for i using that by (simp add: G_def C0)
  have E4: "E i \<le> 4" for i using G2 [of i] G2 [of "i + 1"] by (simp add: E_def)
  have P8: "P i \<le> 8" for i using E4 [of i] E4 [of "i + 2"] by (simp add: P_def)
  have Q16: "Q i \<le> 16" for i using P8 [of "2 * i"] P8 [of "2 * (i + 2)"] by (simp add: Q_def)
  define v1 where "v1 = (w AND 0x1111111111111111) + (drop_bit 2 w AND 0x1111111111111111)"
  define v2 where "v2 = v1 + drop_bit 4 v1"
  define v3 where "v3 = v2 + drop_bit 8 v2"
  define v4 where "v4 = (v3 AND 0xf0f0f0f0f0f0f0f) + (drop_bit 16 v3 AND 0xf0f0f0f0f0f0f0f)"
  define v5 where "v5 = v4 + drop_bit 32 v4"
  have wC: "unat w div 4 ^ i mod 2 = C i" for i
    unfolding w_def C_def by (rule and_shift_low_bit)
  have "unat v1 = dsum 16 16 G"
    unfolding v1_def G_def using mask_step [of "0x1111111111111111 :: u64" 4 16 1 w 2]
    by (simp add: mask_values [unfolded One_nat_def] div_16_pow next_digit wC del: power_Suc)
  then have "unat v2 = dsum 16 16 E"
    unfolding v2_def E_def by (rule fold_step [where c = 2]) (simp_all add: G2 G0)
  then have v3: "unat v3 = dsum 16 16 P"
    unfolding v3_def P_def by (rule fold_step [where c = 4 and m = 2]) (use E4 G0 in \<open>auto simp: E_def\<close>)
  have d3: "unat v3 div 16 ^ i mod 16 = P i" for i
    unfolding v3 by (rule dsum_digit) (use G0 P8 in \<open>auto simp: P_def E_def intro: le_less_trans [of _ 8]\<close>)
  have "unat v4 = dsum 256 8 Q"
    unfolding v4_def Q_def using mask_step [of "0xf0f0f0f0f0f0f0f :: u64" 8 8 4 v3 16]
    by (simp add: mask_values div_256_pow next_digit d3 del: power_Suc)
  then have "unat v5 = dsum 256 8 (\<lambda>i. Q i + Q (i + 4))"
    unfolding v5_def by (rule fold_step [where c = 16 and m = 4]) (use Q16 G0 in \<open>auto simp: Q_def P_def E_def\<close>)
  then have "unat v5 mod 256 = Q 0 + Q 4"
    using dsum_mod_base [of 8 "\<lambda>i. Q i + Q (i + 4)" 256] Q16 [of 0] Q16 [of 4] by simp
  moreover have "CountValidSlot v = 32 - ucast (v5 AND 0xff)"
    by (simp add: CountValidSlot_def Let_def w_def v1_def v2_def v3_def v4_def v5_def)
  moreover have "unat (32 - x :: u32) = 32 - unat x" if "unat x \<le> 32" for x
    using that by (simp add: unat_sub word_le_nat_alt)
  ultimately show ?thesis
    using Q16 [of 0] Q16 [of 4]
    by (simp add: unat_and_0xff unat_bridge C_def [symmetric] G_def E_def P_def Q_def lessThan_nat_numeral)
qed

text \<open>The variants with the popcount instruction count the same fields.\<close>

lemma sum_even_odd: "(\<Sum>k<2 * n. g k) = (\<Sum>i<n. g (2 * i) + g (2 * i + 1 :: nat))" for g :: "nat \<Rightarrow> nat"
  by (induction n) simp_all

lemma popcount_sum: "popcount (v :: 'a::len word) = of_nat (\<Sum>i<LENGTH('a). of_bool (bit v i))"
  by (simp add: popcount_def interv_sum_list_conv_sum_set_nat atLeast0LessThan)

lemma alternating_bits:
  "i < 16 \<Longrightarrow> \<not> bit (0xaaaaaaaa :: u32) (2 * i) \<and> bit (0xaaaaaaaa :: u32) (2 * i + 1)"
  "i < 32 \<Longrightarrow> \<not> bit (0xaaaaaaaaaaaaaaaa :: u64) (2 * i) \<and> bit (0xaaaaaaaaaaaaaaaa :: u64) (2 * i + 1)"
  "i < 32 \<Longrightarrow> bit (0x5555555555555555 :: u64) (2 * i) \<and> \<not> bit (0x5555555555555555 :: u64) (2 * i + 1)"
proof -
  have "list_all (\<lambda>i. \<not> bit (0xaaaaaaaa :: u32) (2 * i) \<and> bit (0xaaaaaaaa :: u32) (2 * i + 1)) [0..<16]"
    by code_simp
  then show "i < 16 \<Longrightarrow> \<not> bit (0xaaaaaaaa :: u32) (2 * i) \<and> bit (0xaaaaaaaa :: u32) (2 * i + 1)"
    by (simp only: list_all_iff set_upt) (meson atLeastLessThan_iff le0)
  have "list_all (\<lambda>i. \<not> bit (0xaaaaaaaaaaaaaaaa :: u64) (2 * i) \<and> bit (0xaaaaaaaaaaaaaaaa :: u64) (2 * i + 1)) [0..<32]"
    by code_simp
  then show "i < 32 \<Longrightarrow> \<not> bit (0xaaaaaaaaaaaaaaaa :: u64) (2 * i) \<and> bit (0xaaaaaaaaaaaaaaaa :: u64) (2 * i + 1)"
    by (simp only: list_all_iff set_upt) (meson atLeastLessThan_iff le0)
  have "list_all (\<lambda>i. bit (0x5555555555555555 :: u64) (2 * i) \<and> \<not> bit (0x5555555555555555 :: u64) (2 * i + 1)) [0..<32]"
    by code_simp
  then show "i < 32 \<Longrightarrow> bit (0x5555555555555555 :: u64) (2 * i) \<and> \<not> bit (0x5555555555555555 :: u64) (2 * i + 1)"
    by (simp only: list_all_iff set_upt) (meson atLeastLessThan_iff le0)
qed

lemma popcount_pairs:
  assumes "LENGTH('a) = 2 * n"
  shows "popcount (v :: 'a::len word) = of_nat (\<Sum>i<n. of_bool (bit v (2 * i)) + of_bool (bit v (2 * i + 1)))"
  by (simp only: popcount_sum assms sum_even_odd)

lemma popcount32: "popcount v = of_nat (\<Sum>i<16. of_bool (bit v (2 * i)) + of_bool (bit v (2 * i + 1)))"
  for v :: u32
  by (rule popcount_pairs) simp

lemma popcount64: "popcount v = of_nat (\<Sum>i<32. of_bool (bit v (2 * i)) + of_bool (bit v (2 * i + 1)))"
  for v :: u64
  by (rule popcount_pairs) simp

lemma Count32_popcnt_sum: "Count32_popcnt v = of_nat (\<Sum>i<16. field2 (unat v) i)"
proof -
  have "(\<Sum>i<16. of_bool (bit (v AND 0xaaaaaaaa) (2 * i)) + of_bool (bit (v AND 0xaaaaaaaa) (2 * i + 1))) +
      (\<Sum>i<16. of_bool (bit v (2 * i)) + of_bool (bit v (2 * i + 1))) = (\<Sum>i<16. field2 (unat v) i)"
    unfolding sum.distrib [symmetric]
    by (rule sum.cong) (use alternating_bits(1) in \<open>auto simp: field2_bits bit_and_iff\<close>)
  then show ?thesis
    by (simp only: Count32_popcnt_def popcount32 of_nat_add [symmetric])
qed

lemma Count64_popcnt_sum: "Count64_popcnt v = of_nat (\<Sum>i<32. field2 (unat v) i)"
proof -
  have "(\<Sum>i<32. of_bool (bit (v AND 0xaaaaaaaaaaaaaaaa) (2 * i)) + of_bool (bit (v AND 0xaaaaaaaaaaaaaaaa) (2 * i + 1))) +
      (\<Sum>i<32. of_bool (bit v (2 * i)) + of_bool (bit v (2 * i + 1))) = (\<Sum>i<32. field2 (unat v) i)"
    unfolding sum.distrib [symmetric]
    by (rule sum.cong) (use alternating_bits(2) in \<open>auto simp: field2_bits bit_and_iff\<close>)
  then show ?thesis
    by (simp only: Count64_popcnt_def popcount64 of_nat_add [symmetric])
qed

lemma CountValidSlot_popcnt_sum:
  "CountValidSlot_popcnt v = 32 - of_nat (\<Sum>i<32. of_bool (field2 (unat v) i = 3))"
proof -
  let ?w = "(v AND 0x5555555555555555) AND drop_bit 1 v"
  have "(\<Sum>i<32. of_bool (bit ?w (2 * i)) + of_bool (bit ?w (2 * i + 1))) =
      (\<Sum>i<32. of_bool (field2 (unat v) i = 3) :: nat)"
    by (rule sum.cong) (use alternating_bits(3) in \<open>auto simp: field2_bits bit_and_iff bit_drop_bit_eq\<close>)
  then show ?thesis
    by (simp only: CountValidSlot_popcnt_def Let_def popcount64)
qed

lemma CountValidSlot_card: "unat (CountValidSlot v) = card {i. i < 32 \<and> field2 (unat v) i \<noteq> 3}"
proof -
  let ?A = "{i. i < 32 \<and> field2 (unat v) i = 3}" and ?B = "{i. i < 32 \<and> field2 (unat v) i \<noteq> 3}"
  have "(\<Sum>i<32. of_bool (field2 (unat v) i = 3)) = card ?A"
    by (simp add: lessThan_def Int_def)
  moreover have "card ?A + card ?B = card {..<32 :: nat}"
  proof -
    have "{..<32} = ?A \<union> ?B" by auto
    then show ?thesis by (simp only:) (rule card_Un_disjoint [symmetric], auto)
  qed
  ultimately show ?thesis unfolding CountValidSlot_sum by simp
qed

lemma CountValidSlot_popcnt_eq: "CountValidSlot_popcnt v = CountValidSlot v"
proof -
  let ?s = "(\<Sum>i<32. of_bool (field2 (unat v) i = 3)) :: nat"
  have "?s = card ({..<32} \<inter> {i. field2 (unat v) i = 3})" by simp
  then have le: "?s \<le> 32" using card_mono [of "{..<32 :: nat}"] by (metis Int_lower1 card_lessThan finite_lessThan)
  have "unat (32 - of_nat ?s :: u32) = 32 - ?s"
    using le by (simp add: unat_sub word_le_nat_alt unat_of_nat)
  then have "unat (CountValidSlot_popcnt v) = unat (CountValidSlot v)"
    by (simp only: CountValidSlot_popcnt_sum CountValidSlot_sum)
  then show ?thesis by (rule word_eq_unatI)
qed

text \<open>
  \<open>Count32\<close> and \<open>Count64\<close> return the sum of the 16, or 32, two-bit fields of their
  argument, for every argument and without overflow between the digits; the portable code and the
  code for the popcount instruction agree.
\<close>

theorem count_widths:
  "unat (Count32 v) = (\<Sum>i<16. field2 (unat v) i) \<and> Count32_popcnt v = Count32 v \<and>
   unat (Count64 w) = (\<Sum>i<32. field2 (unat w) i) \<and> Count64_popcnt w = Count64 w"
  by (simp only: Count32_sum [symmetric] Count64_sum [symmetric] Count32_popcnt_sum
      Count64_popcnt_sum) simp

text \<open>
  \<open>CountValidSlot\<close> returns the number of two-bit fields of an index block that are not
  \<open>11\<close>, in both of its variants.
\<close>

theorem count_valid_slot:
  "unat (CountValidSlot v) = card {i. i < 32 \<and> field2 (unat v) i \<noteq> 3} \<and>
   CountValidSlot_popcnt v = CountValidSlot v"
  by (simp only: CountValidSlot_card CountValidSlot_popcnt_eq simp_thms)

end
