(* ===== verification/Buffer.thy ===== *)
theory Buffer
  imports Prelude
begin

text \<open>
  The \<open>Buffer\<close> class of include/protocache/utils.h and src/utils.cc: an array of words that grows
  towards lower addresses, so that a message is serialized from its last part to its first. The
  abstract value of a buffer is its \<open>View\<close>, the words from the head to the end.

  Sizes are \<open>size_t\<close> in the source and natural numbers here: a buffer of \<open>2 ^ 63\<close> words does not
  exist. The contents of a fresh allocation are indeterminate; they are the ghost field
  \<open>b_fresh\<close>, about which nothing is assumed.
\<close>

subsection \<open>Model\<close>

record Buffer =
  b_data :: "u32 list option"   \<comment> \<open>\<open>None\<close> is the null pointer\<close>
  b_size :: nat
  b_off :: nat
  b_fresh :: "nat \<Rightarrow> u32"

definition empty_buffer :: "(nat \<Rightarrow> u32) \<Rightarrow> Buffer" where
  "empty_buffer fr = \<lparr>b_data = None, b_size = 0, b_off = 0, b_fresh = fr\<rparr>"

definition cells :: "Buffer \<Rightarrow> u32 list" where
  "cells b = (case b_data b of None \<Rightarrow> [] | Some xs \<Rightarrow> xs)"

definition new_words :: "Buffer \<Rightarrow> nat \<Rightarrow> u32 list" where
  "new_words b n = map (b_fresh b) [0..<n]"

definition Size :: "Buffer \<Rightarrow> nat" where
  "Size b = b_size b - b_off b"

definition View :: "Buffer \<Rightarrow> u32 list" where
  "View b = take (Size b) (drop (b_off b) (cells b))"

text \<open>\<open>At\<close> and \<open>Head\<close> are pointers into the array: here, indices into \<open>cells\<close>.\<close>

definition At :: "Buffer \<Rightarrow> nat \<Rightarrow> nat" where
  "At b sz = b_size b - sz"

definition Head :: "Buffer \<Rightarrow> nat" where
  "Head b = b_off b"

definition Clear :: "Buffer \<Rightarrow> Buffer" where
  "Clear b = b\<lparr>b_off := b_size b\<rparr>"

text \<open>Stores through a pointer into the array.\<close>

definition store :: "nat \<Rightarrow> u32 list \<Rightarrow> Buffer \<Rightarrow> Buffer option" where
  "store p ws b = do {
     xs \<leftarrow> wr_range (cells b) p ws;
     Some (if ws = [] then b else b\<lparr>b_data := Some xs\<rparr>)
   }"

definition DoExpand :: "nat \<Rightarrow> Buffer \<Rightarrow> Buffer" where
  "DoExpand delta b =
    (case b_data b of
       None \<Rightarrow>
         let sz = max delta 8
         in b\<lparr>b_size := sz, b_data := Some (new_words b sz), b_off := sz - delta\<rparr>
     | Some xs \<Rightarrow>
         let sz = (if b_size b \<ge> 256 * 1024 then b_size b * 3 div 2 else b_size b * 2);
             sz = max sz (b_size b + delta);
             off = sz - Size b;
             data = take off (new_words b sz) @ take (Size b) (drop (b_off b) xs)
         in b\<lparr>b_data := Some data, b_size := sz, b_off := off - delta\<rparr>)"

definition DoReserve :: "nat \<Rightarrow> Buffer \<Rightarrow> Buffer" where
  "DoReserve sz b =
    (let off = sz - Size b;
         data = take off (new_words b sz) @ take (Size b) (drop (b_off b) (cells b))
     in b\<lparr>b_data := Some data, b_size := sz, b_off := off\<rparr>)"

definition Expand :: "nat \<Rightarrow> Buffer \<Rightarrow> Buffer" where
  "Expand delta b = (if b_off b \<ge> delta then b\<lparr>b_off := b_off b - delta\<rparr> else DoExpand delta b)"

definition Put :: "u32 \<Rightarrow> Buffer \<Rightarrow> Buffer option" where
  "Put v b = (let b = Expand 1 b in store (Head b) [v] b)"

definition Put_slice :: "u32 list \<Rightarrow> Buffer \<Rightarrow> Buffer option" where
  "Put_slice data b = (let b = Expand (length data) b in store (Head b) data b)"

definition Shrink :: "nat \<Rightarrow> Buffer \<Rightarrow> Buffer" where
  "Shrink delta b = b\<lparr>b_off := b_off b + delta\<rparr>"

definition Reserve :: "nat \<Rightarrow> Buffer \<Rightarrow> Buffer" where
  "Reserve sz b = (if sz > b_size b then DoReserve sz b else b)"

text \<open>The move constructor: the new buffer, and the one that was moved from.\<close>

definition Move :: "Buffer \<Rightarrow> Buffer \<times> Buffer" where
  "Move other = (other, other\<lparr>b_data := None, b_size := 0, b_off := 0\<rparr>)"

subsection \<open>Invariant and views\<close>

definition buf_ok :: "Buffer \<Rightarrow> bool" where
  "buf_ok b \<longleftrightarrow> length (cells b) = b_size b \<and> b_off b \<le> b_size b"

lemma buf_ok_empty [simp]: "buf_ok (empty_buffer fr)"
  by (simp add: buf_ok_def empty_buffer_def cells_def)

lemma View_empty [simp]: "View (empty_buffer fr) = []"
  by (simp add: View_def empty_buffer_def cells_def)

lemma View_eq: "buf_ok b \<Longrightarrow> View b = drop (b_off b) (cells b)"
  by (simp add: View_def buf_ok_def Size_def)

lemma length_View [simp]: "buf_ok b \<Longrightarrow> length (View b) = Size b"
  by (simp add: View_eq buf_ok_def Size_def)

lemma length_new_words [simp]: "length (new_words b n) = n"
  by (simp add: new_words_def)

text \<open>Moving the contents to the end of a bigger array, as \<open>DoExpand\<close> and \<open>DoReserve\<close> do.\<close>

lemma relocate_spec:
  assumes "buf_ok b" and "b_size b + delta \<le> sz"
    and b': "b' = b\<lparr>b_data := Some (take (sz - Size b) (new_words b sz) @ View b), b_size := sz,
      b_off := sz - Size b - delta\<rparr>"
  shows "buf_ok b' \<and> (\<exists>ws. length ws = delta \<and> View b' = ws @ View b)"
proof -
  let ?off = "sz - Size b" and ?fresh = "take (sz - Size b) (new_words b sz)"
  have le: "Size b \<le> b_size b" by (simp add: Size_def)
  have cells: "cells b' = ?fresh @ View b" and len: "length ?fresh = ?off" by (simp_all add: b' cells_def)
  have off: "b_off b' = ?off - delta" "b_size b' = sz" by (simp_all add: b')
  have ok: "buf_ok b'"
    using assms(1,2) le len by (simp add: buf_ok_def cells off)
  moreover have "View b' = drop (?off - delta) ?fresh @ View b"
    using ok len le by (simp add: View_eq cells off)
  moreover have "length (drop (?off - delta) ?fresh) = delta"
    using assms(2) le len by simp
  ultimately show ?thesis by blast
qed

lemma DoExpand_spec:
  assumes "buf_ok b"
  shows "buf_ok (DoExpand delta b) \<and> (\<exists>ws. length ws = delta \<and> View (DoExpand delta b) = ws @ View b)"
proof (cases "b_data b")
  case None
  then have 0: "b_size b = 0" "b_off b = 0" using assms by (auto simp: buf_ok_def cells_def)
  let ?ws = "drop (max delta 8 - delta) (new_words b (max delta 8))"
  have "buf_ok (DoExpand delta b)" using None by (simp add: DoExpand_def Let_def buf_ok_def cells_def)
  moreover from this have "View (DoExpand delta b) = ?ws @ View b"
    using None 0 by (simp add: View_eq) (simp add: DoExpand_def Let_def cells_def View_def Size_def)
  moreover have "length ?ws = delta" by simp
  ultimately show ?thesis by blast
next
  case (Some xs)
  define sz where "sz = max (if b_size b \<ge> 256 * 1024 then b_size b * 3 div 2 else b_size b * 2)
    (b_size b + delta)"
  have "b_size b + delta \<le> sz" by (simp add: sz_def)
  with assms show ?thesis
    by (rule relocate_spec) (simp add: Some DoExpand_def Let_def sz_def View_def cells_def)
qed

lemma Expand_spec:
  assumes "buf_ok b"
  shows "buf_ok (Expand delta b) \<and> (\<exists>ws. length ws = delta \<and> View (Expand delta b) = ws @ View b)"
proof (cases "b_off b \<ge> delta")
  case True
  let ?b = "b\<lparr>b_off := b_off b - delta\<rparr>" and ?ws = "take delta (drop (b_off b - delta) (cells b))"
  have cells: "cells ?b = cells b" by (simp add: cells_def)
  have ok: "buf_ok ?b" using assms by (auto simp: buf_ok_def cells)
  have "drop (b_off b - delta) (cells b) = ?ws @ drop (b_off b) (cells b)"
    using True by (metis append_take_drop_id drop_drop le_add_diff_inverse)
  then have "View ?b = ?ws @ View b" using assms ok by (simp add: View_eq cells)
  moreover have "length ?ws = delta" using True assms by (auto simp: buf_ok_def)
  ultimately show ?thesis using ok True unfolding Expand_def by auto
next
  case False
  then show ?thesis using DoExpand_spec [OF assms] by (simp add: Expand_def)
qed

lemma Reserve_spec:
  assumes "buf_ok b"
  shows "buf_ok (Reserve sz b) \<and> View (Reserve sz b) = View b"
proof (cases "sz > b_size b")
  case True
  have "buf_ok (DoReserve sz b) \<and> (\<exists>ws. length ws = 0 \<and> View (DoReserve sz b) = ws @ View b)"
    using assms True by (intro relocate_spec [of b 0 sz]) (auto simp: DoReserve_def Let_def View_def)
  then show ?thesis using True by (auto simp: Reserve_def)
next
  case False
  then show ?thesis using assms by (simp add: Reserve_def)
qed

lemma Shrink_spec:
  assumes "buf_ok b" and "delta \<le> Size b"
  shows "buf_ok (Shrink delta b) \<and> View (Shrink delta b) = drop delta (View b)"
proof -
  have "cells (Shrink delta b) = cells b" by (simp add: Shrink_def cells_def)
  moreover have "buf_ok (Shrink delta b)"
    using assms by (auto simp: buf_ok_def Shrink_def cells_def Size_def)
  ultimately show ?thesis using assms by (simp add: View_eq) (simp add: Shrink_def add.commute)
qed

lemma Clear_spec: "buf_ok b \<Longrightarrow> buf_ok (Clear b) \<and> View (Clear b) = []"
  by (simp add: buf_ok_def Clear_def cells_def View_def Size_def)

text \<open>A store of words inside the view replaces them.\<close>

lemma store_spec:
  assumes "buf_ok b" and "View b = xs @ old @ ys" and "length ws = length old"
  shows "\<exists>b'. store (Head b + length xs) ws b = Some b' \<and> buf_ok b' \<and> View b' = xs @ ws @ ys \<and>
    b_off b' = b_off b \<and> b_size b' = b_size b"
proof (cases "ws = []")
  case True
  then show ?thesis
    using assms length_View [OF assms(1)] by (auto simp: store_def Head_def buf_ok_def Size_def)
next
  case False
  have V: "drop (b_off b) (cells b) = xs @ old @ ys" using assms by (simp add: View_eq)
  then have le: "b_off b + length xs + length ws \<le> length (cells b)"
  proof -
    have "length (cells b) - b_off b = length xs + (length old + length ys)"
      using arg_cong [OF V, of length] by simp
    moreover have "0 < length old" using False assms(3) by (metis length_greater_0_conv)
    ultimately show ?thesis using assms(3) by linarith
  qed
  let ?ys = "take (b_off b + length xs) (cells b) @ ws @ drop (b_off b + length xs + length ws) (cells b)"
  let ?b = "b\<lparr>b_data := Some ?ys\<rparr>"
  have "store (Head b + length xs) ws b = Some ?b"
    using le False by (simp add: store_def Head_def)
  moreover have ok: "buf_ok ?b" using assms(1) le by (simp add: buf_ok_def cells_def)
  moreover have "View ?b = xs @ ws @ ys"
  proof -
    have "take (length xs) (drop (b_off b) (cells b)) = xs" using V by simp
    moreover have "drop (b_off b + length xs + length ws) (cells b) = ys"
      using V assms(3) by (metis (no_types, lifting) append_assoc append_eq_conv_conj drop_drop add.commute length_append)
    ultimately show ?thesis
      using ok le by (simp add: View_eq cells_def drop_take)
  qed
  ultimately show ?thesis by auto
qed

subsection \<open>The contract of the buffer\<close>

text \<open>
  What the serializers rely on: a stack of words, addressed from its end. \<open>push\<close> is an expansion
  followed by a store at the head, \<open>view\<close> the abstract value.
\<close>

locale word_stack =
  fixes view :: "'b \<Rightarrow> u32 list"
    and ok :: "'b \<Rightarrow> bool"
    and push :: "u32 list \<Rightarrow> 'b \<Rightarrow> 'b option"
    and pop :: "nat \<Rightarrow> 'b \<Rightarrow> 'b"
  assumes push: "ok b \<Longrightarrow> \<exists>b'. push ws b = Some b' \<and> ok b' \<and> view b' = ws @ view b"
    and pop: "ok b \<Longrightarrow> n \<le> length (view b) \<Longrightarrow> ok (pop n b) \<and> view (pop n b) = drop n (view b)"
begin

text \<open>The words that are \<open>n\<close> places or less from the end: what a position \<open>n\<close> refers to.\<close>

definition suffix_at :: "nat \<Rightarrow> 'b \<Rightarrow> u32 list" where
  "suffix_at n b = drop (length (view b) - n) (view b)"

fun push_all :: "u32 list list \<Rightarrow> 'b \<Rightarrow> 'b option" where
  "push_all [] b = Some b"
| "push_all (ws # wss) b = do { b \<leftarrow> push ws b; push_all wss b }"

lemma push_all_view:
  "ok b \<Longrightarrow> \<exists>b'. push_all wss b = Some b' \<and> ok b' \<and> view b' = concat (rev wss) @ view b"
proof (induction wss arbitrary: b)
  case Nil
  then show ?case by simp
next
  case (Cons ws wss)
  obtain b1 where b1: "push ws b = Some b1" "ok b1" "view b1 = ws @ view b"
    using push [OF Cons.prems] by blast
  with Cons.IH [OF b1(2)] show ?case by auto
qed

lemma suffix_at_push:
  assumes "ok b" "push ws b = Some b'" "n \<le> length (view b)"
  shows "suffix_at n b' = suffix_at n b"
proof -
  have "view b' = ws @ view b" using push [OF assms(1), of ws] assms(2) by auto
  then show ?thesis using assms(3) by (simp add: suffix_at_def)
qed

lemma suffix_at_push_all:
  assumes "ok b" "push_all wss b = Some b'" "n \<le> length (view b)"
  shows "suffix_at n b' = suffix_at n b"
proof -
  have "view b' = concat (rev wss) @ view b" using push_all_view [OF assms(1), of wss] assms(2) by auto
  then show ?thesis using assms(3) by (simp add: suffix_at_def)
qed

lemma suffix_at_pop:
  assumes "ok b" "k \<le> length (view b)" "n \<le> length (view b) - k"
  shows "suffix_at n (pop k b) = suffix_at n b"
  using pop [OF assms(1,2)] assms(2,3) by (simp add: suffix_at_def add.commute)

lemma pop_push:
  assumes "ok b" "push ws b = Some b'"
  shows "view (pop (length ws) b') = view b"
proof -
  have "ok b'" "view b' = ws @ view b" using push [OF assms(1), of ws] assms(2) by auto
  then show ?thesis using pop [of b' "length ws"] by simp
qed

end

lemma Put_slice_spec:
  assumes "buf_ok b"
  shows "\<exists>b'. Put_slice ws b = Some b' \<and> buf_ok b' \<and> View b' = ws @ View b"
proof -
  obtain old where b1: "buf_ok (Expand (length ws) b)" "length old = length ws"
    "View (Expand (length ws) b) = old @ View b"
    using Expand_spec [OF assms, of "length ws"] by blast
  then have "View (Expand (length ws) b) = [] @ old @ View b" by simp
  from store_spec [OF b1(1) this b1(2) [symmetric]] show ?thesis
    by (simp add: Put_slice_def Let_def) blast
qed

lemma Put_eq_Put_slice: "Put v b = Put_slice [v] b"
  by (simp add: Put_def Put_slice_def)

interpretation buf: word_stack View buf_ok Put_slice Shrink
proof unfold_locales
  show "\<exists>b'. Put_slice ws b = Some b' \<and> buf_ok b' \<and> View b' = ws @ View b" if "buf_ok b" for b ws
    using that by (rule Put_slice_spec)
  show "buf_ok (Shrink n b) \<and> View (Shrink n b) = drop n (View b)"
    if "buf_ok b" "n \<le> length (View b)" for b n
    using that by (intro Shrink_spec) simp_all
qed

text \<open>A sequence of writes, as the serializers make them.\<close>

fun Put_all :: "u32 list list \<Rightarrow> Buffer \<Rightarrow> Buffer option" where
  "Put_all [] b = Some b"
| "Put_all (ws # wss) b = do { b \<leftarrow> Put_slice ws b; Put_all wss b }"

lemma Put_all_eq: "Put_all wss b = buf.push_all wss b"
  by (induction wss arbitrary: b) (auto split: bind_splits)

text \<open>
  Claim C13: whatever the growth path, a buffer that satisfies its invariant never writes outside of
  its array, and its operations act on the view as stack operations: \<open>Put\<close> prepends the words,
  \<open>Shrink\<close> removes from the front, \<open>Reserve\<close> changes nothing that can be seen and \<open>Clear\<close>
  empties it; the invariant is kept.
\<close>

theorem buffer_refines_stack:
  assumes "buf_ok b" and "n \<le> Size b"
  shows "(\<exists>b'. Put v b = Some b' \<and> buf_ok b' \<and> View b' = v # View b) \<and>
    (\<exists>b'. Put_slice ws b = Some b' \<and> buf_ok b' \<and> View b' = ws @ View b) \<and>
    buf_ok (Shrink n b) \<and> View (Shrink n b) = drop n (View b) \<and>
    buf_ok (Reserve sz b) \<and> View (Reserve sz b) = View b \<and>
    buf_ok (Clear b) \<and> View (Clear b) = [] \<and>
    buf_ok (fst (Move b)) \<and> View (fst (Move b)) = View b \<and>
    buf_ok (snd (Move b)) \<and> View (snd (Move b)) = []"
proof -
  have "\<exists>b'. Put v b = Some b' \<and> buf_ok b' \<and> View b' = v # View b"
    using buf.push [OF assms(1), of "[v]"] by (simp add: Put_eq_Put_slice)
  moreover have "buf_ok (Shrink n b) \<and> View (Shrink n b) = drop n (View b)"
    using buf.pop [OF assms(1)] assms by simp
  moreover have "buf_ok (snd (Move b)) \<and> View (snd (Move b)) = []"
    by (simp add: Move_def buf_ok_def cells_def View_def Size_def)
  ultimately show ?thesis
    using buf.push [OF assms(1), of ws] Reserve_spec [OF assms(1), of sz] Clear_spec [OF assms(1)] assms(1)
    by (simp add: Move_def)
qed

theorem buffer_refines_stack_witness:
  "\<exists>b. buf_ok b \<and> View b = [7, 8] \<and>
    (\<exists>b'. Put 9 b = Some b' \<and> buf_ok b' \<and> View b' = [9, 7, 8]) \<and> View (Shrink 1 b) = [8]"
proof -
  obtain b where b: "buf_ok b" "View b = [7, 8]"
    using Put_slice_spec [of "empty_buffer (\<lambda>_. 0)" "[7, 8]"]
    by auto
  then have "1 \<le> Size b" using length_View [OF b(1)] by simp
  from buffer_refines_stack [OF b(1) this, of 9] b show ?thesis by (intro exI [of _ b]) simp
qed

text \<open>
  A position counted from the end of a buffer refers to the same words for as long as they
  are in it: serializing further words in front, in any number of steps, does not move it. The
  offsets of the format rest on this.
\<close>

theorem buffer_positions_stable:
  assumes "buf_ok b" and "n \<le> Size b"
  shows "\<exists>b'. Put_all wss b = Some b' \<and> Size b' = length (concat wss) + Size b \<and>
    drop (Size b' - n) (View b') = drop (Size b - n) (View b)"
proof -
  obtain b' where b': "buf.push_all wss b = Some b'" "buf_ok b'" "View b' = concat (rev wss) @ View b"
    using buf.push_all_view [OF assms(1), of wss] by blast
  have "length (concat (rev wss)) = length (concat wss)"
    by (simp add: length_concat rev_map [symmetric])
  then have "Size b' = length (concat wss) + Size b"
    using arg_cong [OF b'(3), of length] b'(2) assms(1) by simp
  moreover have "drop (Size b' - n) (View b') = drop (Size b - n) (View b)"
    using buf.suffix_at_push_all [OF assms(1) b'(1)] assms b'(2) by (simp add: buf.suffix_at_def)
  ultimately show ?thesis using b'(1) by (auto simp: Put_all_eq)
qed

theorem buffer_positions_stable_witness:
  "\<exists>b b'. View b = [7, 8] \<and> Put_all [[1], [2, 3]] b = Some b' \<and>
    drop (Size b' - 1) (View b') = [8]"
proof -
  obtain b where b: "buf_ok b" "View b = [7, 8]"
    using Put_slice_spec [of "empty_buffer (\<lambda>_. 0)" "[7, 8]"]
    by auto
  then have sz: "Size b = 2" using length_View [OF b(1)] by simp
  then have "1 \<le> Size b" by simp
  from buffer_positions_stable [OF b(1) this, of "[[1], [2, 3]]"] b sz show ?thesis by auto
qed

end
