(* ===== verification/Compress.thy ===== *)
theory Compress
  imports Prelude
begin

text \<open>
  \<open>Compress\<close> and \<open>Decompress\<close> of src/utils.cc: runs of \<open>0x00\<close> and \<open>0xff\<close> bytes are replaced by
  four-bit marks. A pointer into the input is the list of the bytes from it to the end; the output
  is an array with checked writes, so that \<open>None\<close> is a write outside of the output string.
\<close>

subsection \<open>Model of Compress\<close>

text \<open>The length as a varint. The mask \<open>~0x7fU\<close> of the source is 32 bits wide.\<close>

function write_size :: "u64 \<Rightarrow> u8 list" where
  "write_size n =
    (if n AND 0xffffff80 \<noteq> 0
     then (0x80 OR ucast (n AND 0x7f)) # write_size (drop_bit 7 n)
     else [ucast n])"
  by pat_completeness auto
termination
proof (relation "measure unat", goal_cases)
  case 1
  show ?case by simp
next
  case (2 n)
  then have "n \<noteq> 0" by auto
  then have "0 < unat n" by (simp add: unat_gt_0)
  then show ?case by (simp add: unat_drop_bit)
qed

declare write_size.simps [simp del]

text \<open>The two loops of \<open>pick\<close>, and \<open>pick\<close>: the mark and the advanced input pointer.\<close>

fun run_loop :: "u8 \<Rightarrow> nat \<Rightarrow> u8 list \<Rightarrow> nat \<times> u8 list" where
  "run_loop ch cnt [] = (cnt, [])"
| "run_loop ch cnt (c # src) =
    (if cnt < 4 \<and> c = ch then run_loop ch (cnt + 1) src else (cnt, c # src))"

fun lit_loop :: "nat \<Rightarrow> u8 list \<Rightarrow> nat \<times> u8 list" where
  "lit_loop cnt [] = (cnt, [])"
| "lit_loop cnt (c # src) =
    (if cnt < 7 \<and> c \<noteq> 0 \<and> c \<noteq> 0xff then lit_loop (cnt + 1) src else (cnt, c # src))"

fun pick :: "u8 list \<Rightarrow> u8 \<times> u8 list" where
  "pick [] = (0, [])"
| "pick (ch # src) =
    (if sint ch = sint ch div 2
     then let (cnt, src) = run_loop ch 1 src in (8 OR (ch AND 4) OR of_nat (cnt - 1), src)
     else let (cnt, src) = lit_loop 1 src in (of_nat cnt, src))"

text \<open>\<open>copy\<close>: eight bytes are stored at once where the input has as many left.\<close>

definition copy :: "u8 list \<Rightarrow> nat \<Rightarrow> nat \<Rightarrow> u8 list \<Rightarrow> (nat \<times> u8 list) option" where
  "copy s l dest out = do {
     out \<leftarrow> wr_range out dest (if 8 \<le> length s then take 8 s else take l s);
     Some (dest + l, out)
   }"

lemma length_run_loop: "length (snd (run_loop ch cnt src)) \<le> length src"
  by (induction ch cnt src rule: run_loop.induct) auto

lemma length_lit_loop: "length (snd (lit_loop cnt src)) \<le> length src"
  by (induction cnt src rule: lit_loop.induct) auto

lemma length_pick: "src \<noteq> [] \<Longrightarrow> length (snd (pick src)) < length src"
proof (cases src)
  case (Cons ch xs)
  then show ?thesis
    using length_run_loop [of ch 1 xs] length_lit_loop [of 1 xs]
    by (auto simp: Let_def less_Suc_eq_le split: prod.split)
qed simp

function compress_loop :: "u8 list \<Rightarrow> nat \<Rightarrow> u8 list \<Rightarrow> (nat \<times> u8 list) option" where
  "compress_loop src dest out =
    (if src = [] then Some (dest, out)
     else
       let x = src; a = fst (pick src); src = snd (pick src)
       in if src = [] then do {
            out \<leftarrow> wr_range out dest [a];
            if a AND 8 = 0 then copy x (unat a) (dest + 1) out else Some (dest + 1, out)
          }
          else
            let y = src; b = fst (pick src); src = snd (pick src)
            in do {
              out \<leftarrow> wr_range out dest [a OR push_bit 4 b];
              (dest, out) \<leftarrow> (if a AND 8 = 0 then copy x (unat a) (dest + 1) out else Some (dest + 1, out));
              (dest, out) \<leftarrow> (if b AND 8 = 0 then copy y (unat b) dest out else Some (dest, out));
              compress_loop src dest out
            })"
  by pat_completeness auto
termination
proof (relation "measure (\<lambda>(src, dest, out). length src)", goal_cases)
  case 1
  show ?case by simp
next
  case (2 src)
  have "length (snd (pick (snd (pick src)))) < length (snd (pick src))"
    using 2 by (intro length_pick) simp
  also have "\<dots> < length src" using 2 by (intro length_pick) simp
  finally show ?case using 2 by simp
qed

declare compress_loop.simps [simp del]

definition Compress :: "u8 list \<Rightarrow> u8 list option" where
  "Compress src =
    (if src = [] then Some []
     else let len = length src; out = write_size (of_nat len); off = length out;
              out = out @ replicate (len + (len + 13) div 14) 0
          in do {
            (dest, out) \<leftarrow> compress_loop src off out;
            Some (take dest out)
          })"

subsection \<open>Model of Decompress\<close>

text \<open>\<open>parse_size\<close>: \<open>None\<close> where the source returns false.\<close>

function parse_size :: "nat \<Rightarrow> u32 \<Rightarrow> u8 list \<Rightarrow> (u32 \<times> u8 list) option" where
  "parse_size sft sz src =
    (if sft < 32
     then case src of
            [] \<Rightarrow> None
          | b # src \<Rightarrow>
              if b AND 0x80 \<noteq> 0
              then parse_size (sft + 7) (sz OR push_bit sft (ucast (b AND 0x7f))) src
              else Some (sz OR push_bit sft (ucast b), src)
     else None)"
  by pat_completeness auto
termination by (relation "measure (\<lambda>(sft, sz, src). length src)") auto

declare parse_size.simps [simp del]

text \<open>\<open>unpack\<close>: what it returns, the input left, and the output position and array.\<close>

definition unpack :: "u8 \<Rightarrow> nat \<Rightarrow> u8 list \<Rightarrow> nat \<Rightarrow> u8 list \<Rightarrow> (bool \<times> u8 list \<times> nat \<times> u8 list) option" where
  "unpack mark tail src dest out =
    (if mark AND 8 \<noteq> 0 then
       let cnt = unat (mark AND 3) + 1
       in if dest + cnt > tail then Some (False, src, dest, out)
          else do {
            out \<leftarrow> wr_range out dest (bytes_of_word 4 (0 - ucast (drop_bit 2 mark AND 1) :: u32));
            Some (True, src, dest + cnt, out)
          }
     else if mark \<noteq> 0 then
       let l = unat mark
       in if l > length src \<or> dest + l > tail then Some (False, src, dest, out)
          else do {
            out \<leftarrow> wr_range out dest (if 8 \<le> length src then take 8 src else take l src);
            Some (True, drop l src, dest + l, out)
          }
     else Some (True, src, dest, out))"

lemma unpack_input: "unpack mark tail src dest out = Some (r, src', dest', out') \<Longrightarrow> length src' \<le> length src"
  by (auto simp: unpack_def Let_def bind_eq_Some_conv split: if_splits)

function decompress_loop :: "nat \<Rightarrow> u8 list \<Rightarrow> nat \<Rightarrow> u8 list \<Rightarrow> (bool \<times> nat \<times> u8 list) option" where
  "decompress_loop tail src dest out =
    (case src of
       [] \<Rightarrow> Some (True, dest, out)
     | mark # src \<Rightarrow>
         (case unpack (mark AND 0xf) tail src dest out of
            None \<Rightarrow> None
          | Some (False, src, dest, out) \<Rightarrow> Some (False, dest, out)
          | Some (True, src, dest, out) \<Rightarrow>
              (case unpack (drop_bit 4 mark) tail src dest out of
                 None \<Rightarrow> None
               | Some (False, src, dest, out) \<Rightarrow> Some (False, dest, out)
               | Some (True, src, dest, out) \<Rightarrow> decompress_loop tail src dest out)))"
  by pat_completeness auto
termination
  by (relation "measure (\<lambda>(tail, src, dest, out). length src)") (auto dest!: unpack_input)

declare decompress_loop.simps [simp del]

text \<open>
  The result and the output string; \<open>size + 7\<close> is computed in 32 bits. The string keeps what was
  written when the input is refused in the middle.
\<close>

definition Decompress :: "u8 list \<Rightarrow> (bool \<times> u8 list) option" where
  "Decompress src =
    (if src = [] then Some (True, [])
     else case parse_size 0 0 src of
            None \<Rightarrow> Some (False, [])
          | Some (sz, src) \<Rightarrow>
              let out = replicate (unat (sz + 7)) 0; tail = unat sz
              in do {
                (ok, dest, out) \<leftarrow> decompress_loop tail src 0 out;
                Some (if ok then (dest = tail, take tail out @ replicate (tail - length out) 0)
                      else (False, out))
              })"

subsection \<open>What the marks stand for\<close>

definition run_byte :: "u8 \<Rightarrow> bool" where
  "run_byte c \<longleftrightarrow> c = 0 \<or> c = 0xff"

lemma run_test: "sint (c :: u8) = sint c div 2 \<longleftrightarrow> run_byte c"
proof -
  have "x = x div 2 \<longleftrightarrow> x = 0 \<or> x = - 1" for x :: int by arith
  moreover have "sint c = 0 \<longleftrightarrow> c = 0" by (metis signed_0 signed_word_eqI)
  moreover have "sint c = - 1 \<longleftrightarrow> c = - 1" by (metis signed_minus_1 signed_word_eqI)
  moreover have "(- 1 :: u8) = 0xff" by simp
  ultimately show ?thesis unfolding run_byte_def by metis
qed

lemma run_loop_spec:
  assumes "cnt \<le> 4"
  shows "\<exists>n r. run_loop ch cnt src = (cnt + n, r) \<and> src = replicate n ch @ r \<and> cnt + n \<le> 4"
  using assms
proof (induction ch cnt src rule: run_loop.induct)
  case (1 ch cnt)
  then show ?case by simp
next
  case (2 ch cnt c src)
  show ?case
  proof (cases "cnt < 4 \<and> c = ch")
    case True
    with 2 obtain n r where "run_loop ch (cnt + 1) src = (cnt + 1 + n, r)"
      "src = replicate n ch @ r" "cnt + 1 + n \<le> 4" by auto
    with True show ?thesis by (intro exI [of _ "Suc n"] exI [of _ r]) simp
  next
    case False
    with "2.prems" show ?thesis by (intro exI [of _ 0] exI [of _ "c # src"]) auto
  qed
qed

lemma lit_loop_spec:
  assumes "cnt \<le> 7"
  shows "\<exists>xs r. lit_loop cnt src = (cnt + length xs, r) \<and> src = xs @ r \<and> cnt + length xs \<le> 7 \<and>
    (cnt + length xs < 7 \<longrightarrow> r = [] \<or> run_byte (hd r))"
  using assms
proof (induction cnt src rule: lit_loop.induct)
  case (1 cnt)
  then show ?case by simp
next
  case (2 cnt c src)
  show ?case
  proof (cases "cnt < 7 \<and> c \<noteq> 0 \<and> c \<noteq> 0xff")
    case True
    with 2 obtain xs r where "lit_loop (cnt + 1) src = (cnt + 1 + length xs, r)"
      "src = xs @ r" "cnt + 1 + length xs \<le> 7" "cnt + 1 + length xs < 7 \<longrightarrow> r = [] \<or> run_byte (hd r)"
      by auto
    with True show ?thesis by (intro exI [of _ "c # xs"] exI [of _ r]) simp
  next
    case False
    with "2.prems" show ?thesis
      by (intro exI [of _ "[]"] exI [of _ "c # src"]) (auto simp: run_byte_def)
  qed
qed

text \<open>The bytes a mark stands for, given the input it was made from or the data that follow it.\<close>

definition is_run :: "u8 \<Rightarrow> bool" where
  "is_run m \<longleftrightarrow> m AND 8 \<noteq> 0"

definition mark_len :: "u8 \<Rightarrow> nat" where
  "mark_len m = (if is_run m then unat (m AND 3) + 1 else unat m)"

definition payload :: "u8 \<Rightarrow> u8 list \<Rightarrow> u8 list" where
  "payload m src = (if is_run m then [] else take (unat m) src)"

lemma fill_words:
  "bytes_of_word 4 (0 :: u32) = replicate 4 0" "bytes_of_word 4 (- 1 :: u32) = replicate 4 0xff"
  by code_simp+

lemma run_mark:
  assumes "run_byte c" and "1 \<le> n" and "n \<le> 4"
  defines "m \<equiv> 8 OR (c AND 4) OR of_nat (n - 1) :: u8"
  shows "is_run m" "mark_len m = n" "unat m < 16"
    "bytes_of_word 4 (0 - ucast (drop_bit 2 m AND 1) :: u32) = replicate 4 c"
proof -
  have n: "n = 1 \<or> n = 2 \<or> n = 3 \<or> n = 4" using assms(2,3) by auto
  have c: "c = 0 \<or> c = 0xff" using assms(1) by (simp add: run_byte_def)
  show "is_run m" "mark_len m = n" "unat m < 16"
    using n c by (auto simp: m_def is_run_def mark_len_def)
  have "(0 - ucast (drop_bit 2 m AND 1) :: u32) = (if c = 0 then 0 else - 1)"
    using n c by (auto simp: m_def)
  then show "bytes_of_word 4 (0 - ucast (drop_bit 2 m AND 1) :: u32) = replicate 4 c"
    using c by (auto simp: fill_words simp del: bytes_of_word_numeral)
qed

lemma lit_mark:
  assumes "1 \<le> l" and "l \<le> 7"
  shows "\<not> is_run (of_nat l)" "mark_len (of_nat l) = l" "unat (of_nat l :: u8) = l"
proof -
  have l: "l = 1 \<or> l = 2 \<or> l = 3 \<or> l = 4 \<or> l = 5 \<or> l = 6 \<or> l = 7" using assms by auto
  show "\<not> is_run (of_nat l)" "mark_len (of_nat l) = l" "unat (of_nat l :: u8) = l"
    using l by (auto simp: is_run_def mark_len_def)
qed

lemma pick_cases:
  assumes "src \<noteq> []"
  obtains (run) n c r where "pick src = (8 OR (c AND 4) OR of_nat (n - 1), r)" "src = replicate n c @ r"
      "run_byte c" "1 \<le> n" "n \<le> 4"
    | (lit) xs r where "pick src = (of_nat (length xs), r)" "src = xs @ r" "1 \<le> length xs" "length xs \<le> 7"
      "\<not> run_byte (hd src)" "length xs < 7 \<longrightarrow> r = [] \<or> run_byte (hd r)"
proof -
  obtain ch xs where src: "src = ch # xs" using assms by (cases src) auto
  show thesis
  proof (cases "run_byte ch")
    case True
    obtain n r where n: "run_loop ch 1 xs = (1 + n, r)" "xs = replicate n ch @ r" "1 + n \<le> 4"
      using run_loop_spec [of 1 ch xs] by auto
    with True show thesis by (intro run [of ch "Suc n" r]) (auto simp: src run_test)
  next
    case False
    obtain ys r where "lit_loop 1 xs = (1 + length ys, r)" "xs = ys @ r" "1 + length ys \<le> 7"
      "1 + length ys < 7 \<longrightarrow> r = [] \<or> run_byte (hd r)"
      using lit_loop_spec [of 1 xs] by auto
    with False show thesis by (intro lit [of "ch # ys" r]) (auto simp: src run_test)
  qed
qed

text \<open>All that is used about \<open>pick\<close> from here on.\<close>

lemma pick_spec:
  assumes "src \<noteq> []" and "pick src = (m, r)"
  shows "\<exists>xs. src = xs @ r \<and> length xs = mark_len m \<and> 1 \<le> mark_len m \<and> unat m < 16 \<and>
    (is_run m \<longleftrightarrow> run_byte (hd src)) \<and> payload m src = (if is_run m then [] else xs) \<and>
    (if is_run m
     then mark_len m \<le> 4 \<and> (\<exists>c. xs = replicate (mark_len m) c \<and>
       bytes_of_word 4 (0 - ucast (drop_bit 2 m AND 1) :: u32) = replicate 4 c)
     else mark_len m \<le> 7 \<and> unat m = mark_len m \<and> (mark_len m < 7 \<longrightarrow> r = [] \<or> run_byte (hd r)))"
  using assms(1)
proof (cases rule: pick_cases)
  case (run n c r')
  then have m: "m = 8 OR (c AND 4) OR of_nat (n - 1)" and r: "r' = r" using assms(2) by auto
  note rm = run_mark [OF run(3-5), folded m]
  have "hd src = c" using run(2,4) by (cases n) auto
  then show ?thesis
    using rm run r by (intro exI [of _ "replicate n c"]) (auto simp: payload_def)
next
  case (lit xs r')
  then have m: "m = of_nat (length xs)" and r: "r' = r" using assms(2) by auto
  show ?thesis
    using lit_mark [OF lit(3,4), folded m] lit r
    by (intro exI [of _ xs]) (auto simp: payload_def)
qed

lemma pick_len:
  assumes "src \<noteq> []" and "pick src = (m, r)"
  shows "length src = mark_len m + length r" "1 \<le> mark_len m"
    "length (payload m src) = (if is_run m then 0 else mark_len m)" "mark_len m \<le> 7"
    "is_run m \<longleftrightarrow> run_byte (hd src)" "\<not> is_run m \<longrightarrow> mark_len m < 7 \<longrightarrow> r = [] \<or> run_byte (hd r)"
  using pick_spec [OF assms] by (auto split: if_splits)

subsection \<open>Capacity of the output\<close>

text \<open>
  The space the encoding of the remaining input may need. Only two literals in a row cost an extra
  byte, and the first of them has seven bytes; after a short second literal the input goes on with
  a run byte, which is why that case has a smaller allowance.
\<close>

definition cap_need :: "u8 list \<Rightarrow> nat" where
  "cap_need src = length src +
    (if src \<noteq> [] \<and> run_byte (hd src) then (length src + 7) div 14 else (length src + 13) div 14)"

lemma cap_need_le: "cap_need src \<le> length src + (length src + 13) div 14"
  by (auto simp: cap_need_def intro: div_le_mono)

lemma cap_need_ge: "length src \<le> cap_need src"
  by (simp add: cap_need_def)

lemma cap_single:
  assumes "src \<noteq> []" and "pick src = (m, [])"
  shows "1 + length (payload m src) \<le> cap_need src"
  using pick_len [OF assms] by (auto simp: cap_need_def)

lemma cap_pair:
  assumes "src \<noteq> []" and "pick src = (a, y)" and "y \<noteq> []" and "pick y = (b, r)"
  shows "1 + length (payload a src) + length (payload b y) + cap_need r \<le> cap_need src"
proof -
  note A = pick_len [OF assms(1,2)] and B = pick_len [OF assms(3,4)]
  have len: "length src = mark_len a + (mark_len b + length r)" using A(1) B(1) by simp
  have r: "r \<noteq> [] \<Longrightarrow> run_byte (hd r) \<Longrightarrow> cap_need r = length r + (length r + 7) div 14"
    by (simp add: cap_need_def)
  show ?thesis
  proof (cases "is_run b")
    case True
    then show ?thesis
      using A B len cap_need_le [of r] by (auto simp: cap_need_def [of src] split: if_splits)
  next
    case b: False
    show ?thesis
    proof (cases "mark_len b < 7")
      case True
      then have "cap_need r \<le> length r + (length r + 7) div 14"
        using B(6) b r by (cases "r = []") (auto simp: cap_need_def)
      then show ?thesis
        using A B b len assms(3) by (auto simp: cap_need_def [of src] split: if_splits)
    next
      case False
      then show ?thesis
        using A B b len assms(3) cap_need_le [of r] by (auto simp: cap_need_def [of src] split: if_splits)
    qed
  qed
qed

lemma cap_wide_first:
  assumes "src \<noteq> []" and "pick src = (a, y)" and "\<not> is_run a" and "8 \<le> length src"
  shows "1 + 8 \<le> cap_need src"
  using pick_len [OF assms(1,2)] assms(3,4) by (auto simp: cap_need_def)

lemma cap_wide_second:
  assumes "src \<noteq> []" and "pick src = (a, y)" and "y \<noteq> []" and "pick y = (b, r)"
    and "\<not> is_run b" and "8 \<le> length y"
  shows "1 + length (payload a src) + 8 \<le> cap_need src"
  using pick_len [OF assms(1,2)] pick_len [OF assms(3,4)] assms(3,5,6)
  by (auto simp: cap_need_def split: if_splits)

subsection \<open>Compress writes the encoding\<close>

text \<open>The encoding as a function of the input: marks in pairs, each followed by its literals.\<close>

function enc :: "u8 list \<Rightarrow> u8 list" where
  "enc src =
    (if src = [] then []
     else let a = fst (pick src); y = snd (pick src)
          in if y = [] then a # payload a src
             else let b = fst (pick y); r = snd (pick y)
                  in (a OR push_bit 4 b) # payload a src @ payload b y @ enc r)"
  by pat_completeness auto
termination
proof (relation "measure length", goal_cases)
  case 1
  show ?case by simp
next
  case (2 src)
  have "length (snd (pick (snd (pick src)))) < length (snd (pick src))"
    using 2 by (intro length_pick) simp
  also have "\<dots> < length src" using 2 by (intro length_pick) simp
  finally show ?case using 2 by simp
qed

declare enc.simps [simp del]

lemma enc_Nil [simp]: "enc [] = []"
  by (simp add: enc.simps)

lemma wr_range_append:
  assumes "dest + length ys \<le> length out"
  shows "\<exists>out'. wr_range out dest ys = Some out' \<and> length out' = length out \<and>
    take (dest + length ys) out' = take dest out @ ys"
  using assms by simp

text \<open>\<open>copy\<close> of the literals of a mark: a wide store needs eight bytes of space.\<close>

lemma copy_payload:
  assumes "src \<noteq> []" and "pick src = (m, r)"
    and fit: "dest + length (payload m src) \<le> length out"
    and wide: "\<not> is_run m \<Longrightarrow> 8 \<le> length src \<Longrightarrow> dest + 8 \<le> length out"
  shows "\<exists>out'. (if m AND 8 = 0 then copy src (unat m) dest out else Some (dest, out)) =
      Some (dest + length (payload m src), out') \<and> length out' = length out \<and>
      take (dest + length (payload m src)) out' = take dest out @ payload m src"
proof (cases "is_run m")
  case True
  then show ?thesis by (simp add: is_run_def payload_def)
next
  case False
  note P = pick_spec [OF assms(1,2)]
  have l: "unat m \<le> 7" "unat m \<le> length src" "payload m src = take (unat m) src"
    using P False by (auto simp: payload_def)
  show ?thesis
  proof (cases "8 \<le> length src")
    case True
    have "take (unat m) (take 8 src) = take (unat m) src" using l by simp
    then show ?thesis
      using False True wide [OF False True] l
      by (simp add: copy_def is_run_def del: take_take)
  next
    case F2: False
    then show ?thesis using False fit l by (simp add: copy_def is_run_def)
  qed
qed

text \<open>The mark byte and the literals of its first half.\<close>

lemma emit_first:
  assumes "src \<noteq> []" and "pick src = (a, y)" and cap: "dest + cap_need src \<le> length out"
    and fit: "1 + length (payload a src) \<le> cap_need src"
  shows "\<exists>out1 out2. wr_range out dest [m] = Some out1 \<and>
      (if a AND 8 = 0 then copy src (unat a) (dest + 1) out1 else Some (dest + 1, out1)) =
        Some (dest + 1 + length (payload a src), out2) \<and> length out2 = length out \<and>
      take (dest + 1 + length (payload a src)) out2 = take dest out @ m # payload a src"
proof -
  obtain out1 where o1: "wr_range out dest [m] = Some out1" "length out1 = length out"
    "take (dest + 1) out1 = take dest out @ [m]"
    using wr_range_append [of dest "[m]" out] cap fit by auto
  have "\<exists>out2. (if a AND 8 = 0 then copy src (unat a) (dest + 1) out1 else Some (dest + 1, out1)) =
      Some (dest + 1 + length (payload a src), out2) \<and> length out2 = length out1 \<and>
      take (dest + 1 + length (payload a src)) out2 = take (dest + 1) out1 @ payload a src"
    using cap fit o1 cap_wide_first [OF assms(1,2)] by (intro copy_payload [OF assms(1,2)]) auto
  then show ?thesis using o1 by auto
qed

lemma compress_loop_enc:
  assumes "dest + cap_need src \<le> length out"
  shows "\<exists>out'. compress_loop src dest out = Some (dest + length (enc src), out') \<and>
    length out' = length out \<and> take (dest + length (enc src)) out' = take dest out @ enc src"
  using assms
proof (induction src arbitrary: dest out rule: enc.induct)
  case (1 src)
  show ?case
  proof (cases "src = []")
    case True
    then show ?thesis by (simp add: compress_loop.simps)
  next
    case ne: False
    obtain a y where a: "pick src = (a, y)" by fastforce
    show ?thesis
    proof (cases "y = []")
      case True
      have enc: "enc src = a # payload a src" using ne a True by (simp add: enc.simps [of src])
      have "1 + length (payload a src) \<le> cap_need src" using ne a True by (intro cap_single) simp_all
      from emit_first [OF ne a "1.prems" this, of a] show ?thesis
        using ne a True by (subst compress_loop.simps) (auto simp: enc Let_def)
    next
      case y: False
      obtain b r where b: "pick y = (b, r)" by fastforce
      let ?pa = "payload a src" and ?pb = "payload b y" and ?m = "a OR push_bit 4 b"
      have enc: "enc src = ?m # ?pa @ ?pb @ enc r"
        using ne a y b by (simp add: enc.simps [of src] Let_def)
      note cap = cap_pair [OF ne a y b]
      obtain out1 out2 where o1: "wr_range out dest [?m] = Some out1"
        and o2: "(if a AND 8 = 0 then copy src (unat a) (dest + 1) out1 else Some (dest + 1, out1)) =
          Some (dest + 1 + length ?pa, out2)" "length out2 = length out"
          "take (dest + 1 + length ?pa) out2 = take dest out @ ?m # ?pa"
        using emit_first [OF ne a "1.prems", of ?m] cap by auto
      obtain out3 where o3: "(if b AND 8 = 0 then copy y (unat b) (dest + 1 + length ?pa) out2
            else Some (dest + 1 + length ?pa, out2)) = Some (dest + 1 + length ?pa + length ?pb, out3)"
          "length out3 = length out2"
          "take (dest + 1 + length ?pa + length ?pb) out3 = take (dest + 1 + length ?pa) out2 @ ?pb"
      proof -
        have fit: "dest + 1 + length ?pa + length ?pb \<le> length out2"
          using cap o2(2) "1.prems" by linarith
        have wide: "dest + 1 + length ?pa + 8 \<le> length out2" if "\<not> is_run b" "8 \<le> length y"
          using cap_wide_second [OF ne a y b that] o2(2) "1.prems" by linarith
        show thesis using copy_payload [OF y b fit wide] that by blast
      qed
      have fit: "dest + 1 + length ?pa + length ?pb + cap_need r \<le> length out3"
        using cap "1.prems" o2(2) o3(2) by simp
      have "\<exists>out'. compress_loop r (dest + 1 + length ?pa + length ?pb) out3 =
          Some (dest + 1 + length ?pa + length ?pb + length (enc r), out') \<and> length out' = length out3 \<and>
          take (dest + 1 + length ?pa + length ?pb + length (enc r)) out' =
          take (dest + 1 + length ?pa + length ?pb) out3 @ enc r"
        using "1.IH" [OF ne refl refl _ refl refl, of "dest + 1 + length ?pa + length ?pb" out3] a y b fit by simp
      then show ?thesis
        using ne a y b o1 o2 o3
        by (subst compress_loop.simps) (auto simp: enc Let_def add.assoc)
    qed
  qed
qed

subsection \<open>Decompress reads the encoding\<close>

lemma u8_less_16:
  fixes a :: u8
  assumes "unat a < 16"
  shows "a AND 0xf = a" "drop_bit 4 a = 0"
proof -
  have t: "take_bit 4 a = a"
    using assms by (intro word_eq_unatI) (simp add: unsigned_take_bit_eq take_bit_nat_eq_self)
  moreover have "(0xf :: u8) = mask 4" by (simp add: mask_eq_exp_minus_1)
  ultimately show "a AND 0xf = a" by (simp only: take_bit_eq_mask)
  show "drop_bit 4 a = 0" using assms by (intro word_eq_unatI) (simp add: unat_drop_bit)
qed

lemma nibbles:
  fixes a b :: u8
  assumes "unat a < 16" and "unat b < 16"
  shows "(a OR push_bit 4 b) AND 0xf = a" "drop_bit 4 (a OR push_bit 4 b) = b"
proof -
  have hi: "push_bit 4 b AND 0xf = 0"
  proof -
    have "(0xf :: u8) = mask 4" by (simp add: mask_eq_exp_minus_1)
    then have "push_bit 4 b AND 0xf = take_bit 4 (push_bit 4 b)" by (simp only: take_bit_eq_mask)
    then show ?thesis by (simp add: take_bit_push_bit)
  qed
  then show "(a OR push_bit 4 b) AND 0xf = a"
    using u8_less_16(1) [OF assms(1)] by (simp add: bit.conj_disj_distrib2)
  have "drop_bit 4 (push_bit 4 b) = b"
    using assms(2) by (intro word_eq_unatI) (simp add: unat_bridge)
  then show "drop_bit 4 (a OR push_bit 4 b) = b"
    using u8_less_16(2) [OF assms(1)] by (simp add: drop_bit_or)
qed

lemma unpack_pick:
  assumes "src \<noteq> []" and "pick src = (m, r)"
    and tail: "dest + mark_len m \<le> tail" and out: "tail + 7 \<le> length out"
  shows "\<exists>out'. unpack m tail (payload m src @ rest) dest out = Some (True, rest, dest + mark_len m, out') \<and>
    length out' = length out \<and> take (dest + mark_len m) out' = take dest out @ take (mark_len m) src"
proof -
  obtain xs where xs: "src = xs @ r" "length xs = mark_len m" "1 \<le> mark_len m"
    "payload m src = (if is_run m then [] else xs)"
    "if is_run m then mark_len m \<le> 4 \<and> (\<exists>c. xs = replicate (mark_len m) c \<and>
       bytes_of_word 4 (0 - ucast (drop_bit 2 m AND 1) :: u32) = replicate 4 c)
     else mark_len m \<le> 7 \<and> unat m = mark_len m"
    using pick_spec [OF assms(1,2)] by (auto split: if_splits)
  show ?thesis
  proof (cases "is_run m")
    case True
    then obtain c where c: "xs = replicate (mark_len m) c" "mark_len m \<le> 4"
      "bytes_of_word 4 (0 - ucast (drop_bit 2 m AND 1) :: u32) = replicate 4 c" using xs(5) by auto
    have "wr_range out dest (replicate 4 c) = Some (take dest out @ replicate 4 c @ drop (dest + 4) out)"
      using tail out xs(3) by simp
    then show ?thesis
      using True c xs tail out
      by (simp add: unpack_def is_run_def mark_len_def del: bytes_of_word_numeral diff_0)
  next
    case False
    then have m: "m \<noteq> 0" "unat m = mark_len m" "mark_len m \<le> 7" using xs(3,5) by auto
    have w: "take (mark_len m) (if 8 \<le> length (xs @ rest) then take 8 (xs @ rest) else take (mark_len m) (xs @ rest)) = xs"
      "length (if 8 \<le> length (xs @ rest) then take 8 (xs @ rest) else take (mark_len m) (xs @ rest)) \<le> mark_len m + 7"
      "mark_len m \<le> length (if 8 \<le> length (xs @ rest) then take 8 (xs @ rest) else take (mark_len m) (xs @ rest))"
      using xs(2,3) m by auto
    define ws where "ws = (if 8 \<le> length (xs @ rest) then take 8 (xs @ rest) else take (mark_len m) (xs @ rest))"
    note w' = w [folded ws_def]
    have "wr_range out dest ws = Some (take dest out @ ws @ drop (dest + length ws) out)"
      using tail out w'(2) by simp
    then show ?thesis
      using False m xs tail out w'
      by (simp add: unpack_def is_run_def Let_def ws_def [symmetric])
  qed
qed

lemma decompress_step:
  assumes "unpack (mark AND 0xf) tail src dest out = Some (True, src1, dest1, out1)"
    and "unpack (drop_bit 4 mark) tail src1 dest1 out1 = Some (True, src2, dest2, out2)"
  shows "decompress_loop tail (mark # src) dest out = decompress_loop tail src2 dest2 out2"
  using assms by (subst decompress_loop.simps) auto

lemma decompress_loop_enc:
  assumes "dest + length src \<le> tail" and "tail + 7 \<le> length out"
  shows "\<exists>out'. decompress_loop tail (enc src) dest out = Some (True, dest + length src, out') \<and>
    length out' = length out \<and> take (dest + length src) out' = take dest out @ src"
  using assms
proof (induction src arbitrary: dest out rule: enc.induct)
  case (1 src)
  show ?case
  proof (cases "src = []")
    case True
    then show ?thesis by (simp add: decompress_loop.simps)
  next
    case ne: False
    obtain a y where a: "pick src = (a, y)" by fastforce
    have la: "length src = mark_len a + length y" "take (mark_len a) src @ y = src" "unat a < 16"
      using pick_spec [OF ne a] by auto
    show ?thesis
    proof (cases "y = []")
      case True
      have enc: "enc src = a # payload a src" using ne a True by (simp add: enc.simps [of src])
      obtain out1 where o1: "unpack a tail (payload a src @ []) dest out = Some (True, [], dest + mark_len a, out1)"
        "length out1 = length out" "take (dest + mark_len a) out1 = take dest out @ take (mark_len a) src"
        using unpack_pick [OF ne a, of dest tail out "[]"] "1.prems" la by auto
      have "unpack (drop_bit 4 a) tail [] (dest + mark_len a) out1 = Some (True, [], dest + mark_len a, out1)"
        by (simp add: u8_less_16 [OF la(3)] unpack_def)
      then have "decompress_loop tail (enc src) dest out = decompress_loop tail [] (dest + mark_len a) out1"
        unfolding enc using o1(1) la(3) by (intro decompress_step) (simp_all add: u8_less_16)
      then show ?thesis
        using o1 la True by (simp add: decompress_loop.simps [of tail "[]"])
    next
      case y: False
      obtain b r where b: "pick y = (b, r)" by fastforce
      have lb: "length y = mark_len b + length r" "take (mark_len b) y @ r = y" "unat b < 16"
        using pick_spec [OF y b] by auto
      let ?pa = "payload a src" and ?pb = "payload b y" and ?m = "a OR push_bit 4 b"
      have enc: "enc src = ?m # ?pa @ ?pb @ enc r"
        using ne a y b by (simp add: enc.simps [of src] Let_def)
      obtain out1 where o1: "unpack a tail (?pa @ ?pb @ enc r) dest out = Some (True, ?pb @ enc r, dest + mark_len a, out1)"
        "length out1 = length out" "take (dest + mark_len a) out1 = take dest out @ take (mark_len a) src"
        using unpack_pick [OF ne a, of dest tail out "?pb @ enc r"] "1.prems" la by auto
      obtain out2 where o2: "unpack b tail (?pb @ enc r) (dest + mark_len a) out1 =
          Some (True, enc r, dest + mark_len a + mark_len b, out2)" "length out2 = length out1"
        "take (dest + mark_len a + mark_len b) out2 = take (dest + mark_len a) out1 @ take (mark_len b) y"
        using unpack_pick [OF y b, of "dest + mark_len a" tail out1 "enc r"] "1.prems" la lb o1(2) by auto
      obtain out3 where o3: "decompress_loop tail (enc r) (dest + mark_len a + mark_len b) out2 =
          Some (True, dest + mark_len a + mark_len b + length r, out3)" "length out3 = length out2"
        "take (dest + mark_len a + mark_len b + length r) out3 = take (dest + mark_len a + mark_len b) out2 @ r"
        using "1.IH" [OF ne refl refl _ refl refl, of "dest + mark_len a + mark_len b" out2] a y b "1.prems" la lb o1(2) o2(2)
        by auto
      have "take (dest + length src) out3 = take dest out @ src"
        using o1(3) o2(3) o3(3) la lb by (simp add: add.assoc)
      moreover have "decompress_loop tail (enc src) dest out =
          decompress_loop tail (enc r) (dest + mark_len a + mark_len b) out2"
        unfolding enc using o1(1) o2(1) by (intro decompress_step) (simp_all only: nibbles [OF la(3) lb(3)])
      ultimately show ?thesis using o1 o2 o3 la lb by (simp add: add.assoc)
    qed
  qed
qed

subsection \<open>The length prefix\<close>

lemma and_low_mask:
  fixes n :: u64
  assumes "unat n < 2 ^ 32"
  shows "n AND 0xffffff80 = 0 \<longleftrightarrow> unat n < 128"
proof -
  let ?y = "unat n div 128"
  have "(unat n mod 128 + 2 ^ 7 * ?y) AND (0 + 2 ^ 7 * (2 ^ 25 - 1)) = (unat n mod 128 AND 0) + 2 ^ 7 * (?y AND (2 ^ 25 - 1))"
    by (rule and_digit) simp_all
  then have "unat (n AND 0xffffff80) = 128 * (?y mod 2 ^ 25)"
    using nat_and_mask [of ?y 25] by (simp add: unsigned_and_eq)
  moreover have "?y < 2 ^ 25" using assms by simp
  ultimately have "unat (n AND 0xffffff80) = 0 \<longleftrightarrow> ?y = 0" by simp
  moreover have "?y = 0 \<longleftrightarrow> unat n < 128" by linarith
  ultimately show ?thesis by (simp add: unat_eq_zero)
qed

lemma mask_7: "(0x7f :: 'a::len word) = mask 7" and low_bits_64: "ucast (n AND 0x7f) = take_bit 7 (ucast n :: 'a::len word)"
  for n :: u64
proof -
  show m: "(0x7f :: 'a word) = mask 7" for x :: 'a by (simp add: mask_eq_exp_minus_1)
  have "(0x7f :: u64) = mask 7" by (simp add: mask_eq_exp_minus_1)
  then have "n AND 0x7f = take_bit 7 n" by (simp only: take_bit_eq_mask)
  then show "ucast (n AND 0x7f) = take_bit 7 (ucast n :: 'a word)"
    by (simp only:) (rule bit_word_eqI, auto simp: bit_take_bit_iff bit_ucast_iff)
qed

text \<open>A continuation byte of the varint, and its value.\<close>

lemma continuation_byte:
  fixes c :: u8
  assumes "take_bit 7 c = c"
  shows "(0x80 OR c) AND 0x80 \<noteq> 0" "(0x80 OR c) AND 0x7f = c"
proof -
  have "c AND 0x7f = c" using assms by (simp only: mask_7 take_bit_eq_mask)
  then show "(0x80 OR c) AND 0x7f = c" by (simp add: bit.conj_disj_distrib2)
  have "bit ((0x80 OR c) AND 0x80) 7" by (simp add: bit_and_iff bit_or_iff)
  then show "(0x80 OR c) AND 0x80 \<noteq> 0" by (metis bit_0_eq bot_apply bot_bool_def)
qed

lemma final_byte:
  fixes c :: u8
  assumes "unat c < 128"
  shows "c AND 0x80 = 0"
proof -
  have "take_bit 7 c = c"
    using assms by (intro word_eq_unatI) (simp add: unsigned_take_bit_eq take_bit_nat_eq_self)
  then have "c AND 0x7f = c" by (simp only: mask_7 take_bit_eq_mask)
  then have "c AND 0x80 = c AND (0x7f AND 0x80)" by (metis and.assoc)
  then show ?thesis by simp
qed

lemma split_at_7:
  "push_bit s (ucast (take_bit 7 (ucast n :: u8))) OR push_bit (s + 7) (ucast (drop_bit 7 n)) =
    push_bit s (ucast n :: u32)" for n :: u64
proof (rule bit_word_eqI)
  fix i assume "i < LENGTH(32)"
  then show "bit (push_bit s (ucast (take_bit 7 (ucast n :: u8))) OR push_bit (s + 7) (ucast (drop_bit 7 n)) :: u32) i =
      bit (push_bit s (ucast n :: u32)) i"
    by (cases "i < s + 7") (auto simp: bit_simps)
qed

lemma parse_size_write_size:
  assumes "unat n < 2 ^ (32 - sft)" and "sft < 32"
  shows "parse_size sft sz (write_size n @ rest) = Some (sz OR push_bit sft (ucast n), rest)"
  using assms
proof (induction n arbitrary: sft sz rule: write_size.induct)
  case (1 n)
  have n32: "unat n < 2 ^ 32"
    using "1.prems"(1) by (meson diff_le_self order_less_le_trans power_increasing one_le_numeral)
  show ?case
  proof (cases "n AND 0xffffff80 \<noteq> 0")
    case True
    then have big: "128 \<le> unat n" using and_low_mask [OF n32] by simp
    have sft: "sft + 7 < 32"
    proof (rule ccontr)
      assume "\<not> sft + 7 < 32"
      then have "(2::nat) ^ (32 - sft) \<le> 2 ^ 7" by (intro power_increasing) auto
      then show False using "1.prems"(1) big by simp
    qed
    let ?b = "0x80 OR ucast (n AND 0x7f) :: u8"
    have b: "?b AND 0x80 \<noteq> 0" "?b AND 0x7f = take_bit 7 (ucast n)"
      using continuation_byte [of "take_bit 7 (ucast n)"] by (simp_all add: low_bits_64)
    have "unat (drop_bit 7 n) < 2 ^ (32 - (sft + 7))"
    proof -
      have "32 - sft = (32 - (sft + 7)) + 7" using sft by simp
      then have "(2::nat) ^ (32 - sft) = 2 ^ (32 - (sft + 7)) * 2 ^ 7" by (metis power_add)
      then show ?thesis using "1.prems"(1) by (simp add: unat_drop_bit less_mult_imp_div_less)
    qed
    then have "parse_size (sft + 7) (sz OR push_bit sft (ucast (?b AND 0x7f))) (write_size (drop_bit 7 n) @ rest) =
       Some ((sz OR push_bit sft (ucast (?b AND 0x7f))) OR push_bit (sft + 7) (ucast (drop_bit 7 n)), rest)"
      using "1.IH" [OF True] sft by blast
    moreover have "push_bit sft (ucast (?b AND 0x7f)) OR push_bit (sft + 7) (ucast (drop_bit 7 n)) = push_bit sft (ucast n :: u32)"
      by (simp only: b split_at_7)
    ultimately show ?thesis
      using True b "1.prems" by (simp add: write_size.simps [of n] parse_size.simps [of sft] or.assoc)
  next
    case False
    then have "unat n < 128" using and_low_mask [OF n32] by simp
    then have "unat (ucast n :: u8) < 128" "ucast (ucast n :: u8) = (ucast n :: u32)"
      by (auto intro: word_eq_unatI simp: unat_ucast)
    note final_byte [OF this(1)] this(2)
    then show ?thesis using False "1.prems" by (simp add: write_size.simps [of n] parse_size.simps [of sft])
  qed
qed

subsection \<open>Round trip\<close>

lemma write_size_not_Nil [simp]: "write_size n \<noteq> []"
  by (subst write_size.simps) simp

lemma Compress_eq:
  assumes "src \<noteq> []"
  shows "Compress src = Some (write_size (of_nat (length src)) @ enc src)"
proof -
  let ?head = "write_size (of_nat (length src))"
  let ?out = "?head @ replicate (length src + (length src + 13) div 14) 0"
  have "length ?head + cap_need src \<le> length ?out" using cap_need_le [of src] by simp
  from compress_loop_enc [OF this] show ?thesis
    using assms by (auto simp: Compress_def Let_def)
qed

text \<open>
  Compressing any input writes inside the output string that was sized for it, although
  literals are copied eight bytes at a time; the result is the length and the encoding and has at
  most \<open>len + (len + 13) div 14\<close> bytes after the length.
\<close>

theorem compress_in_bounds:
  "\<exists>out. Compress src = Some out \<and>
    length out \<le> length (write_size (of_nat (length src))) + length src + (length src + 13) div 14"
proof (cases "src = []")
  case True
  then show ?thesis by (simp add: Compress_def)
next
  case False
  let ?out = "replicate (cap_need src) 0 :: u8 list"
  have "0 + cap_need src \<le> length ?out" by simp
  from compress_loop_enc [OF this] obtain out' where "length out' = cap_need src" "take (length (enc src)) out' = enc src"
    by auto
  then have "length (enc src) \<le> cap_need src" by (metis length_take min.cobounded1 min.commute)
  then show ?thesis using Compress_eq [OF False] cap_need_le [of src] by auto
qed

lemma restored:
  assumes "length src < 2 ^ 32 - 7"
  shows "\<exists>out. Compress src = Some out \<and> Decompress out = Some (True, src)"
proof (cases "src = []")
  case True
  then show ?thesis by (simp add: Compress_def Decompress_def)
next
  case False
  let ?n = "of_nat (length src) :: u64" and ?head = "write_size (of_nat (length src))"
  have n: "unat ?n = length src" "unat (ucast ?n :: u32) = length src"
    using assms by (simp_all add: unat_of_nat unat_ucast)
  then have "parse_size 0 0 (?head @ enc src) = Some (ucast ?n, enc src)"
    using assms parse_size_write_size [of ?n 0 0 "enc src"] by simp
  moreover have sz: "unat (ucast ?n + 7 :: u32) = length src + 7"
    using assms n(2) by (simp add: unat_word_ariths)
  moreover obtain out' where "decompress_loop (length src) (enc src) 0 (replicate (length src + 7) 0) = Some (True, length src, out')"
    "length out' = length src + 7" "take (length src) out' = src"
    using decompress_loop_enc [of 0 src "length src" "replicate (length src + 7) 0"] by auto
  ultimately have "Decompress (?head @ enc src) = Some (True, src)"
    using n by (simp add: Decompress_def Let_def)
  then show ?thesis using Compress_eq [OF False] by blast
qed

text \<open>
  Claim C4: decompression restores what was compressed, for every input shorter than
  \<open>2 ^ 32 - 7\<close> bytes, and stays inside its output string.
\<close>

theorem decompress_compress:
  assumes "length src < 2 ^ 32 - 7"
  shows "\<exists>out. Compress src = Some out \<and> Decompress out = Some (True, src)"
  by (rule restored [OF assms])

theorem decompress_compress_witness:
  "length [7, 0, 0, 0, 0, 0, 0xff, 9 :: u8] < 2 ^ 32 - 7 \<and>
   (\<exists>out. Compress [7, 0, 0, 0, 0, 0, 0xff, 9] = Some out \<and>
     Decompress out = Some (True, [7, 0, 0, 0, 0, 0, 0xff, 9]))"
  using decompress_compress [of "[7, 0, 0, 0, 0, 0, 0xff, 9]"] by simp

subsection \<open>Untrusted input\<close>

lemma unpack_safe:
  assumes "dest \<le> tail" and "tail + 7 \<le> length out" and "unat mark < 16"
  shows "\<exists>r src' dest' out'. unpack mark tail src dest out = Some (r, src', dest', out') \<and>
    dest' \<le> tail \<and> length out' = length out"
proof -
  have "unat mark \<le> 7" if "mark AND 8 = 0"
  proof -
    have "list_all (\<lambda>m :: u8. m AND 8 = 0 \<longrightarrow> unat m \<le> 7) (map of_nat [0..<16])" by code_simp
    moreover have "mark \<in> set (map of_nat [0..<16])"
      using assms(3) by (auto intro!: image_eqI [of _ _ "unat mark"])
    ultimately show ?thesis using that unfolding list_all_iff by blast
  qed
  moreover have "1 \<le> unat mark" if "mark \<noteq> 0" using that by (simp add: Suc_leI unat_gt_0)
  ultimately show ?thesis
    using assms by (force simp: unpack_def Let_def wr_range_def)
qed

lemma decompress_loop_safe:
  assumes "dest \<le> tail" and "tail + 7 \<le> length out"
  shows "\<exists>r dest' out'. decompress_loop tail src dest out = Some (r, dest', out') \<and> length out' = length out"
  using assms
proof (induction "length src" arbitrary: src dest out rule: less_induct)
  case less
  show ?case
  proof (cases src)
    case Nil
    then show ?thesis by (subst decompress_loop.simps) auto
  next
    case (Cons mark xs)
    have nib: "unat (mark AND 0xf) < 16" "unat (drop_bit 4 mark) < 16"
      using unat_u8 [of mark] nat_and_mask [of "unat mark" 4] by (simp_all add: unsigned_and_eq unat_drop_bit)
    obtain r1 s1 d1 o1 where u1: "unpack (mark AND 0xf) tail xs dest out = Some (r1, s1, d1, o1)"
      "d1 \<le> tail" "length o1 = length out" using unpack_safe [OF less.prems nib(1)] by blast
    show ?thesis
    proof (cases r1)
      case False
      then show ?thesis using u1 Cons by (subst decompress_loop.simps) auto
    next
      case r1: True
      obtain r2 s2 d2 o2 where u2: "unpack (drop_bit 4 mark) tail s1 d1 o1 = Some (r2, s2, d2, o2)"
        "d2 \<le> tail" "length o2 = length o1" using unpack_safe [OF u1(2) _ nib(2)] u1(3) less.prems by metis
      show ?thesis
      proof (cases r2)
        case False
        then show ?thesis using u1 u2 r1 Cons by (subst decompress_loop.simps) auto
      next
        case True
        have "length s2 < length src" using unpack_input [OF u1(1)] unpack_input [OF u2(1)] Cons by simp
        then show ?thesis
          using less.hyps [of s2 d2 o2] u1 u2 r1 True less.prems Cons
          by (simp add: decompress_step)
      qed
    qed
  qed
qed

lemma Decompress_in_bounds:
  assumes "parse_size 0 0 src = Some (sz, rest)" and "unat sz < 2 ^ 32 - 7"
  shows "\<exists>ok out. Decompress src = Some (ok, out) \<and> (ok \<longrightarrow> length out = unat sz)"
proof -
  have sz: "unat (sz + 7) = unat sz + 7" using assms(2) by (simp add: unat_word_ariths)
  obtain r dest out where "decompress_loop (unat sz) rest 0 (replicate (unat sz + 7) 0) = Some (r, dest, out)"
    "length out = unat sz + 7"
    using decompress_loop_safe [of 0 "unat sz" "replicate (unat sz + 7) 0" rest] by auto
  moreover have "src \<noteq> []" using assms(1) by (auto simp: parse_size.simps)
  ultimately show ?thesis using assms sz by (cases r) (auto simp: Decompress_def Let_def)
qed

text \<open>
  Claim C25: on any input, whether or not \<open>Compress\<close> made it, \<open>Decompress\<close> stays inside its output
  string provided that the length the input declares is below \<open>2 ^ 32 - 7\<close>; it then returns, and
  when it accepts, the output has the declared length.
\<close>

theorem decompress_safe:
  assumes "parse_size 0 0 src = Some (sz, rest)" and "unat sz < 2 ^ 32 - 7"
  shows "\<exists>ok out. Decompress src = Some (ok, out) \<and> (ok \<longrightarrow> length out = unat sz)"
  by (rule Decompress_in_bounds [OF assms])

theorem decompress_safe_witness:
  "parse_size 0 0 [3, 0x18] = Some (3, [0x18]) \<and> unat (3 :: u32) < 2 ^ 32 - 7 \<and>
   (\<exists>ok out. Decompress [3, 0x18] = Some (ok, out) \<and> (ok \<longrightarrow> length out = 3))"
proof -
  have "parse_size 0 0 [3, 0x18] = Some (3, [0x18])" by (simp add: parse_size.simps)
  then show ?thesis using decompress_safe [of "[3, 0x18]" 3 "[0x18]"] by simp
qed

text \<open>
  Claim C26: the bound is needed. A declared length of \<open>2 ^ 32 - 1\<close> makes \<open>size + 7\<close> wrap around to
  6 in 32 bits, while the bounds checks still compare with the declared length: a six-byte input
  makes \<open>Decompress\<close> write outside of its output string.
\<close>

theorem decompress_size_overflow: "Decompress [0xff, 0xff, 0xff, 0xff, 0x0f, 0xbb] = None"
proof -
  have size: "parse_size 0 0 [0xff, 0xff, 0xff, 0xff, 0x0f, 0xbb] = Some (0xffffffff, [0xbb])"
    by (simp add: parse_size.simps)
  have "decompress_loop 0xffffffff [0xbb] 0 (replicate 6 0) = None"
    by (simp add: decompress_loop.simps unpack_def wr_range_def)
  then show ?thesis using size by (simp add: Decompress_def)
qed

end
