(* ===== verification/Hash.thy ===== *)
theory Hash
  imports Prelude
begin

text \<open>
  src/hash.h and src/hash.cc: the 128-bit SpookyHash of map keys and the xorshift generator of
  hash seeds. The message is a byte list and a read outside of it is \<open>None\<close>; the unaligned loads
  of the source read little-endian words.
\<close>

subsection \<open>Model\<close>

type_synonym hstate = "u64 \<times> u64 \<times> u64 \<times> u64"

definition Rot64 :: "u64 \<Rightarrow> nat \<Rightarrow> u64" where
  "Rot64 x k = push_bit k x OR drop_bit (64 - k) x"

text \<open>
  One line of \<open>Mix\<close>, \<open>x = Rot64(x,k); x += y; z ^= x;\<close>, returns the new \<open>x\<close> and \<open>z\<close>; one line of
  \<open>End\<close>, \<open>x ^= y; y = Rot64(y,k); x += y;\<close>, the new \<open>x\<close> and \<open>y\<close>.
\<close>

definition mix3 :: "nat \<Rightarrow> u64 \<Rightarrow> u64 \<Rightarrow> u64 \<Rightarrow> u64 \<times> u64" where
  "mix3 k x y z = (let x = Rot64 x k; x = x + y in (x, z XOR x))"

definition end3 :: "nat \<Rightarrow> u64 \<Rightarrow> u64 \<Rightarrow> u64 \<times> u64" where
  "end3 k x y = (let x = x XOR y; y = Rot64 y k in (x + y, y))"

definition Mix :: "hstate \<Rightarrow> hstate" where
  "Mix = (\<lambda>(h0, h1, h2, h3).
    let (h2, h0) = mix3 50 h2 h3 h0;
        (h3, h1) = mix3 52 h3 h0 h1;
        (h0, h2) = mix3 30 h0 h1 h2;
        (h1, h3) = mix3 41 h1 h2 h3;
        (h2, h0) = mix3 54 h2 h3 h0;
        (h3, h1) = mix3 48 h3 h0 h1;
        (h0, h2) = mix3 38 h0 h1 h2;
        (h1, h3) = mix3 37 h1 h2 h3;
        (h2, h0) = mix3 62 h2 h3 h0;
        (h3, h1) = mix3 34 h3 h0 h1;
        (h0, h2) = mix3 5 h0 h1 h2;
        (h1, h3) = mix3 36 h1 h2 h3
    in (h0, h1, h2, h3))"

definition End :: "hstate \<Rightarrow> hstate" where
  "End = (\<lambda>(h0, h1, h2, h3).
    let (h3, h2) = end3 15 h3 h2;
        (h0, h3) = end3 52 h0 h3;
        (h1, h0) = end3 26 h1 h0;
        (h2, h1) = end3 51 h2 h1;
        (h3, h2) = end3 28 h3 h2;
        (h0, h3) = end3 9 h0 h3;
        (h1, h0) = end3 47 h1 h0;
        (h2, h1) = end3 54 h2 h1;
        (h3, h2) = end3 32 h3 h2;
        (h0, h3) = end3 25 h0 h3;
        (h1, h0) = end3 63 h1 h0
    in (h0, h1, h2, h3))"

record V128 =
  u64_0 :: u64
  u64_1 :: u64

text \<open>The \<open>u32\<close> member of the union, on a little-endian machine.\<close>

definition u32_at :: "V128 \<Rightarrow> nat \<Rightarrow> u32" where
  "u32_at v j =
    (if j = 0 then ucast (u64_0 v) else if j = 1 then ucast (drop_bit 32 (u64_0 v))
     else if j = 2 then ucast (u64_1 v) else ucast (drop_bit 32 (u64_1 v)))"

definition load64 :: "u8 list \<Rightarrow> nat \<Rightarrow> u64 option" where
  "load64 msg off = map_option word_of_bytes (rd_range msg off 8)"

definition load32 :: "u8 list \<Rightarrow> nat \<Rightarrow> u32 option" where
  "load32 msg off = map_option word_of_bytes (rd_range msg off 4)"

text \<open>\<open>((uint64_t)msg[i]) << s\<close>, for the cases of the switch that are reached.\<close>

definition tail_byte :: "bool \<Rightarrow> u8 list \<Rightarrow> nat \<Rightarrow> nat \<Rightarrow> u64 \<Rightarrow> u64 option" where
  "tail_byte reached msg i s h =
    (if reached then do { b \<leftarrow> rd msg i; Some (h + push_bit s (ucast b)) } else Some h)"

fun hash_blocks :: "nat \<Rightarrow> u8 list \<Rightarrow> hstate \<Rightarrow> (u8 list \<times> hstate) option" where
  "hash_blocks 0 msg h = Some (msg, h)"
| "hash_blocks (Suc k) msg (a, b, c, d) = do {
     x0 \<leftarrow> load64 msg 0;
     x1 \<leftarrow> load64 msg 8;
     (a, b, c, d) \<leftarrow> Some (Mix (a, b, c + x0, d + x1));
     x2 \<leftarrow> load64 msg 16;
     x3 \<leftarrow> load64 msg 24;
     hash_blocks k (drop 32 msg) (a + x2, b + x3, c, d)
   }"

definition magic :: u64 where
  "magic = 0xdeadbeefdeadbeef"

text \<open>The switch on the last bytes; a case falls through to the ones below it up to a break.\<close>

definition hash_tail :: "nat \<Rightarrow> u8 list \<Rightarrow> u64 \<Rightarrow> u64 \<Rightarrow> (u64 \<times> u64) option" where
  "hash_tail n msg c d =
    (if 12 \<le> n then do {
       d \<leftarrow> tail_byte (15 \<le> n) msg 14 48 d;
       d \<leftarrow> tail_byte (14 \<le> n) msg 13 40 d;
       d \<leftarrow> tail_byte (13 \<le> n) msg 12 32 d;
       w \<leftarrow> load32 msg 8;
       x \<leftarrow> load64 msg 0;
       Some (c + x, d + ucast w)
     } else if 8 \<le> n then do {
       d \<leftarrow> tail_byte (11 \<le> n) msg 10 16 d;
       d \<leftarrow> tail_byte (10 \<le> n) msg 9 8 d;
       d \<leftarrow> tail_byte (9 \<le> n) msg 8 0 d;
       x \<leftarrow> load64 msg 0;
       Some (c + x, d)
     } else if 4 \<le> n then do {
       c \<leftarrow> tail_byte (7 \<le> n) msg 6 48 c;
       c \<leftarrow> tail_byte (6 \<le> n) msg 5 40 c;
       c \<leftarrow> tail_byte (5 \<le> n) msg 4 32 c;
       w \<leftarrow> load32 msg 0;
       Some (c + ucast w, d)
     } else if 1 \<le> n then do {
       c \<leftarrow> tail_byte (3 \<le> n) msg 2 16 c;
       c \<leftarrow> tail_byte (2 \<le> n) msg 1 8 c;
       c \<leftarrow> tail_byte (1 \<le> n) msg 0 0 c;
       Some (c, d)
     } else Some (c + magic, d + magic))"

definition Hash128 :: "u8 list \<Rightarrow> u32 \<Rightarrow> u64 \<Rightarrow> V128 option" where
  "Hash128 msg len seed = do {
     (msg, (a, b, c, d)) \<leftarrow> hash_blocks (unat (len AND NOT 0x1f) div 32) msg (seed, seed, magic, magic);
     (msg, (a, b, c, d)) \<leftarrow>
       (if len AND 0x10 \<noteq> 0 then do {
          x0 \<leftarrow> load64 msg 0;
          x1 \<leftarrow> load64 msg 8;
          Some (drop 16 msg, Mix (a, b, c + x0, d + x1))
        } else Some (msg, (a, b, c, d)));
     (c, d) \<leftarrow> hash_tail (unat (len AND 0xf)) msg c (d + push_bit 56 (ucast len));
     (a, b, c, d) \<leftarrow> Some (End (a, b, c, d));
     Some \<lparr>u64_0 = a, u64_1 = b\<rparr>
   }"

record XorShift =
  xs0 :: u32
  xs1 :: u32
  xs2 :: u32
  xs3 :: u32

definition xorshift_init :: "u32 \<Rightarrow> XorShift" where
  "xorshift_init seed = \<lparr>xs0 = 0x6c078965, xs1 = 0x9908b0df, xs2 = 0x9d2c5680, xs3 = seed\<rparr>"

definition Next :: "XorShift \<Rightarrow> u32 \<times> XorShift" where
  "Next s =
    (let t = xs0 s XOR push_bit 11 (xs0 s);
         n = xs3 s XOR (drop_bit 19 (xs3 s) XOR t XOR drop_bit 8 t)
     in (n, \<lparr>xs0 = xs1 s, xs1 = xs2 s, xs2 = xs3 s, xs3 = n\<rparr>))"

subsection \<open>Reads stay inside the message\<close>

lemma load64_append: "off + 8 \<le> length msg \<Longrightarrow> load64 (msg @ rest) off = load64 msg off"
  by (simp add: load64_def)

lemma load64_Some: "off + 8 \<le> length msg \<Longrightarrow> \<exists>x. load64 msg off = Some x"
  by (simp add: load64_def)

lemma load32_append: "off + 4 \<le> length msg \<Longrightarrow> load32 (msg @ rest) off = load32 msg off"
  by (simp add: load32_def)

lemma load32_Some: "off + 4 \<le> length msg \<Longrightarrow> \<exists>x. load32 msg off = Some x"
  by (simp add: load32_def)

lemma hash_blocks_reads:
  "32 * k \<le> length msg \<Longrightarrow> \<exists>h'. \<forall>rest. hash_blocks k (msg @ rest) h = Some (drop (32 * k) msg @ rest, h')"
proof (induction k arbitrary: msg h)
  case 0
  show ?case by (rule exI [of _ h]) simp
next
  case (Suc k)
  obtain a b c d where h: "h = (a, b, c, d)" by (rule prod_cases4)
  obtain x0 x1 x2 x3 where x: "load64 msg 0 = Some x0" "load64 msg 8 = Some x1" "load64 msg 16 = Some x2"
    "load64 msg 24 = Some x3" using Suc.prems load64_Some by fastforce
  obtain a' b' c' d' where m: "Mix (a, b, c + x0, d + x1) = (a', b', c', d')" by (metis prod_cases4)
  obtain h' where "\<forall>rest. hash_blocks k (drop 32 msg @ rest) (a' + x2, b' + x3, c', d') =
      Some (drop (32 * k) (drop 32 msg) @ rest, h')"
    using Suc.IH [of "drop 32 msg"] Suc.prems by fastforce
  then show ?case
    using Suc.prems x m by (intro exI [of _ h']) (simp add: h load64_append add.commute)
qed

lemma hash_tail_reads:
  assumes "n \<le> length msg" and "n < 16"
  shows "\<exists>r. \<forall>rest. hash_tail n (msg @ rest) c d = Some r"
proof -
  have rd: "i < n \<Longrightarrow> rd (msg @ rest) i = rd msg i" "i < n \<Longrightarrow> rd msg i = Some (msg ! i)" for i rest
    using assms by (simp_all add: rd_def nth_append)
  have l8: "load64 (msg @ rest) 0 = load64 msg 0" "\<exists>x. load64 msg 0 = Some x" if "8 \<le> n" for rest
    using load64_Some [of 0 msg] load64_append [of 0 msg] assms that by auto
  have l4: "load32 (msg @ rest) i = load32 msg i" "\<exists>x. load32 msg i = Some x" if "i + 4 \<le> n" for i rest
    using load32_Some [of i msg] load32_append [of i msg] assms that by auto
  have "hash_tail n (msg @ rest) c d = hash_tail n msg c d" for rest
    using rd l8 l4 [of 8] l4 [of 0] by (simp add: hash_tail_def tail_byte_def cong: if_cong)
  moreover have "hash_tail n msg c d \<noteq> None"
    using rd(2) l8(2) l4(2) [of 8] l4(2) [of 0] by (auto simp: hash_tail_def tail_byte_def)
  ultimately show ?thesis by auto
qed

lemma len_parts:
  fixes len :: u32
  shows "unat (len AND NOT 0x1f) div 32 = unat len div 32"
    "len AND 0x10 \<noteq> 0 \<longleftrightarrow> odd (unat len div 16)" "unat (len AND 0xf) = unat len mod 16"
proof -
  have m5: "(0x1f :: u32) = mask 5" and m4: "(0xf :: u32) = mask 4" by (simp_all add: mask_eq_exp_minus_1)
  have "len AND NOT 0x1f = push_bit 5 (drop_bit 5 len)"
    unfolding m5 by (rule bit_word_eqI) (auto simp: bit_simps)
  moreover have "unat (push_bit 5 (drop_bit 5 len)) = unat len div 32 * 32"
    using unat_u32 [of len] div_times_less_eq_dividend [of "unat len" 32] by (simp add: unat_bridge)
  ultimately show "unat (len AND NOT 0x1f) div 32 = unat len div 32" by (simp only:)
  have "unat (len AND 0xf) = take_bit 4 (unat len)"
    unfolding m4 by (simp only: take_bit_eq_mask [symmetric] unsigned_take_bit_eq)
  then show "unat (len AND 0xf) = unat len mod 16" by (simp add: take_bit_eq_mod)
  have "len AND 0x10 \<noteq> 0 \<longleftrightarrow> bit len 4"
    using and_exp_eq_0_iff_not_bit [of len 4] by simp
  also have "\<dots> \<longleftrightarrow> bit (unat len) 4" by (simp add: bit_unsigned_iff)
  finally show "len AND 0x10 \<noteq> 0 \<longleftrightarrow> odd (unat len div 16)" by (simp add: bit_nat_def)
qed

lemma Hash128_reads:
  assumes "length msg = unat len"
  shows "\<exists>v. \<forall>rest. Hash128 (msg @ rest) len seed = Some v"
proof -
  let ?n = "unat len" and ?k = "unat len div 32"
  obtain a b c d where blocks: "\<forall>rest. hash_blocks ?k (msg @ rest) (seed, seed, magic, magic) =
      Some (drop (32 * ?k) msg @ rest, (a, b, c, d))"
    using hash_blocks_reads [of ?k msg "(seed, seed, magic, magic)"] assms by (metis prod_cases4 times_div_less_eq_dividend)
  define m1 where "m1 = drop (32 * ?k) msg"
  have l1: "length m1 = ?n mod 32" using assms by (simp add: m1_def minus_mult_div_eq_mod)
  define half where "half = odd (?n div 16)"
  have n32: "?n mod 32 = ?n mod 16 + 16 * of_bool half"
    using mod_mult2_eq [of ?n 16 2] by (simp add: half_def mod_2_eq_odd)
  obtain m2 h2 where mid: "\<forall>rest. (if half then do {
          x0 \<leftarrow> load64 (m1 @ rest) 0; x1 \<leftarrow> load64 (m1 @ rest) 8;
          Some (drop 16 (m1 @ rest), Mix (a, b, c + x0, d + x1))
        } else Some (m1 @ rest, (a, b, c, d))) = Some (m2 @ rest, h2)" "length m2 = ?n mod 16"
  proof (cases half)
    case True
    then have "16 \<le> length m1" using l1 n32 by simp
    moreover from this obtain x0 x1 where "load64 m1 0 = Some x0" "load64 m1 8 = Some x1"
      using load64_Some by fastforce
    ultimately show thesis
      using True l1 n32 by (intro that [of "drop 16 m1"]) (auto simp: load64_append)
  next
    case False
    then show thesis using l1 n32 by (intro that [of m1]) auto
  qed
  obtain a2 b2 c2 d2 where h2: "h2 = (a2, b2, c2, d2)" by (metis prod_cases4)
  obtain c3 d3 where tail: "\<forall>rest. hash_tail (?n mod 16) (m2 @ rest) c2 (d2 + push_bit 56 (ucast len)) = Some (c3, d3)"
    using hash_tail_reads [of "?n mod 16" m2] mid(2) by (metis le_refl mod_less_divisor surj_pair zero_less_numeral)
  obtain a4 b4 c4 d4 where e: "End (a2, b2, c3, d3) = (a4, b4, c4, d4)" by (metis prod_cases4)
  have "Hash128 (msg @ rest) len seed = Some \<lparr>u64_0 = a4, u64_1 = b4\<rparr>" for rest
    using blocks mid(1) tail e
    by (simp add: Hash128_def len_parts len_parts(1) [simplified] m1_def [symmetric] half_def [symmetric] h2 del: drop_append)
  then show ?thesis by blast
qed

text \<open>
  Hashing a message of the given length never reads outside of it, and the result does not
  depend on the bytes that follow it in memory.
\<close>

theorem hash128_in_bounds:
  assumes "length msg = unat len"
  shows "\<exists>v. Hash128 msg len seed = Some v \<and> (\<forall>rest. Hash128 (msg @ rest) len seed = Some v)"
  using Hash128_reads [OF assms, of seed] by (metis append_Nil2)

theorem hash128_in_bounds_witness:
  "length [1, 2, 3 :: u8] = unat (3 :: u32) \<and> (\<exists>v. Hash128 [1, 2, 3] 3 5 = Some v \<and> Hash128 ([1, 2, 3] @ [9]) 3 5 = Some v)"
  using hash128_in_bounds [of "[1, 2, 3]" 3 5] by auto

subsection \<open>The mixing steps are permutations\<close>

definition Rot64_inv :: "u64 \<Rightarrow> nat \<Rightarrow> u64" where
  "Rot64_inv x k = drop_bit k x OR push_bit (64 - k) x"

lemma Rot64_inv [simp]:
  assumes "0 < k" and "k < 64"
  shows "Rot64_inv (Rot64 x k) k = x"
proof (rule bit_word_eqI)
  fix n assume n: "n < LENGTH(64)"
  show "bit (Rot64_inv (Rot64 x k) k) n = bit x n"
  proof (cases "n + k < 64")
    case True
    then show ?thesis using assms n by (auto simp: Rot64_inv_def Rot64_def bit_simps add.commute)
  next
    case False
    then have "64 - k + (n + k - 64) = n" using n assms by simp
    with False show ?thesis using assms n by (auto simp: Rot64_inv_def Rot64_def bit_simps add.commute)
  qed
qed

lemma Rot64_inject [simp]: "0 < k \<Longrightarrow> k < 64 \<Longrightarrow> Rot64 x k = Rot64 y k \<longleftrightarrow> x = y"
  by (metis Rot64_inv)

lemma xor_cancel: "a XOR c = b XOR c \<Longrightarrow> a = b" for a b c :: u64
  by (drule arg_cong [where f = "\<lambda>x. x XOR c"]) (simp add: xor.assoc)

text \<open>One line of \<open>Mix\<close> and of \<open>End\<close>, with the state rotated so that all lines have one shape.\<close>

definition mix_line :: "nat \<Rightarrow> hstate \<Rightarrow> hstate" where
  "mix_line k = (\<lambda>(h0, h1, h2, h3). let (h2, h0) = mix3 k h2 h3 h0 in (h1, h2, h3, h0))"

definition end_line :: "nat \<Rightarrow> hstate \<Rightarrow> hstate" where
  "end_line k = (\<lambda>(h0, h1, h2, h3). let (h3, h2) = end3 k h3 h2 in (h1, h2, h3, h0))"

lemma mix_line_inject:
  assumes "0 < k" and "k < 64" and "mix_line k x = mix_line k y"
  shows "x = y"
proof (cases x rule: prod_cases4, cases y rule: prod_cases4)
  fix a b c d a' b' c' d' assume x: "x = (a, b, c, d)" and y: "y = (a', b', c', d')"
  from assms(3) have *: "b = b'" "Rot64 c k + d = Rot64 c' k + d'" "d = d'"
      "a XOR (Rot64 c k + d) = a' XOR (Rot64 c' k + d')"
    by (auto simp: x y mix_line_def mix3_def Let_def)
  then have "Rot64 c k = Rot64 c' k" by (metis add_right_cancel)
  then have "c = c'" using assms by (metis Rot64_inject)
  moreover have "a = a'" using * by (metis xor_cancel)
  ultimately show "x = y" using * x y by metis
qed

lemma end_line_inject:
  assumes "0 < k" and "k < 64" and "end_line k x = end_line k y"
  shows "x = y"
proof (cases x rule: prod_cases4, cases y rule: prod_cases4)
  fix a b c d a' b' c' d' assume x: "x = (a, b, c, d)" and y: "y = (a', b', c', d')"
  from assms(3) have *: "a = a'" "b = b'" "Rot64 c k = Rot64 c' k"
      "(d XOR c) + Rot64 c k = (d' XOR c') + Rot64 c' k"
    by (auto simp: x y end_line_def end3_def Let_def)
  then have "d XOR c = d' XOR c'" by (metis add_right_cancel)
  moreover have "c = c'" using assms * by (metis Rot64_inject)
  ultimately show "x = y" using * x y by (metis xor_cancel)
qed

lemma mix_line_tuple: "mix_line k (h0, h1, h2, h3) = (case mix3 k h2 h3 h0 of (h2, h0) \<Rightarrow> (h1, h2, h3, h0))"
  by (simp add: mix_line_def)

lemma end_line_tuple: "end_line k (h0, h1, h2, h3) = (case end3 k h3 h2 of (h3, h2) \<Rightarrow> (h1, h2, h3, h0))"
  by (simp add: end_line_def)

lemma Mix_lines:
  "Mix = mix_line 36 \<circ> mix_line 5 \<circ> mix_line 34 \<circ> mix_line 62 \<circ> mix_line 37 \<circ> mix_line 38 \<circ>
     mix_line 48 \<circ> mix_line 54 \<circ> mix_line 41 \<circ> mix_line 30 \<circ> mix_line 52 \<circ> mix_line 50"
proof
  show "Mix x = (mix_line 36 \<circ> mix_line 5 \<circ> mix_line 34 \<circ> mix_line 62 \<circ> mix_line 37 \<circ> mix_line 38 \<circ>
     mix_line 48 \<circ> mix_line 54 \<circ> mix_line 41 \<circ> mix_line 30 \<circ> mix_line 52 \<circ> mix_line 50) x" for x
    by (cases x rule: prod_cases4)
      (simp only: Mix_def Let_def prod.case mix_line_tuple comp_apply prod.case_distrib [where h = "mix_line _"])
qed

definition rot_state :: "hstate \<Rightarrow> hstate" where
  "rot_state = (\<lambda>(h0, h1, h2, h3). (h3, h0, h1, h2))"

lemma End_lines:
  "rot_state \<circ> End = end_line 63 \<circ> end_line 25 \<circ> end_line 32 \<circ> end_line 54 \<circ> end_line 47 \<circ> end_line 9 \<circ>
     end_line 28 \<circ> end_line 51 \<circ> end_line 26 \<circ> end_line 52 \<circ> end_line 15"
proof
  have tuple: "rot_state (h0, h1, h2, h3) = (h3, h0, h1, h2)" for h0 h1 h2 h3 by (simp add: rot_state_def)
  show "(rot_state \<circ> End) x = (end_line 63 \<circ> end_line 25 \<circ> end_line 32 \<circ> end_line 54 \<circ> end_line 47 \<circ>
     end_line 9 \<circ> end_line 28 \<circ> end_line 51 \<circ> end_line 26 \<circ> end_line 52 \<circ> end_line 15) x" for x
    by (cases x rule: prod_cases4)
      (simp only: End_def Let_def prod.case end_line_tuple tuple comp_apply
        prod.case_distrib [where h = "end_line _"] prod.case_distrib [where h = rot_state])
qed

text \<open>
  The rounds of the hash lose no information: \<open>Mix\<close> and \<open>End\<close> are injective on the
  256-bit state, so two different states never meet before the state is cut to 128 bits.
\<close>

theorem hash_rounds_injective: "inj Mix \<and> inj End"
proof
  have m: "inj (mix_line k)" and e: "inj (end_line k)" if "0 < k" "k < 64" for k
    by (rule injI, erule mix_line_inject [OF that], rule injI, erule end_line_inject [OF that])
  show "inj Mix" unfolding Mix_lines by (intro inj_compose m) simp_all
  have "inj (rot_state \<circ> End)" unfolding End_lines by (intro inj_compose e) simp_all
  then show "inj End" by (rule inj_on_imageI2)
qed

end
