(* ===== verification/Bitmaps.thy ===== *)
theory Bitmaps
  imports Bits
begin

text \<open>
  The two bit vectors of src/perfect_hash.cc: the bitmap of the index, with a two-bit field per
  slot, and the book of visited vertices, with one bit per vertex. Both are byte arrays with checked
  accesses. The abstract values are the functions \<open>slot_val\<close> and \<open>marked\<close>.
\<close>

subsection \<open>Model\<close>

definition Bit2 :: "u8 list \<Rightarrow> nat \<Rightarrow> nat option" where
  "Bit2 vec pos = do {
     b \<leftarrow> rd vec (pos div 4);
     Some (unat (drop_bit (2 * (pos mod 4)) b AND 3))
   }"

definition SetBit2on11 :: "u8 list \<Rightarrow> nat \<Rightarrow> u8 \<Rightarrow> u8 list option" where
  "SetBit2on11 vec pos val = do {
     b \<leftarrow> rd vec (pos div 4);
     Some (vec[pos div 4 := b XOR push_bit (2 * (pos mod 4)) (NOT val AND 3)])
   }"

definition SetBit :: "u8 list \<Rightarrow> nat \<Rightarrow> u8 list option" where
  "SetBit bitmap pos = do {
     b \<leftarrow> rd bitmap (pos div 8);
     Some (bitmap[pos div 8 := b OR push_bit (pos mod 8) 1])
   }"

definition TestAndSetBit :: "u8 list \<Rightarrow> nat \<Rightarrow> (bool \<times> u8 list) option" where
  "TestAndSetBit bitmap pos = do {
     b \<leftarrow> rd bitmap (pos div 8);
     let m = push_bit (pos mod 8) 1;
     if b AND m \<noteq> 0 then Some (False, bitmap)
     else Some (True, bitmap[pos div 8 := b OR m])
   }"

subsection \<open>The fields of the bitmap\<close>

definition slot_val :: "u8 list \<Rightarrow> nat \<Rightarrow> nat" where
  "slot_val vec pos = field2 (unat (vec ! (pos div 4))) (pos mod 4)"

lemma slot_val_less [simp]: "slot_val vec pos < 4"
  by (simp add: slot_val_def)

lemma field2_drop_bit: "unat (drop_bit (2 * i) b AND 3) = field2 (unat b) i" for b :: u8
proof -
  have "unat (drop_bit (2 * i) b AND 3) = unat (drop_bit (2 * i) b) mod 4"
    using nat_and_mask [of "unat (drop_bit (2 * i) b)" 2] by (simp add: unsigned_and_eq)
  then show ?thesis by (simp add: field2_def unat_drop_bit power_mult)
qed

lemma Bit2_eq: "pos < 4 * length vec \<Longrightarrow> Bit2 vec pos = Some (slot_val vec pos)"
  by (simp add: Bit2_def field2_drop_bit slot_val_def less_mult_imp_div_less mult.commute)

lemma slot_val_bits:
  "slot_val vec pos = of_bool (bit (vec ! (pos div 4)) (2 * (pos mod 4))) +
    2 * of_bool (bit (vec ! (pos div 4)) (2 * (pos mod 4) + 1))"
  by (simp add: slot_val_def field2_bits)

lemma slot_val_replicate: "pos < 4 * n \<Longrightarrow> slot_val (replicate n 0xff) pos = 3"
proof -
  assume "pos < 4 * n"
  then have "slot_val (replicate n 0xff) pos = field2 (unat (0xff :: u8)) (pos mod 4)"
    by (simp add: slot_val_def less_mult_imp_div_less mult.commute)
  moreover have "pos mod 4 \<in> {0, 1, 2, 3}" by auto
  ultimately show ?thesis by (auto simp: field2_def)
qed

text \<open>A field that is \<open>11\<close> takes the value it is given, and no other field changes.\<close>

lemma complement_bits:
  assumes "val < 4"
  shows "bit (NOT (of_nat val) AND 3 :: u8) n \<longleftrightarrow> n = 0 \<and> even val \<or> n = 1 \<and> val < 2"
proof -
  have all: "list_all (\<lambda>v. list_all (\<lambda>n. bit (NOT (of_nat v) AND 3 :: u8) n =
      (n = 0 \<and> even v \<or> n = 1 \<and> v < 2)) [0..<8]) [0..<4]"
    by code_simp
  show ?thesis
  proof (cases "n < 8")
    case True
    then show ?thesis using all assms unfolding list_all_iff set_upt atLeast0LessThan by blast
  next
    case False
    then have "\<not> bit (NOT (of_nat val) AND 3 :: u8) n" using bit_imp_le_length by fastforce
    then show ?thesis using False by simp
  qed
qed

lemma SetBit2on11_eq:
  assumes pos: "pos < 4 * length vec" and three: "slot_val vec pos = 3" and "val < 4"
  obtains vec' where "SetBit2on11 vec pos (of_nat val) = Some vec'" "length vec' = length vec"
    "\<And>q. q < 4 * length vec \<Longrightarrow> slot_val vec' q = (if q = pos then val else slot_val vec q)"
proof
  let ?i = "pos div 4" and ?k = "2 * (pos mod 4)"
  let ?b' = "vec ! ?i XOR push_bit ?k (NOT (of_nat val) AND 3)"
  let ?vec = "vec[?i := ?b']"
  have i: "?i < length vec" using pos by (simp add: less_mult_imp_div_less mult.commute)
  then show "SetBit2on11 vec pos (of_nat val) = Some ?vec" by (simp add: SetBit2on11_def)
  show "length ?vec = length vec" by simp
  fix q assume "q < 4 * length vec"
  have old: "bit (vec ! ?i) ?k" "bit (vec ! ?i) (?k + 1)"
    using three by (auto simp: slot_val_bits of_bool_def split: if_splits)
  have new: "bit ?b' n = (if n = ?k then odd val else if n = ?k + 1 then val \<ge> 2 else bit (vec ! ?i) n)"
    if "n < 8" for n
  proof -
    have "n - ?k = 0 \<and> ?k \<le> n \<longleftrightarrow> n = ?k" "n - ?k = 1 \<and> ?k \<le> n \<longleftrightarrow> n = ?k + 1" by auto
    then show ?thesis
      using that old complement_bits [OF \<open>val < 4\<close>, of "n - ?k"]
      by (auto simp: bit_xor_iff bit_push_bit_iff simp del: push_bit_and)
  qed
  have val: "of_bool (odd val) + 2 * of_bool (2 \<le> val) = val"
    using \<open>val < 4\<close> by (cases "2 \<le> val"; cases "odd val") (simp_all, presburger+)
  show "slot_val ?vec q = (if q = pos then val else slot_val vec q)"
  proof (cases "q div 4 = ?i")
    case True
    have eq: "q = pos \<longleftrightarrow> q mod 4 = pos mod 4" using True by (metis div_mult_mod_eq)
    have b': "slot_val ?vec q = of_bool (bit ?b' (2 * (q mod 4))) + 2 * of_bool (bit ?b' (2 * (q mod 4) + 1))"
      unfolding slot_val_bits using True i by (simp only: nth_list_update_eq)
    have small: "2 * (q mod 4) < 8" "2 * (q mod 4) + 1 < 8" by auto
    show ?thesis
    proof (cases "q = pos")
      case True
      then show ?thesis using b' new [OF small(1)] new [OF small(2)] val by simp
    next
      case False
      have dist: "2 * a \<noteq> 2 * b" "2 * a + 1 \<noteq> 2 * b" "2 * a \<noteq> 2 * b + 1" "2 * a + 1 \<noteq> 2 * b + 1"
        if "a \<noteq> b" for a b :: nat using that by presburger+
      have "q mod 4 \<noteq> pos mod 4" using False eq by blast
      from dist [OF this] have "bit ?b' (2 * (q mod 4)) = bit (vec ! ?i) (2 * (q mod 4))"
          "bit ?b' (2 * (q mod 4) + 1) = bit (vec ! ?i) (2 * (q mod 4) + 1)"
        by (simp_all only: new [OF small(1)] new [OF small(2)] if_False)
      then show ?thesis using False b' True by (simp only: slot_val_bits [of vec q] if_False)
    qed
  next
    case False
    then show ?thesis by (auto simp: slot_val_def)
  qed
qed

subsection \<open>The marks of the book\<close>

definition marked :: "u8 list \<Rightarrow> nat \<Rightarrow> bool" where
  "marked book pos = bit (book ! (pos div 8)) (pos mod 8)"

lemma marked_replicate [simp]: "pos < 8 * n \<Longrightarrow> \<not> marked (replicate n 0) pos"
  by (simp add: marked_def less_mult_imp_div_less mult.commute)

lemma marked_set:
  assumes "pos < 8 * length book"
  shows "marked (book[pos div 8 := book ! (pos div 8) OR push_bit (pos mod 8) 1]) q \<longleftrightarrow> q = pos \<or> marked book q"
proof (cases "q div 8 = pos div 8")
  case True
  have "q = pos \<longleftrightarrow> q mod 8 = pos mod 8" using True by (metis div_mult_mod_eq)
  moreover have "pos div 8 < length book" using assms by (simp add: less_mult_imp_div_less mult.commute)
  ultimately show ?thesis using True
    by (auto simp: marked_def bit_or_iff bit_exp_iff)
next
  case False
  then show ?thesis by (auto simp: marked_def)
qed

lemma SetBit_eq:
  assumes "pos < 8 * length book"
  obtains book' where "SetBit book pos = Some book'" "length book' = length book"
    "\<And>q. marked book' q \<longleftrightarrow> q = pos \<or> marked book q"
  using assms marked_set [OF assms] by (auto simp: SetBit_def less_mult_imp_div_less mult.commute)

lemma mask_bit_zero: "b AND push_bit k 1 = 0 \<longleftrightarrow> \<not> bit b k" for b :: "'a::len word"
  by (simp add: and_exp_eq_0_iff_not_bit)

lemma TestAndSetBit_eq:
  assumes "pos < 8 * length book"
  obtains book' where "TestAndSetBit book pos = Some (\<not> marked book pos, book')" "length book' = length book"
    "\<And>q. marked book' q \<longleftrightarrow> q = pos \<or> marked book q"
proof (cases "marked book pos")
  case True
  then show ?thesis using assms that [of book] mask_bit_zero [of "book ! (pos div 8)" "pos mod 8"]
    by (auto simp: TestAndSetBit_def less_mult_imp_div_less mult.commute Let_def marked_def)
next
  case False
  then show ?thesis
    using assms that [OF _ _ marked_set [OF assms]] mask_bit_zero [of "book ! (pos div 8)" "pos mod 8"]
    by (auto simp: TestAndSetBit_def less_mult_imp_div_less mult.commute Let_def marked_def)
qed

end
