(* ===== verification/PH_Graph.thy ===== *)
theory PH_Graph
  imports Divisor Hash Bitmaps
begin

text \<open>
  The hypergraph of src/perfect_hash.cc: \<open>CreateGraph\<close> turns every key into an edge with one vertex
  in each of three sections, where the edges of a vertex are a doubly linked list threaded through
  the edges themselves; \<open>TearGraph\<close> peels off edges that have a vertex of their own and records the
  order in \<open>free\<close>.

  The template parameter \<open>Word\<close> is the length of a word type: links and slots are \<open>'w word\<close> values.
  Every access to the arrays is checked, \<open>None\<close> is an access outside of them.
\<close>

subsection \<open>Model: keys\<close>

text \<open>The virtual functions of \<open>KeyReader\<close>, over the state of the reader; a null slice is \<open>None\<close>.\<close>

record 's KeyReader =
  kr_reset :: "'s \<Rightarrow> 's"
  kr_total :: "'s \<Rightarrow> nat"
  kr_read :: "'s \<Rightarrow> u8 list option \<times> 's"

text \<open>\<open>VectorReader\<close> of src/extension/serialize.cc, over the bytes of the keys.\<close>

record VectorReader =
  vr_keys :: "u8 list list"
  vr_idx :: nat

definition vr_reset :: "VectorReader \<Rightarrow> VectorReader" where
  "vr_reset r = r\<lparr>vr_idx := 0\<rparr>"

definition vr_total :: "VectorReader \<Rightarrow> nat" where
  "vr_total r = length (vr_keys r)"

definition vr_read :: "VectorReader \<Rightarrow> u8 list option \<times> VectorReader" where
  "vr_read r =
    (if vr_idx r \<ge> length (vr_keys r) then (None, r)
     else (Some (vr_keys r ! vr_idx r), r\<lparr>vr_idx := vr_idx r + 1\<rparr>))"

definition vector_reader :: "VectorReader KeyReader" where
  "vector_reader = \<lparr>kr_reset = vr_reset, kr_total = vr_total, kr_read = vr_read\<rparr>"

subsection \<open>Model: sizes\<close>

definition Section :: "u32 \<Rightarrow> u32" where
  "Section sz = ucast (max (10 :: u64) ((ucast sz * 105 + 255) div 256))"

definition BitmapSize :: "u32 \<Rightarrow> u32" where
  "BitmapSize sec = ((sec * 3 + 31) AND NOT 31) div 4"

definition RealSize :: "u32 \<Rightarrow> u32" where
  "RealSize sz = sz AND 0xfffffff"

subsection \<open>Model: the graph\<close>

record 'word Vertex =
  v_slot :: 'word
  v_prev :: 'word
  v_next :: 'word

record 'word Graph =
  edges :: "'word Vertex list list"
  nodes :: "'word list"

abbreviation kEnd :: "'w::len word" where
  "kEnd \<equiv> - 1"

definition vertex :: "'w::len word Graph \<Rightarrow> nat \<Rightarrow> nat \<Rightarrow> 'w word Vertex option" where
  "vertex g i j = do { e \<leftarrow> rd (edges g) i; rd e j }"

definition put_vertex :: "'w::len word Graph \<Rightarrow> nat \<Rightarrow> nat \<Rightarrow> 'w word Vertex \<Rightarrow> 'w word Graph option" where
  "put_vertex g i j v = do {
     e \<leftarrow> rd (edges g) i;
     _ \<leftarrow> rd e j;
     Some (g\<lparr>edges := (edges g)[i := e[j := v]]\<rparr>)
   }"

text \<open>The body of the inner loop of \<open>CreateGraph\<close>: vertex \<open>j\<close> of edge \<open>i\<close>.\<close>

definition create_vertex :: "Divisor \<Rightarrow> V128 \<Rightarrow> nat \<Rightarrow> nat \<Rightarrow> 'w::len word Graph \<Rightarrow> 'w word Graph option" where
  "create_vertex m code i j g = do {
     let slot = (ucast (mod_by (u32_at code j) m) :: 'w word);
     let pos = unat (ucast slot + of_nat j * d_val m :: u32);
     head \<leftarrow> rd (nodes g) pos;
     g \<leftarrow> put_vertex g i j \<lparr>v_slot = slot, v_prev = kEnd, v_next = head\<rparr>;
     let g = g\<lparr>nodes := (nodes g)[pos := of_nat i]\<rparr>;
     if head \<noteq> kEnd then do {
       u \<leftarrow> vertex g (unat head) j;
       put_vertex g (unat head) j (u\<lparr>v_prev := of_nat i\<rparr>)
     } else Some g
   }"

definition create_edge :: "Divisor \<Rightarrow> V128 \<Rightarrow> nat \<Rightarrow> 'w::len word Graph \<Rightarrow> 'w word Graph option" where
  "create_edge m code i g = do {
     g \<leftarrow> create_vertex m code i 0 g;
     g \<leftarrow> create_vertex m code i 1 g;
     create_vertex m code i 2 g
   }"

text \<open>\<open>Hash128(key.data(), key.size(), seed)\<close>: the size is cut to 32 bits, the seed widened.\<close>

definition hash_key :: "u8 list \<Rightarrow> u32 \<Rightarrow> V128 option" where
  "hash_key key seed = Hash128 key (of_nat (length key)) (ucast seed)"

fun create_loop :: "'s KeyReader \<Rightarrow> u32 \<Rightarrow> Divisor \<Rightarrow> nat \<Rightarrow> nat \<Rightarrow> 's \<Rightarrow> 'w::len word Graph \<Rightarrow>
    (bool \<times> 's \<times> 'w word Graph) option" where
  "create_loop R seed m i 0 s g = Some (True, s, g)"
| "create_loop R seed m i (Suc k) s g =
    (case kr_read R s of
       (None, s) \<Rightarrow> Some (False, s, g)
     | (Some key, s) \<Rightarrow> do {
         code \<leftarrow> hash_key key seed;
         g \<leftarrow> create_edge m code i g;
         create_loop R seed m (Suc i) k s g
       })"

definition CreateGraph :: "'s KeyReader \<Rightarrow> u32 \<Rightarrow> nat \<Rightarrow> Divisor \<Rightarrow> 's \<Rightarrow> 'w::len word Graph \<Rightarrow>
    (bool \<times> 's \<times> 'w word Graph) option" where
  "CreateGraph R seed n m s g = do {
     let s = kr_reset R s;
     ns \<leftarrow> wr_range (nodes g) 0 (replicate (unat (d_val m * 3)) kEnd);
     create_loop R seed m 0 n s (g\<lparr>nodes := ns\<rparr>)
   }"

subsection \<open>Model: peeling\<close>

text \<open>
  The queue of freed edges, the book of edges that were queued, and the tail of the queue. An edge
  is queued once, when one of its vertices has no other edge.
\<close>

type_synonym 'w queue = "'w word list \<times> u8 list \<times> nat"

definition try_free :: "'w::len word Vertex \<Rightarrow> nat \<Rightarrow> 'w queue \<Rightarrow> 'w queue option" where
  "try_free v i = (\<lambda>(free, book, tail).
     if v_prev v = kEnd \<and> v_next v = kEnd then do {
       (fresh, book) \<leftarrow> TestAndSetBit book i;
       if fresh then do {
         free \<leftarrow> wr_range free tail [of_nat i];
         Some (free, book, tail + 1)
       } else Some (free, book, tail)
     } else Some (free, book, tail))"

definition scan_vertex :: "'w::len word Graph \<Rightarrow> nat \<Rightarrow> nat \<Rightarrow> 'w queue \<Rightarrow> 'w queue option" where
  "scan_vertex g i j q = do { v \<leftarrow> vertex g i j; try_free v i q }"

fun tear_scan :: "'w::len word Graph \<Rightarrow> nat \<Rightarrow> 'w queue \<Rightarrow> 'w queue option" where
  "tear_scan g 0 q = Some q"
| "tear_scan g (Suc i) q = do {
     q \<leftarrow> scan_vertex g i 0 q;
     q \<leftarrow> scan_vertex g i 1 q;
     q \<leftarrow> scan_vertex g i 2 q;
     tear_scan g i q
   }"

text \<open>
  Unlinking vertex \<open>j\<close> of the edge \<open>cur\<close>. In the source \<open>v\<close> is a reference, so it is read again
  after the first store.
\<close>

definition tear_vertex :: "nat \<Rightarrow> nat \<Rightarrow> 'w::len word Graph \<times> 'w queue \<Rightarrow> ('w word Graph \<times> 'w queue) option" where
  "tear_vertex cur j = (\<lambda>(g, q). do {
     v \<leftarrow> vertex g cur j;
     (i, g) \<leftarrow>
       (if v_prev v \<noteq> kEnd then do {
          u \<leftarrow> vertex g (unat (v_prev v)) j;
          g \<leftarrow> put_vertex g (unat (v_prev v)) j (u\<lparr>v_next := v_next v\<rparr>);
          Some (v_prev v, g)
        } else Some (kEnd, g));
     v \<leftarrow> vertex g cur j;
     (i, g) \<leftarrow>
       (if v_next v \<noteq> kEnd then do {
          u \<leftarrow> vertex g (unat (v_next v)) j;
          g \<leftarrow> put_vertex g (unat (v_next v)) j (u\<lparr>v_prev := v_prev v\<rparr>);
          Some (v_next v, g)
        } else Some (i, g));
     if i = kEnd then Some (g, q)
     else do {
       u \<leftarrow> vertex g (unat i) j;
       q \<leftarrow> try_free u (unat i) q;
       Some (g, q)
     }
   })"

definition tear_edge :: "nat \<Rightarrow> 'w::len word Graph \<times> 'w queue \<Rightarrow> ('w word Graph \<times> 'w queue) option" where
  "tear_edge cur gq = do {
     gq \<leftarrow> tear_vertex cur 0 gq;
     gq \<leftarrow> tear_vertex cur 1 gq;
     tear_vertex cur 2 gq
   }"

lemma length_try_free: "try_free v i (free, book, tail) = Some (free', book', tail') \<Longrightarrow> length free' = length free"
  by (auto simp: try_free_def bind_eq_Some_conv wr_range_eq_Some_iff split: if_splits prod.splits)

lemma length_tear_vertex:
  "tear_vertex c j (g, free, book, tail) = Some (g', free', book', tail') \<Longrightarrow> length free' = length free"
  by (auto simp: tear_vertex_def bind_eq_Some_conv split: if_splits prod.splits dest!: length_try_free)

lemma length_tear_edge:
  "tear_edge c (g, free, book, tail) = Some (g', free', book', tail') \<Longrightarrow> length free' = length free"
  by (auto simp: tear_edge_def bind_eq_Some_conv dest!: length_tear_vertex)

text \<open>The loop ends because the head moves towards the end of the array \<open>free\<close>.\<close>

function tear_loop :: "nat \<Rightarrow> 'w::len word Graph \<Rightarrow> 'w word list \<Rightarrow> u8 list \<Rightarrow> nat \<Rightarrow> ('w word Graph \<times> 'w queue) option" where
  "tear_loop head g free book tail =
    (if head < tail then
       (case rd free head of
          None \<Rightarrow> None
        | Some cur \<Rightarrow>
            (case tear_edge (unat cur) (g, free, book, tail) of
               None \<Rightarrow> None
             | Some (g, free, book, tail) \<Rightarrow> tear_loop (head + 1) g free book tail))
     else Some (g, free, book, tail))"
  by pat_completeness auto
termination
  by (relation "measure (\<lambda>(head, g, free, book, tail). length free - head)")
    (auto simp: rd_eq_Some_iff dest!: length_tear_edge)

declare tear_loop.simps [simp del]

definition TearGraph :: "nat \<Rightarrow> 'w::len word Graph \<Rightarrow> 'w word list \<Rightarrow> u8 list \<Rightarrow>
    (bool \<times> 'w word Graph \<times> 'w word list \<times> u8 list) option" where
  "TearGraph n g free book = do {
     book \<leftarrow> wr_range book 0 (replicate ((n + 7) div 8) 0);
     (free, book, tail) \<leftarrow> tear_scan g n (free, book, 0);
     (g, free, book, tail) \<leftarrow> tear_loop 0 g free book tail;
     Some (tail = n, g, free, book)
   }"

subsection \<open>Linked columns\<close>

text \<open>
  The edges of a column that share a slot are linked in descending order. \<open>nx_ok\<close> and \<open>pv_ok\<close> say
  what a link means for the set \<open>A\<close> of edges that are still in the lists.
\<close>

definition nx_ok :: "(nat \<Rightarrow> 'b) \<Rightarrow> nat set \<Rightarrow> nat \<Rightarrow> 'w::len word \<Rightarrow> bool" where
  "nx_ok sl A i w =
    (if w = kEnd then \<forall>x\<in>A. x < i \<longrightarrow> sl x \<noteq> sl i
     else unat w \<in> A \<and> unat w < i \<and> sl (unat w) = sl i \<and> (\<forall>x\<in>A. unat w < x \<and> x < i \<longrightarrow> sl x \<noteq> sl i))"

definition pv_ok :: "(nat \<Rightarrow> 'b) \<Rightarrow> nat set \<Rightarrow> nat \<Rightarrow> 'w::len word \<Rightarrow> bool" where
  "pv_ok sl A i w =
    (if w = kEnd then \<forall>x\<in>A. i < x \<longrightarrow> sl x \<noteq> sl i
     else unat w \<in> A \<and> i < unat w \<and> sl (unat w) = sl i \<and> (\<forall>x\<in>A. i < x \<and> x < unat w \<longrightarrow> sl x \<noteq> sl i))"

definition linked :: "(nat \<Rightarrow> 'b) \<Rightarrow> nat set \<Rightarrow> (nat \<Rightarrow> 'w::len word) \<Rightarrow> (nat \<Rightarrow> 'w word) \<Rightarrow> bool" where
  "linked sl A pv nx \<longleftrightarrow> (\<forall>i\<in>A. nx_ok sl A i (nx i) \<and> pv_ok sl A i (pv i))"

definition head_ok :: "(nat \<Rightarrow> 'b) \<Rightarrow> nat set \<Rightarrow> 'b \<Rightarrow> 'w::len word \<Rightarrow> bool" where
  "head_ok sl A s w =
    (if w = kEnd then \<forall>x\<in>A. sl x \<noteq> s
     else unat w \<in> A \<and> sl (unat w) = s \<and> (\<forall>x\<in>A. sl x = s \<longrightarrow> x \<le> unat w))"

lemma linked_alone:
  assumes "linked sl A pv nx" and "i \<in> A" and "pv i = kEnd" and "nx i = kEnd" and "x \<in> A" and "sl x = sl i"
  shows "x = i"
  using assms by (force simp: linked_def nx_ok_def pv_ok_def)

lemma linked_remove_next:
  fixes pv nx :: "nat \<Rightarrow> 'w::len word"
  assumes L: "linked sl A pv nx" and c: "c \<in> A" and i: "i \<in> A" "i \<noteq> c"
  shows "nx_ok sl (A - {c}) i (if pv c \<noteq> kEnd \<and> i = unat (pv c) then nx c else nx i)"
proof (cases "pv c \<noteq> kEnd \<and> i = unat (pv c)")
  case True
  then have p: "c < i" "sl i = sl c" "\<forall>x\<in>A. c < x \<and> x < i \<longrightarrow> sl x \<noteq> sl c"
    using L c by (auto simp: linked_def pv_ok_def)
  have n: "nx_ok sl A c (nx c)" using L c by (auto simp: linked_def)
  show ?thesis
  proof (cases "nx c = kEnd")
    case last: True
    have "sl x \<noteq> sl i" if "x \<in> A - {c}" "x < i" for x
      using that p n last by (cases "x < c") (auto simp: nx_ok_def)
    then show ?thesis using True last by (simp add: nx_ok_def)
  next
    case False
    then have n': "unat (nx c) \<in> A" "unat (nx c) < c" "sl (unat (nx c)) = sl c"
        "\<forall>x\<in>A. unat (nx c) < x \<and> x < c \<longrightarrow> sl x \<noteq> sl c"
      using n by (auto simp: nx_ok_def)
    have "sl x \<noteq> sl i" if "x \<in> A - {c}" "unat (nx c) < x" "x < i" for x
      using that p n' by (cases "x < c") auto
    then show ?thesis using True False n' p by (auto simp: nx_ok_def)
  qed
next
  case False
  have n: "nx_ok sl A i (nx i)" and p: "pv_ok sl A c (pv c)" using L c i by (auto simp: linked_def)
  have "unat (nx i) \<noteq> c" if "nx i \<noteq> kEnd"
  proof
    assume "unat (nx i) = c"
    then have n': "c < i" "sl c = sl i" "\<forall>x\<in>A. c < x \<and> x < i \<longrightarrow> sl x \<noteq> sl i"
      using n that by (auto simp: nx_ok_def)
    then have "pv c \<noteq> kEnd" using p i by (auto simp: pv_ok_def)
    then have "unat (pv c) \<in> A" "c < unat (pv c)" "sl (unat (pv c)) = sl c"
        "\<forall>x\<in>A. c < x \<and> x < unat (pv c) \<longrightarrow> sl x \<noteq> sl c" "unat (pv c) \<noteq> i"
      using p False by (auto simp: pv_ok_def)
    then show False using n' i by (metis linorder_neqE_nat)
  qed
  then have "nx_ok sl (A - {c}) i (nx i)" using n by (auto simp: nx_ok_def)
  then show ?thesis by (simp only: False if_False)
qed

lemma linked_remove_prev:
  fixes pv nx :: "nat \<Rightarrow> 'w::len word"
  assumes L: "linked sl A pv nx" and c: "c \<in> A" and i: "i \<in> A" "i \<noteq> c"
  shows "pv_ok sl (A - {c}) i (if nx c \<noteq> kEnd \<and> i = unat (nx c) then pv c else pv i)"
proof (cases "nx c \<noteq> kEnd \<and> i = unat (nx c)")
  case True
  then have p: "i < c" "sl i = sl c" "\<forall>x\<in>A. i < x \<and> x < c \<longrightarrow> sl x \<noteq> sl c"
    using L c by (auto simp: linked_def nx_ok_def)
  have n: "pv_ok sl A c (pv c)" using L c by (auto simp: linked_def)
  show ?thesis
  proof (cases "pv c = kEnd")
    case last: True
    have "sl x \<noteq> sl i" if "x \<in> A - {c}" "i < x" for x
      using that p n last by (cases "x < c") (auto simp: pv_ok_def)
    then show ?thesis using True last by (simp add: pv_ok_def)
  next
    case False
    then have n': "unat (pv c) \<in> A" "c < unat (pv c)" "sl (unat (pv c)) = sl c"
        "\<forall>x\<in>A. c < x \<and> x < unat (pv c) \<longrightarrow> sl x \<noteq> sl c"
      using n by (auto simp: pv_ok_def)
    have "sl x \<noteq> sl i" if "x \<in> A - {c}" "i < x" "x < unat (pv c)" for x
      using that p n' by (cases "x < c") auto
    then show ?thesis using True False n' p by (auto simp: pv_ok_def)
  qed
next
  case False
  have n: "pv_ok sl A i (pv i)" and p: "nx_ok sl A c (nx c)" using L c i by (auto simp: linked_def)
  have "unat (pv i) \<noteq> c" if "pv i \<noteq> kEnd"
  proof
    assume "unat (pv i) = c"
    then have n': "i < c" "sl c = sl i" "\<forall>x\<in>A. i < x \<and> x < c \<longrightarrow> sl x \<noteq> sl i"
      using n that by (auto simp: pv_ok_def)
    then have "nx c \<noteq> kEnd" using p i by (auto simp: nx_ok_def)
    then have "unat (nx c) \<in> A" "unat (nx c) < c" "sl (unat (nx c)) = sl c"
        "\<forall>x\<in>A. unat (nx c) < x \<and> x < c \<longrightarrow> sl x \<noteq> sl c" "unat (nx c) \<noteq> i"
      using p False by (auto simp: nx_ok_def)
    then show False using n' i by (metis linorder_neqE_nat)
  qed
  then have "pv_ok sl (A - {c}) i (pv i)" using n by (auto simp: pv_ok_def)
  then show ?thesis by (simp only: False if_False)
qed

lemma linked_remove:
  fixes pv nx :: "nat \<Rightarrow> 'w::len word"
  assumes "linked sl A pv nx" and "c \<in> A"
    and "\<And>i. i \<in> A \<Longrightarrow> i \<noteq> c \<Longrightarrow> nx' i = (if pv c \<noteq> kEnd \<and> i = unat (pv c) then nx c else nx i)"
    and "\<And>i. i \<in> A \<Longrightarrow> i \<noteq> c \<Longrightarrow> pv' i = (if nx c \<noteq> kEnd \<and> i = unat (nx c) then pv c else pv i)"
  shows "linked sl (A - {c}) pv' nx'"
  unfolding linked_def
proof (intro ballI conjI)
  fix i assume "i \<in> A - {c}"
  then have i: "i \<in> A" "i \<noteq> c" by auto
  show "nx_ok sl (A - {c}) i (nx' i)"
    using linked_remove_next [OF assms(1,2) i] by (simp only: assms(3) [OF i])
  show "pv_ok sl (A - {c}) i (pv' i)"
    using linked_remove_prev [OF assms(1,2) i] by (simp only: assms(4) [OF i])
qed

lemma of_nat_index:
  assumes "i < 2 ^ LENGTH('w) - 1"
  shows "unat (of_nat i :: 'w::len word) = i" "of_nat i \<noteq> (kEnd :: 'w word)"
proof -
  show u: "unat (of_nat i :: 'w word) = i" using assms by (simp add: unat_of_nat)
  show "of_nat i \<noteq> (kEnd :: 'w word)"
    using assms u by (metis less_irrefl unat_minus_1)
qed

lemma linked_insert:
  fixes pv nx :: "nat \<Rightarrow> 'w::len word"
  assumes L: "linked sl {..<i} pv nx" and h: "head_ok sl {..<i} s w"
    and small: "i < 2 ^ LENGTH('w) - 1"
    and sl': "\<And>x. x < i \<Longrightarrow> sl' x = sl x" "sl' i = s"
    and nx': "\<And>x. x < i \<Longrightarrow> nx' x = nx x" "nx' i = w"
    and pv': "\<And>x. x < i \<Longrightarrow> pv' x = (if w \<noteq> kEnd \<and> x = unat w then of_nat i else pv x)" "pv' i = kEnd"
  shows "linked sl' {..<Suc i} pv' nx'"
  unfolding linked_def
proof
  fix k assume "k \<in> {..<Suc i}"
  then consider "k = i" | "k < i" by force
  then show "nx_ok sl' {..<Suc i} k (nx' k) \<and> pv_ok sl' {..<Suc i} k (pv' k)"
  proof cases
    case 1
    then show ?thesis using h sl' nx' pv' by (force simp: nx_ok_def pv_ok_def head_ok_def)
  next
    case 2
    have n: "nx_ok sl {..<i} k (nx k)" and p: "pv_ok sl {..<i} k (pv k)" using L 2 by (auto simp: linked_def)
    have "nx_ok sl' {..<Suc i} k (nx' k)" using n 2 sl' nx' by (auto simp: nx_ok_def)
    moreover have "pv_ok sl' {..<Suc i} k (pv' k)"
    proof (cases "w \<noteq> kEnd \<and> k = unat w")
      case True
      then show ?thesis using 2 pv' sl' h of_nat_index [OF small] by (fastforce simp: pv_ok_def head_ok_def)
    next
      case False
      have "sl k \<noteq> s" if "pv k = kEnd"
        using p h 2 False that unfolding pv_ok_def head_ok_def
        by (metis lessThan_iff linorder_neqE_nat not_less)
      then show ?thesis using 2 False pv' sl' p by (auto simp: pv_ok_def less_Suc_eq)
    qed
    ultimately show ?thesis ..
  qed
qed

lemma head_ok_insert:
  fixes w :: "'w::len word"
  assumes "head_ok sl {..<i} s w" and small: "i < 2 ^ LENGTH('w) - 1"
    and "\<And>x. x < i \<Longrightarrow> sl' x = sl x" and "w' = (if s = sl' i then of_nat i else w)"
  shows "head_ok sl' {..<Suc i} s w'"
  using assms of_nat_index [OF small] by (auto simp: head_ok_def less_Suc_eq Ball_def)

subsection \<open>Access to the graph\<close>

definition gshape :: "nat \<Rightarrow> nat \<Rightarrow> 'w::len word Graph \<Rightarrow> bool" where
  "gshape n m g \<longleftrightarrow> length (edges g) = n \<and> (\<forall>e \<in> set (edges g). length e = 3) \<and> length (nodes g) = 3 * m"

definition vtx :: "'w::len word Graph \<Rightarrow> nat \<Rightarrow> nat \<Rightarrow> 'w word Vertex" where
  "vtx g i j = edges g ! i ! j"

abbreviation sl :: "'w::len word Graph \<Rightarrow> nat \<Rightarrow> nat \<Rightarrow> nat" where
  "sl g j i \<equiv> unat (v_slot (vtx g i j))"

abbreviation pv :: "'w::len word Graph \<Rightarrow> nat \<Rightarrow> nat \<Rightarrow> 'w word" where
  "pv g j i \<equiv> v_prev (vtx g i j)"

abbreviation nx :: "'w::len word Graph \<Rightarrow> nat \<Rightarrow> nat \<Rightarrow> 'w word" where
  "nx g j i \<equiv> v_next (vtx g i j)"

lemma vertex_eq: "gshape n m g \<Longrightarrow> i < n \<Longrightarrow> j < 3 \<Longrightarrow> vertex g i j = Some (vtx g i j)"
  by (auto simp: vertex_def vtx_def gshape_def)

lemma put_vertex_eq:
  assumes "gshape n m g" and "i < n" and "j < 3"
  obtains g' where "put_vertex g i j v = Some g'" "gshape n m g'" "nodes g' = nodes g"
    "\<And>i' j'. vtx g' i' j' = (if i' = i \<and> j' = j then v else vtx g i' j')"
proof
  let ?g = "g\<lparr>edges := (edges g)[i := (edges g ! i)[j := v]]\<rparr>"
  have len: "length (edges g ! i) = 3" "i < length (edges g)" using assms by (auto simp: gshape_def)
  show "put_vertex g i j v = Some ?g" using len assms by (simp add: put_vertex_def)
  show "gshape n m ?g" using assms len by (auto simp: gshape_def dest!: set_update_subset_insert [THEN subsetD])
  show "nodes ?g = nodes g" by simp
  show "vtx ?g i' j' = (if i' = i \<and> j' = j then v else vtx g i' j')" for i' j'
    using len assms by (cases "i' = i"; cases "j' = j") (simp_all add: vtx_def)
qed

lemma modify_vertex_eq:
  assumes "gshape n m g" and "i < n" and "j < 3"
  obtains g' where "vertex g i j = Some (vtx g i j)" "put_vertex g i j (f (vtx g i j)) = Some g'"
    "gshape n m g'" "nodes g' = nodes g"
    "\<And>i' j'. vtx g' i' j' = (if i' = i \<and> j' = j then f (vtx g i' j') else vtx g i' j')"
  using put_vertex_eq [OF assms, of "f (vtx g i j)"] vertex_eq [OF assms] by (metis (full_types))

lemma gshape_nodes: "gshape n m g \<Longrightarrow> length ns = 3 * m \<Longrightarrow> gshape n m (g\<lparr>nodes := ns\<rparr>)"
  by (simp add: gshape_def)

lemma vtx_nodes [simp]: "vtx (g\<lparr>nodes := ns\<rparr>) i j = vtx g i j"
  by (simp add: vtx_def)

subsection \<open>The hash of a key\<close>

definition hcode :: "u8 list \<Rightarrow> u32 \<Rightarrow> V128" where
  "hcode key seed = the (hash_key key seed)"

lemma hash_key_eq: "hash_key key seed = Some (hcode key seed)"
proof -
  let ?len = "of_nat (length key) :: u32"
  have "length (take (unat ?len) key) = unat ?len"
    by (simp add: unat_of_nat min_def)
  then obtain v where "Hash128 (take (unat ?len) key @ drop (unat ?len) key) ?len (ucast seed) = Some v"
    using Hash128_reads [of "take (unat ?len) key" ?len "ucast seed"] by blast
  then show ?thesis by (simp add: hash_key_def hcode_def)
qed

subsection \<open>CreateGraph\<close>

text \<open>Column \<open>j\<close> after \<open>i\<close> edges: the lists and their heads.\<close>

definition col_ok :: "nat \<Rightarrow> nat \<Rightarrow> 'w::len word Graph \<Rightarrow> nat \<Rightarrow> bool" where
  "col_ok m i g j \<longleftrightarrow> linked (sl g j) {..<i} (pv g j) (nx g j) \<and>
    (\<forall>s<m. head_ok (sl g j) {..<i} s (nodes g ! (s + j * m)))"

lemma col_ok_frame:
  assumes "\<And>i. vtx g' i j = vtx g i j" and "\<And>s. s < m \<Longrightarrow> nodes g' ! (s + j * m) = nodes g ! (s + j * m)"
  shows "col_ok m i g' j \<longleftrightarrow> col_ok m i g j"
  using assms by (simp add: col_ok_def)

text \<open>What \<open>CreateGraph\<close> relies on: the divisor is the section, and a word holds any index and slot.\<close>

definition sized :: "'w::len itself \<Rightarrow> nat \<Rightarrow> nat \<Rightarrow> Divisor \<Rightarrow> bool" where
  "sized w n m d \<longleftrightarrow> (\<exists>M. d = assign M \<and> unat M = m \<and> 0 < m) \<and> m < 2 ^ LENGTH('w) \<and> n < 2 ^ LENGTH('w) \<and> 3 * m < 2 ^ 32"

lemma sized_slot:
  assumes "sized TYPE('w::len) n m d"
  shows "unat (ucast (mod_by x d) :: 'w word) = unat x mod m"
proof -
  obtain M where M: "d = assign M" "unat M = m" "0 < m" and "m < 2 ^ LENGTH('w)"
    using assms by (auto simp: sized_def)
  then have "unat (mod_by x d) = unat x mod m"
    by (metis mod_by_assign unat_0 less_irrefl unat_mod)
  moreover have "unat x mod m < 2 ^ LENGTH('w)"
    using M \<open>m < 2 ^ LENGTH('w)\<close> mod_less_divisor [of m "unat x"] by linarith
  ultimately show ?thesis by (simp add: unat_ucast)
qed

lemma sized_pos:
  fixes w :: "'w::len word"
  assumes "sized TYPE('w) n m d" and "unat w < m" and "j < 3"
  shows "unat (ucast w + of_nat j * d_val d :: u32) = unat w + j * m"
proof -
  obtain M where M: "d = assign M" "unat M = m" and "3 * m < 2 ^ 32" using assms by (auto simp: sized_def)
  have "j * m \<le> 2 * m" using assms by simp
  then have small: "unat w + j * m < 2 ^ 32" using assms \<open>3 * m < 2 ^ 32\<close> by linarith
  have "unat (ucast w + of_nat j * d_val d :: u32) = (unat w + j * m) mod 2 ^ 32"
    using M by (simp add: unat_word_ariths unat_ucast unat_of_nat mod_simps)
  then show ?thesis using small by simp
qed

lemma slot_pos:
  fixes a b m :: nat
  assumes "a < m" and "b < m"
  shows "a + i * m = b + j * m \<longleftrightarrow> a = b \<and> i = j"
  by (metis assms add.commute div_mult_self3 div_less add.left_neutral add_left_cancel less_nat_zero_code gr0I add_0)

lemma create_vertex_spec:
  fixes g :: "'w::len word Graph"
  assumes sz: "sized TYPE('w) n m d" and g: "gshape n m g" and "i < n" and "j < 3" and col: "col_ok m i g j"
  obtains g' where "create_vertex d code i j g = Some g'" "gshape n m g'" "col_ok m (Suc i) g' j"
    "\<And>k j'. j' < 3 \<Longrightarrow> j' \<noteq> j \<Longrightarrow> col_ok m k g' j' \<longleftrightarrow> col_ok m k g j'"
    "\<And>i' j'. sl g' j' i' = (if i' = i \<and> j' = j then unat (u32_at code j) mod m else sl g j' i')"
proof -
  define s where "s = unat (u32_at code j) mod m"
  define slot where "slot = (ucast (mod_by (u32_at code j) d) :: 'w word)"
  have slot: "unat slot = s" by (simp add: slot_def s_def sized_slot [OF sz])
  have m: "0 < m" using sz by (auto simp: sized_def)
  then have s: "s < m" by (simp add: s_def)
  let ?p = "s + j * m"
  have pos: "unat (ucast slot + of_nat j * d_val d :: u32) = ?p" using sized_pos [OF sz, of slot j] s slot \<open>j < 3\<close> by simp
  have "j * m \<le> 2 * m" using \<open>j < 3\<close> by simp
  then have p: "?p < length (nodes g)" using s g unfolding gshape_def by linarith
  define w where "w = nodes g ! ?p"
  have head: "head_ok (sl g j) {..<i} s w" using col s by (simp add: col_ok_def w_def)
  obtain g1 where g1: "put_vertex g i j \<lparr>v_slot = slot, v_prev = kEnd, v_next = w\<rparr> = Some g1" "gshape n m g1"
      "nodes g1 = nodes g" "\<And>i' j'. vtx g1 i' j' = (if i' = i \<and> j' = j then \<lparr>v_slot = slot, v_prev = kEnd, v_next = w\<rparr> else vtx g i' j')"
    using put_vertex_eq [OF g \<open>i < n\<close> \<open>j < 3\<close>] by metis
  define g2 where "g2 = g1\<lparr>nodes := (nodes g)[?p := of_nat i]\<rparr>"
  have g2: "gshape n m g2" using g1(2) g gshape_nodes by (auto simp: g2_def gshape_def)
  obtain g3 where g3: "(if w \<noteq> kEnd then do {
        u \<leftarrow> vertex g2 (unat w) j; put_vertex g2 (unat w) j (u\<lparr>v_prev := of_nat i\<rparr>) } else Some g2) = Some g3"
      "gshape n m g3" "nodes g3 = nodes g2"
      "\<And>i' j'. vtx g3 i' j' = (if w \<noteq> kEnd \<and> i' = unat w \<and> j' = j then (vtx g2 i' j')\<lparr>v_prev := of_nat i\<rparr> else vtx g2 i' j')"
  proof (cases "w = kEnd")
    case True
    then show thesis using that [of g2] g2 by simp
  next
    case False
    then have "unat w < n" using head \<open>i < n\<close> by (auto simp: head_ok_def)
    with modify_vertex_eq [OF g2 this \<open>j < 3\<close>, of "\<lambda>u. u\<lparr>v_prev := of_nat i\<rparr>"]
    obtain g3 where "vertex g2 (unat w) j = Some (vtx g2 (unat w) j)"
        "put_vertex g2 (unat w) j ((vtx g2 (unat w) j)\<lparr>v_prev := of_nat i\<rparr>) = Some g3"
        "gshape n m g3" "nodes g3 = nodes g2"
        "\<And>i' j'. vtx g3 i' j' = (if i' = unat w \<and> j' = j then (vtx g2 i' j')\<lparr>v_prev := of_nat i\<rparr> else vtx g2 i' j')"
      by blast
    then show thesis using that [of g3] False by simp
  qed
  have create: "create_vertex d code i j g = Some g3"
    using p g3(1) by (simp add: create_vertex_def Let_def slot_def [symmetric] pos w_def [symmetric] g1(1,3)
        g2_def [symmetric] split: if_splits)
  have slots: "sl g3 j' i' = (if i' = i \<and> j' = j then s else sl g j' i')" for i' j'
    using g3(4) g1(4) slot by (simp add: g2_def)
  have small: "i < 2 ^ LENGTH('w) - 1" using \<open>i < n\<close> sz by (auto simp: sized_def)
  have wi: "w \<noteq> kEnd \<Longrightarrow> unat w \<noteq> i" using head by (auto simp: head_ok_def)
  have "linked (sl g3 j) {..<Suc i} (pv g3 j) (nx g3 j)"
  proof (rule linked_insert [OF _ head small])
    show "linked (sl g j) {..<i} (pv g j) (nx g j)" using col by (simp add: col_ok_def)
  qed (use g3(4) g1(4) slot wi in \<open>auto simp: g2_def\<close>)
  moreover have "head_ok (sl g3 j) {..<Suc i} t (nodes g3 ! (t + j * m))" if "t < m" for t
  proof (rule head_ok_insert [OF _ small])
    show "head_ok (sl g j) {..<i} t (nodes g ! (t + j * m))" using col that by (simp add: col_ok_def)
    show "nodes g3 ! (t + j * m) = (if t = sl g3 j i then of_nat i else nodes g ! (t + j * m))"
      using p s that slot_pos [OF s that, of j j] by (auto simp: g3(3) g2_def slots)
  qed (simp add: slots)
  ultimately have "col_ok m (Suc i) g3 j" by (simp add: col_ok_def)
  moreover have "col_ok m k g3 j' \<longleftrightarrow> col_ok m k g j'" if "j' < 3" "j' \<noteq> j" for k j'
    using that g3(4) g1(4) slot_pos [OF s]
    by (intro col_ok_frame) (auto simp: g2_def g3(3))
  ultimately show thesis using that create g3(2) slots by (simp add: s_def)
qed

definition edge_slots :: "u32 \<Rightarrow> nat \<Rightarrow> u8 list \<Rightarrow> nat \<Rightarrow> nat" where
  "edge_slots seed m key j = unat (u32_at (hcode key seed) j) mod m"

lemma create_edge_spec:
  fixes g :: "'w::len word Graph"
  assumes sz: "sized TYPE('w) n m d" and g: "gshape n m g" and i: "i < n" and col: "\<forall>j<3. col_ok m i g j"
  obtains g' where "create_edge d (hcode key seed) i g = Some g'" "gshape n m g'" "\<forall>j<3. col_ok m (Suc i) g' j"
    "\<And>i' j. j < 3 \<Longrightarrow> sl g' j i' = (if i' = i then edge_slots seed m key j else sl g j i')"
proof -
  let ?c = "hcode key seed"
  obtain g1 where g1: "create_vertex d ?c i 0 g = Some g1" "gshape n m g1" "col_ok m (Suc i) g1 0"
      "\<And>k j'. j' < 3 \<Longrightarrow> j' \<noteq> 0 \<Longrightarrow> col_ok m k g1 j' \<longleftrightarrow> col_ok m k g j'"
      "\<And>i' j'. sl g1 j' i' = (if i' = i \<and> j' = 0 then unat (u32_at ?c 0) mod m else sl g j' i')"
    using create_vertex_spec [OF sz g i, of 0 ?c] col by auto
  obtain g2 where g2: "create_vertex d ?c i 1 g1 = Some g2" "gshape n m g2" "col_ok m (Suc i) g2 1"
      "\<And>k j'. j' < 3 \<Longrightarrow> j' \<noteq> 1 \<Longrightarrow> col_ok m k g2 j' \<longleftrightarrow> col_ok m k g1 j'"
      "\<And>i' j'. sl g2 j' i' = (if i' = i \<and> j' = 1 then unat (u32_at ?c 1) mod m else sl g1 j' i')"
    using create_vertex_spec [OF sz g1(2) i, of 1 ?c] col g1(4) [of 1 i] by auto
  obtain g3 where g3: "create_vertex d ?c i 2 g2 = Some g3" "gshape n m g3" "col_ok m (Suc i) g3 2"
      "\<And>k j'. j' < 3 \<Longrightarrow> j' \<noteq> 2 \<Longrightarrow> col_ok m k g3 j' \<longleftrightarrow> col_ok m k g2 j'"
      "\<And>i' j'. sl g3 j' i' = (if i' = i \<and> j' = 2 then unat (u32_at ?c 2) mod m else sl g2 j' i')"
    using create_vertex_spec [OF sz g2(2) i, of 2 ?c] col g1(4) [of 2 i] g2(4) [of 2 i] by auto
  have three: "j < 3 \<longleftrightarrow> j = 0 \<or> j = 1 \<or> j = 2" for j :: nat by auto
  show thesis
  proof
    show "create_edge d ?c i g = Some g3" using g1(1) g2(1) g3(1) by (simp add: create_edge_def)
    show "\<forall>j<3. col_ok m (Suc i) g3 j"
      using g1(3,4) g2(3,4) g3(3,4) by (auto simp: three)
    show "sl g3 j i' = (if i' = i then edge_slots seed m key j else sl g j i')" if "j < 3" for i' j
      using that g1(5) g2(5) g3(5) by (auto simp: three edge_slots_def)
  qed (fact g3(2))
qed

text \<open>
  The contract of a key reader: after \<open>Reset\<close> it delivers its keys one by one, as many as \<open>Total\<close>
  says. The clients of a reader are verified against it.
\<close>

locale key_reader =
  fixes R :: "'s KeyReader" and inv :: "'s \<Rightarrow> bool" and keys :: "'s \<Rightarrow> u8 list list" and pos :: "'s \<Rightarrow> nat"
  assumes total: "inv s \<Longrightarrow> kr_total R s = length (keys s)"
    and reset: "inv s \<Longrightarrow> inv (kr_reset R s) \<and> keys (kr_reset R s) = keys s \<and> pos (kr_reset R s) = 0"
    and read: "inv s \<Longrightarrow> pos s < length (keys s) \<Longrightarrow> kr_read R s = (k, s') \<Longrightarrow>
      k = Some (keys s ! pos s) \<and> inv s' \<and> keys s' = keys s \<and> pos s' = Suc (pos s)"
    and read_end: "inv s \<Longrightarrow> pos s \<ge> length (keys s) \<Longrightarrow> kr_read R s = (k, s') \<Longrightarrow>
      k = None \<and> inv s' \<and> keys s' = keys s"
begin

lemma create_loop_spec:
  fixes g :: "'w::len word Graph"
  assumes sz: "sized TYPE('w) n m d"
  shows "inv s \<Longrightarrow> pos s = i \<Longrightarrow> i + k = n \<Longrightarrow> length (keys s) = n \<Longrightarrow> gshape n m g \<Longrightarrow> \<forall>j<3. col_ok m i g j \<Longrightarrow>
    \<forall>x<i. \<forall>j<3. sl g j x = edge_slots seed m (keys s ! x) j \<Longrightarrow>
    \<exists>s' g'. create_loop R seed d i k s g = Some (True, s', g') \<and> inv s' \<and> keys s' = keys s \<and> gshape n m g' \<and>
      (\<forall>j<3. col_ok m n g' j) \<and> (\<forall>x<n. \<forall>j<3. sl g' j x = edge_slots seed m (keys s ! x) j)"
proof (induction k arbitrary: i s g)
  case 0
  then show ?case by simp
next
  case (Suc k)
  then have i: "i < n" by simp
  obtain key s1 where rd: "kr_read R s = (key, s1)" by force
  then have s1: "key = Some (keys s ! i)" "inv s1" "keys s1 = keys s" "pos s1 = Suc i"
    using read [of s key s1] Suc.prems i by auto
  obtain g1 where g1: "create_edge d (hcode (keys s ! i) seed) i g = Some g1" "gshape n m g1"
      "\<forall>j<3. col_ok m (Suc i) g1 j"
      "\<And>i' j. j < 3 \<Longrightarrow> sl g1 j i' = (if i' = i then edge_slots seed m (keys s ! i) j else sl g j i')"
    using create_edge_spec [OF sz \<open>gshape n m g\<close> i \<open>\<forall>j<3. col_ok m i g j\<close>] by blast
  have "\<forall>x<Suc i. \<forall>j<3. sl g1 j x = edge_slots seed m (keys s1 ! x) j"
    using g1(4) Suc.prems(7) s1(3) by (simp add: less_Suc_eq)
  then have "\<exists>s' g'. create_loop R seed d (Suc i) k s1 g1 = Some (True, s', g') \<and> inv s' \<and> keys s' = keys s1 \<and>
      gshape n m g' \<and> (\<forall>j<3. col_ok m n g' j) \<and> (\<forall>x<n. \<forall>j<3. sl g' j x = edge_slots seed m (keys s1 ! x) j)"
    using Suc.prems s1 g1 by (intro Suc.IH) auto
  then show ?case using rd s1 g1(1) by (simp add: hash_key_eq)
qed

lemma CreateGraph_spec:
  fixes g :: "'w::len word Graph"
  assumes sz: "sized TYPE('w) n m d" and "inv s" and n: "length (keys s) = n" and g: "gshape n m g"
  obtains s' g' where "CreateGraph R seed n d s g = Some (True, s', g')" "inv s'" "keys s' = keys s" "gshape n m g'"
    "\<forall>j<3. col_ok m n g' j" "\<forall>x<n. \<forall>j<3. sl g' j x = edge_slots seed m (keys s ! x) j"
proof -
  let ?s = "kr_reset R s" and ?g = "g\<lparr>nodes := replicate (3 * m) kEnd\<rparr>"
  have m: "unat (d_val d * 3) = 3 * m" using sz by (auto simp: sized_def unat_word_ariths mult.commute)
  have "col_ok m 0 ?g j" if "j < 3" for j
  proof -
    have "s + j * m < 3 * m" if "s < m" for s
    proof -
      have "j * m \<le> 2 * m" using \<open>j < 3\<close> by simp
      then show ?thesis using that by linarith
    qed
    then show ?thesis by (simp add: col_ok_def linked_def head_ok_def)
  qed
  then have "\<exists>s' g'. create_loop R seed d 0 n ?s ?g = Some (True, s', g') \<and> inv s' \<and> keys s' = keys ?s \<and>
      gshape n m g' \<and> (\<forall>j<3. col_ok m n g' j) \<and> (\<forall>x<n. \<forall>j<3. sl g' j x = edge_slots seed m (keys ?s ! x) j)"
    using reset [OF \<open>inv s\<close>] n g by (intro create_loop_spec [OF sz]) (auto simp: gshape_def)
  then show thesis
    using that reset [OF \<open>inv s\<close>] g by (auto simp: CreateGraph_def Let_def m gshape_def)
qed

end

interpretation vec: key_reader vector_reader "\<lambda>r. True" vr_keys vr_idx
  by unfold_locales (auto simp: vector_reader_def vr_reset_def vr_total_def vr_read_def split: if_splits)

end
