(* ===== verification/PH_Peel.thy ===== *)
theory PH_Peel
  imports PH_Graph
begin

text \<open>
  Correctness of \<open>TearGraph\<close> of src/perfect_hash.cc: it stays inside its arrays, the order it records
  frees every edge at a vertex no later edge has, and it succeeds exactly when such an order exists.
\<close>

subsection \<open>The queue\<close>

text \<open>
  \<open>peels slt n F\<close>: every edge of \<open>F\<close> has a vertex that only edges before it in \<open>F\<close> share. The queue
  \<open>(free, book, tail)\<close> holds the edges \<open>F\<close>.
\<close>

definition peels :: "(nat \<Rightarrow> nat \<Rightarrow> nat) \<Rightarrow> nat \<Rightarrow> nat list \<Rightarrow> bool" where
  "peels slt n F \<longleftrightarrow> (\<forall>k<length F. \<exists>j<3. \<forall>x<n. slt j x = slt j (F ! k) \<longrightarrow> x = F ! k \<or> x \<in> set (take k F))"

definition queued :: "(nat \<Rightarrow> nat \<Rightarrow> nat) \<Rightarrow> nat \<Rightarrow> 'w::len queue \<Rightarrow> nat list \<Rightarrow> bool" where
  "queued slt n = (\<lambda>(free, book, tail) F.
    map unat (take tail free) = F \<and> length F = tail \<and> length free = n \<and> n \<le> 8 * length book \<and>
    distinct F \<and> set F \<subseteq> {..<n} \<and> (\<forall>i<n. marked book i \<longleftrightarrow> i \<in> set F) \<and> peels slt n F)"

definition alone :: "'w::len word Vertex \<Rightarrow> bool" where
  "alone v \<longleftrightarrow> v_prev v = kEnd \<and> v_next v = kEnd"

lemma peels_snoc:
  assumes "peels slt n F" and "j < 3" and "\<forall>x<n. slt j x = slt j i \<longrightarrow> x = i \<or> x \<in> set F"
  shows "peels slt n (F @ [i])"
  using assms by (auto simp: peels_def nth_append less_Suc_eq)

lemma queued_short:
  assumes "queued slt n (free, book, tail) F" and "i < n" and "i \<notin> set F"
  shows "tail < n"
proof -
  have "distinct (i # F)" "set (i # F) \<subseteq> {..<n}" "length F = tail" using assms by (simp_all add: queued_def)
  then have "Suc tail \<le> n" by (metis card_lessThan card_mono distinct_card finite_lessThan length_Cons)
  then show ?thesis by simp
qed

lemma try_free_spec:
  fixes v :: "'w::len word Vertex"
  assumes q: "queued slt n q F" and i: "i < n" and n: "n < 2 ^ LENGTH('w)"
    and peel: "alone v \<Longrightarrow> \<exists>j<3. \<forall>x<n. slt j x = slt j i \<longrightarrow> x = i \<or> x \<in> set F"
  obtains q' F' where "try_free v i q = Some q'" "queued slt n q' (F @ F')" "alone v \<Longrightarrow> i \<in> set (F @ F')"
proof -
  obtain free book tail where qe: "q = (free, book, tail)" by (cases q rule: prod_cases3)
  note Q = q [unfolded qe queued_def, simplified]
  show thesis
  proof (cases "alone v")
    case False
    then show thesis using that [of q "[]"] q by (auto simp: try_free_def alone_def qe)
  next
    case True
    then have cond: "v_prev v = kEnd \<and> v_next v = kEnd" by (simp add: alone_def)
    have "i < 8 * length book" using Q i by simp
    then obtain book' where b: "TestAndSetBit book i = Some (\<not> marked book i, book')" "length book' = length book"
        "\<And>x. marked book' x \<longleftrightarrow> x = i \<or> marked book x"
      using TestAndSetBit_eq by metis
    show thesis
    proof (cases "i \<in> set F")
      case inF: True
      then have "marked book i" using Q i by simp
      then have "try_free v i q = Some (free, book', tail)" using b(1) cond by (simp add: try_free_def qe)
      moreover have "queued slt n (free, book', tail) F"
        using Q b(2,3) \<open>marked book i\<close> unfolding queued_def prod.case by metis
      ultimately show thesis using that [of _ "[]"] inF by simp
    next
      case False
      then have "\<not> marked book i" using Q i by simp
      have tail: "tail < n" using queued_short [OF q [unfolded qe] i False] .
      let ?free = "take tail free @ [of_nat i] @ drop (Suc tail) free"
      have "try_free v i q = Some (?free, book', tail + 1)"
        using b(1) cond tail Q \<open>\<not> marked book i\<close> by (simp add: try_free_def qe)
      moreover have "queued slt n (?free, book', tail + 1) (F @ [i])"
      proof -
        have "unat (of_nat i :: 'w word) = i" using i n by (simp add: unat_of_nat)
        then have "map unat (take (tail + 1) ?free) = F @ [i]" using Q tail by simp
        moreover obtain j where "j < 3" "\<forall>x<n. slt j x = slt j i \<longrightarrow> x = i \<or> x \<in> set F" using peel True by blast
        then have "peels slt n (F @ [i])" using peels_snoc Q by blast
        ultimately show ?thesis using Q b(2,3) tail i False unfolding queued_def prod.case by simp
      qed
      ultimately show thesis using that [of _ "[i]"] by simp
    qed
  qed
qed

subsection \<open>The first pass\<close>

lemma scan_vertex_spec:
  fixes g :: "'w::len word Graph"
  assumes g: "gshape n m g" and n: "n < 2 ^ LENGTH('w)" and L: "linked (slt j) {..<n} (pv g j) (nx g j)"
    and q: "queued slt n q F" and "i < n" and "j < 3"
  obtains q' F' where "scan_vertex g i j q = Some q'" "queued slt n q' (F @ F')" "alone (vtx g i j) \<Longrightarrow> i \<in> set (F @ F')"
proof -
  have "\<exists>j<3. \<forall>x<n. slt j x = slt j i \<longrightarrow> x = i \<or> x \<in> set F" if "alone (vtx g i j)"
    using linked_alone [OF L] that \<open>i < n\<close> \<open>j < 3\<close> by (auto simp: alone_def)
  then show thesis
    using try_free_spec [OF q \<open>i < n\<close> n, of "vtx g i j"] that
    by (auto simp: scan_vertex_def vertex_eq [OF g \<open>i < n\<close> \<open>j < 3\<close>])
qed

lemma tear_scan_spec:
  fixes g :: "'w::len word Graph"
  assumes g: "gshape n m g" and n: "n < 2 ^ LENGTH('w)" and L: "\<forall>j<3. linked (slt j) {..<n} (pv g j) (nx g j)"
  shows "queued slt n q F \<Longrightarrow> i \<le> n \<Longrightarrow> \<exists>q' F'. tear_scan g i q = Some q' \<and> queued slt n q' (F @ F') \<and>
    (\<forall>x<i. \<forall>j<3. alone (vtx g x j) \<longrightarrow> x \<in> set (F @ F'))"
proof (induction i arbitrary: q F)
  case 0
  then show ?case by (auto intro: exI [of _ "[]"])
next
  case (Suc i)
  then have i: "i < n" by simp
  have L3: "linked (slt 0) {..<n} (pv g 0) (nx g 0)" "linked (slt 1) {..<n} (pv g 1) (nx g 1)"
      "linked (slt 2) {..<n} (pv g 2) (nx g 2)" and lt: "(0::nat) < 3" "(1::nat) < 3" "(2::nat) < 3"
    using L by simp_all
  obtain q0 F0 where 0: "scan_vertex g i 0 q = Some q0" "queued slt n q0 (F @ F0)" "alone (vtx g i 0) \<Longrightarrow> i \<in> set (F @ F0)"
    using scan_vertex_spec [OF g n L3(1) Suc.prems(1) i lt(1)] by blast
  obtain q1 F1 where 1: "scan_vertex g i 1 q0 = Some q1" "queued slt n q1 ((F @ F0) @ F1)" "alone (vtx g i 1) \<Longrightarrow> i \<in> set ((F @ F0) @ F1)"
    using scan_vertex_spec [OF g n L3(2) 0(2) i lt(2)] by blast
  obtain q2 F2 where 2: "scan_vertex g i 2 q1 = Some q2" "queued slt n q2 (((F @ F0) @ F1) @ F2)" "alone (vtx g i 2) \<Longrightarrow> i \<in> set (((F @ F0) @ F1) @ F2)"
    using scan_vertex_spec [OF g n L3(3) 1(2) i lt(3)] by blast
  obtain q' F' where q': "tear_scan g i q2 = Some q'" "queued slt n q' ((((F @ F0) @ F1) @ F2) @ F')"
      "\<forall>x<i. \<forall>j<3. alone (vtx g x j) \<longrightarrow> x \<in> set ((((F @ F0) @ F1) @ F2) @ F')"
    using Suc.IH [OF 2(2)] i by (metis less_imp_le_nat)
  have three: "j < 3 \<longleftrightarrow> j = 0 \<or> j = 1 \<or> j = 2" for j :: nat by auto
  have "\<forall>x<Suc i. \<forall>j<3. alone (vtx g x j) \<longrightarrow> x \<in> set (F @ F0 @ F1 @ F2 @ F')"
    using q'(3) 0(3) 1(3) 2(3) by (auto simp: less_Suc_eq three)
  moreover have "tear_scan g (Suc i) q = Some q'" using 0(1) 1(1) 2(1) q'(1) by simp
  ultimately show ?case using q'(2) by (intro exI [of _ q'] exI [of _ "F0 @ F1 @ F2 @ F'"]) auto
qed

subsection \<open>Unlinking\<close>

lemma unlink_spec:
  fixes g :: "'w::len word Graph"
  assumes g: "gshape n m g" and j: "j < 3" and w: "w \<noteq> kEnd \<Longrightarrow> unat w < n"
    and r: "r = (if w \<noteq> kEnd then w else i)"
  obtains g' where
    "(if w \<noteq> kEnd then do {
        u \<leftarrow> vertex g (unat w) j; g \<leftarrow> put_vertex g (unat w) j (f u); Some (w, g)
      } else Some (i, g)) = Some (r, g')" "gshape n m g'"
    "\<And>x k. vtx g' x k = (if w \<noteq> kEnd \<and> x = unat w \<and> k = j then f (vtx g x k) else vtx g x k)"
proof (cases "w = kEnd")
  case True
  then show thesis using that [of g] g r by simp
next
  case False
  show thesis
  proof (rule modify_vertex_eq [OF g w [OF False] j, of f])
    fix g' assume "vertex g (unat w) j = Some (vtx g (unat w) j)" "put_vertex g (unat w) j (f (vtx g (unat w) j)) = Some g'"
      "gshape n m g'" "\<And>x k. vtx g' x k = (if x = unat w \<and> k = j then f (vtx g x k) else vtx g x k)"
    then show thesis using that [of g'] False r by simp
  qed
qed

text \<open>
  \<open>settled\<close>: an edge that is alone on its vertex has been queued. \<open>column\<close> is what holds of a column
  whose lists contain the edges \<open>A\<close>.
\<close>

definition column :: "(nat \<Rightarrow> nat \<Rightarrow> nat) \<Rightarrow> nat set \<Rightarrow> nat list \<Rightarrow> 'w::len word Graph \<Rightarrow> nat \<Rightarrow> bool" where
  "column slt A F g j \<longleftrightarrow> linked (slt j) A (pv g j) (nx g j) \<and> (\<forall>i\<in>A. alone (vtx g i j) \<longrightarrow> i \<in> set F)"

lemma column_mono: "column slt A F g j \<Longrightarrow> column slt A (F @ F') g j"
  by (auto simp: column_def)

lemma column_frame: "(\<And>i. vtx g' i j = vtx g i j) \<Longrightarrow> column slt A F g' j \<longleftrightarrow> column slt A F g j"
  by (simp add: column_def)

lemma tear_vertex_spec:
  fixes g :: "'w::len word Graph"
  assumes g: "gshape n m g" and n: "n < 2 ^ LENGTH('w)" and q: "queued slt n q F" and j: "j < 3"
    and c: "c \<in> A" and A: "A \<subseteq> {..<n}" and F: "{..<n} - A \<union> {c} \<subseteq> set F" and col: "column slt A F g j"
  obtains g' q' F' where "tear_vertex c j (g, q) = Some (g', q')" "gshape n m g'" "queued slt n q' (F @ F')"
    "column slt (A - {c}) (F @ F') g' j"
    "\<And>i j'. v_slot (vtx g' i j') = v_slot (vtx g i j')" "\<And>i j'. j' \<noteq> j \<Longrightarrow> vtx g' i j' = vtx g i j'"
proof -
  have L: "linked (slt j) A (pv g j) (nx g j)" using col by (simp add: column_def)
  define P Q where "P = pv g j c" and "Q = nx g j c"
  have P: "unat P \<in> A" "c < unat P" if "P \<noteq> kEnd"
    using L c that by (auto simp: linked_def pv_ok_def P_def)
  have Q: "unat Q \<in> A" "unat Q < c" if "Q \<noteq> kEnd"
    using L c that by (auto simp: linked_def nx_ok_def Q_def)
  have PN: "P \<noteq> kEnd \<Longrightarrow> unat P < n" "P = (if P \<noteq> kEnd then P else kEnd)" "Q \<noteq> kEnd \<Longrightarrow> unat Q < n"
    using P Q A by auto
  obtain g1 where g1: "(if P \<noteq> kEnd then do {
        u \<leftarrow> vertex g (unat P) j; g \<leftarrow> put_vertex g (unat P) j (u\<lparr>v_next := Q\<rparr>); Some (P, g)
      } else Some (kEnd, g)) = Some (P, g1)" "gshape n m g1"
      "\<And>x k. vtx g1 x k = (if P \<noteq> kEnd \<and> x = unat P \<and> k = j then (vtx g x k)\<lparr>v_next := Q\<rparr> else vtx g x k)"
    using unlink_spec [OF g j PN(1) PN(2), where f = "\<lambda>u. u\<lparr>v_next := Q\<rparr>"] by blast
  have c1: "vtx g1 c j = vtx g c j" using g1(3) P by auto
  obtain g2 where g2: "(if Q \<noteq> kEnd then do {
        u \<leftarrow> vertex g1 (unat Q) j; g \<leftarrow> put_vertex g1 (unat Q) j (u\<lparr>v_prev := P\<rparr>); Some (Q, g)
      } else Some (P, g1)) = Some (if Q \<noteq> kEnd then Q else P, g2)" "gshape n m g2"
      "\<And>x k. vtx g2 x k = (if Q \<noteq> kEnd \<and> x = unat Q \<and> k = j then (vtx g1 x k)\<lparr>v_prev := P\<rparr> else vtx g1 x k)"
    using unlink_spec [OF g1(2) j PN(3) refl, where f = "\<lambda>u. u\<lparr>v_prev := P\<rparr>" and i = P] by blast
  define i where "i = (if Q \<noteq> kEnd then Q else P)"
  have cn: "c < n" using c A by auto
  have run: "tear_vertex c j (g, q) = (if i = kEnd then Some (g2, q)
      else do { u \<leftarrow> vertex g2 (unat i) j; q \<leftarrow> try_free u (unat i) q; Some (g2, q) })"
    by (simp only: tear_vertex_def prod.case bind.simps vertex_eq [OF g cn j] vertex_eq [OF g1(2) cn j] c1
        P_def [symmetric] Q_def [symmetric] g1(1) g2(1) i_def [symmetric])
  have nx2: "nx g2 j x = (if P \<noteq> kEnd \<and> x = unat P then Q else nx g j x)" if "x \<in> A" for x
    using g2(3) g1(3) by auto
  have pv2: "pv g2 j x = (if Q \<noteq> kEnd \<and> x = unat Q then P else pv g j x)" if "x \<in> A" for x
    using g2(3) g1(3) by auto
  have L2: "linked (slt j) (A - {c}) (pv g2 j) (nx g2 j)"
    by (rule linked_remove [OF L c]) (auto simp: nx2 pv2 P_def Q_def)
  have keep: "x \<in> set F" if "x \<in> A - {c}" "alone (vtx g2 x j)" "i = kEnd \<or> x \<noteq> unat i" for x
    using that col nx2 [of x] pv2 [of x] by (auto simp: column_def alone_def i_def split: if_splits)
  obtain q' F' where q': "tear_vertex c j (g, q) = Some (g2, q')" "queued slt n q' (F @ F')"
      "\<forall>x\<in>A - {c}. alone (vtx g2 x j) \<longrightarrow> x \<in> set (F @ F')"
  proof (cases "i = kEnd")
    case True
    then show thesis using that [of q "[]"] run q keep by auto
  next
    case False
    then have iA: "unat i \<in> A - {c}" using P Q by (auto simp: i_def split: if_splits)
    then have iN: "unat i < n" using A by auto
    have "\<exists>j<3. \<forall>x<n. slt j x = slt j (unat i) \<longrightarrow> x = unat i \<or> x \<in> set F" if "alone (vtx g2 (unat i) j)"
      using linked_alone [OF L2 iA] that F j by (fastforce simp: alone_def)
    then obtain q' F' where tf: "try_free (vtx g2 (unat i) j) (unat i) q = Some q'" "queued slt n q' (F @ F')"
        "alone (vtx g2 (unat i) j) \<Longrightarrow> unat i \<in> set (F @ F')"
      using try_free_spec [OF q iN n] by metis
    show thesis
    proof (rule that [OF _ tf(2)])
      show "tear_vertex c j (g, q) = Some (g2, q')" using tf(1) False by (simp add: run vertex_eq [OF g2(2) iN j])
      show "\<forall>x\<in>A - {c}. alone (vtx g2 x j) \<longrightarrow> x \<in> set (F @ F')"
        using keep tf(3) by (metis UnCI set_append)
    qed
  qed
  show thesis
  proof (rule that [OF q'(1) g2(2) q'(2)])
    show "column slt (A - {c}) (F @ F') g2 j" using L2 q'(3) by (simp add: column_def)
    show "v_slot (vtx g2 x k) = v_slot (vtx g x k)" for x k by (simp add: g2(3) g1(3))
    show "vtx g2 x k = vtx g x k" if "k \<noteq> j" for x k using that by (simp add: g2(3) g1(3))
  qed
qed

lemma tear_edge_spec:
  fixes g :: "'w::len word Graph"
  assumes g: "gshape n m g" and n: "n < 2 ^ LENGTH('w)" and q: "queued slt n q F"
    and c: "c \<in> A" and A: "A \<subseteq> {..<n}" and F: "{..<n} - A \<union> {c} \<subseteq> set F" and col: "\<forall>j<3. column slt A F g j"
  obtains g' q' F' where "tear_edge c (g, q) = Some (g', q')" "gshape n m g'" "queued slt n q' (F @ F')"
    "\<forall>j<3. column slt (A - {c}) (F @ F') g' j" "\<And>i j. v_slot (vtx g' i j) = v_slot (vtx g i j)"
proof -
  have lt: "(0::nat) < 3" "(1::nat) < 3" "(2::nat) < 3" by simp_all
  have grow: "{..<n} - A \<union> {c} \<subseteq> set (F @ F')" for F' using F by auto
  obtain g0 q0 F0 where 0: "tear_vertex c 0 (g, q) = Some (g0, q0)" "gshape n m g0" "queued slt n q0 (F @ F0)"
      "column slt (A - {c}) (F @ F0) g0 0"
      "\<And>i j'. v_slot (vtx g0 i j') = v_slot (vtx g i j')" "\<And>i j'. j' \<noteq> 0 \<Longrightarrow> vtx g0 i j' = vtx g i j'"
    using tear_vertex_spec [OF g n q lt(1) c A F] col lt(1) by blast
  have c1: "column slt A (F @ F0) g0 1"
    using col column_mono column_frame [of g0 1 g] 0(6) lt(2) by blast
  obtain g1 q1 F1 where 1: "tear_vertex c 1 (g0, q0) = Some (g1, q1)" "gshape n m g1" "queued slt n q1 ((F @ F0) @ F1)"
      "column slt (A - {c}) ((F @ F0) @ F1) g1 1"
      "\<And>i j'. v_slot (vtx g1 i j') = v_slot (vtx g0 i j')" "\<And>i j'. j' \<noteq> 1 \<Longrightarrow> vtx g1 i j' = vtx g0 i j'"
    using tear_vertex_spec [OF 0(2) n 0(3) lt(2) c A grow c1] by blast
  have "column slt A F g1 2"
    using col column_frame [of g1 2 g] 0(6) 1(6) lt(3) by auto
  then have c2: "column slt A ((F @ F0) @ F1) g1 2" by (intro column_mono)
  have grow2: "{..<n} - A \<union> {c} \<subseteq> set ((F @ F0) @ F1)" using F by auto
  obtain g2 q2 F2 where 2: "tear_vertex c 2 (g1, q1) = Some (g2, q2)" "gshape n m g2" "queued slt n q2 (((F @ F0) @ F1) @ F2)"
      "column slt (A - {c}) (((F @ F0) @ F1) @ F2) g2 2"
      "\<And>i j'. v_slot (vtx g2 i j') = v_slot (vtx g1 i j')" "\<And>i j'. j' \<noteq> 2 \<Longrightarrow> vtx g2 i j' = vtx g1 i j'"
    using tear_vertex_spec [OF 1(2) n 1(3) lt(3) c A grow2 c2] by blast
  have three: "j < 3 \<longleftrightarrow> j = 0 \<or> j = 1 \<or> j = 2" for j :: nat by auto
  have "column slt (A - {c}) (F @ F0) g2 0" using 0(4) column_frame [of g2 0 g0] 1(6) 2(6) by auto
  then have "column slt (A - {c}) (((F @ F0) @ F1) @ F2) g2 0" by (rule column_mono [OF column_mono])
  moreover have "column slt (A - {c}) ((F @ F0) @ F1) g2 1" using 1(4) column_frame [of g2 1 g1] 2(6) by auto
  then have "column slt (A - {c}) (((F @ F0) @ F1) @ F2) g2 1" by (rule column_mono)
  ultimately have "\<forall>j<3. column slt (A - {c}) (F @ F0 @ F1 @ F2) g2 j" using 2(4) by (simp add: three)
  moreover have "tear_edge c (g, q) = Some (g2, q2)" using 0(1) 1(1) 2(1) by (simp add: tear_edge_def)
  ultimately show thesis using that [of g2 q2 "F0 @ F1 @ F2"] 2(2,3,5) 0(5) 1(5) by simp
qed

subsection \<open>The loop\<close>

lemma tear_loop_spec:
  fixes g :: "'w::len word Graph"
  assumes n: "n < 2 ^ LENGTH('w)"
  shows "gshape n m g \<Longrightarrow> queued slt n (free, book, tail) F \<Longrightarrow> h \<le> tail \<Longrightarrow>
    \<forall>j<3. column slt ({..<n} - set (take h F)) F g j \<Longrightarrow>
    \<exists>g' q' F'. tear_loop h g free book tail = Some (g', q') \<and> gshape n m g' \<and> queued slt n q' F' \<and>
      (\<forall>j<3. column slt ({..<n} - set F') F' g' j) \<and> (\<forall>i j. v_slot (vtx g' i j) = v_slot (vtx g i j))"
proof (induction "n - h" arbitrary: h g free book tail F rule: less_induct)
  case less
  note q = \<open>queued slt n (free, book, tail) F\<close>
  have Q: "map unat (take tail free) = F" "length F = tail" "length free = n" "distinct F" "set F \<subseteq> {..<n}"
    using q by (simp_all add: queued_def)
  then have "tail \<le> n" by (metis length_map length_take min.cobounded1)
  show ?case
  proof (cases "h < tail")
    case False
    then show ?thesis using less.prems Q by (auto simp: tear_loop.simps intro!: exI [of _ F])
  next
    case True
    define c where "c = F ! h"
    have fh: "rd free h = Some (free ! h)" "unat (free ! h) = c"
      using True Q \<open>tail \<le> n\<close> by (auto simp: c_def)
    let ?A = "{..<n} - set (take h F)"
    have c: "c \<in> set F" "c \<notin> set (take h F)" "set (take (Suc h) F) = insert c (set (take h F))"
      using True Q by (auto simp: c_def take_Suc_conv_app_nth distinct_conv_nth in_set_conv_nth)
    have cA: "c \<in> ?A" using c Q by auto
    have sub: "{..<n} - ?A \<union> {c} \<subseteq> set F" using c set_take_subset [of h F] by auto
    obtain g' q' F' where st: "tear_edge c (g, free, book, tail) = Some (g', q')" "gshape n m g'" "queued slt n q' (F @ F')"
        "\<forall>j<3. column slt (?A - {c}) (F @ F') g' j" "\<And>i j. v_slot (vtx g' i j) = v_slot (vtx g i j)"
      using tear_edge_spec [OF less.prems(1) n q cA Diff_subset sub less.prems(4)] by blast
    obtain free' book' tail' where q': "q' = (free', book', tail')" by (cases q' rule: prod_cases3)
    have "?A - {c} = {..<n} - set (take (Suc h) (F @ F'))" using c True Q by auto
    moreover have "Suc h \<le> tail'" using st(3) True Q by (auto simp: q' queued_def)
    moreover have "n - Suc h < n - h" using True \<open>tail \<le> n\<close> by simp
    ultimately have "\<exists>g'' q'' F''. tear_loop (Suc h) g' free' book' tail' = Some (g'', q'') \<and> gshape n m g'' \<and>
        queued slt n q'' F'' \<and> (\<forall>j<3. column slt ({..<n} - set F'') F'' g'' j) \<and>
        (\<forall>i j. v_slot (vtx g'' i j) = v_slot (vtx g' i j))"
      using st q' by (intro less.hyps [of "Suc h" g' free' book' tail' "F @ F'"]) simp_all
    moreover have "tear_loop h g free book tail = tear_loop (Suc h) g' free' book' tail'"
      using True fh st(1) q' by (subst tear_loop.simps) simp
    ultimately show ?thesis using st(5) by simp
  qed
qed

text \<open>
  A core: edges that share each of their vertices with another edge of the set. A graph with a core
  cannot be peeled.
\<close>

definition core :: "(nat \<Rightarrow> nat \<Rightarrow> nat) \<Rightarrow> nat \<Rightarrow> nat set \<Rightarrow> bool" where
  "core slt n B \<longleftrightarrow> B \<noteq> {} \<and> B \<subseteq> {..<n} \<and> (\<forall>i\<in>B. \<forall>j<3. \<exists>x\<in>B. x \<noteq> i \<and> slt j x = slt j i)"

lemma column_core:
  assumes "\<forall>j<3. column slt ({..<n} - set F) F g j" and "{..<n} - set F \<noteq> {}"
  shows "core slt n ({..<n} - set F)"
  unfolding core_def
proof (intro conjI ballI allI impI)
  let ?A = "{..<n} - set F"
  fix i j :: nat assume i: "i \<in> ?A" and "j < 3"
  then have "\<not> alone (vtx g i j)" and L: "linked (slt j) ?A (pv g j) (nx g j)" using assms by (auto simp: column_def)
  have ok: "nx_ok (slt j) ?A i (nx g j i)" "pv_ok (slt j) ?A i (pv g j i)" using L i unfolding linked_def by blast+
  show "\<exists>x\<in>?A. x \<noteq> i \<and> slt j x = slt j i"
  proof (cases "pv g j i = kEnd")
    case True
    then have "nx g j i \<noteq> kEnd" using \<open>\<not> alone (vtx g i j)\<close> by (simp add: alone_def)
    then show ?thesis using ok(1) unfolding nx_ok_def by (metis less_irrefl)
  next
    case False
    then show ?thesis using ok(2) unfolding pv_ok_def by (metis less_irrefl)
  qed
qed (use assms in auto)

lemma core_not_peeled:
  assumes "core slt n B" and "peels slt n F" and "distinct F"
  shows "set F \<inter> B = {}"
proof (rule ccontr)
  assume "set F \<inter> B \<noteq> {}"
  then have ex: "\<exists>k. k < length F \<and> F ! k \<in> B" by (auto simp: in_set_conv_nth)
  then obtain k where k: "k < length F" "F ! k \<in> B" and least: "\<And>l. l < k \<Longrightarrow> l < length F \<Longrightarrow> F ! l \<notin> B"
    using exists_least_iff [of "\<lambda>k. k < length F \<and> F ! k \<in> B"] by blast
  obtain j where "j < 3" and only: "\<forall>x<n. slt j x = slt j (F ! k) \<longrightarrow> x = F ! k \<or> x \<in> set (take k F)"
    using assms(2) k by (auto simp: peels_def)
  then obtain x where x: "x \<in> B" "x \<noteq> F ! k" "slt j x = slt j (F ! k)"
    using assms(1) k unfolding core_def by blast
  then have "x < n" using assms(1) by (auto simp: core_def)
  then have "x \<in> set (take k F)" using only x by blast
  then obtain l where "l < k" "l < length F" "F ! l = x" by (auto simp: in_set_conv_nth)
  then show False using x(1) least by blast
qed

lemma book_TestAndSetBit: "TestAndSetBit b i = Some (x, b') \<Longrightarrow> length b' = length b"
  by (auto simp: TestAndSetBit_def bind_eq_Some_conv Let_def split: if_splits)

lemma book_try_free: "try_free v i (free, book, tail) = Some (free', book', tail') \<Longrightarrow> length book' = length book"
  by (auto simp: try_free_def bind_eq_Some_conv split: if_splits prod.splits dest!: book_TestAndSetBit)

lemma book_scan_vertex:
  "scan_vertex g i j (free, book, tail) = Some (free', book', tail') \<Longrightarrow> length book' = length book"
  by (auto simp: scan_vertex_def bind_eq_Some_conv dest!: book_try_free)

lemma book_tear_scan: "tear_scan g i (free, book, tail) = Some (free', book', tail') \<Longrightarrow> length book' = length book"
proof (induction i arbitrary: free book tail)
  case (Suc i)
  then show ?case by (auto simp: bind_eq_Some_conv dest!: book_scan_vertex Suc.IH)
qed simp

lemma book_tear_vertex:
  "tear_vertex c j (g, free, book, tail) = Some (g', free', book', tail') \<Longrightarrow> length book' = length book"
  by (auto simp: tear_vertex_def bind_eq_Some_conv split: if_splits prod.splits dest!: book_try_free)

lemma book_tear_edge:
  "tear_edge c (g, free, book, tail) = Some (g', free', book', tail') \<Longrightarrow> length book' = length book"
  by (auto simp: tear_edge_def bind_eq_Some_conv dest!: book_tear_vertex)

lemma book_tear_loop: "tear_loop h g free book tail = Some (g', free', book', tail') \<Longrightarrow> length book' = length book"
proof (induction h g free book tail rule: tear_loop.induct)
  case (1 h g free book tail)
  show ?case
  proof (cases "h < tail")
    case True
    then obtain c g1 free1 book1 tail1 where "rd free h = Some c"
        "tear_edge (unat c) (g, free, book, tail) = Some (g1, free1, book1, tail1)"
        "tear_loop (h + 1) g1 free1 book1 tail1 = Some (g', free', book', tail')"
      using "1.prems" by (subst (asm) tear_loop.simps) (auto split: option.splits)
    then show ?thesis using "1.IH" True book_tear_edge by metis
  next
    case False
    then show ?thesis using "1.prems" by (simp add: tear_loop.simps)
  qed
qed

lemma TearGraph_spec:
  fixes g :: "'w::len word Graph"
  assumes g: "gshape n m g" and n: "n < 2 ^ LENGTH('w)" and free: "length free = n" and book: "n \<le> 8 * length book"
    and L: "\<forall>j<3. linked (slt j) {..<n} (pv g j) (nx g j)"
  obtains ok g' free' book' where "TearGraph n g free book = Some (ok, g', free', book')" "gshape n m g'"
    "length free' = n" "length book' = length book" "\<And>i j. v_slot (vtx g' i j) = v_slot (vtx g i j)"
    "ok \<Longrightarrow> distinct (map unat free') \<and> set (map unat free') = {..<n} \<and> peels slt n (map unat free')"
    "\<not> ok \<Longrightarrow> \<exists>B. core slt n B"
proof -
  let ?z = "replicate ((n + 7) div 8) 0" and ?b = "replicate ((n + 7) div 8) 0 @ drop ((n + 7) div 8) book"
  have fits: "(n + 7) div 8 \<le> length book" using book by simp
  have "queued slt n (free, ?b, 0) []"
  proof -
    have "\<not> marked ?b i" if "i < n" for i
    proof -
      have "i < 8 * ((n + 7) div 8)" using that by simp
      then have "\<not> marked ?z i" "i div 8 < (n + 7) div 8"
        by (simp, simp add: less_mult_imp_div_less mult.commute)
      then show ?thesis by (simp add: marked_def nth_append)
    qed
    then show ?thesis using free book fits by (simp add: queued_def peels_def)
  qed
  then obtain q1 F1 where q1: "tear_scan g n (free, ?b, 0) = Some q1" "queued slt n q1 F1"
      "\<forall>x<n. \<forall>j<3. alone (vtx g x j) \<longrightarrow> x \<in> set F1"
    using tear_scan_spec [OF g n L, of "(free, ?b, 0)" "[]" n] by auto
  obtain free1 book1 tail1 where e1: "q1 = (free1, book1, tail1)" by (cases q1 rule: prod_cases3)
  have "\<forall>j<3. column slt ({..<n} - set (take 0 F1)) F1 g j" using L q1(3) by (simp add: column_def)
  then obtain g2 q2 F2 where q2: "tear_loop 0 g free1 book1 tail1 = Some (g2, q2)" "gshape n m g2" "queued slt n q2 F2"
      "\<forall>j<3. column slt ({..<n} - set F2) F2 g2 j" "\<forall>i j. v_slot (vtx g2 i j) = v_slot (vtx g i j)"
    using tear_loop_spec [OF n g q1(2) [unfolded e1]] by blast
  obtain free2 book2 tail2 where e2: "q2 = (free2, book2, tail2)" by (cases q2 rule: prod_cases3)
  have Q: "map unat (take tail2 free2) = F2" "length F2 = tail2" "length free2 = n" "distinct F2" "set F2 \<subseteq> {..<n}"
      "peels slt n F2"
    using q2(3) by (simp_all add: queued_def e2)
  show thesis
  proof (rule that)
    show "TearGraph n g free book = Some (tail2 = n, g2, free2, book2)"
      using fits q1(1) q2(1) by (simp add: TearGraph_def e1 e2)
    show "length book2 = length book"
      using book_tear_scan [OF q1(1) [unfolded e1]] book_tear_loop [OF q2(1) [unfolded e2]] fits by simp
    show "distinct (map unat free2) \<and> set (map unat free2) = {..<n} \<and> peels slt n (map unat free2)" if "tail2 = n"
    proof -
      have F2: "map unat free2 = F2" using Q that by simp
      have "set F2 = {..<n}"
        using Q that by (metis card_lessThan card_subset_eq distinct_card finite_lessThan)
      then show ?thesis using F2 Q by simp
    qed
    show "\<exists>B. core slt n B" if "tail2 \<noteq> n"
    proof -
      have "card (set F2) \<noteq> n" using Q that by (simp add: distinct_card)
      then have "{..<n} - set F2 \<noteq> {}" using Q by (metis Diff_eq_empty_iff card_lessThan subset_antisym)
      then show ?thesis using column_core [OF q2(4)] by blast
    qed
  qed (use q2 Q in auto)
qed

lemma linked_cong:
  fixes p q :: "nat \<Rightarrow> 'b::len word"
  assumes "\<And>x. x \<in> A \<Longrightarrow> sl1 x = sl2 x"
  shows "linked sl1 A p q \<longleftrightarrow> linked sl2 A p q"
proof -
  have "nx_ok sl1 A i w \<longleftrightarrow> nx_ok sl2 A i w" "pv_ok sl1 A i w \<longleftrightarrow> pv_ok sl2 A i w" if "i \<in> A" for i and w :: "'b word"
    using assms that by (simp_all add: nx_ok_def pv_ok_def cong: conj_cong)
  then show ?thesis by (simp add: linked_def)
qed

definition key_slots :: "u32 \<Rightarrow> nat \<Rightarrow> u8 list list \<Rightarrow> nat \<Rightarrow> nat \<Rightarrow> nat" where
  "key_slots seed m ks j i = edge_slots seed m (ks ! i) j"

lemma created_linked:
  assumes "\<forall>j<3. col_ok m n g j" and "\<forall>x<n. \<forall>j<3. sl g j x = edge_slots seed m (ks ! x) j"
  shows "\<forall>j<3. linked (key_slots seed m ks j) {..<n} (pv g j) (nx g j)"
proof (intro allI impI)
  fix j :: nat assume "j < 3"
  have "linked (sl g j) {..<n} (pv g j) (nx g j)" using assms(1) \<open>j < 3\<close> by (simp only: col_ok_def)
  moreover have "linked (key_slots seed m ks j) {..<n} (pv g j) (nx g j) \<longleftrightarrow> linked (sl g j) {..<n} (pv g j) (nx g j)"
    by (rule linked_cong) (use assms(2) \<open>j < 3\<close> in \<open>simp add: key_slots_def\<close>)
  ultimately show "linked (key_slots seed m ks j) {..<n} (pv g j) (nx g j)" by (simp only:)
qed



end
