(* ===== verification/PH_Mapping.thy ===== *)
theory PH_Mapping
  imports PH_Peel
begin

text \<open>
  \<open>Mapping\<close> of src/perfect_hash.cc walks the peeling order backwards and gives every edge a vertex of
  its own, by setting the two-bit fields of the bitmap so that their sum selects it. The index of an
  edge is then the rank of its vertex among the fields that are set; \<open>Build\<close> stores the ranks of the
  blocks of 32 fields in a table.
\<close>

subsection \<open>Model\<close>

text \<open>
  The body of the loop, on the three vertices of an edge. A sum of two fields is at most 6, so the
  unsigned differences do not wrap. The last branch is \<open>assert(false)\<close>.
\<close>

definition map_edge :: "nat \<Rightarrow> nat \<Rightarrow> nat \<Rightarrow> u8 list \<Rightarrow> u8 list \<Rightarrow> (u8 list \<times> u8 list) option" where
  "map_edge a b c book bitmap = do {
     (fresh, book) \<leftarrow> TestAndSetBit book a;
     if fresh then do {
       book \<leftarrow> SetBit book b;
       book \<leftarrow> SetBit book c;
       x \<leftarrow> Bit2 bitmap b;
       y \<leftarrow> Bit2 bitmap c;
       bitmap \<leftarrow> SetBit2on11 bitmap a (of_nat ((6 - (x + y)) mod 3));
       Some (book, bitmap)
     } else do {
       (fresh, book) \<leftarrow> TestAndSetBit book b;
       if fresh then do {
         book \<leftarrow> SetBit book c;
         x \<leftarrow> Bit2 bitmap a;
         y \<leftarrow> Bit2 bitmap c;
         bitmap \<leftarrow> SetBit2on11 bitmap b (of_nat ((7 - (x + y)) mod 3));
         Some (book, bitmap)
       } else do {
         (fresh, book) \<leftarrow> TestAndSetBit book c;
         if fresh then do {
           x \<leftarrow> Bit2 bitmap a;
           y \<leftarrow> Bit2 bitmap b;
           bitmap \<leftarrow> SetBit2on11 bitmap c (of_nat ((8 - (x + y)) mod 3));
           Some (book, bitmap)
         } else None
       }
     }
   }"

fun map_loop :: "u32 \<Rightarrow> 'w::len word Graph \<Rightarrow> 'w word list \<Rightarrow> nat \<Rightarrow> u8 list \<Rightarrow> u8 list \<Rightarrow>
    (u8 list \<times> u8 list) option" where
  "map_loop m g free 0 book bitmap = Some (book, bitmap)"
| "map_loop m g free (Suc i) book bitmap = do {
     idx \<leftarrow> rd free i;
     v0 \<leftarrow> vertex g (unat idx) 0;
     v1 \<leftarrow> vertex g (unat idx) 1;
     v2 \<leftarrow> vertex g (unat idx) 2;
     let a = unat (v_slot v0);
     let b = unat (ucast (v_slot v1) + m);
     let c = unat (ucast (v_slot v2) + m * 2);
     (book, bitmap) \<leftarrow> map_edge a b c book bitmap;
     map_loop m g free i book bitmap
   }"

definition Mapping :: "nat \<Rightarrow> 'w::len word Graph \<Rightarrow> 'w word list \<Rightarrow> u8 list \<Rightarrow> u8 list \<Rightarrow>
    (u8 list \<times> u8 list) option" where
  "Mapping n g free book bitmap = do {
     let m = Section (of_nat n);
     bitmap \<leftarrow> wr_range bitmap 0 (replicate (unat (BitmapSize m)) 0xff);
     book \<leftarrow> wr_range book 0 (replicate (unat ((m * 3 + 7) div 8)) 0);
     map_loop m g free n book bitmap
   }"

text \<open>The table of ranks that \<open>Build\<close> writes after the label \<open>L_done\<close>.\<close>

fun fill_table :: "u8 list \<Rightarrow> nat \<Rightarrow> nat \<Rightarrow> 'w::len word \<Rightarrow> 'w word list option" where
  "fill_table bitmap i 0 cnt = Some []"
| "fill_table bitmap i (Suc k) cnt = do {
     block \<leftarrow> load64 bitmap (8 * i);
     rest \<leftarrow> fill_table bitmap (Suc i) k (cnt + ucast (CountValidSlot block));
     Some (cnt # rest)
   }"

subsection \<open>One edge\<close>

text \<open>The vertex that the fields of an edge with vertices \<open>P 0\<close>, \<open>P 1\<close> and \<open>P 2\<close> select.\<close>

definition chosen :: "u8 list \<Rightarrow> (nat \<Rightarrow> nat) \<Rightarrow> nat" where
  "chosen bitmap P = P ((slot_val bitmap (P 0) + slot_val bitmap (P 1) + slot_val bitmap (P 2)) mod 3)"

lemma balance:
  fixes x y :: nat
  assumes "x < 4" and "y < 4"
  shows "((6 - (x + y)) mod 3 + x + y) mod 3 = 0" "(x + (7 - (x + y)) mod 3 + y) mod 3 = 1"
    "(x + y + (8 - (x + y)) mod 3) mod 3 = 2"
proof -
  have x: "x = 0 \<or> x = 1 \<or> x = 2 \<or> x = 3" and y: "y = 0 \<or> y = 1 \<or> y = 2 \<or> y = 3" using assms by auto
  show "((6 - (x + y)) mod 3 + x + y) mod 3 = 0" using x y by (elim disjE) simp_all
  show "(x + (7 - (x + y)) mod 3 + y) mod 3 = 1" using x y by (elim disjE) simp_all
  show "(x + y + (8 - (x + y)) mod 3) mod 3 = 2" using x y by (elim disjE) simp_all
qed

lemma map_edge_spec:
  assumes bound: "\<And>j. j < 3 \<Longrightarrow> P j < 4 * length bitmap \<and> P j < 8 * length book"
    and dist: "P 0 \<noteq> P 1" "P 0 \<noteq> P 2" "P 1 \<noteq> P 2"
    and free: "\<exists>j<3. \<not> marked book (P j)"
    and unset: "\<And>j. j < 3 \<Longrightarrow> \<not> marked book (P j) \<Longrightarrow> slot_val bitmap (P j) = 3"
  obtains book' bitmap' k where "map_edge (P 0) (P 1) (P 2) book bitmap = Some (book', bitmap')"
    "length book' = length book" "length bitmap' = length bitmap" "k < 3" "\<not> marked book (P k)"
    "\<And>q. marked book' q \<longleftrightarrow> marked book q \<or> q = P 0 \<or> q = P 1 \<or> q = P 2"
    "\<And>q. q < 4 * length bitmap \<Longrightarrow> q \<noteq> P k \<Longrightarrow> slot_val bitmap' q = slot_val bitmap q"
    "slot_val bitmap' (P k) \<noteq> 3" "chosen bitmap' P = P k"
proof -
  let ?x = "\<lambda>j. slot_val bitmap (P j)"
  have b: "P 0 < 4 * length bitmap" "P 1 < 4 * length bitmap" "P 2 < 4 * length bitmap"
      "P 0 < 8 * length book" "P 1 < 8 * length book" "P 2 < 8 * length book"
    using bound [of 0] bound [of 1] bound [of 2] by auto
  note B2 = Bit2_eq [OF b(1)] Bit2_eq [OF b(2)] Bit2_eq [OF b(3)]
  have m3: "r mod 3 < 4" "r mod 3 \<noteq> 3" for r :: nat
    using mod_less_divisor [of 3 r] by linarith+
  have set: "\<exists>bm. SetBit2on11 bitmap (P k) (of_nat (r mod 3)) = Some bm \<and> length bm = length bitmap \<and>
      (\<forall>q<4 * length bitmap. slot_val bm q = (if q = P k then r mod 3 else slot_val bitmap q))"
    if "k < 3" "\<not> marked book (P k)" for k r
  proof (rule SetBit2on11_eq [of "P k" bitmap "r mod 3"])
    show "P k < 4 * length bitmap" using bound that by simp
    show "slot_val bitmap (P k) = 3" using unset that by simp
    show "r mod 3 < 4" by (rule m3)
  qed blast
  obtain bk0 where k0: "TestAndSetBit book (P 0) = Some (\<not> marked book (P 0), bk0)" "length bk0 = length book"
      "\<And>q. marked bk0 q \<longleftrightarrow> q = P 0 \<or> marked book q"
    using TestAndSetBit_eq [OF b(4)] by metis
  show thesis
  proof (cases "marked book (P 0)")
    case False
    obtain bk1 where k1: "SetBit bk0 (P 1) = Some bk1" "length bk1 = length book" "\<And>q. marked bk1 q \<longleftrightarrow> q = P 1 \<or> marked bk0 q"
      using SetBit_eq [of "P 1" bk0] b(5) k0(2) by metis
    obtain bk2 where k2: "SetBit bk1 (P 2) = Some bk2" "length bk2 = length book" "\<And>q. marked bk2 q \<longleftrightarrow> q = P 2 \<or> marked bk1 q"
      using SetBit_eq [of "P 2" bk1] b(6) k1(2) by metis
    let ?v = "(6 - (?x 1 + ?x 2)) mod 3"
    obtain bm where bm: "SetBit2on11 bitmap (P 0) (of_nat ?v) = Some bm" "length bm = length bitmap"
        "\<And>q. q < 4 * length bitmap \<Longrightarrow> slot_val bm q = (if q = P 0 then ?v else slot_val bitmap q)"
      using set [of 0 "6 - (?x 1 + ?x 2)"] False by auto
    show thesis
    proof (rule that [of bk2 bm 0])
      show "map_edge (P 0) (P 1) (P 2) book bitmap = Some (bk2, bm)"
        using False k0(1) k1(1) k2(1) bm(1) B2 by (simp add: map_edge_def)
      show "chosen bm P = P 0"
        using dist b bm(3) balance(1) [of "?x 1" "?x 2"] by (simp add: chosen_def)
    qed (use False bm b m3(2) k0 k1 k2 in auto)
  next
    case m0: True
    obtain bk1 where k1: "TestAndSetBit bk0 (P 1) = Some (\<not> marked bk0 (P 1), bk1)" "length bk1 = length book"
        "\<And>q. marked bk1 q \<longleftrightarrow> q = P 1 \<or> marked bk0 q"
      using TestAndSetBit_eq [of "P 1" bk0] b(5) k0(2) by metis
    have m01: "marked bk0 (P 1) \<longleftrightarrow> marked book (P 1)" using k0(3) dist by auto
    show thesis
    proof (cases "marked book (P 1)")
      case False
      obtain bk2 where k2: "SetBit bk1 (P 2) = Some bk2" "length bk2 = length book" "\<And>q. marked bk2 q \<longleftrightarrow> q = P 2 \<or> marked bk1 q"
        using SetBit_eq [of "P 2" bk1] b(6) k1(2) by metis
      let ?v = "(7 - (?x 0 + ?x 2)) mod 3"
      obtain bm where bm: "SetBit2on11 bitmap (P 1) (of_nat ?v) = Some bm" "length bm = length bitmap"
          "\<And>q. q < 4 * length bitmap \<Longrightarrow> slot_val bm q = (if q = P 1 then ?v else slot_val bitmap q)"
        using set [of 1 "7 - (?x 0 + ?x 2)"] False by auto
      show thesis
      proof (rule that [of bk2 bm 1])
        show "map_edge (P 0) (P 1) (P 2) book bitmap = Some (bk2, bm)"
          using False m0 m01 k0(1) k1(1) k2(1) bm(1) B2 by (simp add: map_edge_def)
        show "chosen bm P = P 1"
          using dist b bm(3) balance(2) [of "?x 0" "?x 2"] by (simp add: chosen_def)
      qed (use False m0 bm b m3(2) k0 k1 k2 in auto)
    next
      case m1: True
      then have m2: "\<not> marked book (P 2)" using free m0 by (metis One_nat_def less_2_cases less_Suc_eq numeral_3_eq_3 numeral_2_eq_2)
      then have m12: "\<not> marked bk1 (P 2)" using k0(3) k1(3) dist by auto
      obtain bk2 where k2: "TestAndSetBit bk1 (P 2) = Some (\<not> marked bk1 (P 2), bk2)" "length bk2 = length book"
          "\<And>q. marked bk2 q \<longleftrightarrow> q = P 2 \<or> marked bk1 q"
        using TestAndSetBit_eq [of "P 2" bk1] b(6) k1(2) by metis
      let ?v = "(8 - (?x 0 + ?x 1)) mod 3"
      obtain bm where bm: "SetBit2on11 bitmap (P 2) (of_nat ?v) = Some bm" "length bm = length bitmap"
          "\<And>q. q < 4 * length bitmap \<Longrightarrow> slot_val bm q = (if q = P 2 then ?v else slot_val bitmap q)"
        using set [of 2 "8 - (?x 0 + ?x 1)"] m2 by auto
      show thesis
      proof (rule that [of bk2 bm 2])
        show "map_edge (P 0) (P 1) (P 2) book bitmap = Some (bk2, bm)"
          using m0 m1 m01 m12 k0(1) k1(1) k2(1) bm(1) B2 by (simp add: map_edge_def)
        show "chosen bm P = P 2"
          using dist b bm(3) balance(3) [of "?x 0" "?x 1"] by (simp add: chosen_def)
      qed (use m0 m1 m2 bm b m3(2) k0 k1 k2 in auto)
    qed
  qed
qed

subsection \<open>All edges\<close>

text \<open>
  \<open>mapped D\<close>: the edges \<open>D\<close> are done. Their vertices are marked, each has selected a vertex of its own,
  and the fields that are set are exactly the selected ones.
\<close>

definition vpos :: "(nat \<Rightarrow> nat \<Rightarrow> nat) \<Rightarrow> nat \<Rightarrow> nat \<Rightarrow> nat \<Rightarrow> nat" where
  "vpos slt m x j = slt j x + j * m"

definition mapped :: "(nat \<Rightarrow> nat \<Rightarrow> nat) \<Rightarrow> nat \<Rightarrow> nat set \<Rightarrow> u8 list \<Rightarrow> u8 list \<Rightarrow> bool" where
  "mapped slt m D book bitmap \<longleftrightarrow>
    (\<forall>p<3 * m. marked book p \<longleftrightarrow> (\<exists>x\<in>D. \<exists>j<3. p = vpos slt m x j)) \<and>
    inj_on (\<lambda>x. chosen bitmap (vpos slt m x)) D \<and>
    (\<forall>p<4 * length bitmap. slot_val bitmap p \<noteq> 3 \<longleftrightarrow> p \<in> (\<lambda>x. chosen bitmap (vpos slt m x)) ` D)"

lemma vpos_less:
  assumes "slt j x < m" and "j < 3"
  shows "vpos slt m x j < 3 * m"
proof -
  have "j * m \<le> 2 * m" using assms by simp
  then show ?thesis using assms unfolding vpos_def by linarith
qed

lemma vpos_eq:
  assumes "slt j x < m" and "slt k y < m"
  shows "vpos slt m x j = vpos slt m y k \<longleftrightarrow> slt j x = slt k y \<and> j = k"
  using slot_pos [OF assms] by (simp add: vpos_def)

lemma mapped_step:
  assumes M: "mapped slt m D book bitmap" and slt: "\<And>j y. j < 3 \<Longrightarrow> y \<in> insert x D \<Longrightarrow> slt j y < m" and "x \<notin> D"
    and len: "3 * m \<le> 4 * length bitmap" "length bitmap' = length bitmap"
    and k: "k < 3" "\<not> marked book (vpos slt m x k)"
    and mk: "\<And>q. marked book' q \<longleftrightarrow> marked book q \<or> q = vpos slt m x 0 \<or> q = vpos slt m x 1 \<or> q = vpos slt m x 2"
    and sv: "\<And>q. q < 4 * length bitmap \<Longrightarrow> q \<noteq> vpos slt m x k \<Longrightarrow> slot_val bitmap' q = slot_val bitmap q"
    and set: "slot_val bitmap' (vpos slt m x k) \<noteq> 3" and ch: "chosen bitmap' (vpos slt m x) = vpos slt m x k"
  shows "mapped slt m (insert x D) book' bitmap'"
proof -
  let ?P = "vpos slt m" and ?p = "vpos slt m x k"
  have small: "?P y j < 3 * m" if "j < 3" "y \<in> insert x D" for j y using vpos_less slt that by blast
  have used: "marked book (?P y j)" if "j < 3" "y \<in> D" for j y
    using M small [OF that(1)] that unfolding mapped_def by blast
  have other: "?P y j \<noteq> ?p" if "j < 3" "y \<in> D" for j y using used [OF that] k(2) by metis
  have same: "chosen bitmap' (?P y) = chosen bitmap (?P y)" if "y \<in> D" for y
  proof -
    have "slot_val bitmap' (?P y j) = slot_val bitmap (?P y j)" if "j < 3" for j
      using sv other [OF that \<open>y \<in> D\<close>] small [OF that, of y] len \<open>y \<in> D\<close> by simp
    then show ?thesis by (simp add: chosen_def)
  qed
  have img: "(\<lambda>y. chosen bitmap' (?P y)) ` D = (\<lambda>y. chosen bitmap (?P y)) ` D"
    using same by (rule image_cong [OF refl])
  have old: "chosen bitmap (?P y) \<noteq> ?p" if "y \<in> D" for y
    using other [OF _ that] by (simp add: chosen_def)
  have three: "(\<exists>j<3. Q j) \<longleftrightarrow> Q 0 \<or> Q 1 \<or> Q 2" for Q :: "nat \<Rightarrow> bool"
    by (metis One_nat_def less_2_cases less_Suc_eq numeral_2_eq_2 numeral_3_eq_3 zero_less_Suc)
  have "\<forall>p<3 * m. marked book' p \<longleftrightarrow> (\<exists>y\<in>insert x D. \<exists>j<3. p = ?P y j)"
    using M unfolding mapped_def three mk by blast
  moreover have "inj_on (\<lambda>y. chosen bitmap' (?P y)) (insert x D)"
  proof -
    have "inj_on (\<lambda>y. chosen bitmap' (?P y)) D"
      using M same by (simp add: mapped_def cong: inj_on_cong)
    moreover have "?p \<notin> (\<lambda>y. chosen bitmap (?P y)) ` D"
    proof
      assume "?p \<in> (\<lambda>y. chosen bitmap (?P y)) ` D"
      then obtain y where "y \<in> D" "?p = chosen bitmap (?P y)" by blast
      then show False using old [of y] by argo
    qed
    ultimately show ?thesis using \<open>x \<notin> D\<close> by (simp add: ch img)
  qed
  moreover have "slot_val bitmap' p \<noteq> 3 \<longleftrightarrow> p \<in> (\<lambda>y. chosen bitmap' (?P y)) ` insert x D" if "p < 4 * length bitmap'" for p
  proof (cases "p = ?p")
    case True
    then show ?thesis using set ch by auto
  next
    case False
    then show ?thesis using that sv [of p] len(2) M unfolding mapped_def image_insert img ch by simp
  qed
  ultimately show ?thesis by (simp add: mapped_def)
qed

lemma map_loop_spec:
  fixes g :: "'w::len word Graph"
  assumes g: "gshape n m g" and F: "distinct (map unat free)" "set (map unat free) = {..<n}" "peels slt n (map unat free)"
    and sl: "\<And>x j. x < n \<Longrightarrow> j < 3 \<Longrightarrow> sl g j x = slt j x \<and> slt j x < m" and M: "unat M = m" "3 * m < 2 ^ 32"
  shows "i \<le> n \<Longrightarrow> 3 * m \<le> 4 * length bitmap \<Longrightarrow> 3 * m \<le> 8 * length book \<Longrightarrow>
    mapped slt m (set (drop i (map unat free))) book bitmap \<Longrightarrow>
    \<exists>book' bitmap'. map_loop M g free i book bitmap = Some (book', bitmap') \<and> length book' = length book \<and>
      length bitmap' = length bitmap \<and> mapped slt m {..<n} book' bitmap'"
proof (induction i arbitrary: book bitmap)
  case 0
  then show ?case using F(2) by simp
next
  case (Suc i)
  let ?F = "map unat free"
  have lenF: "length ?F = n" using F by (metis card_lessThan distinct_card)
  define x where "x = ?F ! i"
  have i: "i < length ?F" using Suc.prems lenF by simp
  then have "x \<in> set ?F" unfolding x_def by (rule nth_mem)
  then have x: "x < n" "unat (free ! i) = x" using F(2) i by (simp, simp add: x_def)
  let ?D = "set (drop (Suc i) ?F)" and ?P = "vpos slt m x"
  have D: "set (drop i ?F) = insert x ?D" using i by (metis Cons_nth_drop_Suc list.simps(15) x_def)
  have xD: "x \<notin> ?D"
    using F(1) i by (metis Cons_nth_drop_Suc distinct.simps(2) distinct_drop x_def)
  have sub: "insert x ?D \<subseteq> {..<n}" using F(2) D set_drop_subset [of i ?F] by metis
  have slt: "slt j y < m" if "j < 3" "y \<in> insert x ?D" for j y using sl sub that by blast
  have small: "?P j < 3 * m" if "j < 3" for j using vpos_less slt that by blast
  have bound: "?P j < 4 * length bitmap \<and> ?P j < 8 * length book" if "j < 3" for j
    using small [OF that] Suc.prems by linarith
  have neq: "?P 0 \<noteq> ?P 1" "?P 0 \<noteq> ?P 2" "?P 1 \<noteq> ?P 2"
    using vpos_eq [of slt _ x m _ x] slt by simp_all
  have free: "\<exists>j<3. \<not> marked book (?P j)"
  proof -
    obtain j where j: "j < 3" "\<forall>y<n. slt j y = slt j x \<longrightarrow> y = x \<or> y \<in> set (take i ?F)"
      using F(3) i by (auto simp: peels_def x_def simp del: length_map)
    have "?P j \<noteq> vpos slt m y k" if "y \<in> ?D" "k < 3" for y k
    proof
      assume "?P j = vpos slt m y k"
      then have "slt j y = slt j x" using vpos_eq [of slt j x m k y] slt that j(1) by auto
      then have "y \<in> set (take i ?F)" using j(2) that xD sub by (metis insertCI lessThan_iff subsetD)
      then show False
        using F(1) that set_take_disj_set_drop_if_distinct [of ?F i "Suc i"] by auto
    qed
    then have "\<not> marked book (?P j)" using Suc.prems(4) small [OF j(1)] unfolding mapped_def by blast
    then show ?thesis using j(1) by blast
  qed
  have unset: "slot_val bitmap (?P j) = 3" if j: "j < 3" "\<not> marked book (?P j)" for j
  proof (rule ccontr)
    assume "slot_val bitmap (?P j) \<noteq> 3"
    then obtain y where y: "y \<in> ?D" "?P j = chosen bitmap (vpos slt m y)"
      using Suc.prems(4) bound [OF j(1)] unfolding mapped_def by blast
    then obtain k where "k < 3" "?P j = vpos slt m y k"
      unfolding chosen_def by (meson mod_less_divisor zero_less_numeral)
    then show False using j Suc.prems(4) small [OF j(1)] y(1) unfolding mapped_def by blast
  qed
  obtain book1 bitmap1 k where st: "map_edge (?P 0) (?P 1) (?P 2) book bitmap = Some (book1, bitmap1)"
      "length book1 = length book" "length bitmap1 = length bitmap" "k < 3" "\<not> marked book (?P k)"
      "\<And>q. marked book1 q \<longleftrightarrow> marked book q \<or> q = ?P 0 \<or> q = ?P 1 \<or> q = ?P 2"
      "\<And>q. q < 4 * length bitmap \<Longrightarrow> q \<noteq> ?P k \<Longrightarrow> slot_val bitmap1 q = slot_val bitmap q"
      "slot_val bitmap1 (?P k) \<noteq> 3" "chosen bitmap1 ?P = ?P k"
    using map_edge_spec [OF bound neq free unset] by blast
  have "mapped slt m (insert x ?D) book1 bitmap1"
    by (rule mapped_step [OF Suc.prems(4) slt xD Suc.prems(2) st(3-9)])
  then have "\<exists>book' bitmap'. map_loop M g free i book1 bitmap1 = Some (book', bitmap') \<and> length book' = length book1 \<and>
      length bitmap' = length bitmap1 \<and> mapped slt m {..<n} book' bitmap'"
    using Suc.prems st(2,3) D by (intro Suc.IH) simp_all
  moreover have "map_loop M g free (Suc i) book bitmap = map_loop M g free i book1 bitmap1"
  proof -
    have v: "vertex g x j = Some (vtx g x j)" if "j < 3" for j using vertex_eq [OF g x(1) that] .
    have a: "unat (v_slot (vtx g x 0)) = ?P 0" using sl [OF x(1), of 0] by (simp add: vpos_def)
    have b: "unat (ucast (v_slot (vtx g x 1)) + M) = ?P 1"
      using sl [OF x(1), of 1] M by (simp add: vpos_def unat_word_ariths unat_ucast)
    have c: "unat (ucast (v_slot (vtx g x 2)) + M * 2) = ?P 2"
      using sl [OF x(1), of 2] M by (simp add: vpos_def unat_word_ariths unat_ucast mod_simps mult.commute)
    show ?thesis using i x v [of 0] v [of 1] v [of 2] a b c st(1) by (simp add: Let_def)
  qed
  ultimately show ?case using st(2,3) by simp
qed

end
