(* ===== verification/PH_Rank.thy ===== *)
theory PH_Rank
  imports PH_Mapping
begin

text \<open>
  The sizes of the parts of an index of src/perfect_hash.cc, and the rank of a slot: the table and
  \<open>CountValidSlot\<close> together count the fields before it that are set.
\<close>

subsection \<open>Sizes\<close>

lemma Section_nat:
  assumes "unat n < 2 ^ 28"
  shows "unat (Section n) = max 10 ((unat n * 105 + 255) div 256)"
proof -
  let ?v = "(unat n * 105 + 255) div 256"
  have small: "unat n * 105 + 255 < 2 ^ 64" "?v < 2 ^ 32" using assms by auto
  have v: "unat ((ucast n * 105 + 255) div 256 :: u64) = ?v"
    using small by (simp add: unat_div unat_word_ariths)
  have "unat (max (10 :: u64) ((ucast n * 105 + 255) div 256)) = max 10 ?v"
    using v by (simp add: max_def word_le_nat_alt)
  then show ?thesis using small by (simp add: Section_def unat_ucast_down)
qed

lemma unat_and_not_31: "unat (x AND NOT 31) = unat x div 32 * 32" for x :: u32
proof -
  have m5: "(31 :: u32) = mask 5" by (simp add: mask_eq_exp_minus_1)
  have "x AND NOT 31 = push_bit 5 (drop_bit 5 x)"
    unfolding m5 by (rule bit_word_eqI) (auto simp: bit_simps)
  moreover have "unat (push_bit 5 (drop_bit 5 x)) = unat x div 32 * 32"
    using unat_u32 [of x] div_times_less_eq_dividend [of "unat x" 32] by (simp add: unat_bridge)
  ultimately show ?thesis by (simp only:)
qed

lemma BitmapSize_nat:
  assumes "unat m < 2 ^ 30"
  shows "unat (BitmapSize m) = 8 * ((3 * unat m + 31) div 32)"
proof -
  have "unat (m * 3 + 31) = 3 * unat m + 31" using assms by (simp add: unat_word_ariths)
  then have "unat ((m * 3 + 31) AND NOT 31) = (3 * unat m + 31) div 32 * 32"
    by (simp only: unat_and_not_31)
  then show ?thesis by (simp only: BitmapSize_def unat_div) simp
qed

lemma RealSize_nat: "unat (RealSize n) = unat n mod 2 ^ 28"
proof -
  have m: "(0xfffffff :: u32) = mask 28" by (simp add: mask_eq_exp_minus_1)
  have "unat (n AND 0xfffffff) = take_bit 28 (unat n)"
    unfolding m by (simp only: take_bit_eq_mask [symmetric] unsigned_take_bit_eq)
  then show ?thesis by (simp add: RealSize_def take_bit_eq_mod)
qed

lemma RealSize_small: "unat n < 2 ^ 28 \<Longrightarrow> RealSize n = n"
  by (rule word_eq_unatI) (simp add: RealSize_nat)

text \<open>The section of \<open>n\<close> keys, and the bytes of its bitmap, as natural numbers.\<close>

definition sect :: "nat \<Rightarrow> nat" where
  "sect n = max 10 ((n * 105 + 255) div 256)"

definition bmsize :: "nat \<Rightarrow> nat" where
  "bmsize n = 8 * ((3 * sect n + 31) div 32)"

lemma sect_bounds: "10 \<le> sect n" "n \<le> 3 * sect n" "n < 2 ^ 28 \<Longrightarrow> 3 * sect n < 2 ^ 30"
  by (auto simp: sect_def)

lemma bmsize_bounds: "3 * sect n \<le> 4 * bmsize n" "8 \<le> bmsize n" "n < 2 ^ 28 \<Longrightarrow> bmsize n \<le> 2 ^ 28"
proof -
  show "3 * sect n \<le> 4 * bmsize n" "8 \<le> bmsize n" using sect_bounds(1) [of n] by (simp_all add: bmsize_def)
  assume "n < 2 ^ 28"
  then have "(3 * sect n + 31) div 32 \<le> (2 ^ 30 + 31) div 32"
    using sect_bounds(3) by (intro div_le_mono) fastforce
  then show "bmsize n \<le> 2 ^ 28" by (simp add: bmsize_def)
qed

lemma bmsize_one: "bmsize n = 8 \<longleftrightarrow> n \<le> 24"
proof -
  have "bmsize n = 8 \<longleftrightarrow> (3 * sect n + 31) div 32 < 2 \<and> 0 < (3 * sect n + 31) div 32" by (auto simp: bmsize_def)
  also have "\<dots> \<longleftrightarrow> 3 * sect n + 31 < 64" using sect_bounds(1) [of n] by (simp add: div_less_iff_less_mult div_greater_zero_iff)
  also have "\<dots> \<longleftrightarrow> (n * 105 + 255) div 256 < 11" by (auto simp: sect_def)
  also have "\<dots> \<longleftrightarrow> n \<le> 24" by (simp only: div_less_iff_less_mult) auto
  finally show ?thesis .
qed

lemma Section_eq: "unat n < 2 ^ 28 \<Longrightarrow> unat (Section n) = sect (unat n)"
  by (simp only: Section_nat sect_def)

lemma BitmapSize_eq: "unat n < 2 ^ 28 \<Longrightarrow> unat (BitmapSize (Section n)) = bmsize (unat n)"
  using sect_bounds(3) [of "unat n"] by (simp add: BitmapSize_nat Section_eq bmsize_def)

subsection \<open>Mapping\<close>

lemma Mapping_spec:
  fixes g :: "'w::len word Graph"
  assumes n: "n < 2 ^ 28" and m: "m = sect n" and g: "gshape n m g"
    and F: "distinct (map unat free)" "set (map unat free) = {..<n}" "peels slt n (map unat free)"
    and sl: "\<And>x j. x < n \<Longrightarrow> j < 3 \<Longrightarrow> sl g j x = slt j x \<and> slt j x < m"
    and len: "length bitmap = bmsize n" "length book = (3 * m + 7) div 8"
  obtains book' bitmap' where "Mapping n g free book bitmap = Some (book', bitmap')" "length book' = length book"
    "length bitmap' = bmsize n" "mapped slt m {..<n} book' bitmap'"
proof -
  let ?M = "Section (of_nat n)"
  have un: "unat (of_nat n :: u32) = n" using n by (simp add: unat_of_nat)
  have M: "unat ?M = m" "unat (BitmapSize ?M) = bmsize n" "3 * m < 2 ^ 32"
    using Section_eq [of "of_nat n"] BitmapSize_eq [of "of_nat n"] n m sect_bounds(3) [OF n] by (simp_all add: un)
  have bk: "unat ((?M * 3 + 7) div 8) = (3 * m + 7) div 8"
    using M sect_bounds(3) [OF n] m by (simp add: unat_div unat_word_ariths mult.commute)
  let ?bm = "replicate (bmsize n) 0xff :: u8 list" and ?bk = "replicate ((3 * m + 7) div 8) 0 :: u8 list"
  have "mapped slt m (set (drop n (map unat free))) ?bk ?bm"
  proof -
    have "length (map unat free) = n" using F by (metis card_lessThan distinct_card)
    then have D: "set (drop n (map unat free)) = {}" by simp
    have "\<not> marked ?bk p" if "p < 3 * m" for p using that by (intro marked_replicate) simp
    moreover have "slot_val ?bm p = 3" if "p < 4 * length ?bm" for p
      using that by (intro slot_val_replicate) simp
    ultimately show ?thesis unfolding mapped_def D by simp
  qed
  then have "\<exists>book' bitmap'. map_loop ?M g free n ?bk ?bm = Some (book', bitmap') \<and> length book' = length ?bk \<and>
      length bitmap' = length ?bm \<and> mapped slt m {..<n} book' bitmap'"
    using bmsize_bounds(1) [of n] m by (intro map_loop_spec [OF g F sl M(1,3)]) simp_all
  then show thesis using that len by (auto simp: Mapping_def Let_def M(2) bk)
qed

subsection \<open>Rank\<close>

definition rank :: "u8 list \<Rightarrow> nat \<Rightarrow> nat" where
  "rank bitmap p = card {q. q < p \<and> slot_val bitmap q \<noteq> 3}"

lemma rank_0 [simp]: "rank bitmap 0 = 0"
  by (simp add: rank_def)

lemma rank_add: "rank bitmap (p + k) = rank bitmap p + card {r. r < k \<and> slot_val bitmap (p + r) \<noteq> 3}"
proof -
  let ?A = "{q. q < p \<and> slot_val bitmap q \<noteq> 3}" and ?B = "{r. r < k \<and> slot_val bitmap (p + r) \<noteq> 3}"
  have "{q. q < p + k \<and> slot_val bitmap q \<noteq> 3} = ?A \<union> (+) p ` ?B"
  proof (intro set_eqI iffI)
    fix q assume "q \<in> {q. q < p + k \<and> slot_val bitmap q \<noteq> 3}"
    then show "q \<in> ?A \<union> (+) p ` ?B"
      by (cases "q < p") (auto intro!: image_eqI [of _ _ "q - p"])
  qed auto
  moreover have "?A \<inter> (+) p ` ?B = {}" by auto
  ultimately show ?thesis
    unfolding rank_def by (simp add: card_Un_disjoint card_image)
qed

lemma rank_mono: "p \<le> q \<Longrightarrow> rank bitmap p \<le> rank bitmap q"
  unfolding rank_def by (intro card_mono) auto

lemma rank_strict:
  assumes "slot_val bitmap p \<noteq> 3" and "p < q"
  shows "rank bitmap p < rank bitmap q"
proof -
  have "rank bitmap (p + 1) = rank bitmap p + 1"
    using assms(1) by (simp add: rank_add [of bitmap p 1, simplified] cong: conj_cong)
  then show ?thesis using rank_mono [of "p + 1" q bitmap] assms(2) by simp
qed

text \<open>A block of 32 fields, read as a word.\<close>

lemma block_field:
  assumes "8 * i + 8 \<le> length bitmap" and "r < 32"
  shows "field2 (unat (word_of_bytes (take 8 (drop (8 * i) bitmap)) :: u64)) r = slot_val bitmap (32 * i + r)"
proof -
  let ?w = "word_of_bytes (take 8 (drop (8 * i) bitmap)) :: u64"
  have d: "(32 * i + r) div 4 = 8 * i + r div 4" "(32 * i + r) mod 4 = r mod 4" by presburger+
  have r: "2 * r div 8 = r div 4" "2 * r mod 8 = 2 * (r mod 4)" "(2 * r + 1) div 8 = r div 4"
      "(2 * r + 1) mod 8 = 2 * (r mod 4) + 1" "r div 4 < 8"
    using assms(2) div_mult2_eq [of "2 * r" 2 4] mod_mult2_eq [of "2 * r" 2 4]
      div_mult2_eq [of "2 * r + 1" 2 4] mod_mult2_eq [of "2 * r + 1" 2 4] by simp_all
  have "bit ?w (2 * r) = bit (bitmap ! (8 * i + r div 4)) (2 * (r mod 4))"
      "bit ?w (2 * r + 1) = bit (bitmap ! (8 * i + r div 4)) (2 * (r mod 4) + 1)"
    using assms r by (simp_all only: bit_word_of_bytes) (auto simp: less_diff_conv)
  then show ?thesis unfolding field2_bits slot_val_bits d by (simp only:)
qed

lemma load64_block: "8 * i + 8 \<le> length bitmap \<Longrightarrow> load64 bitmap (8 * i) = Some (word_of_bytes (take 8 (drop (8 * i) bitmap)))"
  by (simp add: load64_def)

lemma count_block:
  assumes "8 * i + 8 \<le> length bitmap"
  shows "unat (CountValidSlot (word_of_bytes (take 8 (drop (8 * i) bitmap)))) =
    card {r. r < 32 \<and> slot_val bitmap (32 * i + r) \<noteq> 3}"
  using block_field [OF assms] by (simp add: CountValidSlot_card cong: conj_cong)

lemma fill_table_spec:
  fixes cnt :: "'w::len word"
  assumes "8 * (i + k) \<le> length bitmap" and "rank bitmap (32 * (i + k)) < 2 ^ LENGTH('w)" and "unat cnt = rank bitmap (32 * i)"
  shows "\<exists>t. fill_table bitmap i k cnt = Some t \<and> length t = k \<and> (\<forall>j<k. unat (t ! j) = rank bitmap (32 * (i + j)))"
  using assms
proof (induction k arbitrary: i cnt)
  case 0
  then show ?case by simp
next
  case (Suc k)
  have fits: "8 * i + 8 \<le> length bitmap" using Suc.prems by simp
  let ?b = "word_of_bytes (take 8 (drop (8 * i) bitmap)) :: u64"
  have step: "rank bitmap (32 * Suc i) = rank bitmap (32 * i) + unat (CountValidSlot ?b)"
    using rank_add [of bitmap "32 * i" 32] count_block [OF fits] by (simp add: add.commute)
  have "rank bitmap (32 * Suc i) \<le> rank bitmap (32 * (i + Suc k))" by (rule rank_mono) simp
  then have small: "rank bitmap (32 * Suc i) < 2 ^ LENGTH('w)" using Suc.prems by linarith
  then have "unat (cnt + ucast (CountValidSlot ?b)) = rank bitmap (32 * Suc i)"
    using Suc.prems(3) step by (simp add: unat_word_ariths unat_ucast)
  then obtain t where t: "fill_table bitmap (Suc i) k (cnt + ucast (CountValidSlot ?b)) = Some t" "length t = k"
      "\<forall>j<k. unat (t ! j) = rank bitmap (32 * (Suc i + j))"
    using Suc.IH [of "Suc i" "cnt + ucast (CountValidSlot ?b)"] Suc.prems by auto
  have "unat ((cnt # t) ! j) = rank bitmap (32 * (i + j))" if "j < Suc k" for j
    using t(2,3) Suc.prems(3) that by (cases j) auto
  then show ?case using t load64_block [OF fits] by (intro exI [of _ "cnt # t"]) simp
qed

text \<open>What \<open>Locate\<close> counts in the block of a slot: the fields before it.\<close>

lemma count_before:
  assumes "8 * a + 8 \<le> length bitmap" and "b < 32"
  shows "unat (CountValidSlot (word_of_bytes (take 8 (drop (8 * a) bitmap)) OR push_bit (2 * b) (- 1))) =
    card {r. r < b \<and> slot_val bitmap (32 * a + r) \<noteq> 3}"
proof -
  let ?w = "word_of_bytes (take 8 (drop (8 * a) bitmap)) :: u64" and ?m = "push_bit (2 * b) (- 1) :: u64"
  have "field2 (unat (?w OR ?m)) r = (if r < b then slot_val bitmap (32 * a + r) else 3)" if "r < 32" for r
  proof -
    have "field2 (unat (?w OR ?m)) r = (if r < b then field2 (unat ?w) r else 3)"
    proof (cases "r < b")
      case True
      then have "\<not> bit ?m (2 * r)" "\<not> bit ?m (2 * r + 1)" by (simp_all add: bit_push_bit_iff del: push_bit_minus_one_eq_not_mask)
      then show ?thesis using True by (simp only: field2_bits bit_or_iff if_True simp_thms)
    next
      case False
      then have "bit ?m (2 * r)" "bit ?m (2 * r + 1)"
        using that by (simp_all add: bit_push_bit_iff del: push_bit_minus_one_eq_not_mask)
      then show ?thesis using False by (simp only: field2_bits bit_or_iff if_False simp_thms) simp
    qed
    then show ?thesis using block_field [OF assms(1) that] by simp
  qed
  then have "{r. r < 32 \<and> field2 (unat (?w OR ?m)) r \<noteq> 3} = {r. r < b \<and> slot_val bitmap (32 * a + r) \<noteq> 3}"
    using assms(2) by (auto split: if_splits)
  then show ?thesis by (simp only: CountValidSlot_card)
qed

text \<open>The ranks of the selected vertices are the numbers below \<open>n\<close>, each taken once.\<close>

lemma mapped_ranks:
  assumes M: "mapped slt m {..<n} book bitmap" and slt: "\<And>x j. x < n \<Longrightarrow> j < 3 \<Longrightarrow> slt j x < m"
    and len: "3 * m \<le> 4 * length bitmap" and p: "p \<le> 4 * length bitmap"
  shows "rank bitmap p \<le> n" "x < n \<Longrightarrow> rank bitmap (chosen bitmap (vpos slt m x)) < n"
    "inj_on (\<lambda>x. rank bitmap (chosen bitmap (vpos slt m x))) {..<n}"
proof -
  let ?c = "\<lambda>x. chosen bitmap (vpos slt m x)"
  have set: "q < 4 * length bitmap \<Longrightarrow> slot_val bitmap q \<noteq> 3 \<longleftrightarrow> q \<in> ?c ` {..<n}" for q
    using M unfolding mapped_def by blast
  have inj: "inj_on ?c {..<n}" using M unfolding mapped_def by blast
  have all: "rank bitmap (4 * length bitmap) \<le> n"
  proof -
    have "{q. q < 4 * length bitmap \<and> slot_val bitmap q \<noteq> 3} \<subseteq> ?c ` {..<n}" using set by auto
    then have "rank bitmap (4 * length bitmap) \<le> card (?c ` {..<n})" unfolding rank_def by (intro card_mono) auto
    then show ?thesis using card_image_le [of "{..<n}" ?c] by simp
  qed
  then show "rank bitmap p \<le> n" using rank_mono [OF p] by (rule order_trans [rotated])
  have c: "?c x < 4 * length bitmap" "slot_val bitmap (?c x) \<noteq> 3" if "x < n" for x
  proof -
    show "?c x < 4 * length bitmap"
    proof -
      define j where "j = (slot_val bitmap (vpos slt m x 0) + slot_val bitmap (vpos slt m x 1) + slot_val bitmap (vpos slt m x 2)) mod 3"
      have "j < 3" by (simp add: j_def)
      then have "vpos slt m x j < 3 * m" using vpos_less slt that by blast
      then show ?thesis using len by (simp add: chosen_def j_def)
    qed
    then show "slot_val bitmap (?c x) \<noteq> 3" using set that by blast
  qed
  show "rank bitmap (?c x) < n" if "x < n" using rank_strict [OF c(2) c(1)] that all by (metis order_less_le_trans)
  show "inj_on (\<lambda>x. rank bitmap (?c x)) {..<n}"
  proof (rule inj_onI)
    fix x y assume xy: "x \<in> {..<n}" "y \<in> {..<n}" "rank bitmap (?c x) = rank bitmap (?c y)"
    then have "?c x = ?c y" using rank_strict c(2) by (metis lessThan_iff linorder_neqE_nat less_irrefl)
    then show "x = y" using inj xy by (auto dest: inj_onD)
  qed
qed

end
