(* ===== verification/PerfectHash.thy ===== *)
theory PerfectHash
  imports PH_Rank
begin

text \<open>
  The index object of src/perfect_hash.cc and include/protocache/perfect_hash.h: building it from a
  key reader, reading it back from bytes, and locating a key. \<open>Build\<close> is the template of the source
  at the word lengths 8, 16 and 32; the contents of the memory it allocates are arbitrary and are the
  parameter \<open>junk\<close>, indexed by the number of the try, and \<open>GetSeed\<close> is the parameter \<open>gseed\<close>.
\<close>

subsection \<open>Model: reading an index\<close>

record PerfectHash =
  ph_section :: u32
  ph_data_size :: u32
  ph_data :: "u8 list option"

definition ph_null :: PerfectHash where
  "ph_null = \<lparr>ph_section = 0, ph_data_size = 0, ph_data = None\<rparr>"

text \<open>The constructor on the bytes from \<open>data\<close> on; a size of 0 is an unknown size.\<close>

definition PerfectHash_init :: "u8 list \<Rightarrow> u32 \<Rightarrow> PerfectHash option" where
  "PerfectHash_init data sz =
    (if sz \<noteq> 0 \<and> sz < 4 then Some ph_null
     else do {
       hsize \<leftarrow> load32 data 0;
       if RealSize hsize > 1 then
         let sec = Section (RealSize hsize);
             bytes = BitmapSize sec;
             bytes = (if RealSize hsize > 0xffff then bytes + bytes div 2
                      else if RealSize hsize > 0xff then bytes + bytes div 4
                      else if RealSize hsize > 24 then bytes + bytes div 8 else bytes);
             bytes = bytes + 8
         in if sz \<noteq> 0 \<and> sz < bytes then Some ph_null
            else Some \<lparr>ph_section = sec, ph_data_size = bytes, ph_data = Some data\<rparr>
       else Some \<lparr>ph_section = 0, ph_data_size = 4, ph_data = Some data\<rparr>
     })"

definition PerfectHash_Size :: "'a PerfectHash_scheme \<Rightarrow> u32 option" where
  "PerfectHash_Size ph =
    (case ph_data ph of
       None \<Rightarrow> Some 0
     | Some data \<Rightarrow> do { hsize \<leftarrow> load32 data 0; Some (RealSize hsize) })"

text \<open>\<open>Locate(uint32_t slots[])\<close>. A table entry of \<open>k\<close> bytes is widened to 32 bits.\<close>

definition table_entry :: "nat \<Rightarrow> u8 list \<Rightarrow> nat \<Rightarrow> nat \<Rightarrow> u32 option" where
  "table_entry k data table a = map_option word_of_bytes (rd_range data (table + k * a) k)"

definition locate_slots :: "u32 \<Rightarrow> u8 list \<Rightarrow> u32 list \<Rightarrow> u32 option" where
  "locate_slots sec data slots = do {
     hsize \<leftarrow> load32 data 0;
     let sz = RealSize hsize;
     let bitmap = drop 8 data;
     let table = 8 + unat (BitmapSize sec);
     s0 \<leftarrow> rd slots 0;
     s1 \<leftarrow> rd slots 1;
     s2 \<leftarrow> rd slots 2;
     x0 \<leftarrow> Bit2 bitmap (unat s0);
     x1 \<leftarrow> Bit2 bitmap (unat s1);
     x2 \<leftarrow> Bit2 bitmap (unat s2);
     slot \<leftarrow> rd slots ((x0 + x1 + x2) mod 3);
     let a = unat (drop_bit 5 slot);
     let b = unat (slot AND 31);
     off \<leftarrow> (if sz > 0xffff then table_entry 4 data table a
             else if sz > 0xff then table_entry 2 data table a
             else if sz > 24 then table_entry 1 data table a
             else Some 0);
     block \<leftarrow> load64 bitmap (8 * a);
     let block = block OR push_bit (2 * b) (- 1);
     Some (off + CountValidSlot block)
   }"

text \<open>\<open>PerfectHash::Locate\<close>; a division by a section of 0 would be undefined.\<close>

definition PerfectHash_Locate :: "'a PerfectHash_scheme \<Rightarrow> u8 list \<Rightarrow> u32 option" where
  "PerfectHash_Locate ph key =
    (case ph_data ph of
       None \<Rightarrow> Some (- 1)
     | Some data \<Rightarrow> do {
         hsize \<leftarrow> load32 data 0;
         if RealSize hsize < 2 then Some 0
         else do {
           seed \<leftarrow> load32 data 4;
           code \<leftarrow> hash_key key seed;
           let sec = ph_section ph;
           if sec = 0 then None
           else locate_slots sec data
             [u32_at code 0 mod sec, u32_at code 1 mod sec + sec, u32_at code 2 mod sec + sec * 2]
         }
       })"

subsection \<open>Model: the object\<close>

text \<open>\<open>PerfectHashObject\<close> owns a buffer that starts with the \<open>Divisor\<close>, followed by the data.\<close>

record PerfectHashObject = PerfectHash +
  po_buffer :: "Divisor option"

definition PerfectHashObject_Locate :: "PerfectHashObject \<Rightarrow> u8 list \<Rightarrow> u32 option" where
  "PerfectHashObject_Locate po key =
    (case po_buffer po of
       None \<Rightarrow> Some (- 1)
     | Some m \<Rightarrow>
         (case ph_data po of
            None \<Rightarrow> None
          | Some data \<Rightarrow> do {
              hsize \<leftarrow> load32 data 0;
              if RealSize hsize < 2 then Some 0
              else do {
                seed \<leftarrow> load32 data 4;
                code \<leftarrow> hash_key key seed;
                locate_slots (ph_section po) data
                  [mod_by (u32_at code 0) m, mod_by (u32_at code 1) m + d_val m,
                   mod_by (u32_at code 2) m + d_val m * 2]
              }
            }))"

subsection \<open>Model: the check for duplicate keys\<close>

fun check_insert :: "nat \<Rightarrow> V128 \<Rightarrow> V128 list \<Rightarrow> nat \<Rightarrow> nat \<Rightarrow> (bool \<times> V128 list) option" where
  "check_insert m code space pos 0 = Some (False, space)"
| "check_insert m code space pos (Suc k) = do {
     c \<leftarrow> rd space pos;
     if u32_at c 0 AND 1 = 0 then Some (True, space[pos := code])
     else if c = code then Some (False, space)
     else check_insert m code space (if pos + 1 \<ge> m then 0 else pos + 1) k
   }"

fun check_loop :: "'s KeyReader \<Rightarrow> u32 \<Rightarrow> nat \<Rightarrow> u32 \<Rightarrow> nat \<Rightarrow> 's \<Rightarrow> V128 list \<Rightarrow> (bool \<times> 's) option" where
  "check_loop R seed n m 0 s space = Some (True, s)"
| "check_loop R seed n m (Suc k) s space =
    (case kr_read R s of
       (None, s) \<Rightarrow> Some (False, s)
     | (Some key, s) \<Rightarrow> do {
         code \<leftarrow> hash_key key seed;
         (ok, space) \<leftarrow> check_insert (unat m) (code\<lparr>u64_0 := u64_0 code OR 1\<rparr>) space (unat (u32_at code 0 mod m)) n;
         if ok then check_loop R seed n m k s space else Some (False, s)
       })"

definition Check :: "'s KeyReader \<Rightarrow> nat \<Rightarrow> u32 \<Rightarrow> 's \<Rightarrow> (bool \<times> 's) option" where
  "Check R n seed s =
    (let m = of_nat n * 2 in
     check_loop R seed n m n (kr_reset R s) (replicate (unat m) \<lparr>u64_0 = 0, u64_1 = 0\<rparr>))"

subsection \<open>Model: building\<close>

definition junk_graph :: "(nat \<Rightarrow> u32) \<Rightarrow> nat \<Rightarrow> nat \<Rightarrow> 'w::len word Graph" where
  "junk_graph f tot slots =
    \<lparr>edges = map (\<lambda>i. map (\<lambda>j. \<lparr>v_slot = ucast (f (9 * i + 3 * j)), v_prev = ucast (f (9 * i + 3 * j + 1)),
        v_next = ucast (f (9 * i + 3 * j + 2))\<rparr>) [0, 1, 2]) [0..<tot],
     nodes = map (\<lambda>i. ucast (f i)) [0..<slots]\<rparr>"

definition junk_list :: "(nat \<Rightarrow> u32) \<Rightarrow> nat \<Rightarrow> 'w::len word list" where
  "junk_list f n = map (\<lambda>i. ucast (f i)) [0..<n]"

text \<open>The lambda \<open>build\<close>: the bitmap, or \<open>None\<close> for false.\<close>

definition build_try :: "'w::len itself \<Rightarrow> 's KeyReader \<Rightarrow> (nat \<Rightarrow> u32) \<Rightarrow> Divisor \<Rightarrow> nat \<Rightarrow> u32 \<Rightarrow> 's \<Rightarrow>
    (u8 list option \<times> 's) option" where
  "build_try w R junk d tot seed s = do {
     let slots = unat (d_val d * 3);
     (ok, s, g) \<leftarrow> CreateGraph R seed tot d s (junk_graph junk tot slots :: 'w word Graph);
     if \<not> ok then Some (None, s)
     else do {
       (ok, g, free, book) \<leftarrow> TearGraph tot g (junk_list junk tot) (junk_list junk ((slots + 7) div 8));
       if \<not> ok then Some (None, s)
       else do {
         (book, bitmap) \<leftarrow> Mapping tot g free book (junk_list junk (unat (BitmapSize (d_val d))));
         Some (Some bitmap, s)
       }
     }
   }"

text \<open>A series of at most \<open>t\<close> tries: the bitmap, the last seed, the number of tries and the generator.\<close>

fun tries :: "'w::len itself \<Rightarrow> 's KeyReader \<Rightarrow> (nat \<Rightarrow> nat \<Rightarrow> u32) \<Rightarrow> Divisor \<Rightarrow> nat \<Rightarrow> nat \<Rightarrow> nat \<Rightarrow> u32 \<Rightarrow>
    XorShift \<Rightarrow> 's \<Rightarrow> (u8 list option \<times> u32 \<times> nat \<times> XorShift \<times> 's) option" where
  "tries w R junk d tot 0 k seed rnd s = Some (None, seed, k, rnd, s)"
| "tries w R junk d tot (Suc t) k seed rnd s =
    (let (seed, rnd) = Next rnd in
     case build_try w R (junk k) d tot seed s of
       None \<Rightarrow> None
     | Some (None, s) \<Rightarrow> tries w R junk d tot t (Suc k) seed rnd s
     | Some (Some bitmap, s) \<Rightarrow> Some (Some bitmap, seed, Suc k, rnd, s))"

definition index_bytes :: "'w::len itself \<Rightarrow> nat \<Rightarrow> u32 \<Rightarrow> u8 list \<Rightarrow> u8 list option" where
  "index_bytes w tot seed bitmap = do {
     table \<leftarrow> (if length bitmap > 8 then fill_table bitmap 0 (length bitmap div 8) (0 :: 'w word) else Some []);
     Some (bytes_of_word 4 (of_nat tot :: u32) @ bytes_of_word 4 seed @ bitmap @
       concat (map (bytes_of_word (LENGTH('w) div 8)) table))
   }"

definition Build :: "'w::len itself \<Rightarrow> 's KeyReader \<Rightarrow> u32 \<Rightarrow> (nat \<Rightarrow> nat \<Rightarrow> u32) \<Rightarrow> bool \<Rightarrow> 's \<Rightarrow>
    ((Divisor \<times> u8 list) option \<times> 's) option" where
  "Build w R gseed junk no_check s = do {
     let tot = kr_total R s;
     let d = assign (Section (of_nat tot));
     let first = (if LENGTH('w) = 8 then 8 else 4);
     let second = (if LENGTH('w) = 8 then 32 else 12);
     (r, seed, k, rnd, s) \<leftarrow> tries w R junk d tot first 0 0 (xorshift_init gseed) s;
     (case r of
        Some bitmap \<Rightarrow> do { data \<leftarrow> index_bytes w tot seed bitmap; Some (Some (d, data), s) }
      | None \<Rightarrow> do {
          (ok, s) \<leftarrow> (if no_check then Some (True, s) else Check R tot seed s);
          if \<not> ok then Some (None, s)
          else do {
            (r, seed, k, rnd, s) \<leftarrow> tries w R junk d tot second k seed rnd s;
            (case r of
               Some bitmap \<Rightarrow> do { data \<leftarrow> index_bytes w tot seed bitmap; Some (Some (d, data), s) }
             | None \<Rightarrow> Some (None, s))
          }
        })
   }"

definition po_null :: PerfectHashObject where
  "po_null = \<lparr>ph_section = 0, ph_data_size = 0, ph_data = None, po_buffer = None\<rparr>"

definition object_of :: "(Divisor \<times> u8 list) option \<Rightarrow> PerfectHashObject" where
  "object_of r =
    (case r of
       None \<Rightarrow> po_null
     | Some (d, data) \<Rightarrow>
         \<lparr>ph_section = (if length data > 8 then Section (word_of_bytes (take 4 data)) else 0),
          ph_data_size = of_nat (length data), ph_data = Some data, po_buffer = Some d\<rparr>)"

definition PerfectHashObject_Build :: "'s KeyReader \<Rightarrow> u32 \<Rightarrow> (nat \<Rightarrow> nat \<Rightarrow> u32) \<Rightarrow> bool \<Rightarrow> 's \<Rightarrow>
    (PerfectHashObject \<times> 's) option" where
  "PerfectHashObject_Build R gseed junk no_check s =
    (let tot = kr_total R s in
     if tot \<ge> 2 ^ 28 then Some (po_null, s)
     else do {
       (r, s) \<leftarrow>
         (if tot > 0xffff then Build TYPE(32) R gseed junk no_check s
          else if tot > 0xff then Build TYPE(16) R gseed junk no_check s
          else if tot > 1 then Build TYPE(8) R gseed junk no_check s
          else Some (Some (assign 0, bytes_of_word 4 (of_nat tot :: u32)), s));
       Some (object_of r, s)
     })"

end
