(* ===== verification/PH_Locate.thy ===== *)
theory PH_Locate
  imports PerfectHash
begin

text \<open>
  Locating a key in an index: on any bytes the constructor accepts with their size, \<open>Locate\<close> stays
  inside them; on the bytes of a finished index it computes the rank of the selected vertex.
\<close>

subsection \<open>Positions of a slot\<close>

lemma slot_split: "unat (drop_bit 5 s) = unat s div 32" "unat (s AND 31) = unat s mod 32" for s :: u32
proof -
  show "unat (drop_bit 5 s) = unat s div 32" by (simp add: unat_drop_bit)
  have m: "(31 :: u32) = mask 5" by (simp add: mask_eq_exp_minus_1)
  have "unat (s AND 31) = take_bit 5 (unat s)" unfolding m by (simp only: take_bit_eq_mask [symmetric] unsigned_take_bit_eq)
  then show "unat (s AND 31) = unat s mod 32" by (simp add: take_bit_eq_mod)
qed

lemma slot_val_append: "p < 4 * length bm \<Longrightarrow> slot_val (bm @ rest) p = slot_val bm p"
  by (simp add: slot_val_def nth_append less_mult_imp_div_less mult.commute)

lemma Bit2_append: "p < 4 * length bm \<Longrightarrow> Bit2 (bm @ rest) p = Some (slot_val bm p)"
  using Bit2_eq [of p "bm @ rest"] by (simp add: slot_val_append)

lemma block_in_range:
  assumes "p < 4 * length bm" and "length bm mod 8 = 0"
  shows "8 * (p div 32) + 8 \<le> length bm"
proof -
  obtain k where k: "length bm = 8 * k" using assms(2) by (metis dvd_eq_mod_eq_0 dvdE)
  then have "p div 32 < k" using assms(1) by (simp add: less_mult_imp_div_less mult.commute)
  then show ?thesis using k by simp
qed

lemma bmsize_mod [simp]: "bmsize n mod 8 = 0"
  by (simp add: bmsize_def)

text \<open>The value of a table entry that \<open>Locate\<close> adds, where the entries are ranks.\<close>

definition table_off :: "u32 \<Rightarrow> u8 list \<Rightarrow> nat \<Rightarrow> nat \<Rightarrow> u32 option" where
  "table_off sz data table a =
    (if sz > 0xffff then table_entry 4 data table a
     else if sz > 0xff then table_entry 2 data table a
     else if sz > 24 then table_entry 1 data table a
     else Some 0)"

lemma locate_slots_eq:
  assumes h: "load32 data 0 = Some hs" and b: "drop 8 data = bm @ rest" and len: "length bm mod 8 = 0"
    and s: "\<And>j. j < 3 \<Longrightarrow> unat (P j) < 4 * length bm" and p: "p = chosen bm (\<lambda>j. unat (P j))"
    and t: "\<And>a. 8 * a + 8 \<le> length bm \<Longrightarrow> table_off (RealSize hs) data (8 + unat (BitmapSize sec)) a = Some (T a)"
  shows "locate_slots sec data [P 0, P 1, P 2] =
    Some (T (p div 32) + of_nat (card {r. r < p mod 32 \<and> slot_val bm (32 * (p div 32) + r) \<noteq> 3}))"
proof -
  define k where "k = (slot_val bm (unat (P 0)) + slot_val bm (unat (P 1)) + slot_val bm (unat (P 2))) mod 3"
  have k: "k < 3" by (simp add: k_def)
  have pk: "p = unat (P k)" unfolding p by (simp add: chosen_def k_def)
  have sel: "rd [P 0, P 1, P 2] k = Some (P k)"
  proof -
    consider "k = 0" | "k = 1" | "k = 2" using k by linarith
    then show ?thesis by cases (simp_all add: rd_def)
  qed
  have fits: "8 * (p div 32) + 8 \<le> length bm" using block_in_range [OF s [OF k] len] by (simp only: pk)
  have blk: "load64 (bm @ rest) (8 * (p div 32)) = Some (word_of_bytes (take 8 (drop (8 * (p div 32)) bm)))"
    using load64_append [of "8 * (p div 32)" bm rest] load64_block [OF fits] fits by simp
  let ?blk = "word_of_bytes (take 8 (drop (8 * (p div 32)) bm)) OR push_bit (2 * (p mod 32)) (- 1) :: u64"
  have cnt: "CountValidSlot ?blk = of_nat (card {r. r < p mod 32 \<and> slot_val bm (32 * (p div 32) + r) \<noteq> 3})"
    by (rule word_eq_of_natI, rule count_before [OF fits]) simp
  have b2: "Bit2 (bm @ rest) (unat (P j)) = Some (slot_val bm (unat (P j)))" if "j < 3" for j
    using Bit2_append [OF s [OF that]] .
  have lt: "(0::nat) < 3" "(1::nat) < 3" "(2::nat) < 3" by simp_all
  have r: "rd [P 0, P 1, P 2] 0 = Some (P 0)" "rd [P 0, P 1, P 2] 1 = Some (P 1)" "rd [P 0, P 1, P 2] 2 = Some (P 2)"
    by (simp_all add: rd_def)
  have "locate_slots sec data [P 0, P 1, P 2] = Some (T (p div 32) + CountValidSlot ?blk)"
    by (simp only: locate_slots_def h b Let_def bind.simps r b2 [OF lt(1)] b2 [OF lt(2)] b2 [OF lt(3)]
        k_def [symmetric] sel slot_split table_off_def [symmetric] pk [symmetric] t [OF fits] blk)
  then show ?thesis by (simp only: cnt)
qed

lemma locate_slots_rank:
  assumes "load32 data 0 = Some hs" and "drop 8 data = bm @ rest" and "length bm mod 8 = 0"
    and "\<And>j. j < 3 \<Longrightarrow> unat (P j) < 4 * length bm"
    and "\<And>a. 8 * a + 8 \<le> length bm \<Longrightarrow>
      table_off (RealSize hs) data (8 + unat (BitmapSize sec)) a = Some (of_nat (rank bm (32 * a)))"
  shows "locate_slots sec data [P 0, P 1, P 2] = Some (of_nat (rank bm (chosen bm (\<lambda>j. unat (P j)))))"
proof -
  let ?p = "chosen bm (\<lambda>j. unat (P j))"
  have "rank bm ?p = rank bm (32 * (?p div 32)) + card {r. r < ?p mod 32 \<and> slot_val bm (32 * (?p div 32) + r) \<noteq> 3}"
    using rank_add [of bm "32 * (?p div 32)" "?p mod 32"] by simp
  then show ?thesis
    using locate_slots_eq [OF assms(1-3) _ refl, of P sec "\<lambda>a. of_nat (rank bm (32 * a))"] assms(4,5)
    by (simp only: of_nat_add)
qed

subsection \<open>The bytes of a finished index\<close>

lemma load32_header:
  "load32 (bytes_of_word 4 (x :: u32) @ rest) 0 = Some x"
  "load32 (bytes_of_word 4 x @ bytes_of_word 4 (y :: u32) @ rest) 4 = Some y"
proof -
  have "word_of_bytes (bytes_of_word 4 z) = z" for z :: u32 by (rule word_of_bytes_of_word) simp
  then show "load32 (bytes_of_word 4 (x :: u32) @ rest) 0 = Some x"
      "load32 (bytes_of_word 4 x @ bytes_of_word 4 (y :: u32) @ rest) 4 = Some y"
    by (simp_all add: load32_def rd_range_def del: bytes_of_word_numeral)
qed

lemma concat_chunk:
  assumes "\<And>x. x \<in> set xs \<Longrightarrow> length (f x) = k" and "a < length xs"
  shows "take k (drop (k * a) (concat (map f xs))) = f (xs ! a)"
  using assms
proof (induction xs arbitrary: a)
  case (Cons x xs)
  then show ?case by (cases a) simp_all
qed simp

lemma length_concat_chunks: "(\<And>x. x \<in> set xs \<Longrightarrow> length (f x) = k) \<Longrightarrow> length (concat (map f xs)) = k * length xs"
  by (induction xs) auto

text \<open>An entry of \<open>k\<close> bytes, read back as 32 bits.\<close>

lemma entry_value:
  fixes x :: "'w::len word"
  assumes "LENGTH('w) = 8 * k" and "k \<le> 4"
  shows "unat (word_of_bytes (bytes_of_word k x) :: u32) = unat x"
proof -
  have "bit (word_of_bytes (bytes_of_word k x) :: u32) i = bit (ucast x :: u32) i" if "i < 32" for i
  proof (cases "i < 8 * k")
    case True
    then have "i div 8 < k" by auto
    then show ?thesis using True that assms
      by (simp add: bit_word_of_bytes nth_bytes_of_word bit_ucast_iff bit_drop_bit_eq)
  next
    case False
    then have "\<not> bit x i" using assms bit_imp_le_length [of x i] by auto
    then show ?thesis using False that by (simp add: bit_word_of_bytes bit_ucast_iff not_less) auto
  qed
  then have "(word_of_bytes (bytes_of_word k x) :: u32) = ucast x" by (intro bit_word_eqI) simp
  then show ?thesis using assms by simp
qed

lemma table_entry_value:
  fixes t :: "'w::len word list"
  assumes "LENGTH('w) = 8 * k" and "k \<le> 4" and "a < length t" and "length pre = off"
  shows "table_entry k (pre @ concat (map (bytes_of_word k) t)) off a = Some (word_of_bytes (bytes_of_word k (t ! a)))"
proof -
  have len: "length (concat (map (bytes_of_word k) t)) = k * length t" by (rule length_concat_chunks) simp
  have "k * Suc a \<le> k * length t" using assms(3) by (intro mult_le_mono2) simp
  then have "off + k * a + k \<le> length (pre @ concat (map (bytes_of_word k) t))" using assms(4) len by simp
  moreover have "take k (drop (k * a) (concat (map (bytes_of_word k) t))) = bytes_of_word k (t ! a)"
    by (rule concat_chunk) (use assms(3) in simp_all)
  ultimately show ?thesis using assms(4) by (simp add: table_entry_def)
qed

text \<open>The word length the source uses for a number of keys.\<close>

definition word_bytes :: "nat \<Rightarrow> nat" where
  "word_bytes n = (if n > 0xffff then 4 else if n > 0xff then 2 else 1)"

lemma index_bytes_spec:
  assumes n: "1 < n" "n < 2 ^ 28" and w: "LENGTH('w::len) = 8 * word_bytes n"
    and bm: "length bm = bmsize n" and rank: "\<And>p. p \<le> 4 * length bm \<Longrightarrow> rank bm p \<le> n"
  obtains data tb where "index_bytes TYPE('w) n seed bm = Some data"
    "data = bytes_of_word 4 (of_nat n :: u32) @ bytes_of_word 4 seed @ bm @ tb"
    "length tb = (if n > 24 then word_bytes n * (bmsize n div 8) else 0)"
    "\<And>a. 8 * a + 8 \<le> length bm \<Longrightarrow> table_off (of_nat n) data (8 + length bm) a = Some (of_nat (rank bm (32 * a)))"
proof -
  let ?h = "bytes_of_word 4 (of_nat n :: u32) @ bytes_of_word 4 seed @ bm"
  have lenh: "length ?h = 8 + length bm" by (simp del: bytes_of_word_numeral)
  have un: "unat (of_nat n :: u32) = n" using n by (simp add: unat_of_nat)
  have gt: "of_nat n > (0xffff :: u32) \<longleftrightarrow> n > 0xffff" "of_nat n > (0xff :: u32) \<longleftrightarrow> n > 0xff" "of_nat n > (24 :: u32) \<longleftrightarrow> n > 24"
    by (simp_all add: word_less_nat_alt un)
  have w4: "word_bytes n \<le> 4" "LENGTH('w) div 8 = word_bytes n" "n < 2 ^ LENGTH('w)"
    using w n by (auto simp: word_bytes_def split: if_splits)
  show thesis
  proof (cases "n > 24")
    case False
    then have "bmsize n = 8" by (simp add: bmsize_one)
    then show thesis
      using that [of _ "[]"] False bm gt by (simp add: index_bytes_def table_off_def del: bytes_of_word_numeral)
  next
    case True
    then have big: "length bm > 8" using bmsize_one [of n] bmsize_bounds(2) [of n] bm by linarith
    let ?k = "length bm div 8"
    have k: "8 * ?k = length bm" using bm by (simp add: bmsize_def)
    then have "rank bm (32 * (0 + ?k)) \<le> n" by (intro rank) simp
    then obtain t where t: "fill_table bm 0 ?k (0 :: 'w word) = Some t" "length t = ?k"
        "\<forall>j<?k. unat (t ! j) = rank bm (32 * (0 + j))"
      using fill_table_spec [of 0 ?k bm "0 :: 'w word"] k w4(3) by auto
    let ?tb = "concat (map (bytes_of_word (word_bytes n)) t)"
    have lent: "length ?tb = word_bytes n * ?k" using length_concat_chunks [of t "bytes_of_word (word_bytes n)"] t(2) by simp
    show thesis
    proof (rule that [OF _ refl])
      show "index_bytes TYPE('w) n seed bm = Some (bytes_of_word 4 (of_nat n :: u32) @ bytes_of_word 4 seed @ bm @ ?tb)"
        using big t(1) by (simp add: index_bytes_def w4(2) del: bytes_of_word_numeral)
      show "length ?tb = (if n > 24 then word_bytes n * (bmsize n div 8) else 0)" using lent True bm by simp
      fix a assume "8 * a + 8 \<le> length bm"
      then have a: "a < length t" using t(2) k by linarith
      have "table_off (of_nat n) (?h @ ?tb) (8 + length bm) a = table_entry (word_bytes n) (?h @ ?tb) (8 + length bm) a"
        using True by (simp add: table_off_def gt word_bytes_def)
      also have "\<dots> = Some (word_of_bytes (bytes_of_word (word_bytes n) (t ! a)))"
        by (rule table_entry_value [OF w w4(1) a lenh])
      also have "\<dots> = Some (of_nat (rank bm (32 * a)))"
        using entry_value [OF w w4(1), of "t ! a"] t(2,3) a by (simp add: word_eq_of_natI)
      finally show "table_off (of_nat n) (bytes_of_word 4 (of_nat n :: u32) @ bytes_of_word 4 seed @ bm @ ?tb) (8 + length bm) a =
          Some (of_nat (rank bm (32 * a)))" by (simp only: append.assoc)
    qed
  qed
qed

subsection \<open>Indexes from untrusted bytes\<close>

text \<open>The number of bytes the constructor requires.\<close>

definition index_size :: "u32 \<Rightarrow> u32" where
  "index_size n =
    (if n > 0xffff then BitmapSize (Section n) + BitmapSize (Section n) div 2
     else if n > 0xff then BitmapSize (Section n) + BitmapSize (Section n) div 4
     else if n > 24 then BitmapSize (Section n) + BitmapSize (Section n) div 8
     else BitmapSize (Section n)) + 8"

lemma PerfectHash_init_eq:
  "PerfectHash_init data sz =
    (if sz \<noteq> 0 \<and> sz < 4 then Some ph_null
     else do {
       hs \<leftarrow> load32 data 0;
       if RealSize hs > 1 then
         if sz \<noteq> 0 \<and> sz < index_size (RealSize hs) then Some ph_null
         else Some \<lparr>ph_section = Section (RealSize hs), ph_data_size = index_size (RealSize hs), ph_data = Some data\<rparr>
       else Some \<lparr>ph_section = 0, ph_data_size = 4, ph_data = Some data\<rparr>
     })"
  by (simp only: PerfectHash_init_def index_size_def Let_def)

lemma index_size_nat:
  assumes "1 < unat n" and "unat n < 2 ^ 28"
  shows "unat (index_size n) =
    8 + bmsize (unat n) + (if unat n > 24 then word_bytes (unat n) * (bmsize (unat n) div 8) else 0)"
proof -
  let ?b = "BitmapSize (Section n)"
  have b: "unat ?b = bmsize (unat n)" using BitmapSize_eq assms by simp
  have gt: "n > 0xffff \<longleftrightarrow> unat n > 0xffff" "n > 0xff \<longleftrightarrow> unat n > 0xff" "n > 24 \<longleftrightarrow> unat n > 24"
    by (simp_all add: word_less_nat_alt)
  obtain q where q: "bmsize (unat n) = 8 * q" "8 * q \<le> 2 ^ 28"
    using bmsize_bounds(3) [OF assms(2)] by (auto simp: bmsize_def)
  show ?thesis
    using q unfolding index_size_def gt word_bytes_def by (auto simp: unat_word_ariths unat_div b)
qed

lemma table_entry_total: "table + k * a + k \<le> length data \<Longrightarrow> \<exists>v. table_entry k data table a = Some v"
  by (simp add: table_entry_def)

lemma locate_slots_safe:
  fixes P :: "nat \<Rightarrow> u32"
  assumes n: "1 < unat n" "unat n < 2 ^ 28" "n = RealSize hs" and h: "load32 data 0 = Some hs"
    and len: "unat (index_size n) \<le> length data" and s: "\<And>j. j < 3 \<Longrightarrow> unat (P j) < 3 * sect (unat n)"
  shows "\<exists>v. locate_slots (Section n) data [P 0, P 1, P 2] = Some v"
proof -
  let ?b = "bmsize (unat n)"
  define bm rest where "bm = take ?b (drop 8 data)" and "rest = drop ?b (drop 8 data)"
  have enough: "8 + ?b + (if unat n > 24 then word_bytes (unat n) * (?b div 8) else 0) \<le> length data"
    using len index_size_nat [OF n(1,2)] by simp
  then have lb: "length bm = ?b" by (auto simp: bm_def split: if_splits)
  have t: "\<exists>v. table_off (RealSize hs) data (8 + unat (BitmapSize (Section n))) a = Some v" if "8 * a + 8 \<le> length bm" for a
  proof (cases "unat n > 24")
    case False
    then show ?thesis using n(3) by (auto simp: table_off_def word_less_nat_alt word_le_nat_alt)
  next
    case True
    have eq: "table_off (RealSize hs) data (8 + unat (BitmapSize (Section n))) a = table_entry (word_bytes (unat n)) data (8 + ?b) a"
      using True n BitmapSize_eq [OF n(2)] by (simp add: table_off_def word_less_nat_alt word_bytes_def)
    have "a + 1 \<le> ?b div 8" using that lb by linarith
    then have "word_bytes (unat n) * (a + 1) \<le> word_bytes (unat n) * (?b div 8)" by (rule mult_le_mono2)
    then show ?thesis unfolding eq using enough True by (intro table_entry_total) simp
  qed
  then obtain T where T: "\<And>a. 8 * a + 8 \<le> length bm \<Longrightarrow>
      table_off (RealSize hs) data (8 + unat (BitmapSize (Section n))) a = Some (T a)"
    by metis
  have s': "unat (P j) < 4 * length bm" if "j < 3" for j
    using s [OF that] bmsize_bounds(1) [of "unat n"] lb by linarith
  have "drop 8 data = bm @ rest" unfolding bm_def rest_def by (rule append_take_drop_id [symmetric])
  then show ?thesis
    using locate_slots_eq [OF h, of bm rest P _ "Section n" T] lb s' T by (auto intro: exI)
qed

lemma Locate_total:
  assumes "PerfectHash_init data sz = Some ph" and "sz \<noteq> 0" and "unat sz \<le> length data"
  shows "\<exists>v. PerfectHash_Locate ph key = Some v"
proof (cases "ph = ph_null")
  case True
  then show ?thesis by (simp add: PerfectHash_Locate_def ph_null_def)
next
  case False
  then have "\<not> sz < 4" and "4 \<le> length data"
    using assms by (auto simp: PerfectHash_init_def word_less_nat_alt split: if_splits)
  then obtain hs where h: "load32 data 0 = Some hs" by (auto simp: load32_def)
  define n where "n = RealSize hs"
  show ?thesis
  proof (cases "n > 1")
    case small: False
    then have "n < 2" by (simp add: word_less_nat_alt)
    moreover have "ph_data ph = Some data"
      using assms(1,2) \<open>\<not> sz < 4\<close> small by (auto simp: PerfectHash_init_def h n_def [symmetric])
    ultimately show ?thesis using h by (simp add: PerfectHash_Locate_def n_def)
  next
    case True
    then have n1: "1 < unat n" by (simp add: word_less_nat_alt)
    have n2: "unat n < 2 ^ 28" by (simp add: n_def RealSize_nat)
    have ph: "ph = \<lparr>ph_section = Section n, ph_data_size = index_size n, ph_data = Some data\<rparr>" and enough: "\<not> sz < index_size n"
      using assms(1,2) \<open>\<not> sz < 4\<close> True False
      by (auto simp: PerfectHash_init_eq h n_def [symmetric] split: if_splits)
    have len: "unat (index_size n) \<le> length data" using enough assms(3) by (simp add: word_less_nat_alt)
    then have "8 \<le> length data" using index_size_nat [OF n1 n2] by simp
    then obtain seed where seed: "load32 data 4 = Some seed" by (auto simp: load32_def)
    let ?M = "Section n" and ?c = "hcode key seed"
    define P where "P j = u32_at ?c j mod ?M + of_nat j * ?M" for j
    have M: "unat ?M = sect (unat n)" using Section_eq [OF n2] .
    have nz: "?M \<noteq> 0" using M sect_bounds(1) [of "unat n"] by (metis not_numeral_le_zero unat_0)
    have "unat (P j) < 3 * sect (unat n)" if "j < 3" for j
    proof -
      have "j * sect (unat n) \<le> 2 * sect (unat n)" "unat (u32_at ?c j) mod sect (unat n) < sect (unat n)"
        using that sect_bounds(1) [of "unat n"] by simp_all
      moreover have "3 * sect (unat n) < 2 ^ 32" using sect_bounds(3) [OF n2] by simp
      moreover have "unat (P j) \<le> unat (u32_at ?c j) mod sect (unat n) + j * sect (unat n)"
        by (simp add: P_def unat_word_ariths unat_mod unat_of_nat M mod_simps)
      ultimately show ?thesis by linarith
    qed
    then have "\<exists>v. locate_slots ?M data [P 0, P 1, P 2] = Some v"
      by (intro locate_slots_safe [OF n1 n2 n_def h len])
    moreover have "\<not> n < 2" using n1 by (simp add: word_less_nat_alt)
    ultimately show ?thesis
      using h seed nz by (simp add: PerfectHash_Locate_def ph hash_key_eq P_def mult.commute Let_def n_def [symmetric])
  qed
qed

text \<open>
  Claim C23: whatever bytes are given to the constructor together with their size, if it accepts them
  then locating any key reads only those bytes and returns.
\<close>

theorem locate_untrusted_safe:
  assumes "PerfectHash_init data sz = Some ph" and "sz \<noteq> 0" and "length data = unat sz"
  shows "\<exists>v. PerfectHash_Locate ph key = Some v"
  using Locate_total [OF assms(1,2)] assms(3) by simp

theorem locate_untrusted_safe_witness:
  "\<exists>ph. PerfectHash_init ([3, 0, 0, 0, 9, 9, 9, 9] @ replicate 8 0x55) 16 = Some ph \<and>
    (\<exists>v. PerfectHash_Locate ph [1, 2, 3] = Some v)"
proof -
  have "\<exists>ph. PerfectHash_init ([3, 0, 0, 0, 9, 9, 9, 9] @ replicate 8 0x55) 16 = Some ph"
    by (simp add: PerfectHash_init_def load32_def Let_def)
  then show ?thesis using locate_untrusted_safe [of "[3, 0, 0, 0, 9, 9, 9, 9] @ replicate 8 0x55" 16] by auto
qed

end
