(* ===== verification/PH_Build.thy ===== *)
theory PH_Build
  imports PH_Locate
begin

text \<open>
  Correctness of \<open>PerfectHashObject::Build\<close>: it never leaves its memory, and an index it returns maps
  the keys one to one onto the numbers below their count.
\<close>

subsection \<open>Word lengths\<close>

lemma sect_le: "1 < n \<Longrightarrow> sect n \<le> max 10 n"
  by (auto simp: sect_def max_def)

lemma sized_index:
  assumes n: "1 < n" "n < 2 ^ 28" and w: "LENGTH('w::len) = 8 * word_bytes n"
  shows "sized TYPE('w) n (sect n) (assign (Section (of_nat n)))"
proof -
  have un: "unat (of_nat n :: u32) = n" using n by (simp add: unat_of_nat)
  have "n < 2 ^ LENGTH('w)" "(10 :: nat) < 2 ^ LENGTH('w)" using w n by (auto simp: word_bytes_def split: if_splits)
  moreover from this have "sect n < 2 ^ LENGTH('w)" using sect_le [OF n(1)] by (simp add: max_def split: if_splits)
  moreover have "unat (Section (of_nat n)) = sect n" using Section_eq [of "of_nat n"] n by (simp add: un)
  ultimately show ?thesis
    using sect_bounds(1) [of n] sect_bounds(3) [OF n(2)] by (auto simp: sized_def)
qed

lemma gshape_junk: "gshape n m (junk_graph f n (3 * m))"
  by (auto simp: gshape_def junk_graph_def)

lemma length_junk_list [simp]: "length (junk_list f n) = n"
  by (simp add: junk_list_def)

subsection \<open>The check for duplicates stays in its table\<close>

lemma check_insert_total:
  "pos < m \<Longrightarrow> length space = m \<Longrightarrow> \<exists>ok space'. check_insert m code space pos k = Some (ok, space') \<and> length space' = m"
  by (induction k arbitrary: pos) (auto simp: Let_def)

subsection \<open>Tries\<close>

definition index_ok :: "nat \<Rightarrow> u32 \<Rightarrow> u8 list list \<Rightarrow> u8 list \<Rightarrow> bool" where
  "index_ok n seed ks bm \<longleftrightarrow> length bm = bmsize n \<and>
    (\<exists>book. mapped (key_slots seed (sect n) ks) (sect n) {..<n} book bm)"

context key_reader
begin

lemma build_try_spec:
  assumes w: "LENGTH('w::len) = 8 * word_bytes n" and n: "1 < n" "n < 2 ^ 28" and s: "inv s" "length (keys s) = n"
  obtains r s' where "build_try TYPE('w) R junk (assign (Section (of_nat n))) n seed s = Some (r, s')" "inv s'" "keys s' = keys s"
    "\<And>bm. r = Some bm \<Longrightarrow> index_ok n seed (keys s) bm"
proof -
  let ?d = "assign (Section (of_nat n))" and ?m = "sect n" and ?ks = "keys s"
  have sz: "sized TYPE('w) n ?m ?d" by (rule sized_index [OF n w])
  have un: "unat (of_nat n :: u32) = n" using n by (simp add: unat_of_nat)
  have M: "unat (Section (of_nat n)) = ?m" "unat (BitmapSize (Section (of_nat n))) = bmsize n"
    using Section_eq [of "of_nat n"] BitmapSize_eq [of "of_nat n"] n by (simp_all add: un)
  have slots: "unat (Section (of_nat n) * 3) = 3 * ?m"
    using M sect_bounds(3) [OF n(2)] by (simp add: unat_word_ariths mult.commute)
  obtain s1 g1 where c: "CreateGraph R seed n ?d s (junk_graph junk n (3 * ?m) :: 'w word Graph) = Some (True, s1, g1)"
      "inv s1" "keys s1 = ?ks" "gshape n ?m g1" "\<forall>j<3. col_ok ?m n g1 j" "\<forall>x<n. \<forall>j<3. sl g1 j x = edge_slots seed ?m (?ks ! x) j"
    using CreateGraph_spec [OF sz s gshape_junk] by metis
  have nw: "n < 2 ^ LENGTH('w)" using sz by (simp add: sized_def)
  have book: "n \<le> 8 * length (junk_list junk ((3 * ?m + 7) div 8) :: u8 list)" using sect_bounds(2) [of n] by simp
  obtain ok g2 free book2 where t: "TearGraph n g1 (junk_list junk n) (junk_list junk ((3 * ?m + 7) div 8)) = Some (ok, g2, free, book2)"
      "gshape n ?m g2" "length free = n" "length book2 = length (junk_list junk ((3 * ?m + 7) div 8) :: u8 list)"
      "\<And>i j. v_slot (vtx g2 i j) = v_slot (vtx g1 i j)"
      "ok \<Longrightarrow> distinct (map unat free) \<and> set (map unat free) = {..<n} \<and> peels (key_slots seed ?m ?ks) n (map unat free)"
    using TearGraph_spec [OF c(4) nw length_junk_list book created_linked [OF c(5,6)]] by metis
  show thesis
  proof (cases ok)
    case False
    then show thesis
      using that [of None s1] c(1-3) t(1) by (simp add: build_try_def slots Let_def)
  next
    case True
    have sl: "sl g2 j x = key_slots seed ?m ?ks j x \<and> key_slots seed ?m ?ks j x < ?m" if "x < n" "j < 3" for x j
      using c(6) that t(5) sect_bounds(1) [of n] by (simp add: key_slots_def edge_slots_def)
    have F: "distinct (map unat free)" "set (map unat free) = {..<n}" "peels (key_slots seed ?m ?ks) n (map unat free)"
      using t(6) True by blast+
    have lb: "length book2 = (3 * ?m + 7) div 8" using t(4) by simp
    obtain book3 bm where m: "Mapping n g2 free book2 (junk_list junk (bmsize n)) = Some (book3, bm)" "length bm = bmsize n"
        "mapped (key_slots seed ?m ?ks) ?m {..<n} book3 bm"
      using Mapping_spec [OF n(2) refl t(2) F(1-3) sl length_junk_list lb] by metis
    show thesis
    proof (rule that [of "Some bm" s1])
      show "build_try TYPE('w) R junk ?d n seed s = Some (Some bm, s1)"
        using c(1) t(1) m(1) True by (simp add: build_try_def slots Let_def M)
      show "index_ok n seed ?ks bm'" if "Some bm = Some bm'" for bm' using that m(2,3) by (auto simp: index_ok_def)
    qed (use c in auto)
  qed
qed

lemma tries_spec:
  assumes w: "LENGTH('w::len) = 8 * word_bytes n" and n: "1 < n" "n < 2 ^ 28"
  shows "inv s \<Longrightarrow> length (keys s) = n \<Longrightarrow>
    \<exists>r seed' k' rnd' s'. tries TYPE('w) R junk (assign (Section (of_nat n))) n t k seed rnd s = Some (r, seed', k', rnd', s') \<and>
      inv s' \<and> keys s' = keys s \<and> (\<forall>bm. r = Some bm \<longrightarrow> index_ok n seed' (keys s) bm)"
proof (induction t arbitrary: k seed rnd s)
  case 0
  then show ?case by simp
next
  case (Suc t)
  obtain seed1 rnd1 where nx: "Next rnd = (seed1, rnd1)" by force
  obtain r s1 where b: "build_try TYPE('w) R (junk k) (assign (Section (of_nat n))) n seed1 s = Some (r, s1)" "inv s1" "keys s1 = keys s"
      "\<And>bm. r = Some bm \<Longrightarrow> index_ok n seed1 (keys s) bm"
    using build_try_spec [OF w n Suc.prems] by blast
  show ?case
  proof (cases r)
    case None
    then show ?thesis using Suc.IH [of s1 "Suc k" seed1 rnd1] b Suc.prems(2) by (simp add: nx)
  next
    case (Some bm)
    then show ?thesis using b by (simp add: nx)
  qed
qed

lemma check_loop_total:
  "inv s \<Longrightarrow> 0 < m \<Longrightarrow> length space = unat m \<Longrightarrow>
    \<exists>ok s'. check_loop R seed n m k s space = Some (ok, s') \<and> inv s' \<and> keys s' = keys s"
proof (induction k arbitrary: s space)
  case 0
  then show ?case by auto
next
  case (Suc k)
  obtain key s1 where rd: "kr_read R s = (key, s1)" by force
  then have s1: "inv s1" "keys s1 = keys s"
    using read [OF Suc.prems(1) _ rd] read_end [OF Suc.prems(1) _ rd] by (cases "pos s < length (keys s)"; simp)+
  show ?case
  proof (cases key)
    case None
    then show ?thesis using rd s1 by auto
  next
    case (Some ky)
    let ?c = "hcode ky seed"
    have "unat (u32_at ?c 0 mod m) < unat m" using Suc.prems(2) by (simp add: unat_mod word_less_nat_alt)
    then obtain ok space' where i: "check_insert (unat m) (?c\<lparr>u64_0 := u64_0 ?c OR 1\<rparr>) space (unat (u32_at ?c 0 mod m)) n = Some (ok, space')"
        "length space' = unat m"
      using check_insert_total Suc.prems(3) by blast
    show ?thesis
      using Suc.IH [OF s1(1) Suc.prems(2) i(2)] i(1) rd s1 Some by (cases ok) (auto simp: hash_key_eq)
  qed
qed

lemma Check_total:
  assumes "inv s" and "0 < n" and "n < 2 ^ 28"
  shows "\<exists>ok s'. Check R n seed s = Some (ok, s') \<and> inv s' \<and> keys s' = keys s"
proof -
  have "unat (of_nat n * 2 :: u32) = 2 * n" using assms by (simp add: unat_word_ariths unat_of_nat)
  then have "(0 :: u32) < of_nat n * 2" using assms(2) by (simp add: word_less_nat_alt)
  then show ?thesis
    using check_loop_total [of "kr_reset R s" "of_nat n * 2"] reset [OF assms(1)] by (simp add: Check_def Let_def)
qed

lemma Build_spec:
  assumes w: "LENGTH('w::len) = 8 * word_bytes n" and n: "1 < n" "n < 2 ^ 28" and s: "inv s" "length (keys s) = n"
  obtains r s' where "Build TYPE('w) R gseed junk nc s = Some (r, s')" "inv s'" "keys s' = keys s"
    "\<And>d data. r = Some (d, data) \<Longrightarrow> d = assign (Section (of_nat n)) \<and>
      (\<exists>seed bm. index_bytes TYPE('w) n seed bm = Some data \<and> index_ok n seed (keys s) bm)"
proof -
  let ?d = "assign (Section (of_nat n))" and ?ks = "keys s"
  let ?good = "\<lambda>r. \<forall>d data. r = Some (d, data) \<longrightarrow> d = ?d \<and>
      (\<exists>seed bm. index_bytes TYPE('w) n seed bm = Some data \<and> index_ok n seed ?ks bm)"
  let ?first = "if LENGTH('w) = 8 then 8 else 4 :: nat" and ?second = "if LENGTH('w) = 8 then 32 else 12 :: nat"
  have tot: "kr_total R s = n" using total [OF s(1)] s(2) by simp
  have store: "\<exists>data. index_bytes TYPE('w) n seed bm = Some data" if ok: "index_ok n seed ?ks bm" for seed bm
  proof -
    have sect: "key_slots seed (sect n) ?ks j x < sect n" for j x
      using sect_bounds(1) [of n] by (simp add: key_slots_def edge_slots_def)
    obtain book where M: "mapped (key_slots seed (sect n) ?ks) (sect n) {..<n} book bm" and len: "length bm = bmsize n"
      using ok by (auto simp: index_ok_def)
    have "3 * sect n \<le> 4 * length bm" using bmsize_bounds(1) [of n] len by simp
    then have "rank bm p \<le> n" if "p \<le> 4 * length bm" for p
      using mapped_ranks(1) [OF M sect _ that] by simp
    then show ?thesis using index_bytes_spec [OF n w len] by metis
  qed
  obtain r1 seed1 k1 rnd1 s1 where t1: "tries TYPE('w) R junk ?d n ?first 0 0 (xorshift_init gseed) s = Some (r1, seed1, k1, rnd1, s1)"
      "inv s1" "keys s1 = ?ks" "\<And>bm. r1 = Some bm \<Longrightarrow> index_ok n seed1 ?ks bm"
    using tries_spec [OF w n s] by blast
  have "\<exists>r s'. Build TYPE('w) R gseed junk nc s = Some (r, s') \<and> inv s' \<and> keys s' = ?ks \<and> ?good r"
  proof (cases r1)
    case (Some bm)
    then obtain data where "index_bytes TYPE('w) n seed1 bm = Some data" using store t1(4) by blast
    then show ?thesis using Some t1 by (auto simp: Build_def tot Let_def)
  next
    case None
    obtain ok s2 where c: "(if nc then Some (True, s1) else Check R n seed1 s1) = Some (ok, s2)" "inv s2" "keys s2 = ?ks"
      using Check_total [OF t1(2), of n seed1] n t1(2,3) by (cases nc) auto
    obtain r3 seed3 k3 rnd3 s3 where t3: "tries TYPE('w) R junk ?d n ?second k1 seed1 rnd1 s2 = Some (r3, seed3, k3, rnd3, s3)"
        "inv s3" "keys s3 = ?ks" "\<And>bm. r3 = Some bm \<Longrightarrow> index_ok n seed3 ?ks bm"
      using tries_spec [OF w n c(2)] c(3) s(2) by metis
    show ?thesis
    proof (cases "ok \<and> r3 \<noteq> None")
      case True
      then obtain bm data where "r3 = Some bm" "index_bytes TYPE('w) n seed3 bm = Some data" using store t3(4) by blast
      then show ?thesis using True None t1(1) c t3 by (auto simp: Build_def tot Let_def)
    next
      case False
      then show ?thesis using None t1(1) c t3 by (auto simp: Build_def tot Let_def)
    qed
  qed
  then show thesis using that by blast
qed

end

subsection \<open>Locating a key in a built index\<close>

definition key_pos :: "u32 \<Rightarrow> nat \<Rightarrow> u8 list \<Rightarrow> nat \<Rightarrow> nat" where
  "key_pos seed n key j = edge_slots seed (sect n) key j + j * sect n"

lemma vpos_key: "vpos (key_slots seed (sect n) ks) (sect n) x = key_pos seed n (ks ! x)"
  by (rule ext) (simp add: vpos_def key_slots_def key_pos_def)

lemma key_slots_less: "key_slots seed (sect n) ks j x < sect n"
  using sect_bounds(1) [of n] by (simp add: key_slots_def edge_slots_def)

lemma index_ok_ranks:
  assumes "index_ok n seed ks bm"
  shows "p \<le> 4 * length bm \<Longrightarrow> rank bm p \<le> n"
    "x < n \<Longrightarrow> rank bm (chosen bm (key_pos seed n (ks ! x))) < n"
    "inj_on (\<lambda>x. rank bm (chosen bm (key_pos seed n (ks ! x)))) {..<n}"
proof -
  obtain book where M: "mapped (key_slots seed (sect n) ks) (sect n) {..<n} book bm" and len: "length bm = bmsize n"
    using assms by (auto simp: index_ok_def)
  have fits: "3 * sect n \<le> 4 * length bm" using bmsize_bounds(1) [of n] len by simp
  note ranks = mapped_ranks [OF M key_slots_less fits, unfolded vpos_key]
  show "rank bm p \<le> n" if "p \<le> 4 * length bm" using ranks(1) that .
  show "rank bm (chosen bm (key_pos seed n (ks ! x))) < n" if "x < n" using ranks(2) [OF le0] that .
  show "inj_on (\<lambda>x. rank bm (chosen bm (key_pos seed n (ks ! x)))) {..<n}" using ranks(3) [OF le0] .
qed

text \<open>What the data of an index look like: the facts a reader of the index relies on.\<close>

definition index_data :: "nat \<Rightarrow> u32 \<Rightarrow> u8 list \<Rightarrow> u8 list \<Rightarrow> bool" where
  "index_data n seed bm data \<longleftrightarrow> length bm = bmsize n \<and>
    (\<exists>tb. data = bytes_of_word 4 (of_nat n :: u32) @ bytes_of_word 4 seed @ bm @ tb \<and>
      length tb = (if n > 24 then word_bytes n * (bmsize n div 8) else 0)) \<and>
    (\<forall>a. 8 * a + 8 \<le> length bm \<longrightarrow> table_off (of_nat n) data (8 + length bm) a = Some (of_nat (rank bm (32 * a))))"

lemma index_data_built:
  assumes "1 < n" "n < 2 ^ 28" and "LENGTH('w::len) = 8 * word_bytes n" and "index_ok n seed ks bm"
    and "index_bytes TYPE('w) n seed bm = Some data"
  shows "index_data n seed bm data"
proof -
  have len: "length bm = bmsize n" using assms(4) by (simp add: index_ok_def)
  have ranks: "p \<le> 4 * length bm \<Longrightarrow> rank bm p \<le> n" for p using index_ok_ranks(1) [OF assms(4)] .
  obtain data' tb where "index_bytes TYPE('w) n seed bm = Some data'"
      "data' = bytes_of_word 4 (of_nat n :: u32) @ bytes_of_word 4 seed @ bm @ tb"
      "length tb = (if n > 24 then word_bytes n * (bmsize n div 8) else 0)"
      "\<And>a. 8 * a + 8 \<le> length bm \<Longrightarrow> table_off (of_nat n) data' (8 + length bm) a = Some (of_nat (rank bm (32 * a)))"
    using index_bytes_spec [OF assms(1-3) len ranks] by metis
  then show ?thesis using assms(5) len unfolding index_data_def by auto
qed

lemma locate_key:
  assumes n: "1 < n" "n < 2 ^ 28" and D: "index_data n seed bm data"
    and P: "\<And>j. j < 3 \<Longrightarrow> unat (P j) = key_pos seed n key j"
  shows "locate_slots (Section (of_nat n)) data [P 0, P 1, P 2] = Some (of_nat (rank bm (chosen bm (key_pos seed n key))))"
proof -
  have un: "unat (of_nat n :: u32) = n" using n by (simp add: unat_of_nat)
  have rs: "RealSize (of_nat n) = of_nat n" using n by (intro RealSize_small) (simp add: un)
  have bs: "unat (BitmapSize (Section (of_nat n))) = bmsize n" using BitmapSize_eq [of "of_nat n"] n by (simp add: un)
  obtain tb where len: "length bm = bmsize n" and data: "data = bytes_of_word 4 (of_nat n :: u32) @ bytes_of_word 4 seed @ bm @ tb"
      and t: "\<And>a. 8 * a + 8 \<le> length bm \<Longrightarrow> table_off (of_nat n) data (8 + length bm) a = Some (of_nat (rank bm (32 * a)))"
    using D by (auto simp: index_data_def)
  have "unat (P j) < 4 * length bm" if "j < 3" for j
  proof -
    have "edge_slots seed (sect n) key j < sect n" using sect_bounds(1) [of n] by (simp add: edge_slots_def)
    moreover have "j * sect n \<le> 2 * sect n" using that by simp
    ultimately show ?thesis using bmsize_bounds(1) [of n] len P [OF that] unfolding key_pos_def by linarith
  qed
  moreover have "load32 data 0 = Some (of_nat n)" unfolding data by (rule load32_header)
  moreover have "drop 8 data = bm @ tb" unfolding data by (simp del: bytes_of_word_numeral)
  ultimately have "locate_slots (Section (of_nat n)) data [P 0, P 1, P 2] = Some (of_nat (rank bm (chosen bm (\<lambda>j. unat (P j)))))"
    using t len by (intro locate_slots_rank [where hs = "of_nat n" and rest = tb]) (simp_all add: rs bs)
  moreover have "chosen bm (\<lambda>j. unat (P j)) = chosen bm (key_pos seed n key)"
    using P by (simp add: chosen_def)
  ultimately show ?thesis by simp
qed

lemma key_words:
  assumes n: "n < 2 ^ 28" and j: "j < 3"
  shows "unat (mod_by (u32_at (hcode key seed) j) (assign (Section (of_nat n))) + of_nat j * Section (of_nat n)) = key_pos seed n key j"
    "unat (u32_at (hcode key seed) j mod Section (of_nat n) + of_nat j * Section (of_nat n)) = key_pos seed n key j"
    "Section (of_nat n) \<noteq> 0"
proof -
  let ?M = "Section (of_nat n)" and ?x = "u32_at (hcode key seed) j"
  have M: "unat ?M = sect n" using Section_eq [of "of_nat n"] n by (simp add: unat_of_nat)
  then show nz: "?M \<noteq> 0" using sect_bounds(1) [of n] by (metis not_numeral_le_zero unat_0)
  have "j * sect n \<le> 2 * sect n" "unat ?x mod sect n < sect n" using j sect_bounds(1) [of n] by simp_all
  moreover have "3 * sect n < 2 ^ 32" using sect_bounds(3) [OF n] by simp
  ultimately have small: "unat ?x mod sect n + j * sect n < 2 ^ 32" by linarith
  then show "unat (?x mod ?M + of_nat j * ?M) = key_pos seed n key j"
    by (simp add: unat_word_ariths unat_mod unat_of_nat M key_pos_def edge_slots_def mod_simps)
  then show "unat (mod_by ?x (assign ?M) + of_nat j * ?M) = key_pos seed n key j"
    by (simp only: mod_by_assign [OF nz])
qed

lemma built_headers:
  assumes n: "1 < n" "n < 2 ^ 28" and D: "index_data n seed bm data"
  shows "load32 data 0 = Some (of_nat n)" "load32 data 4 = Some seed" "RealSize (of_nat n) = of_nat n"
    "\<not> RealSize (of_nat n) < 2"
proof -
  have un: "unat (of_nat n :: u32) = n" using n by (simp add: unat_of_nat)
  show rs: "RealSize (of_nat n) = of_nat n" using n by (intro RealSize_small) (simp add: un)
  show "\<not> RealSize (of_nat n) < 2" using n by (simp add: rs word_less_nat_alt un)
  obtain tb where data: "data = bytes_of_word 4 (of_nat n :: u32) @ bytes_of_word 4 seed @ bm @ tb"
    using D by (auto simp: index_data_def)
  show "load32 data 0 = Some (of_nat n)" "load32 data 4 = Some seed" unfolding data by (rule load32_header)+
qed

lemma object_locate:
  assumes n: "1 < n" "n < 2 ^ 28" and D: "index_data n seed bm data"
    and po: "ph_section po = Section (of_nat n)" "ph_data po = Some data" "po_buffer po = Some (assign (Section (of_nat n)))"
  shows "PerfectHashObject_Locate po key = Some (of_nat (rank bm (chosen bm (key_pos seed n key))))"
proof -
  let ?M = "Section (of_nat n)" and ?c = "hcode key seed"
  define P where "P j = mod_by (u32_at ?c j) (assign ?M) + of_nat j * ?M" for j
  have "locate_slots ?M data [P 0, P 1, P 2] = Some (of_nat (rank bm (chosen bm (key_pos seed n key))))"
    using key_words(1) [OF n(2)] by (intro locate_key [OF n D]) (simp add: P_def)
  then show ?thesis
    using built_headers [OF n D] by (simp add: PerfectHashObject_Locate_def po hash_key_eq P_def mult.commute)
qed

lemma hash_locate:
  assumes n: "1 < n" "n < 2 ^ 28" and D: "index_data n seed bm data"
    and ph: "ph_section ph = Section (of_nat n)" "ph_data ph = Some data"
  shows "PerfectHash_Locate ph key = Some (of_nat (rank bm (chosen bm (key_pos seed n key))))"
proof -
  let ?M = "Section (of_nat n)" and ?c = "hcode key seed"
  define P where "P j = u32_at ?c j mod ?M + of_nat j * ?M" for j
  have "locate_slots ?M data [P 0, P 1, P 2] = Some (of_nat (rank bm (chosen bm (key_pos seed n key))))"
    using key_words(2) [OF n(2)] by (intro locate_key [OF n D]) (simp add: P_def)
  then show ?thesis
    using built_headers [OF n D] key_words(3) [OF n(2), of 0]
    by (simp add: PerfectHash_Locate_def ph hash_key_eq P_def mult.commute Let_def)
qed

lemma index_data_length:
  assumes n: "1 < n" "n < 2 ^ 28" and D: "index_data n seed bm data"
  shows "length data = 8 + bmsize n + (if n > 24 then word_bytes n * (bmsize n div 8) else 0)" "length data < 2 ^ 30"
proof -
  show len: "length data = 8 + bmsize n + (if n > 24 then word_bytes n * (bmsize n div 8) else 0)"
    using D by (auto simp: index_data_def simp del: bytes_of_word_numeral)
  have "word_bytes n * (bmsize n div 8) \<le> 4 * (bmsize n div 8)" by (intro mult_le_mono1) (simp add: word_bytes_def)
  also have "\<dots> \<le> bmsize n" by simp
  finally have "length data \<le> 8 + bmsize n + bmsize n" unfolding len
    by auto
  then show "length data < 2 ^ 30" using bmsize_bounds(3) [OF n(2)] by simp
qed

lemma init_built:
  assumes n: "1 < n" "n < 2 ^ 28" and D: "index_data n seed bm data" and sz: "sz = 0 \<or> length data \<le> unat sz"
  shows "PerfectHash_init data sz = Some \<lparr>ph_section = Section (of_nat n), ph_data_size = of_nat (length data), ph_data = Some data\<rparr>"
proof -
  have un: "unat (of_nat n :: u32) = n" using n by (simp add: unat_of_nat)
  have "unat (index_size (of_nat n)) = length data"
    using index_size_nat [of "of_nat n"] n index_data_length(1) [OF n D] by (simp add: un)
  then have bytes: "index_size (of_nat n) = of_nat (length data)" by (rule word_eq_of_natI)
  have un2: "unat (of_nat (length data) :: u32) = length data" using index_data_length(2) [OF n D] by (simp add: unat_of_nat)
  have len4: "4 \<le> length data" unfolding index_data_length(1) [OF n D] by linarith
  have "\<not> (sz \<noteq> 0 \<and> sz < 4)" "\<not> (sz \<noteq> 0 \<and> sz < of_nat (length data))"
    using sz len4 by (auto simp: word_less_nat_alt un2)
  moreover have "1 < (of_nat n :: u32)" using n by (simp add: word_less_nat_alt un)
  ultimately show ?thesis
    using built_headers [OF n D] bytes
    by (simp only: PerfectHash_init_eq bind.simps if_True if_False)
qed

subsection \<open>The object\<close>

text \<open>The keys one by one: \<open>po\<close> is an index of the keys \<open>ks\<close>.\<close>

definition indexes :: "PerfectHashObject \<Rightarrow> u8 list list \<Rightarrow> bool" where
  "indexes po ks \<longleftrightarrow>
    (\<exists>f. bij_betw f {..<length ks} {..<length ks} \<and>
      (\<forall>i<length ks. PerfectHashObject_Locate po (ks ! i) = Some (of_nat (f i))))"

text \<open>An index read back from its bytes, with a size that covers them or with an unknown size.\<close>

definition rereads :: "PerfectHashObject \<Rightarrow> nat \<Rightarrow> bool" where
  "rereads po n \<longleftrightarrow>
    (\<forall>data. ph_data po = Some data \<longrightarrow> length data = unat (ph_data_size po) \<and> load32 data 0 = Some (of_nat n) \<and>
      (\<forall>sz. sz = 0 \<or> length data \<le> unat sz \<longrightarrow>
        (\<exists>ph. PerfectHash_init data sz = Some ph \<and> ph_data_size ph = ph_data_size po \<and>
          PerfectHash_Size ph = Some (of_nat n) \<and>
          (\<forall>key. PerfectHash_Locate ph key = PerfectHashObject_Locate po key))))"

lemma object_of_null: "ph_data (object_of r) = None \<longleftrightarrow> po_buffer (object_of r) = None"
  by (cases r) (auto simp: object_of_def po_null_def)

lemma rereadsI:
  assumes "ph_data po = Some data" and "length data = unat (ph_data_size po)" and "load32 data 0 = Some (of_nat n)"
    and "\<And>sz. sz = 0 \<or> length data \<le> unat sz \<Longrightarrow> PerfectHash_init data sz = Some ph"
    and "ph_data_size ph = ph_data_size po" and "PerfectHash_Size ph = Some (of_nat n)"
    and "\<And>key. PerfectHash_Locate ph key = PerfectHashObject_Locate po key"
  shows "rereads po n"
  using assms unfolding rereads_def by (metis option.inject)

lemma object_built:
  assumes n: "1 < n" "n < 2 ^ 28" "length ks = n" and ok: "index_ok n seed ks bm" and D: "index_data n seed bm data"
  shows "indexes (object_of (Some (assign (Section (of_nat n)), data))) ks"
    "rereads (object_of (Some (assign (Section (of_nat n)), data))) n"
proof -
  let ?po = "object_of (Some (assign (Section (of_nat n)), data))"
  have len: "8 < length data" using bmsize_bounds(2) [of n] unfolding index_data_length(1) [OF n(1,2) D] by linarith
  have "word_of_bytes (take 4 data) = (of_nat n :: u32)"
    using built_headers(1) [OF n(1,2) D] len by (simp add: load32_def)
  then have po: "ph_section ?po = Section (of_nat n)" "ph_data ?po = Some data" "po_buffer ?po = Some (assign (Section (of_nat n)))"
      "ph_data_size ?po = of_nat (length data)"
    using len by (simp_all add: object_of_def)
  let ?f = "\<lambda>i. rank bm (chosen bm (key_pos seed n (ks ! i)))"
  have "bij_betw ?f {..<n} {..<n}"
    using index_ok_ranks(2,3) [OF ok] by (intro bij_betw_imageI endo_inj_surj) auto
  moreover have "\<forall>i<n. PerfectHashObject_Locate ?po (ks ! i) = Some (of_nat (?f i))"
    using object_locate [OF n(1,2) D po(1-3)] by blast
  ultimately show "indexes ?po ks" unfolding indexes_def n(3) by blast
  show "rereads ?po n"
  proof (rule rereadsI [OF po(2) _ built_headers(1) [OF n(1,2) D] init_built [OF n(1,2) D]])
    let ?ph = "\<lparr>ph_section = Section (of_nat n), ph_data_size = of_nat (length data), ph_data = Some data\<rparr>"
    show "length data = unat (ph_data_size ?po)" unfolding po(4) using index_data_length(2) [OF n(1,2) D] by (simp add: unat_of_nat)
    show "PerfectHash_Locate ?ph key = PerfectHashObject_Locate ?po key" for key
      using hash_locate [OF n(1,2) D, of ?ph] object_locate [OF n(1,2) D po(1-3)] by simp
    show "PerfectHash_Size ?ph = Some (of_nat n)"
      using built_headers [OF n(1,2) D] by (simp add: PerfectHash_Size_def)
    show "ph_data_size ?ph = ph_data_size ?po" unfolding po(4) by simp
  qed simp_all
qed

lemma object_tiny:
  assumes "length ks \<le> 1"
  shows "indexes (object_of (Some (assign 0, bytes_of_word 4 (of_nat (length ks) :: u32)))) ks"
    "rereads (object_of (Some (assign 0, bytes_of_word 4 (of_nat (length ks) :: u32)))) (length ks)"
proof -
  let ?n = "of_nat (length ks) :: u32"
  let ?data = "bytes_of_word 4 ?n" and ?po = "object_of (Some (assign 0, bytes_of_word 4 ?n))"
  have n: "unat ?n = length ks" using assms by (simp add: unat_of_nat)
  then have rs: "RealSize ?n = ?n" "?n < 2" "\<not> ?n > 1" using assms by (simp_all add: RealSize_small word_less_nat_alt)
  have l: "load32 ?data 0 = Some ?n" using load32_header(1) [of ?n "[]"] by (simp del: bytes_of_word_numeral)
  have po: "ph_section ?po = 0" "ph_data ?po = Some ?data" "po_buffer ?po = Some (assign 0)" "ph_data_size ?po = 4"
    by (simp_all add: object_of_def del: bytes_of_word_numeral)
  have loc: "PerfectHashObject_Locate ?po key = Some 0" for key
    using rs l po by (simp add: PerfectHashObject_Locate_def del: bytes_of_word_numeral)
  then show "indexes ?po ks"
    using assms unfolding indexes_def by (intro exI [of _ "\<lambda>_. 0"]) (cases ks; auto simp: bij_betw_def inj_on_def)
  show "rereads ?po (length ks)"
  proof (rule rereadsI [OF po(2) _ l])
    let ?ph = "\<lparr>ph_section = 0, ph_data_size = 4, ph_data = Some ?data\<rparr>"
    show "PerfectHash_init ?data sz = Some ?ph" if "sz = 0 \<or> length ?data \<le> unat sz" for sz
    proof -
      have "\<not> (sz \<noteq> 0 \<and> sz < 4)" using that by (auto simp: word_less_nat_alt)
      then show ?thesis using l rs by (auto simp: PerfectHash_init_def simp del: bytes_of_word_numeral)
    qed
    show "PerfectHash_Locate ?ph key = PerfectHashObject_Locate ?po key" for key
      unfolding loc using l rs by (simp add: PerfectHash_Locate_def del: bytes_of_word_numeral)
    show "PerfectHash_Size ?ph = Some ?n" using l rs by (simp add: PerfectHash_Size_def del: bytes_of_word_numeral)
    show "length ?data = unat (ph_data_size ?po)" unfolding po by simp
    show "ph_data_size ?ph = ph_data_size ?po" unfolding po by simp
  qed
qed

context key_reader
begin

lemma PerfectHashObject_Build_spec:
  assumes s: "inv s"
  obtains po s' where "PerfectHashObject_Build R gseed junk nc s = Some (po, s')" "inv s'" "keys s' = keys s"
    "po_buffer po \<noteq> None \<Longrightarrow> length (keys s) < 2 ^ 28 \<and> indexes po (keys s) \<and> rereads po (length (keys s))"
    "length (keys s) \<le> 1 \<Longrightarrow> po_buffer po \<noteq> None" "ph_data po = None \<longleftrightarrow> po_buffer po = None"
proof -
  let ?n = "length (keys s)"
  have tot: "kr_total R s = ?n" using total [OF s] .
  have built: "\<exists>po s'. PerfectHashObject_Build R gseed junk nc s = Some (po, s') \<and> inv s' \<and> keys s' = keys s \<and>
      (po_buffer po \<noteq> None \<longrightarrow> indexes po (keys s) \<and> rereads po ?n) \<and> (ph_data po = None \<longleftrightarrow> po_buffer po = None)"
    if w: "LENGTH('w::len) = 8 * word_bytes ?n" and n: "1 < ?n" "?n < 2 ^ 28"
      and sel: "(if ?n > 0xffff then Build TYPE(32) R gseed junk nc s else if ?n > 0xff then Build TYPE(16) R gseed junk nc s
        else Build TYPE(8) R gseed junk nc s) = Build TYPE('w) R gseed junk nc s"
  proof -
    obtain r s' where b: "Build TYPE('w) R gseed junk nc s = Some (r, s')" "inv s'" "keys s' = keys s"
        "\<And>d data. r = Some (d, data) \<Longrightarrow> d = assign (Section (of_nat ?n)) \<and>
          (\<exists>seed bm. index_bytes TYPE('w) ?n seed bm = Some data \<and> index_ok ?n seed (keys s) bm)"
      using Build_spec [OF w n s refl] by blast
    have "indexes (object_of r) (keys s) \<and> rereads (object_of r) ?n" if buf: "po_buffer (object_of r) \<noteq> None"
    proof -
      obtain d data where r: "r = Some (d, data)" using buf by (cases r) (auto simp: object_of_def po_null_def)
      then obtain seed bm where i: "d = assign (Section (of_nat ?n))" "index_bytes TYPE('w) ?n seed bm = Some data"
          "index_ok ?n seed (keys s) bm"
        using b(4) by blast
      then show ?thesis
        using object_built [OF n refl i(3) index_data_built [OF n w i(3,2)]] r by simp
    qed
    then show ?thesis using b(1-3) sel n object_of_null
      by (auto simp: PerfectHashObject_Build_def tot Let_def split: if_splits)
  qed
  consider "?n \<ge> 2 ^ 28" | "?n \<le> 1" | "0xffff < ?n" "?n < 2 ^ 28" | "0xff < ?n" "?n \<le> 0xffff" | "1 < ?n" "?n \<le> 0xff"
    by linarith
  then show thesis
  proof cases
    case 1
    then show thesis using that [of po_null s] s by (simp add: PerfectHashObject_Build_def tot po_null_def)
  next
    case 2
    let ?r = "Some (assign 0, bytes_of_word 4 (of_nat ?n :: u32))"
    have "PerfectHashObject_Build R gseed junk nc s = Some (object_of ?r, s)"
      using 2 by (simp add: PerfectHashObject_Build_def tot del: bytes_of_word_numeral)
    moreover have "?n < 2 ^ 28" using 2 by simp
    moreover have "po_buffer (object_of ?r) \<noteq> None" by (simp add: object_of_def)
    ultimately show thesis using that s object_tiny [OF 2] object_of_null by blast
  next
    case 3
    then show thesis using built [where 'w = 32] that by (auto simp: word_bytes_def)
  next
    case 4
    then show thesis using built [where 'w = 16] that by (auto simp: word_bytes_def)
  next
    case 5
    then show thesis using built [where 'w = 8] that by (auto simp: word_bytes_def)
  qed
qed

end

subsection \<open>Properties\<close>

lemma vector_Build:
  "\<exists>po r. PerfectHashObject_Build vector_reader gseed junk nc \<lparr>vr_keys = ks, vr_idx = i\<rparr> = Some (po, r) \<and>
    (po_buffer po \<noteq> None \<longrightarrow> length ks < 2 ^ 28 \<and> indexes po ks \<and> rereads po (length ks)) \<and>
    (length ks \<le> 1 \<longrightarrow> po_buffer po \<noteq> None) \<and> (ph_data po = None \<longleftrightarrow> po_buffer po = None)"
proof (rule vec.PerfectHashObject_Build_spec [OF TrueI, of gseed junk nc "\<lparr>vr_keys = ks, vr_idx = i\<rparr>"])
  fix po r
  assume "PerfectHashObject_Build vector_reader gseed junk nc \<lparr>vr_keys = ks, vr_idx = i\<rparr> = Some (po, r)"
    "po_buffer po \<noteq> None \<Longrightarrow> length (vr_keys \<lparr>vr_keys = ks, vr_idx = i\<rparr>) < 2 ^ 28 \<and>
      indexes po (vr_keys \<lparr>vr_keys = ks, vr_idx = i\<rparr>) \<and> rereads po (length (vr_keys \<lparr>vr_keys = ks, vr_idx = i\<rparr>))"
    "length (vr_keys \<lparr>vr_keys = ks, vr_idx = i\<rparr>) \<le> 1 \<Longrightarrow> po_buffer po \<noteq> None" "ph_data po = None \<longleftrightarrow> po_buffer po = None"
  then show ?thesis by (intro exI [of _ po] exI [of _ r]) simp
qed

text \<open>
  Claim C5: building an index never leaves the memory it allocated, for any keys, any seed and any
  initial contents of that memory; and whenever it returns an index, the index is a minimal perfect
  hash: the keys are located at the numbers below their count, each at a number of its own.
\<close>

theorem perfect_hash_minimal:
  shows "\<exists>po r. PerfectHashObject_Build vector_reader gseed junk nc \<lparr>vr_keys = ks, vr_idx = i\<rparr> = Some (po, r) \<and>
    (po_buffer po \<noteq> None \<longrightarrow>
      (\<exists>f. bij_betw f {..<length ks} {..<length ks} \<and>
        (\<forall>i<length ks. PerfectHashObject_Locate po (ks ! i) = Some (of_nat (f i)))))"
  using vector_Build unfolding indexes_def by blast

theorem perfect_hash_minimal_witness:
  "\<exists>po r. PerfectHashObject_Build vector_reader 7 (\<lambda>_ _. 0) False \<lparr>vr_keys = [[1, 2]], vr_idx = 0\<rparr> = Some (po, r) \<and>
    po_buffer po \<noteq> None \<and> (\<exists>f. bij_betw f {..<Suc 0} {..<Suc 0} \<and> PerfectHashObject_Locate po [1, 2] = Some (of_nat (f 0)))"
proof -
  obtain po r where *: "PerfectHashObject_Build vector_reader 7 (\<lambda>_ _. 0) False \<lparr>vr_keys = [[1, 2]], vr_idx = 0\<rparr> = Some (po, r)"
      "po_buffer po \<noteq> None \<longrightarrow> (\<exists>f. bij_betw f {..<length [[1, 2 :: u8]]} {..<length [[1, 2 :: u8]]} \<and>
        (\<forall>i<length [[1, 2 :: u8]]. PerfectHashObject_Locate po ([[1, 2]] ! i) = Some (of_nat (f i))))"
    using perfect_hash_minimal [of 7 "\<lambda>_ _. 0" False "[[1, 2]]" 0] by blast
  have "po_buffer po \<noteq> None"
    using vector_Build [of 7 "\<lambda>_ _. 0" False "[[1, 2]]" 0] *(1) by auto
  then show ?thesis using * by auto
qed

text \<open>
  An index read back from the bytes of a built one, given the size of the bytes, a bigger
  one or an unknown one, is accepted, has the same size and locates every key, of the index or not,
  where the built one does.
\<close>

theorem perfect_hash_reread:
  assumes "PerfectHashObject_Build vector_reader gseed junk nc \<lparr>vr_keys = ks, vr_idx = i\<rparr> = Some (po, r)"
    and "ph_data po = Some data" and "sz = 0 \<or> length data \<le> unat sz"
  shows "\<exists>ph. PerfectHash_init data sz = Some ph \<and> PerfectHash_Size ph = Some (of_nat (length ks)) \<and>
    ph_data_size ph = ph_data_size po \<and> length data = unat (ph_data_size po) \<and>
    (\<forall>key. PerfectHash_Locate ph key = PerfectHashObject_Locate po key)"
proof -
  have "rereads po (length ks)"
    using vector_Build [of gseed junk nc ks i] assms(1,2) by auto
  then show ?thesis using assms(2,3) unfolding rereads_def by blast
qed



theorem perfect_hash_reread_witness:
  "\<exists>po r data ph. PerfectHashObject_Build vector_reader 7 (\<lambda>_ _. 0) True \<lparr>vr_keys = [[5]], vr_idx = 0\<rparr> = Some (po, r) \<and>
    ph_data po = Some data \<and> PerfectHash_init data 0 = Some ph \<and> PerfectHash_Size ph = Some (of_nat 1) \<and>
    PerfectHash_Locate ph [9] = PerfectHashObject_Locate po [9]"
  using vector_Build [of 7 "\<lambda>_ _. 0" True "[[5]]" 0]
    perfect_hash_reread [of 7 "\<lambda>_ _. 0" True "[[5]]" 0 _ _ _ 0] by fastforce

end
