(* ===== verification/Access.thy ===== *)
theory Access
  imports PH_Build
begin

text \<open>
  The read-only views of include/protocache/access.h: strings, fields, messages, arrays, pairs and
  maps over a block of words. A pointer is an index into the block or null (\<open>None\<close>); the argument
  \<open>end\<close> of the source is the end of the readable words or null, and a read outside of the block is
  \<open>None\<close>, whatever \<open>end\<close> says. A byte pointer is an index into the bytes of the block.
\<close>

subsection \<open>Memory\<close>

type_synonym mem = "u32 list"
type_synonym ptr = "nat option"

definition mem_bytes :: "mem \<Rightarrow> u8 list" where
  "mem_bytes mem = concat (map (bytes_of_word 4) mem)"

definition rd64 :: "mem \<Rightarrow> nat \<Rightarrow> u64 option" where
  "rd64 mem i = do { lo \<leftarrow> rd mem i; hi \<leftarrow> rd mem (i + 1); Some (ucast lo OR push_bit 32 (ucast hi)) }"

text \<open>The comparisons of a pointer with an optional end: \<open>end != nullptr && p > end\<close>, and \<open>>=\<close>.\<close>

definition past :: "nat \<Rightarrow> ptr \<Rightarrow> bool" where
  "past p e = (case e of None \<Rightarrow> False | Some e \<Rightarrow> p > e)"

definition at_end :: "nat \<Rightarrow> ptr \<Rightarrow> bool" where
  "at_end p e = (case e of None \<Rightarrow> False | Some e \<Rightarrow> p \<ge> e)"

text \<open>
  Pointer arithmetic: adding to null is only defined for the offset 0; anything else is a fault, like
  a read outside of the block.
\<close>

definition ptr_add :: "ptr \<Rightarrow> nat \<Rightarrow> ptr option" where
  "ptr_add p n = (case p of None \<Rightarrow> if n = 0 then Some None else None | Some q \<Rightarrow> Some (Some (q + n)))"

definition ptr_sub :: "ptr \<Rightarrow> nat \<Rightarrow> ptr option" where
  "ptr_sub p n =
    (case p of None \<Rightarrow> if n = 0 then Some None else None | Some q \<Rightarrow> if n \<le> q then Some (Some (q - n)) else None)"

record Slice =
  s_ptr :: ptr
  s_len :: nat

definition null_slice :: Slice where
  "null_slice = \<lparr>s_ptr = None, s_len = 0\<rparr>"

definition slice :: "nat \<Rightarrow> nat \<Rightarrow> Slice" where
  "slice p n = \<lparr>s_ptr = Some p, s_len = n\<rparr>"

definition WordSize :: "nat \<Rightarrow> nat" where
  "WordSize sz = (sz + 3) div 4"

subsection \<open>String\<close>

text \<open>The loop of the constructor over the bytes of the length, at the shift \<open>sft\<close>.\<close>

function string_loop :: "u8 list \<Rightarrow> ptr \<Rightarrow> nat \<Rightarrow> u64 \<Rightarrow> nat \<Rightarrow> Slice option" where
  "string_loop bs e sft mark p =
    (if sft < 32 then
       if at_end p e then Some null_slice
       else
         (case rd bs p of
            None \<Rightarrow> None
          | Some b \<Rightarrow>
              if b AND 0x80 \<noteq> 0 then string_loop bs e (sft + 7) (mark OR push_bit sft (ucast (b AND 0x7f))) (p + 1)
              else
                let mark = mark OR push_bit sft (ucast b) in
                if past (p + 1 + unat (drop_bit 2 mark)) e then Some null_slice
                else Some (slice (p + 1) (unat (drop_bit 2 mark))))
     else Some null_slice)"
  by pat_completeness auto
termination by (relation "measure (\<lambda>(bs, e, sft, mark, p). 32 - sft)") auto

declare string_loop.simps [simp del]

text \<open>The bytes of the string; null where the source leaves the slice null.\<close>

definition String_init :: "mem \<Rightarrow> ptr \<Rightarrow> ptr \<Rightarrow> Slice option" where
  "String_init mem ptr end =
    (case ptr of
       None \<Rightarrow> Some null_slice
     | Some ptr \<Rightarrow>
         let p = 4 * ptr; e = map_option ((*) 4) end; bs = mem_bytes mem in
         if at_end p e then Some null_slice
         else do {
           b \<leftarrow> rd bs p;
           if b AND 3 \<noteq> 0 then Some null_slice
           else if b AND 0x80 = 0 then
             let str_len = unat (drop_bit 2 b) in
             if past (p + 1 + str_len) e then Some null_slice else Some (slice (p + 1) str_len)
           else string_loop bs e 7 (ucast (b AND 0x7f)) (p + 1)
         })"

definition String_Detect :: "mem \<Rightarrow> ptr \<Rightarrow> ptr \<Rightarrow> Slice option" where
  "String_Detect mem ptr end = do {
     str \<leftarrow> String_init mem ptr end;
     (case (s_ptr str, ptr) of
        (Some q, Some p) \<Rightarrow> let off = q - 4 * p in Some (slice p ((off + s_len str + 3) div 4))
      | _ \<Rightarrow> Some null_slice)
   }"

text \<open>\<open>Get\<close>, \<open>GetBytes\<close> and \<open>GetBoolArray\<close>: the bytes a slice points to.\<close>

definition slice_bytes :: "mem \<Rightarrow> Slice \<Rightarrow> u8 list option" where
  "slice_bytes mem s = (case s_ptr s of None \<Rightarrow> Some [] | Some q \<Rightarrow> rd_range (mem_bytes mem) q (s_len s))"

subsection \<open>Field\<close>

record Field =
  f_ptr :: ptr
  f_width :: nat

definition null_field :: Field where
  "null_field = \<lparr>f_ptr = None, f_width = 0\<rparr>"

definition GetValue :: "Field \<Rightarrow> ptr \<Rightarrow> Slice" where
  "GetValue f end =
    (case f_ptr f of
       None \<Rightarrow> \<lparr>s_ptr = None, s_len = f_width f\<rparr>
     | Some p \<Rightarrow> if past (p + f_width f) end then null_slice else slice p (f_width f))"

definition GetObject :: "mem \<Rightarrow> Field \<Rightarrow> ptr \<Rightarrow> ptr option" where
  "GetObject mem f end =
    (case f_ptr f of
       None \<Rightarrow> Some None
     | Some p \<Rightarrow>
         if at_end p end then Some None
         else do {
           w \<leftarrow> rd mem p;
           let p = (if w AND 3 = 3 then p + unat (drop_bit 2 w) else p);
           Some (if at_end p end then None else Some p)
         })"

subsection \<open>Message\<close>

text \<open>A message is its pointer; \<open>None\<close> is the pointer to the word \<open>s_empty\<close>, which is 0.\<close>

definition msg_word :: "mem \<Rightarrow> ptr \<Rightarrow> u32 option" where
  "msg_word mem m = (case m of None \<Rightarrow> Some 0 | Some p \<Rightarrow> rd mem p)"

definition Message_init :: "mem \<Rightarrow> ptr \<Rightarrow> ptr \<Rightarrow> ptr option" where
  "Message_init mem ptr end =
    (case ptr of
       None \<Rightarrow> Some None
     | Some p \<Rightarrow> do {
         w \<leftarrow> rd mem p;
         let sec = unat (w AND 0xff);
         Some (if past (p + 1 + sec * 2) end then None else Some p)
       })"

definition Message_Detect :: "mem \<Rightarrow> ptr \<Rightarrow> ptr \<Rightarrow> Slice option" where
  "Message_Detect mem ptr end =
    (case ptr of
       None \<Rightarrow> Some null_slice
     | Some p \<Rightarrow> do {
         w \<leftarrow> rd mem p;
         let sec = unat (w AND 0xff);
         let tail = p + 1 + sec * 2;
         tail \<leftarrow>
           (if sec = 0 then Some (tail + unat (Count32 w))
            else do {
              v \<leftarrow> rd64 mem (tail - 2);
              Some (tail + unat (ucast (Count64 (push_bit 14 v)) + drop_bit 50 v))
            });
         Some (if past tail end then null_slice else slice p (tail - p))
       })"

definition HasField :: "mem \<Rightarrow> ptr \<Rightarrow> nat \<Rightarrow> bool option" where
  "HasField mem m fid = do {
     w \<leftarrow> msg_word mem m;
     let sec = unat (w AND 0xff);
     if fid < 12 then Some (drop_bit (fid * 2) (drop_bit 8 w) AND 3 \<noteq> 0)
     else
       let a = (fid - 12) div 25; b = (fid - 12) mod 25 in
       if a \<ge> sec then Some False
       else
         (case m of
            None \<Rightarrow> None
          | Some p \<Rightarrow> do { v \<leftarrow> rd64 mem (p + 1 + 2 * a); Some (drop_bit (b * 2) v AND 3 \<noteq> 0) })
   }"

definition GetField :: "mem \<Rightarrow> ptr \<Rightarrow> nat \<Rightarrow> ptr \<Rightarrow> Field option" where
  "GetField mem m fid end = do {
     w \<leftarrow> msg_word mem m;
     let sec = unat (w AND 0xff);
     r \<leftarrow>
       (if fid < 12 then
          let v = drop_bit 8 w; width = unat (drop_bit (fid * 2) v AND 3) in
          if width = 0 then Some None
          else Some (Some (unat (Count32 (v AND NOT (push_bit (fid * 2) (- 1)))), width))
        else
          let a = (fid - 12) div 25; b = (fid - 12) mod 25 in
          if a \<ge> sec then Some None
          else
            (case m of
               None \<Rightarrow> None
             | Some p \<Rightarrow> do {
                 v \<leftarrow> rd64 mem (p + 1 + 2 * a);
                 let width = unat (drop_bit (b * 2) v AND 3);
                 if width = 0 then Some None
                 else Some (Some (unat (Count64 (v AND NOT (push_bit (b * 2) (- 1))) + ucast (drop_bit 50 v)), width))
               }));
     (case (r, m) of
        (Some (off, width), Some p) \<Rightarrow>
          let body = p + 1 + sec * 2 in
          Some (if past (body + off + width) end then null_field else \<lparr>f_ptr = Some (body + off), f_width = width\<rparr>)
      | _ \<Rightarrow> Some null_field)
   }"

subsection \<open>Array and Pair\<close>

record Array =
  a_body :: ptr
  a_size :: u32
  a_width :: u32

definition null_array :: Array where
  "null_array = \<lparr>a_body = None, a_size = 0, a_width = 0\<rparr>"

definition Array_init :: "mem \<Rightarrow> ptr \<Rightarrow> ptr \<Rightarrow> Array option" where
  "Array_init mem ptr end =
    (case ptr of
       None \<Rightarrow> Some null_array
     | Some p \<Rightarrow> do {
         w \<leftarrow> rd mem p;
         let body = p + 1;
         let sz = drop_bit 2 w;
         let width = w AND 3;
         Some \<lparr>a_body = (if width = 0 \<or> past (body + unat (width * sz)) end then None else Some body),
               a_size = sz, a_width = width\<rparr>
       })"

definition Array_Detect :: "mem \<Rightarrow> ptr \<Rightarrow> ptr \<Rightarrow> Slice option" where
  "Array_Detect mem ptr end =
    (case ptr of
       None \<Rightarrow> Some null_slice
     | Some p \<Rightarrow> do {
         w \<leftarrow> rd mem p;
         let sz = drop_bit 2 w;
         let width = w AND 3;
         if width = 0 then Some null_slice
         else
           let tail = p + 1 + unat (width * sz) in
           Some (if past tail end then null_slice else slice p (tail - p))
       })"

text \<open>An iterator is its pointer; the width is that of the array.\<close>

definition Array_begin :: "Array \<Rightarrow> ptr" where
  "Array_begin a = a_body a"

definition Array_end :: "Array \<Rightarrow> ptr option" where
  "Array_end a = ptr_add (a_body a) (unat (a_width a * a_size a))"

definition Array_next :: "Array \<Rightarrow> ptr \<Rightarrow> ptr option" where
  "Array_next a it = ptr_add it (unat (a_width a))"

definition Array_prev :: "Array \<Rightarrow> ptr \<Rightarrow> ptr option" where
  "Array_prev a it = ptr_sub it (unat (a_width a))"

definition Array_deref :: "Array \<Rightarrow> ptr \<Rightarrow> Field" where
  "Array_deref a it = \<lparr>f_ptr = it, f_width = unat (a_width a)\<rparr>"

definition Array_at :: "Array \<Rightarrow> u32 \<Rightarrow> Field option" where
  "Array_at a pos = do {
     p \<leftarrow> ptr_add (a_body a) (unat (a_width a * pos));
     Some \<lparr>f_ptr = p, f_width = unat (a_width a)\<rparr>
   }"

text \<open>\<open>Numbers<T>\<close> for a \<open>T\<close> of \<open>sz\<close> bytes: where the numbers are, and how many.\<close>

definition Array_Numbers :: "nat \<Rightarrow> Array \<Rightarrow> Slice" where
  "Array_Numbers sz a =
    (if unat (a_width a) \<noteq> WordSize sz then null_slice else \<lparr>s_ptr = a_body a, s_len = unat (a_size a)\<rparr>)"

record Pair =
  p_ptr :: ptr
  p_kw :: nat
  p_vw :: nat

definition Pair_Key :: "Pair \<Rightarrow> Field" where
  "Pair_Key p = \<lparr>f_ptr = p_ptr p, f_width = p_kw p\<rparr>"

definition Pair_Value :: "Pair \<Rightarrow> Field option" where
  "Pair_Value p = do { q \<leftarrow> ptr_add (p_ptr p) (p_kw p); Some \<lparr>f_ptr = q, f_width = p_vw p\<rparr> }"

subsection \<open>Map\<close>

record Map =
  m_index :: PerfectHash
  m_body :: ptr
  m_kw :: u32
  m_vw :: u32

definition null_map :: Map where
  "null_map = \<lparr>m_index = ph_null, m_body = None, m_kw = 0, m_vw = 0\<rparr>"

text \<open>The size the index is given: \<open>(end - ptr) * 4\<close> cut to 32 bits, or 0.\<close>

definition index_limit :: "nat \<Rightarrow> ptr \<Rightarrow> u32" where
  "index_limit p end = (case end of None \<Rightarrow> 0 | Some e \<Rightarrow> of_int ((int e - int p) * 4))"

definition Map_init :: "mem \<Rightarrow> ptr \<Rightarrow> ptr \<Rightarrow> Map option" where
  "Map_init mem ptr end =
    (case ptr of
       None \<Rightarrow> Some null_map
     | Some p \<Rightarrow> do {
         w \<leftarrow> rd mem p;
         let kw = drop_bit 30 w AND 3;
         let vw = drop_bit 28 w AND 3;
         if kw = 0 \<or> vw = 0 then Some \<lparr>m_index = ph_null, m_body = None, m_kw = kw, m_vw = vw\<rparr>
         else do {
           index \<leftarrow> PerfectHash_init (drop (4 * p) (mem_bytes mem)) (index_limit p end);
           if ph_data index = None then Some \<lparr>m_index = index, m_body = None, m_kw = kw, m_vw = vw\<rparr>
           else do {
             n \<leftarrow> PerfectHash_Size index;
             let body = p + WordSize (unat (ph_data_size index));
             Some \<lparr>m_index = index, m_body = (if past (body + unat ((kw + vw) * n)) end then None else Some body),
                   m_kw = kw, m_vw = vw\<rparr>
           }
         }
       })"

definition Map_Detect :: "mem \<Rightarrow> ptr \<Rightarrow> ptr \<Rightarrow> Slice option" where
  "Map_Detect mem ptr end =
    (case ptr of
       None \<Rightarrow> Some null_slice
     | Some p \<Rightarrow> do {
         w \<leftarrow> rd mem p;
         let kw = drop_bit 30 w AND 3;
         let vw = drop_bit 28 w AND 3;
         if kw = 0 \<or> vw = 0 then Some null_slice
         else do {
           index \<leftarrow> PerfectHash_init (drop (4 * p) (mem_bytes mem)) (index_limit p end);
           if ph_data index = None then Some null_slice
           else do {
             n \<leftarrow> PerfectHash_Size index;
             let tail = p + WordSize (unat (ph_data_size index)) + unat ((kw + vw) * n);
             Some (if past tail end then null_slice else slice p (tail - p))
           }
         }
       })"

definition Map_Size :: "Map \<Rightarrow> u32 option" where
  "Map_Size m = PerfectHash_Size (m_index m)"

definition Map_begin :: "Map \<Rightarrow> ptr" where
  "Map_begin m = m_body m"

definition Map_end :: "Map \<Rightarrow> ptr option" where
  "Map_end m = do { n \<leftarrow> Map_Size m; ptr_add (m_body m) (unat ((m_kw m + m_vw m) * n)) }"

definition Map_next :: "Map \<Rightarrow> ptr \<Rightarrow> ptr option" where
  "Map_next m it = ptr_add it (unat (m_kw m + m_vw m))"

definition Map_prev :: "Map \<Rightarrow> ptr \<Rightarrow> ptr option" where
  "Map_prev m it = ptr_sub it (unat (m_kw m + m_vw m))"

definition Map_deref :: "Map \<Rightarrow> ptr \<Rightarrow> Pair" where
  "Map_deref m it = \<lparr>p_ptr = it, p_kw = unat (m_kw m), p_vw = unat (m_vw m)\<rparr>"

definition map_entry :: "Map \<Rightarrow> u32 \<Rightarrow> ptr option" where
  "map_entry m pos = ptr_add (m_body m) (unat ((m_kw m + m_vw m) * pos))"

text \<open>\<open>Find\<close> for string keys: the iterator of the pair, or \<open>end()\<close>.\<close>

definition Map_Find :: "mem \<Rightarrow> Map \<Rightarrow> u8 list \<Rightarrow> ptr \<Rightarrow> ptr option" where
  "Map_Find mem m str end = do {
     pos \<leftarrow> PerfectHash_Locate (m_index m) str;
     n \<leftarrow> Map_Size m;
     if pos \<ge> n then Map_end m
     else do {
       it \<leftarrow> map_entry m pos;
       obj \<leftarrow> GetObject mem (Pair_Key (Map_deref m it)) end;
       view \<leftarrow> String_init mem obj end;
       bytes \<leftarrow> slice_bytes mem view;
       if s_ptr view = None \<or> bytes \<noteq> str then Map_end m else Some it
     }
   }"

text \<open>
  \<open>Find\<close> for a scalar key with the bytes \<open>val\<close>. The keys are integers or \<open>bool\<close>, so that their
  comparison is that of their bytes.
\<close>

definition Map_Find_scalar :: "mem \<Rightarrow> Map \<Rightarrow> u8 list \<Rightarrow> ptr \<Rightarrow> ptr option" where
  "Map_Find_scalar mem m val end = do {
     pos \<leftarrow> PerfectHash_Locate (m_index m) val;
     n \<leftarrow> Map_Size m;
     if pos \<ge> n then Map_end m
     else do {
       it \<leftarrow> map_entry m pos;
       let view = GetValue (Pair_Key (Map_deref m it)) end;
       if s_len view = (length val + 3) div 4 then
         (case s_ptr view of
            None \<Rightarrow> None
          | Some q \<Rightarrow> do {
              bytes \<leftarrow> rd_range (mem_bytes mem) (4 * q) (length val);
              if val = bytes then Some it else Map_end m
            })
       else Map_end m
     }
   }"

end
