(* ===== verification/Serialize.thy ===== *)
theory Serialize
  imports Buffer Access
begin

text \<open>
  The serializers of include/protocache/serialize.h and src/serialize.cc: units, which hold up to three
  words or refer to a segment of the buffer, and the functions that put strings, arrays, maps and
  messages in front of the buffer. A result is \<open>None\<close> for an access outside of an array or a failed
  assertion, and otherwise the returned flag with the new buffer and unit.
\<close>

subsection \<open>Units\<close>

text \<open>
  \<open>data\<close> and \<open>seg\<close> share their storage: \<open>seg.pos\<close> is \<open>data[0]\<close> and \<open>seg.len\<close> is \<open>data[1]\<close>. The source
  does not initialize \<open>data[2]\<close> and reads it only after writing it.
\<close>

record Unit =
  u_len :: nat
  u_data :: "u32 list"

definition unit_init :: Unit where
  "unit_init = \<lparr>u_len = 0, u_data = [0, 0, 0]\<rparr>"

definition seg_pos :: "Unit \<Rightarrow> u32" where
  "seg_pos u = u_data u ! 0"

definition seg_len :: "Unit \<Rightarrow> u32" where
  "seg_len u = u_data u ! 1"

definition seg_end :: "Unit \<Rightarrow> u32" where
  "seg_end u = seg_pos u - seg_len u"

definition unit_size :: "Unit \<Rightarrow> nat" where
  "unit_size u = (if u_len u = 0 then unat (seg_len u) else u_len u)"

definition Segment :: "nat \<Rightarrow> nat \<Rightarrow> Unit" where
  "Segment lst now = \<lparr>u_len = 0, u_data = [of_nat now, of_nat (now - lst), 0]\<rparr>"

text \<open>Writing the first words of \<open>data\<close>; more than three do not fit.\<close>

definition set_data :: "u32 list \<Rightarrow> Unit \<Rightarrow> Unit option" where
  "set_data ws u = do { d \<leftarrow> wr_range (u_data u) 0 ws; Some \<lparr>u_len = length ws, u_data = d\<rparr> }"

definition FoldField :: "Buffer \<Rightarrow> Unit \<Rightarrow> (Buffer \<times> Unit) option" where
  "FoldField buf u =
    (if u_len u = 0 \<and> seg_len u \<noteq> 0 \<and> seg_len u < 4 then
       if unat (seg_pos u) \<noteq> Size buf then None
       else do {
         src \<leftarrow> rd_range (cells buf) (Head buf) (unat (seg_len u));
         u' \<leftarrow> set_data src u;
         Some (Shrink (u_len u') buf, u')
       }
     else Some (buf, u))"

subsection \<open>Scalars and strings\<close>

text \<open>A scalar is given by its one or two words.\<close>

definition Serialize_scalar :: "u32 list \<Rightarrow> Unit \<Rightarrow> Unit option" where
  "Serialize_scalar ws u = set_data ws u"

definition Serialize_bool :: "bool \<Rightarrow> Unit \<Rightarrow> Unit option" where
  "Serialize_bool v u = set_data [if v then 1 else 0] u"

function WriteVarInt :: "u32 \<Rightarrow> u8 list" where
  "WriteVarInt n =
    (if n AND NOT 0x7f \<noteq> 0 then ucast (0x80 OR (n AND 0x7f)) # WriteVarInt (drop_bit 7 n) else [ucast n])"
  by pat_completeness auto
termination
proof (relation "measure unat")
  fix n :: u32
  assume "n AND NOT 0x7f \<noteq> 0"
  then have "n \<noteq> 0" by auto
  then show "(drop_bit 7 n, n) \<in> measure unat" by (simp add: unat_drop_bit unat_gt_0 div_less_dividend)
qed simp

declare WriteVarInt.simps [simp del]

definition Offset :: "u32 \<Rightarrow> u32" where
  "Offset off = push_bit 2 off OR 3"

text \<open>Bytes packed into words, the last one padded with zeros.\<close>

fun words_of :: "u8 list \<Rightarrow> u32 list" where
  "words_of [] = []"
| "words_of [a] = [word_of_bytes [a]]"
| "words_of [a, b] = [word_of_bytes [a, b]]"
| "words_of [a, b, c] = [word_of_bytes [a, b, c]]"
| "words_of (a # b # c # d # bs) = word_of_bytes [a, b, c, d] # words_of bs"

text \<open>\<open>dest[n-1] = 0\<close>, and then bytes written from \<open>dest\<close> on, where \<open>dest\<close> has \<open>n\<close> words.\<close>

definition fill_bytes :: "u8 list \<Rightarrow> u32 list \<Rightarrow> u32 list option" where
  "fill_bytes bs dest =
    (if dest = [] then None
     else do { out \<leftarrow> wr_range (mem_bytes (dest[length dest - 1 := 0])) 0 bs; Some (words_of out) })"

definition Serialize_str :: "u8 list \<Rightarrow> Buffer \<Rightarrow> Unit \<Rightarrow> (bool \<times> Buffer \<times> Unit) option" where
  "Serialize_str str buf u =
    (if length str \<ge> 2 ^ 30 then Some (False, buf, u)
     else
       let mark = push_bit 2 (of_nat (length str)) :: u32;
           header = WriteVarInt mark;
           sz = WordSize (length header + length str);
           lst = Size buf
       in
         if sz = 1 then do {
           dest \<leftarrow> rd_range (u_data u) 0 1;
           ws \<leftarrow> fill_bytes (header @ str) dest;
           u \<leftarrow> set_data ws u;
           Some (True, buf, u)
         }
         else do {
           let buf = Expand sz buf;
           dest \<leftarrow> rd_range (cells buf) (Head buf) sz;
           ws \<leftarrow> fill_bytes (header @ str) dest;
           buf \<leftarrow> store (Head buf) ws buf;
           Some (True, buf, Segment lst (Size buf))
         })"

subsection \<open>Arrays\<close>

fun array_sizes :: "Unit list \<Rightarrow> nat \<times> nat \<times> nat \<Rightarrow> nat \<times> nat \<times> nat" where
  "array_sizes [] sizes = sizes"
| "array_sizes (one # us) (s0, s1, s2) =
    (let s0 = s0 + 1; s1 = s1 + 2; s2 = s2 + 3;
         len = (if u_len one = 0 then unat (seg_len one) else u_len one)
     in if len \<le> 1 then array_sizes us (s0, s1, s2)
        else if len \<le> 2 then array_sizes us (s0 + len, s1, s2)
        else if len \<le> 3 then array_sizes us (s0 + len, s1 + len, s2)
        else array_sizes us (s0 + len, s1 + len, s2 + len))"

text \<open>The size of the body, and the width \<open>m\<close> of a cell.\<close>

definition BestArraySize :: "Unit list \<Rightarrow> nat \<times> nat" where
  "BestArraySize us =
    (let (s0, s1, s2) = array_sizes us (0, 0, 0);
         sizes = [s0, s1, s2];
         mode = (if s1 < s0 then 1 else 0);
         mode = (if s2 < sizes ! mode then 2 else mode)
     in (sizes ! mode, mode + 1))"

text \<open>\<open>buf.At\<close> as a checked pointer.\<close>

definition buf_at :: "Buffer \<Rightarrow> nat \<Rightarrow> nat option" where
  "buf_at b pos = (if pos \<le> b_size b then Some (At b pos) else None)"

text \<open>The loop \<open>while (tail != head) *--tail = *--src\<close>, for \<open>n = tail - head\<close>.\<close>

fun move_loop :: "nat \<Rightarrow> nat \<Rightarrow> nat \<Rightarrow> Buffer \<Rightarrow> (nat \<times> nat \<times> Buffer) option" where
  "move_loop 0 tail src buf = Some (tail, src, buf)"
| "move_loop (Suc n) tail src buf =
    (if tail = 0 \<or> src = 0 then None
     else do {
       w \<leftarrow> rd (cells buf) (src - 1);
       buf \<leftarrow> store (tail - 1) [w] buf;
       move_loop n (tail - 1) (src - 1) buf
     })"

text \<open>The same with the loop over blocks of four words in front, as compiled for SSE3.\<close>

fun move_sse :: "nat \<Rightarrow> nat \<Rightarrow> nat \<Rightarrow> Buffer \<Rightarrow> (nat \<times> nat \<times> Buffer) option" where
  "move_sse n tail src buf =
    (if n \<ge> 4 then
       if tail < 4 \<or> src < 4 then None
       else do {
         v \<leftarrow> rd_range (cells buf) (src - 4) 4;
         buf \<leftarrow> store (tail - 4) v buf;
         move_sse (n - 4) (tail - 4) (src - 4) buf
       }
     else move_loop n tail src buf)"

declare move_sse.simps [simp del]

definition Pick :: "Unit \<Rightarrow> Buffer \<Rightarrow> nat \<Rightarrow> nat \<Rightarrow> (Unit \<times> Buffer \<times> nat) option" where
  "Pick u buf tail m =
    (if u_len u \<noteq> 0 then Some (u, buf, tail)
     else if unat (seg_len u) \<le> m then do {
       src \<leftarrow> buf_at buf (unat (seg_pos u));
       ws \<leftarrow> rd_range (cells buf) src (unat (seg_len u));
       u \<leftarrow> set_data ws u;
       Some (u, buf, tail)
     }
     else do {
       src \<leftarrow> buf_at buf (unat (seg_end u));
       if tail > src then do {
         (tail, src, buf) \<leftarrow> move_loop (unat (seg_len u)) tail src buf;
         Some (u\<lparr>u_data := (u_data u)[0 := seg_pos u - of_nat (tail - src)]\<rparr>, buf, tail)
       }
       else if unat (seg_len u) \<le> tail then Some (u, buf, tail - unat (seg_len u)) else None
     })"

definition Mark :: "Unit \<Rightarrow> Buffer \<Rightarrow> nat \<Rightarrow> Buffer option" where
  "Mark u buf m = do {
     let buf = Expand m buf;
     if u_len u = 0 then do {
       buf \<leftarrow> store (Head buf) [Offset (of_nat (Size buf) - seg_pos u)] buf;
       store (Head buf + 1) (replicate (m - 1) 0) buf
     }
     else do {
       ws \<leftarrow> rd_range (u_data u) 0 (u_len u);
       buf \<leftarrow> store (Head buf) ws buf;
       store (Head buf + u_len u) (replicate (m - u_len u) 0) buf
     }
   }"

text \<open>The loops over the elements from the last to the first: over the reversed list.\<close>

fun pick_loop :: "nat \<Rightarrow> Unit list \<Rightarrow> Buffer \<Rightarrow> nat \<Rightarrow> (Unit list \<times> Buffer \<times> nat) option" where
  "pick_loop m [] buf tail = Some ([], buf, tail)"
| "pick_loop m (u # us) buf tail = do {
     (u, buf, tail) \<leftarrow> Pick u buf tail m;
     (us, buf, tail) \<leftarrow> pick_loop m us buf tail;
     Some (u # us, buf, tail)
   }"

fun mark_loop :: "nat \<Rightarrow> Unit list \<Rightarrow> Buffer \<Rightarrow> Buffer option" where
  "mark_loop m [] buf = Some buf"
| "mark_loop m (u # us) buf = do { buf \<leftarrow> Mark u buf m; mark_loop m us buf }"

definition SerializeArray :: "Unit list \<Rightarrow> Buffer \<Rightarrow> nat \<Rightarrow> Unit \<Rightarrow> (bool \<times> Buffer \<times> Unit) option" where
  "SerializeArray elements buf lst u =
    (if elements = [] then do { u \<leftarrow> set_data [1] u; Some (True, buf, u) }
     else
       let (size, m) = BestArraySize elements in
       if size \<ge> 2 ^ 30 then Some (False, buf, u)
       else do {
         tail \<leftarrow> buf_at buf lst;
         (us, buf, tail) \<leftarrow> pick_loop m (rev elements) buf tail;
         if tail < Head buf then None
         else do {
           let buf = Shrink (tail - Head buf) buf;
           buf \<leftarrow> mark_loop m us buf;
           buf \<leftarrow> Put (push_bit 2 (of_nat (length elements)) OR of_nat m) buf;
           Some (True, buf, Segment lst (Size buf))
         }
       })"

subsection \<open>Maps\<close>

fun pick_pairs :: "nat \<Rightarrow> nat \<Rightarrow> (Unit \<times> Unit) list \<Rightarrow> Buffer \<Rightarrow> nat \<Rightarrow> ((Unit \<times> Unit) list \<times> Buffer \<times> nat) option" where
  "pick_pairs m1 m2 [] buf tail = Some ([], buf, tail)"
| "pick_pairs m1 m2 ((k, v) # ps) buf tail = do {
     (v, buf, tail) \<leftarrow> Pick v buf tail m2;
     (k, buf, tail) \<leftarrow> Pick k buf tail m1;
     (ps, buf, tail) \<leftarrow> pick_pairs m1 m2 ps buf tail;
     Some ((k, v) # ps, buf, tail)
   }"

fun mark_pairs :: "nat \<Rightarrow> nat \<Rightarrow> (Unit \<times> Unit) list \<Rightarrow> Buffer \<Rightarrow> Buffer option" where
  "mark_pairs m1 m2 [] buf = Some buf"
| "mark_pairs m1 m2 ((k, v) # ps) buf = do {
     buf \<leftarrow> Mark v buf m2;
     buf \<leftarrow> Mark k buf m1;
     mark_pairs m1 m2 ps buf
   }"

definition SerializeMap :: "u8 list \<Rightarrow> (Unit \<times> Unit) list \<Rightarrow> Buffer \<Rightarrow> nat \<Rightarrow> Unit \<Rightarrow> (bool \<times> Buffer \<times> Unit) option" where
  "SerializeMap index pairs buf lst u =
    (if pairs = [] then do { u \<leftarrow> set_data [push_bit 28 5] u; Some (True, buf, u) }
     else
       let (key_size, m1) = BestArraySize (map fst pairs);
           (value_size, m2) = BestArraySize (map snd pairs);
           index_size = WordSize (length index)
       in
         if index_size + key_size + value_size \<ge> 2 ^ 30 then Some (False, buf, u)
         else do {
           tail \<leftarrow> buf_at buf lst;
           (ps, buf, tail) \<leftarrow> pick_pairs m1 m2 (rev pairs) buf tail;
           if tail < Head buf then None
           else do {
             let buf = Shrink (tail - Head buf) buf;
             buf \<leftarrow> mark_pairs m1 m2 ps buf;
             let buf = Expand index_size buf;
             dest \<leftarrow> rd_range (cells buf) (Head buf) index_size;
             ws \<leftarrow> fill_bytes index dest;
             w \<leftarrow> rd ws 0;
             buf \<leftarrow> store (Head buf) (ws[0 := w OR push_bit 30 (of_nat m1) OR push_bit 28 (of_nat m2)]) buf;
             Some (True, buf, Segment lst (Size buf))
           }
         })"

subsection \<open>Messages\<close>

text \<open>The trailing fields of size 0 are dropped.\<close>

definition trim_fields :: "Unit list \<Rightarrow> Unit list" where
  "trim_fields flds = rev (dropWhile (\<lambda>u. unit_size u = 0) (rev flds))"

fun field_sizes :: "Unit list \<Rightarrow> nat \<times> nat" where
  "field_sizes [] = (0, 0)"
| "field_sizes (u # us) =
    (let (sz, body_size) = field_sizes us in
     if u_len u \<noteq> 0 then (sz + u_len u, body_size + u_len u)
     else if seg_len u \<noteq> 0 then (sz + unat (seg_len u), body_size + 1)
     else (sz, body_size))"

text \<open>
  One field: its words, or the offset of its segment, at \<open>body\<close>; \<open>pos\<close> is the distance of \<open>body\<close> from
  the end. The result has the width of the field.
\<close>

definition put_field :: "Unit \<Rightarrow> Buffer \<Rightarrow> nat \<Rightarrow> nat \<Rightarrow> (nat \<times> Buffer \<times> nat \<times> nat) option" where
  "put_field u buf body pos =
    (if u_len u \<noteq> 0 then do {
       ws \<leftarrow> rd_range (u_data u) 0 (u_len u);
       buf \<leftarrow> store body ws buf;
       Some (u_len u, buf, body + u_len u, pos - u_len u)
     }
     else if seg_len u \<noteq> 0 then do {
       buf \<leftarrow> store body [Offset (of_nat pos - seg_pos u)] buf;
       Some (1, buf, body + 1, pos - 1)
     }
     else Some (0, buf, body, pos))"

text \<open>The fields of the head word, and those of one 64-bit mark; both from field \<open>i\<close> of the word on.\<close>

fun head_loop :: "Unit list \<Rightarrow> nat \<Rightarrow> nat \<Rightarrow> Buffer \<Rightarrow> nat \<Rightarrow> nat \<Rightarrow> u32 \<Rightarrow> (Buffer \<times> nat \<times> nat \<times> u32) option" where
  "head_loop [] i head buf body pos cnt = Some (buf, body, pos, cnt)"
| "head_loop (u # us) i head buf body pos cnt = do {
     (w, buf, body, pos) \<leftarrow> put_field u buf body pos;
     h \<leftarrow> rd (cells buf) head;
     buf \<leftarrow> store head [h OR push_bit (8 + i * 2) (of_nat w)] buf;
     head_loop us (i + 1) head buf body pos (cnt + of_nat w)
   }"

fun mark_fields :: "Unit list \<Rightarrow> nat \<Rightarrow> u64 \<Rightarrow> Buffer \<Rightarrow> nat \<Rightarrow> nat \<Rightarrow> u32 \<Rightarrow> (u64 \<times> Buffer \<times> nat \<times> nat \<times> u32) option" where
  "mark_fields [] j mark buf body pos cnt = Some (mark, buf, body, pos, cnt)"
| "mark_fields (u # us) j mark buf body pos cnt = do {
     (w, buf, body, pos) \<leftarrow> put_field u buf body pos;
     mark_fields us (j + 2) (mark OR push_bit j (of_nat w)) buf body pos (cnt + of_nat w)
   }"

text \<open>The loop over the sections, with the pointer \<open>blk\<close>. The flag is False where the source returns false.\<close>

function blk_loop :: "Unit list \<Rightarrow> nat \<Rightarrow> Buffer \<Rightarrow> nat \<Rightarrow> nat \<Rightarrow> u32 \<Rightarrow> (bool \<times> Buffer) option" where
  "blk_loop us blk buf body pos cnt =
    (if us = [] then Some (True, buf)
     else if cnt \<ge> 2 ^ 14 then Some (False, buf)
     else do {
       (mark, buf, body, pos, cnt) \<leftarrow> mark_fields (take 25 us) 0 (push_bit 50 (ucast cnt)) buf body pos cnt;
       buf \<leftarrow> store blk [ucast mark, ucast (drop_bit 32 mark)] buf;
       blk_loop (drop 25 us) (blk + 2) buf body pos cnt
     })"
  by pat_completeness auto
termination by (relation "measure (\<lambda>(us, _). length us)") auto

declare blk_loop.simps [simp del]

definition SerializeMessage :: "Unit list \<Rightarrow> Buffer \<Rightarrow> nat \<Rightarrow> Unit \<Rightarrow> (bool \<times> Buffer \<times> Unit) option" where
  "SerializeMessage flds buf lst u =
    (if flds = [] then Some (False, buf, u)
     else
       let flds = trim_fields flds in
       if flds = [] then do {
         buf \<leftarrow> Put 0 buf;
         Some (True, buf, Segment lst (Size buf))
       }
       else
         let (size, body_size) = field_sizes flds;
             sections = (length flds + 12) div 25
         in
           if size \<ge> 2 ^ 30 then Some (False, buf, u)
           else if sections > 0xff then Some (False, buf, u)
           else do {
             let head_size = 1 + sections * 2;
             let buf = Expand (head_size + body_size) buf;
             let head = Head buf;
             buf \<leftarrow> store head [of_nat sections] buf;
             (buf, body, pos, cnt) \<leftarrow> head_loop (take 12 flds) 0 head buf (head + head_size) (Size buf - head_size) 0;
             (ok, buf) \<leftarrow> blk_loop (drop 12 flds) (head + 1) buf body pos cnt;
             if ok then Some (True, buf, Segment lst (Size buf)) else Some (False, buf, u)
           })"

end
