(* ===== verification/AccessSafe.thy ===== *)
theory AccessSafe
  imports Access
begin

text \<open>
  The views of access.h on untrusted words: with \<open>end\<close> given as the end of the block, every view made
  from a pointer inside the block, and everything read through it, stays inside the block.
\<close>

subsection \<open>Bytes of the block\<close>

lemma length_mem_bytes [simp]: "length (mem_bytes mem) = 4 * length mem"
  unfolding mem_bytes_def by (induction mem) auto

lemma end_simps [simp]: "past p (Some e) \<longleftrightarrow> p > e" "at_end p (Some e) \<longleftrightarrow> p \<ge> e" "\<not> past p None" "\<not> at_end p None"
  by (simp_all add: past_def at_end_def)

lemma ptr_add_simps [simp]: "ptr_add (Some b) n = Some (Some (b + n))" "ptr_add q 0 = Some q"
  by (simp_all add: ptr_add_def split: option.splits)

lemma length_3: "length [a, b, c] = 3"
  by simp

text \<open>A null pointer, or \<open>n\<close> words (or bytes) of a block of length \<open>k\<close>.\<close>

definition inside :: "nat \<Rightarrow> ptr \<Rightarrow> nat \<Rightarrow> bool" where
  "inside k p n = (case p of None \<Rightarrow> True | Some q \<Rightarrow> q + n \<le> k)"

lemma inside_simps [simp]: "inside k None n" "inside k (Some q) n \<longleftrightarrow> q + n \<le> k"
  by (simp_all add: inside_def)

subsection \<open>Strings\<close>

lemma string_loop_inside:
  assumes "e = Some (length bs)"
  shows "\<exists>s. string_loop bs e sft mark p = Some s \<and> inside (length bs) (s_ptr s) (s_len s) \<and>
    (\<forall>q. s_ptr s = Some q \<longrightarrow> p \<le> q)"
  using assms
proof (induction bs e sft mark p rule: string_loop.induct)
  case (1 bs e sft mark p)
  show ?case
  proof (cases "sft < 32 \<and> p < length bs")
    case False
    then show ?thesis using 1(2) by (auto simp: string_loop.simps [of bs "Some (length bs)" sft] null_slice_def)
  next
    case True
    show ?thesis
    proof (cases "bs ! p AND 0x80 = 0")
      case zero: True
      then show ?thesis
        using 1(2) True by (auto simp: string_loop.simps [of bs "Some (length bs)" sft] null_slice_def slice_def Let_def)
    next
      case False
      then show ?thesis using 1 True by (fastforce simp: string_loop.simps [of bs "Some (length bs)" sft])
    qed
  qed
qed

lemma String_init_inside:
  "\<exists>s. String_init mem ptr (Some (length mem)) = Some s \<and> inside (4 * length mem) (s_ptr s) (s_len s) \<and>
    (\<forall>q. s_ptr s = Some q \<longrightarrow> (\<exists>p. ptr = Some p \<and> 4 * p \<le> q))"
proof (cases ptr)
  case None
  then show ?thesis by (simp add: String_init_def null_slice_def)
next
  case (Some p)
  let ?bs = "mem_bytes mem"
  show ?thesis
  proof (cases "p < length mem")
    case False
    then show ?thesis by (simp add: Some String_init_def null_slice_def)
  next
    case True
    have "\<exists>s. string_loop ?bs (Some (4 * length mem)) 7 m (4 * p + 1) = Some s \<and>
        inside (4 * length mem) (s_ptr s) (s_len s) \<and> (\<forall>q. s_ptr s = Some q \<longrightarrow> 4 * p + 1 \<le> q)" for m
      using string_loop_inside [of "Some (4 * length mem)" ?bs 7 m "4 * p + 1"] by simp
    then obtain S where S: "\<And>m. string_loop ?bs (Some (4 * length mem)) 7 m (4 * p + 1) = Some (S m)"
        "\<And>m. inside (4 * length mem) (s_ptr (S m)) (s_len (S m))" "\<And>m q. s_ptr (S m) = Some q \<Longrightarrow> 4 * p + 1 \<le> q"
      by metis
    have q: "4 * p \<le> q" if "s_ptr (S m) = Some q" for m q using S(3) [OF that] by simp
    show ?thesis
      using True S(2) by (auto simp: Some String_init_def Let_def S(1) [simplified] null_slice_def slice_def q)
  qed
qed

lemma String_Detect_inside:
  "\<exists>s. String_Detect mem ptr (Some (length mem)) = Some s \<and> inside (length mem) (s_ptr s) (s_len s)"
proof -
  obtain s where s: "String_init mem ptr (Some (length mem)) = Some s" "inside (4 * length mem) (s_ptr s) (s_len s)"
      "\<forall>q. s_ptr s = Some q \<longrightarrow> (\<exists>p. ptr = Some p \<and> 4 * p \<le> q)"
    using String_init_inside by blast
  then show ?thesis
    by (cases "s_ptr s") (auto simp: String_Detect_def null_slice_def slice_def Let_def)
qed

lemma slice_bytes_total: "inside (4 * length mem) (s_ptr s) (s_len s) \<Longrightarrow> \<exists>bs. slice_bytes mem s = Some bs"
  by (cases "s_ptr s") (auto simp: slice_bytes_def)

subsection \<open>Fields and messages\<close>

definition field_in :: "mem \<Rightarrow> Field \<Rightarrow> bool" where
  "field_in mem f = inside (length mem) (f_ptr f) (f_width f)"

lemma GetValue_inside:
  "inside (length mem) (s_ptr (GetValue f (Some (length mem)))) (s_len (GetValue f (Some (length mem))))"
  by (cases "f_ptr f") (auto simp: GetValue_def null_slice_def slice_def)

lemma GetObject_inside: "\<exists>q. GetObject mem f (Some (length mem)) = Some q \<and> inside (length mem) q 1"
  by (cases "f_ptr f") (auto simp: GetObject_def Let_def)

text \<open>The pointer of a message: null, or with all of its sections in the block.\<close>

definition message_in :: "mem \<Rightarrow> ptr \<Rightarrow> bool" where
  "message_in mem m = (case m of None \<Rightarrow> True | Some p \<Rightarrow> p < length mem \<and> p + 1 + 2 * unat (mem ! p AND 0xff) \<le> length mem)"

lemma Message_init_inside:
  "inside (length mem) ptr 1 \<Longrightarrow> \<exists>m. Message_init mem ptr (Some (length mem)) = Some m \<and> message_in mem m"
  by (cases ptr) (auto simp: Message_init_def message_in_def Let_def)

lemma rd64_total: "i + 2 \<le> length mem \<Longrightarrow> \<exists>v. rd64 mem i = Some v"
  by (simp add: rd64_def)

lemma section_total:
  assumes "message_in mem (Some p)" and "a < unat (mem ! p AND 0xff)"
  shows "\<exists>v. rd64 mem (p + 1 + 2 * a) = Some v"
  using assms by (intro rd64_total) (simp add: message_in_def)

lemma HasField_total: "message_in mem m \<Longrightarrow> \<exists>b. HasField mem m fid = Some b"
  using section_total [of mem _ "(fid - 12) div 25"]
  by (cases m) (fastforce simp: HasField_def msg_word_def message_in_def Let_def)+

lemma GetField_inside:
  assumes "message_in mem m"
  shows "\<exists>f. GetField mem m fid (Some (length mem)) = Some f \<and> field_in mem f"
proof (cases m)
  case None
  then show ?thesis by (simp add: GetField_def msg_word_def null_field_def field_in_def Let_def)
next
  case (Some p)
  have p: "p < length mem" using assms by (simp add: Some message_in_def)
  show ?thesis
  proof (cases "fid < 12 \<or> unat (mem ! p AND 0xff) \<le> (fid - 12) div 25")
    case True
    then show ?thesis using p by (auto simp: GetField_def Some msg_word_def null_field_def field_in_def Let_def)
  next
    case False
    then obtain v where "rd64 mem (p + 1 + 2 * ((fid - 12) div 25)) = Some v"
      using section_total assms Some by (meson not_le)
    then show ?thesis using p False by (auto simp: GetField_def Some msg_word_def null_field_def field_in_def Let_def)
  qed
qed

subsection \<open>Arrays\<close>

lemma unat_and_3: "unat (w AND 3 :: 'a::len word) = unat w mod 4"
proof -
  have "(3 :: 'a word) = mask 2" by (simp add: mask_eq_exp_minus_1)
  then have "unat (w AND 3) = take_bit 2 (unat w)" by (simp only: unsigned_take_bit_eq flip: take_bit_eq_mask)
  then show ?thesis by (simp add: take_bit_eq_mod)
qed

text \<open>The 32-bit products of the views do not wrap.\<close>

lemma unat_mult_small: "unat (a :: u32) * unat b < 2 ^ 32 \<Longrightarrow> unat (a * b) = unat a * unat b"
  by (simp add: unat_word_ariths)

text \<open>An array whose body, when it has one, is in the block.\<close>

definition array_in :: "mem \<Rightarrow> Array \<Rightarrow> bool" where
  "array_in mem a \<longleftrightarrow> unat (a_width a) \<le> 3 \<and> unat (a_size a) < 2 ^ 30 \<and>
    inside (length mem) (a_body a) (unat (a_width a) * unat (a_size a))"

lemma array_product:
  assumes "unat (w :: u32) \<le> 3" and "unat (n :: u32) \<le> 2 ^ 30"
  shows "unat (w * n) = unat w * unat n"
  using mult_le_mono [OF assms] by (intro unat_mult_small) simp

lemma Array_init_inside:
  assumes "inside (length mem) ptr 1"
  shows "\<exists>a. Array_init mem ptr (Some (length mem)) = Some a \<and> array_in mem a"
proof (cases ptr)
  case None
  then show ?thesis by (simp add: Array_init_def array_in_def null_array_def)
next
  case (Some p)
  let ?w = "mem ! p AND 3" and ?n = "drop_bit 2 (mem ! p)"
  have p: "p < length mem" using assms Some by simp
  have w: "unat ?w \<le> 3" and n: "unat ?n < 2 ^ 30"
    using unat_u32 [of "mem ! p"] by (simp_all add: unat_and_3 unat_drop_bit less_mult_imp_div_less)
  then have "unat (?w * ?n) = unat ?w * unat ?n" by (intro array_product) simp_all
  then show ?thesis using p w n by (simp add: Some Array_init_def array_in_def Let_def)
qed

lemma Array_at_inside:
  assumes "array_in mem a" and "a_body a \<noteq> None" and "i < a_size a"
  shows "\<exists>f. Array_at a i = Some f \<and> field_in mem f \<and> f_ptr f \<noteq> None \<and> f_width f = unat (a_width a)"
proof -
  obtain b where b: "a_body a = Some b" using assms(2) by blast
  have i: "unat i + 1 \<le> unat (a_size a)" using assms(3) by (simp add: word_less_nat_alt)
  have "unat (a_width a * i) = unat (a_width a) * unat i"
    using assms(1) i by (intro array_product) (simp_all add: array_in_def)
  moreover have "unat (a_width a) * (unat i + 1) \<le> unat (a_width a) * unat (a_size a)" using i by (rule mult_le_mono2)
  ultimately show ?thesis using assms(1) b by (simp add: Array_at_def array_in_def field_in_def algebra_simps)
qed

lemma Array_Numbers_inside:
  assumes "array_in mem a"
  shows "inside (4 * length mem) (map_option ((*) 4) (s_ptr (Array_Numbers sz a))) (sz * s_len (Array_Numbers sz a))"
proof (cases "a_body a")
  case (Some b)
  show ?thesis
  proof (cases "unat (a_width a) = WordSize sz")
    case True
    have "sz \<le> 4 * unat (a_width a)" unfolding True WordSize_def by simp
    then have "sz * unat (a_size a) \<le> 4 * unat (a_width a) * unat (a_size a)" by (rule mult_le_mono1)
    moreover have "b + unat (a_width a) * unat (a_size a) \<le> length mem" using assms Some by (simp add: array_in_def)
    ultimately have "4 * b + sz * unat (a_size a) \<le> 4 * length mem" by linarith
    then show ?thesis using True Some by (simp add: Array_Numbers_def)
  qed (simp add: Array_Numbers_def null_slice_def)
qed (simp add: Array_Numbers_def null_slice_def)

subsection \<open>Maps\<close>

text \<open>A map whose lookups return and whose body, when it has one, is in the block.\<close>

definition map_in :: "mem \<Rightarrow> Map \<Rightarrow> bool" where
  "map_in mem m \<longleftrightarrow> unat (m_kw m) \<le> 3 \<and> unat (m_vw m) \<le> 3 \<and> (\<forall>key. \<exists>v. PerfectHash_Locate (m_index m) key = Some v) \<and>
    (\<exists>n. Map_Size m = Some n \<and> unat n < 2 ^ 28 \<and>
      inside (length mem) (m_body m) ((unat (m_kw m) + unat (m_vw m)) * unat n))"

lemma map_product:
  assumes "unat (kw :: u32) \<le> 3" and "unat (vw :: u32) \<le> 3" and "unat (n :: u32) < 2 ^ 28"
  shows "unat ((kw + vw) * n) = (unat kw + unat vw) * unat n"
proof -
  have s: "unat (kw + vw) = unat kw + unat vw" using assms by (simp add: unat_word_ariths)
  have "unat (kw + vw) * unat n \<le> 6 * 2 ^ 28" using assms s by (intro mult_le_mono) simp_all
  then show ?thesis using unat_mult_small [of "kw + vw" n] s by simp
qed

lemma drop_mem_bytes_load:
  assumes "p < length mem"
  shows "\<exists>w. load32 (drop (4 * p) (mem_bytes mem)) 0 = Some w"
  using assms by (intro load32_Some) simp

lemma index_limit_inside:
  assumes "p < length mem" and "length mem < 2 ^ 30"
  shows "unat (index_limit p (Some (length mem))) = length (drop (4 * p) (mem_bytes mem))"
    and "index_limit p (Some (length mem)) \<noteq> 0"
proof -
  have "index_limit p (Some (length mem)) = of_nat (4 * (length mem - p))"
    using assms by (simp add: index_limit_def of_nat_diff)
  then have "unat (index_limit p (Some (length mem))) = 4 * (length mem - p) mod 2 ^ 32" by (simp only: unat_of_nat) simp
  then show "unat (index_limit p (Some (length mem))) = length (drop (4 * p) (mem_bytes mem))"
    using assms by simp
  then show "index_limit p (Some (length mem)) \<noteq> 0" using assms by auto
qed

lemma PerfectHash_init_Size:
  assumes "PerfectHash_init data sz = Some ph"
  shows "\<exists>n. PerfectHash_Size ph = Some n \<and> unat n < 2 ^ 28"
  using assms
  by (cases "load32 data 0")
    (auto simp: PerfectHash_init_eq PerfectHash_Size_def ph_null_def RealSize_nat split: if_splits)

lemma Map_init_inside:
  assumes "inside (length mem) ptr 1" and "length mem < 2 ^ 30"
  shows "\<exists>m. Map_init mem ptr (Some (length mem)) = Some m \<and> map_in mem m"
proof (cases ptr)
  case None
  then show ?thesis
    by (simp add: Map_init_def map_in_def null_map_def ph_null_def Map_Size_def PerfectHash_Size_def PerfectHash_Locate_def)
next
  case (Some p)
  let ?kw = "drop_bit 30 (mem ! p) AND 3" and ?vw = "drop_bit 28 (mem ! p) AND 3"
    and ?data = "drop (4 * p) (mem_bytes mem)" and ?sz = "index_limit p (Some (length mem))"
  have p: "p < length mem" using assms Some by simp
  have w: "unat ?kw \<le> 3" "unat ?vw \<le> 3" by (simp_all add: unat_and_3)
  note lim = index_limit_inside [OF p assms(2)]
  show ?thesis
  proof (cases "?kw = 0 \<or> ?vw = 0")
    case True
    then show ?thesis
      using p w by (auto simp: Some Map_init_def map_in_def ph_null_def Map_Size_def PerfectHash_Size_def PerfectHash_Locate_def Let_def)
  next
    case False
    have "\<exists>ph. PerfectHash_init ?data ?sz = Some ph"
      using drop_mem_bytes_load [OF p] by (auto simp: PerfectHash_init_eq)
    then obtain ph where ph: "PerfectHash_init ?data ?sz = Some ph" ..
    obtain n where n: "PerfectHash_Size ph = Some n" "unat n < 2 ^ 28" using PerfectHash_init_Size [OF ph] by blast
    have "\<forall>key. \<exists>v. PerfectHash_Locate ph key = Some v" using Locate_total [OF ph lim(2)] lim(1) by simp
    then show ?thesis
      using False p w n map_product [OF w n(2)]
      by (auto simp: Some Map_init_def map_in_def Map_Size_def ph Let_def)
  qed
qed

text \<open>The entry of a position below the size is a pair inside of the block.\<close>

lemma map_entry_inside:
  assumes "map_in mem m" and "m_body m = Some b" and "Map_Size m = Some n" and "pos < n"
  shows "\<exists>q. map_entry m pos = Some (Some q) \<and> b \<le> q \<and> q + (unat (m_kw m) + unat (m_vw m)) \<le> length mem"
proof -
  let ?w = "unat (m_kw m) + unat (m_vw m)"
  have pos: "unat pos + 1 \<le> unat n" using assms(4) by (simp add: word_less_nat_alt)
  have n: "unat n < 2 ^ 28" "b + ?w * unat n \<le> length mem" using assms(1-3) by (auto simp: map_in_def)
  have "unat ((m_kw m + m_vw m) * pos) = ?w * unat pos"
    using assms(1) pos n by (intro map_product) (auto simp: map_in_def)
  moreover have "?w * (unat pos + 1) \<le> ?w * unat n" using pos by (rule mult_le_mono2)
  ultimately show ?thesis using n(2) by (simp add: map_entry_def assms(2) algebra_simps)
qed

text \<open>What both searches return: the end of the map, or a pair inside of the block.\<close>

definition found_in :: "mem \<Rightarrow> Map \<Rightarrow> ptr option \<Rightarrow> bool" where
  "found_in mem m r \<longleftrightarrow> r \<noteq> None \<and> (r = Map_end m \<or> (\<exists>q. r = Some (Some q) \<and> inside (length mem) (Some q) (unat (m_kw m) + unat (m_vw m))))"

lemma Map_end_inside:
  assumes "map_in mem m" and "m_body m \<noteq> None"
  shows "\<exists>e. Map_end m = Some e \<and> inside (length mem) e 0"
proof -
  obtain n where n: "Map_Size m = Some n" "unat n < 2 ^ 28" "inside (length mem) (m_body m) ((unat (m_kw m) + unat (m_vw m)) * unat n)"
    using assms(1) by (auto simp: map_in_def)
  have "unat ((m_kw m + m_vw m) * n) = (unat (m_kw m) + unat (m_vw m)) * unat n"
    using assms(1) n by (intro map_product) (auto simp: map_in_def)
  then show ?thesis using n assms(2) by (auto simp: Map_end_def)
qed

lemma map_inE:
  assumes "map_in mem m" and "m_body m \<noteq> None"
  obtains pos n b e where "PerfectHash_Locate (m_index m) key = Some pos" "Map_Size m = Some n" "m_body m = Some b" "Map_end m = Some e"
proof -
  have "\<exists>pos. PerfectHash_Locate (m_index m) key = Some pos" "\<exists>n. Map_Size m = Some n" using assms(1) by (auto simp: map_in_def)
  then show thesis using that assms(2) Map_end_inside [OF assms] by blast
qed

lemma Map_Find_inside:
  assumes "map_in mem m" and "m_body m \<noteq> None"
  shows "found_in mem m (Map_Find mem m key (Some (length mem)))"
proof -
  obtain pos n b e where pos: "PerfectHash_Locate (m_index m) key = Some pos" and n: "Map_Size m = Some n"
    and b: "m_body m = Some b" and e: "Map_end m = Some e" by (rule map_inE [OF assms])
  show ?thesis
  proof (cases "pos < n")
    case False
    then show ?thesis by (simp add: Map_Find_def pos n found_in_def e not_less)
  next
    case True
    then obtain q where q: "map_entry m pos = Some (Some q)" "q + (unat (m_kw m) + unat (m_vw m)) \<le> length mem"
      using map_entry_inside [OF assms(1) b n] by blast
    obtain obj where obj: "GetObject mem (Pair_Key (Map_deref m (Some q))) (Some (length mem)) = Some obj"
      using GetObject_inside by blast
    obtain s where s: "String_init mem obj (Some (length mem)) = Some s" "inside (4 * length mem) (s_ptr s) (s_len s)"
      using String_init_inside by blast
    obtain bs where "slice_bytes mem s = Some bs" using slice_bytes_total [OF s(2)] by blast
    then show ?thesis using True q by (simp add: Map_Find_def pos n found_in_def e obj s(1))
  qed
qed

lemma Map_Find_scalar_inside:
  assumes "map_in mem m" and "m_body m \<noteq> None"
  shows "found_in mem m (Map_Find_scalar mem m val (Some (length mem)))"
proof -
  obtain pos n b e where pos: "PerfectHash_Locate (m_index m) val = Some pos" and n: "Map_Size m = Some n"
    and b: "m_body m = Some b" and e: "Map_end m = Some e" by (rule map_inE [OF assms])
  show ?thesis
  proof (cases "pos < n")
    case False
    then show ?thesis by (simp add: Map_Find_scalar_def pos n found_in_def e not_less)
  next
    case True
    then obtain q where q: "map_entry m pos = Some (Some q)" "q + (unat (m_kw m) + unat (m_vw m)) \<le> length mem"
      using map_entry_inside [OF assms(1) b n] by blast
    have v: "GetValue (Pair_Key (Map_deref m (Some q))) (Some (length mem)) = slice q (unat (m_kw m))"
      using q(2) by (simp add: GetValue_def Pair_Key_def Map_deref_def)
    have "4 * q + length val \<le> 4 * length mem" if "unat (m_kw m) = (length val + 3) div 4"
      using q(2) that by linarith
    then show ?thesis using True q by (auto simp: Map_Find_scalar_def pos n found_in_def e v slice_def)
  qed
qed

subsection \<open>Properties\<close>

text \<open>
  Claim C28: a message made from any pointer into untrusted words has all of its field accesses inside
  of the words: \<open>HasField\<close> and \<open>GetField\<close> return for every field number, the field and its value lie
  inside, and \<open>GetObject\<close> returns null or a pointer inside.
\<close>

theorem message_view_safe:
  assumes "p < length mem"
  shows "\<exists>m. Message_init mem (Some p) (Some (length mem)) = Some m \<and>
    (\<forall>fid. (\<exists>b. HasField mem m fid = Some b) \<and>
      (\<exists>f. GetField mem m fid (Some (length mem)) = Some f \<and> inside (length mem) (f_ptr f) (f_width f) \<and>
        inside (length mem) (s_ptr (GetValue f (Some (length mem)))) (s_len (GetValue f (Some (length mem)))) \<and>
        (\<exists>q. GetObject mem f (Some (length mem)) = Some q \<and> inside (length mem) q 1)))"
proof -
  obtain m where m: "Message_init mem (Some p) (Some (length mem)) = Some m" "message_in mem m"
    using Message_init_inside [of mem "Some p"] assms by auto
  have "\<exists>f. GetField mem m fid (Some (length mem)) = Some f \<and> inside (length mem) (f_ptr f) (f_width f) \<and>
      inside (length mem) (s_ptr (GetValue f (Some (length mem)))) (s_len (GetValue f (Some (length mem)))) \<and>
      (\<exists>q. GetObject mem f (Some (length mem)) = Some q \<and> inside (length mem) q 1)" for fid
    using GetField_inside [OF m(2), of fid] GetValue_inside GetObject_inside unfolding field_in_def by blast
  then show ?thesis using m(1) HasField_total [OF m(2)] by blast
qed

theorem message_view_safe_witness:
  "\<exists>m. Message_init [0x501, 0xff, 0xfe] (Some 0) (Some 3) = Some m \<and> (\<exists>b. HasField [0x501, 0xff, 0xfe] m 13 = Some b)"
  using message_view_safe [of 0 "[0x501, 0xff, 0xfe]", unfolded length_3, OF zero_less_numeral] by blast

text \<open>
  A string view of any pointer reads only the words of the block, and the bytes it denotes,
  as well as the words \<open>Detect\<close> reports, lie inside.
\<close>

theorem string_view_safe:
  "\<exists>s bs d. String_init mem ptr (Some (length mem)) = Some s \<and> slice_bytes mem s = Some bs \<and>
    String_Detect mem ptr (Some (length mem)) = Some d \<and> inside (length mem) (s_ptr d) (s_len d)"
proof -
  obtain s where s: "String_init mem ptr (Some (length mem)) = Some s" "inside (4 * length mem) (s_ptr s) (s_len s)"
    using String_init_inside by blast
  then show ?thesis using slice_bytes_total [OF s(2)] String_Detect_inside [of mem ptr] by simp
qed

text \<open>
  An array made from any pointer into untrusted words: when it is not null, every element
  below its size is a field inside of the words, and so are its numbers, of \<open>sz\<close> bytes each.
\<close>

theorem array_view_safe:
  assumes "p < length mem"
  shows "\<exists>a. Array_init mem (Some p) (Some (length mem)) = Some a \<and>
    (a_body a \<noteq> None \<longrightarrow> (\<forall>i<a_size a. \<exists>f. Array_at a i = Some f \<and> f_ptr f \<noteq> None \<and> inside (length mem) (f_ptr f) (f_width f))) \<and>
    (\<forall>sz. inside (4 * length mem) (map_option ((*) 4) (s_ptr (Array_Numbers sz a))) (sz * s_len (Array_Numbers sz a)))"
proof -
  obtain a where a: "Array_init mem (Some p) (Some (length mem)) = Some a" "array_in mem a"
    using Array_init_inside [of mem "Some p"] assms by auto
  then show ?thesis using Array_at_inside [OF a(2)] Array_Numbers_inside [OF a(2)] by (fastforce simp: field_in_def)
qed

theorem array_view_safe_witness:
  "\<exists>a. Array_init [0x9, 7, 8] (Some 0) (Some 3) = Some a \<and> a_body a \<noteq> None \<and>
    (\<forall>i<a_size a. \<exists>f. Array_at a i = Some f \<and> f_ptr f \<noteq> None \<and> inside 3 (f_ptr f) (f_width f))"
proof -
  have "\<exists>a. Array_init [0x9, 7, 8] (Some 0) (Some 3) = Some a \<and> a_body a \<noteq> None" by (simp add: Array_init_def Let_def)
  then show ?thesis using array_view_safe [of 0 "[0x9, 7, 8]", unfolded length_3] by auto
qed



text \<open>
  \<open>Message::Detect\<close> reads the last section before it compares with \<open>end\<close>: on a block of one
  word that announces a section it reads behind the block, where the constructor refuses the message.
\<close>

theorem message_detect_overread:
  assumes "w AND 0xff \<noteq> 0"
  shows "Message_Detect [w] (Some 0) (Some 1) = None \<and> Message_init [w] (Some 0) (Some 1) = Some None"
proof -
  have "0 < unat (w AND 0xff)" using assms by (simp add: unat_gt_0)
  then show ?thesis
    by (auto simp: Message_Detect_def Message_init_def rd64_def rd_def Let_def)
qed

theorem message_detect_overread_witness:
  "Message_Detect [5] (Some 0) (Some 1) = None \<and> Message_init [5] (Some 0) (Some 1) = Some None"
  using message_detect_overread [of 5] by simp

end
