(* ===== verification/SerialString.thy ===== *)
theory SerialString
  imports Serialize AccessSafe Compress
begin

text \<open>
  Strings: packing bytes into words, the length prefix, and that the view of access.h reads back what
  \<open>Serialize\<close> of src/serialize.cc wrote, wherever the words end up.
\<close>

subsection \<open>Bytes and words\<close>

lemma drop_hd:
  assumes "drop p xs = ys @ zs" and "ys \<noteq> []"
  shows "p < length xs" "xs ! p = hd ys" "drop (p + 1) xs = tl ys @ zs"
proof -
  show p: "p < length xs" using assms by (metis drop_eq_Nil append_is_Nil_conv not_le)
  then have "xs ! p # drop (p + 1) xs = hd ys # tl ys @ zs" using assms by (simp add: Cons_nth_drop_Suc)
  then show "xs ! p = hd ys" "drop (p + 1) xs = tl ys @ zs" by auto
qed

lemma mem_bytes_simps [simp]: "mem_bytes [] = []" "mem_bytes (w # ws) = bytes_of_word 4 w @ mem_bytes ws"
  "mem_bytes (xs @ ys) = mem_bytes xs @ mem_bytes ys"
  by (simp_all add: mem_bytes_def del: bytes_of_word_numeral)

lemma words_of_four: "length a = 4 \<Longrightarrow> words_of (a @ bs) = word_of_bytes a # words_of bs"
  by (auto simp: length_Suc_conv numeral_eq_Suc)

lemma words_of_mem_bytes [simp]: "words_of (mem_bytes ws @ bs) = ws @ words_of bs"
  by (induction ws) (simp_all add: words_of_four word_of_bytes_of_word del: bytes_of_word_numeral)

lemma pad_word: "length (bs :: u8 list) \<le> 4 \<Longrightarrow> bytes_of_word 4 (word_of_bytes bs :: u32) = bs @ replicate (4 - length bs) 0"
proof -
  assume len: "length bs \<le> 4"
  have "word_of_bytes (bs @ replicate k 0) = (word_of_bytes bs :: u32)" for k
    by (rule bit_word_eqI) (auto simp: bit_word_of_bytes nth_append)
  then show ?thesis
    using bytes_of_word_of_bytes [of "bs @ replicate (4 - length bs) 0" 4, where 'a = 32] len by (simp del: bytes_of_word_numeral)
qed

lemma length_words_of [simp]: "length (words_of bs) = WordSize (length bs)"
  by (induction bs rule: words_of.induct) (simp_all add: WordSize_def)

lemma mem_bytes_words_of: "mem_bytes (words_of bs) = bs @ replicate (4 * WordSize (length bs) - length bs) 0"
proof (induction bs rule: words_of.induct)
  case (5 a b c d bs)
  have "WordSize (length (a # b # c # d # bs)) = WordSize (length bs) + 1" by (simp add: WordSize_def)
  then show ?case using 5 pad_word [of "[a, b, c, d]"] by (simp del: bytes_of_word_numeral word_of_bytes.simps)
qed (simp_all add: WordSize_def pad_word del: bytes_of_word_numeral word_of_bytes.simps)

lemma words_of_pad: "words_of (bs @ replicate (4 * WordSize (length bs) - length bs) 0) = words_of bs"
  using words_of_mem_bytes [of "words_of bs" "[]"] by (simp add: mem_bytes_words_of)

lemma WordSize_bounds: "n \<le> 4 * WordSize n" "4 * WordSize n \<le> n + 3" "WordSize n = 0 \<longleftrightarrow> n = 0"
  by (auto simp: WordSize_def)

lemma fill_bytes_eq:
  assumes "length dest = WordSize (length bs)" and "bs \<noteq> []"
  shows "fill_bytes bs dest = Some (words_of bs)"
proof -
  have "dest \<noteq> []" using assms WordSize_bounds(3) [of "length bs"] by auto
  then obtain ws w where d: "dest = ws @ [w]" by (metis rev_exhaust)
  let ?b = "mem_bytes (ws @ [0])"
  have b: "?b = mem_bytes ws @ replicate 4 0" by (simp add: numeral_eq_Suc)
  have len: "length bs \<le> length ?b" "length (mem_bytes ws) \<le> length bs" "length ?b = 4 * WordSize (length bs)"
    using assms(1) WordSize_bounds [of "length bs"] by (simp_all add: d)
  have "drop (length bs) ?b = replicate (4 * WordSize (length bs) - length bs) 0"
    unfolding b using len by (simp add: drop_append drop_replicate)
  then show ?thesis
    using len words_of_pad [of bs] by (simp add: fill_bytes_def d del: mem_bytes_simps)
qed

subsection \<open>Words stored in a block\<close>

definition holds :: "mem \<Rightarrow> nat \<Rightarrow> u32 list \<Rightarrow> bool" where
  "holds mem p ws \<longleftrightarrow> p + length ws \<le> length mem \<and> take (length ws) (drop p mem) = ws"

lemma holdsE:
  assumes "holds mem p ws"
  obtains xs ys where "mem = xs @ ws @ ys" "length xs = p"
proof
  show "mem = take p mem @ ws @ drop (p + length ws) mem"
    using assms unfolding holds_def by (metis append_take_drop_id drop_drop add.commute)
  show "length (take p mem) = p" using assms by (simp add: holds_def)
qed

lemma holdsI: "holds (xs @ ws @ ys) (length xs) ws"
  by (simp add: holds_def)

lemma drop_bytes: "holds mem p ws \<Longrightarrow> \<exists>rest. drop (4 * p) (mem_bytes mem) = mem_bytes ws @ rest"
  by (auto elim: holdsE)

text \<open>A readable end that leaves \<open>n\<close> words (or bytes) from \<open>p\<close> on.\<close>

abbreviation reaches :: "ptr \<Rightarrow> nat \<Rightarrow> bool" where
  "reaches e n \<equiv> \<not> past n e"

subsection \<open>The length prefix\<close>

lemma varint_mask: "(n :: u32) AND NOT 0x7f = 0 \<longleftrightarrow> unat n < 128"
proof -
  have "(n AND m) OR (n AND NOT m) = n" "(n AND m) AND NOT m = 0" for m
    by (rule bit_word_eqI, auto simp: bit_simps)+
  then have "(n AND NOT 0x7f = 0) = (n AND 0x7f = n)" by (metis or.right_neutral)
  also have "n AND 0x7f = take_bit 7 n" using mask_7 [where 'a = 32] by (simp only: take_bit_eq_mask)
  also have "(take_bit 7 n = n) = (unat n < 2 ^ 7)"
    by (metis unsigned_take_bit_eq word_eq_unatI take_bit_nat_eq_self_iff)
  finally show ?thesis by simp
qed

lemma varint_byte:
  fixes n :: u32
  shows "ucast (0x80 OR (n AND 0x7f)) AND 0x80 \<noteq> (0 :: u8)" "ucast (0x80 OR (n AND 0x7f)) AND 0x7f = (take_bit 7 (ucast n) :: u8)"
proof -
  have "n AND 0x7f = take_bit 7 n" using mask_7 [where 'a = 32] by (simp only: take_bit_eq_mask)
  moreover have "ucast (0x80 OR take_bit 7 n) = (0x80 OR take_bit 7 (ucast n) :: u8)"
    by (rule bit_word_eqI) (auto simp: bit_simps)
  ultimately have "ucast (0x80 OR (n AND 0x7f)) = (0x80 OR take_bit 7 (ucast n) :: u8)" by simp
  then show "ucast (0x80 OR (n AND 0x7f)) AND 0x80 \<noteq> (0 :: u8)"
      "ucast (0x80 OR (n AND 0x7f)) AND 0x7f = (take_bit 7 (ucast n) :: u8)"
    using continuation_byte [of "take_bit 7 (ucast n)"] by simp_all
qed

lemma split_64:
  "push_bit s (ucast (take_bit 7 (ucast n :: u8))) OR push_bit (s + 7) (ucast (drop_bit 7 n)) = push_bit s (ucast n :: u64)"
  for n :: u32
proof (rule bit_word_eqI)
  fix i assume "i < LENGTH(64)"
  then show "bit (push_bit s (ucast (take_bit 7 (ucast n :: u8))) OR push_bit (s + 7) (ucast (drop_bit 7 n)) :: u64) i =
      bit (push_bit s (ucast n :: u64)) i"
    by (cases "i < s + 7") (auto simp: bit_simps)
qed

lemma small_byte: "unat (n :: u32) < 128 \<Longrightarrow> unat (ucast n :: u8) = unat n"
  by (simp add: unat_ucast)

lemma WriteVarInt_eq:
  "WriteVarInt n = (if unat n < 128 then [ucast n] else ucast (0x80 OR (n AND 0x7f)) # WriteVarInt (drop_bit 7 n))"
  by (subst WriteVarInt.simps) (simp only: varint_mask if_not_P split: if_splits, simp)

lemma length_WriteVarInt: "0 < length (WriteVarInt n)"
  by (simp add: WriteVarInt.simps [of n])

lemma string_loop_read:
  assumes "unat n < 2 ^ (32 - sft)" and "sft < 32" and "drop p bs = WriteVarInt n @ rest"
    and "reaches e (p + length (WriteVarInt n) + unat (drop_bit 2 (mark OR push_bit sft (ucast n))))"
  shows "string_loop bs e sft mark p =
    Some (slice (p + length (WriteVarInt n)) (unat (drop_bit 2 (mark OR push_bit sft (ucast n)))))"
  using assms
proof (induction n arbitrary: sft mark p rule: WriteVarInt.induct)
  case (1 n)
  have "WriteVarInt n \<noteq> []" by (simp add: WriteVarInt.simps [of n])
  then have p: "p < length bs" "bs ! p = hd (WriteVarInt n)" "drop (p + 1) bs = tl (WriteVarInt n) @ rest"
    using drop_hd [OF "1.prems"(3)] by auto
  have e: "\<not> at_end p e"
    using "1.prems"(4) length_WriteVarInt [of n] by (cases e) (auto simp del: length_greater_0_conv)
  show ?case
  proof (cases "unat n < 128")
    case True
    then have w: "WriteVarInt n = [ucast n]" by (simp add: WriteVarInt_eq [of n])
    have "(ucast n :: u8) AND 0x80 = 0" using True by (intro final_byte) (simp add: small_byte)
    moreover have "ucast (ucast n :: u8) = (ucast n :: u64)" using True by (intro word_eq_unatI) (simp add: small_byte)
    ultimately show ?thesis using "1.prems"(2,4) e p by (simp add: w string_loop.simps [of bs e sft] Let_def)
  next
    case False
    let ?b = "ucast (0x80 OR (n AND 0x7f)) :: u8"
    have w: "WriteVarInt n = ?b # WriteVarInt (drop_bit 7 n)"
      using False by (simp add: WriteVarInt_eq [of n])
    have sft: "sft + 7 < 32"
    proof (rule ccontr)
      assume "\<not> sft + 7 < 32"
      then have "(2::nat) ^ (32 - sft) \<le> 2 ^ 7" by (intro power_increasing) auto
      then show False using "1.prems"(1) False by simp
    qed
    have small: "unat (drop_bit 7 n) < 2 ^ (32 - (sft + 7))"
    proof -
      have "32 - sft = (32 - (sft + 7)) + 7" using sft by simp
      then have "(2::nat) ^ (32 - sft) = 2 ^ (32 - (sft + 7)) * 2 ^ 7" by (metis power_add)
      then show ?thesis using "1.prems"(1) by (simp add: unat_drop_bit less_mult_imp_div_less)
    qed
    have mark: "(mark OR push_bit sft (ucast (?b AND 0x7f))) OR push_bit (sft + 7) (ucast (drop_bit 7 n)) = mark OR push_bit sft (ucast n)"
      by (simp only: varint_byte(2) or.assoc split_64)
    have "string_loop bs e (sft + 7) (mark OR push_bit sft (ucast (?b AND 0x7f))) (p + 1) =
        Some (slice (p + 1 + length (WriteVarInt (drop_bit 7 n))) (unat (drop_bit 2 (mark OR push_bit sft (ucast n)))))"
      using "1.IH" [OF varint_mask [THEN arg_cong [where f = Not], THEN iffD2, OF False], of "sft + 7" "p + 1" "mark OR push_bit sft (ucast (?b AND 0x7f))"] False sft small p(3) "1.prems"(4)
      unfolding mark by (simp add: w varint_mask)
    then show ?thesis using "1.prems"(2) e p varint_byte(1) [of n] by (simp add: w string_loop.simps [of bs e sft])
  qed
qed

subsection \<open>Reading a string back\<close>

text \<open>The bytes of a serialized string.\<close>

definition string_bytes :: "u8 list \<Rightarrow> u8 list" where
  "string_bytes str = WriteVarInt (push_bit 2 (of_nat (length str))) @ str"

definition string_words :: "u8 list \<Rightarrow> u32 list" where
  "string_words str = words_of (string_bytes str)"

lemma string_mark:
  assumes "n < 2 ^ 30"
  defines "mark \<equiv> push_bit 2 (of_nat n) :: u32"
  shows "unat mark = 4 * n"
  using assms by (simp add: unat_push_bit unat_of_nat)

lemma String_init_read:
  assumes "length str < 2 ^ 30" and bs: "drop (4 * p) (mem_bytes mem) = string_bytes str @ rest"
    and e: "reaches (map_option ((*) 4) end) (4 * p + length (string_bytes str))"
  shows "String_init mem (Some p) end = Some (slice (4 * p + (length (string_bytes str) - length str)) (length str))"
proof -
  define mark where "mark = (push_bit 2 (of_nat (length str)) :: u32)"
  note m = string_mark [OF assms(1), folded mark_def]
  have hd: "string_bytes str = WriteVarInt mark @ str" by (simp add: string_bytes_def mark_def)
  let ?bs = "mem_bytes mem"
  have p: "4 * p < length ?bs" "?bs ! (4 * p) = hd (WriteVarInt mark)" "drop (4 * p + 1) ?bs = tl (WriteVarInt mark) @ str @ rest"
    using drop_hd [of "4 * p" ?bs "WriteVarInt mark" "str @ rest"] bs length_WriteVarInt [of mark] unfolding hd by auto
  have ne: "\<not> at_end (4 * p) (map_option ((*) 4) end)"
    using e length_WriteVarInt [of mark] by (cases "end") (auto simp: hd simp del: length_greater_0_conv)
  show ?thesis
  proof (cases "unat mark < 128")
    case True
    then have w: "WriteVarInt mark = [ucast mark]" by (simp add: WriteVarInt_eq [of mark])
    have b: "unat (ucast mark :: u8) = 4 * length str" using True m small_byte by simp
    then have "(ucast mark :: u8) AND 3 = 0" "unat (drop_bit 2 (ucast mark :: u8)) = length str"
      by (auto intro!: word_eq_unatI simp: unat_and_3 unat_drop_bit)
    moreover have "(ucast mark :: u8) AND 0x80 = 0" using True by (intro final_byte) (simp add: small_byte)
    ultimately show ?thesis
      using p(1,2) ne e by (simp add: String_init_def hd w Let_def)
  next
    case False
    let ?b = "ucast (0x80 OR (mark AND 0x7f)) :: u8" and ?n = "drop_bit 7 mark"
    have w: "WriteVarInt mark = ?b # WriteVarInt ?n" using False by (simp add: WriteVarInt_eq [of mark])
    have "mark AND 3 = 0" using m by (intro word_eq_unatI) (simp add: unat_and_3)
    have "?b AND 3 = 0"
    proof (rule word_eq_unatI)
      have "?b AND 3 = (?b AND 0x7f) AND 3" by (simp add: and.assoc)
      also have "\<dots> = take_bit 7 (ucast mark) AND 3" by (simp only: varint_byte)
      finally have "unat (?b AND 3) = unat (take_bit 7 (ucast mark :: u8)) mod 4" by (simp only: unat_and_3)
      also have "\<dots> = 0" by (simp only: unsigned_take_bit_eq) (simp add: take_bit_eq_mod unat_ucast m mod_mod_cancel)
      finally show "unat (?b AND 3) = unat (0 :: u8)" by simp
    qed
    have mark': "ucast (?b AND 0x7f) OR push_bit 7 (ucast ?n) = (ucast mark :: u64)"
      using split_64 [of 0 mark] by (simp only: varint_byte(2) add_0 push_bit_0_id id_apply)
    have len: "unat (drop_bit 2 (ucast mark :: u64)) = length str" using m by (simp add: unat_drop_bit)
    have "string_loop ?bs (map_option ((*) 4) end) 7 (ucast (?b AND 0x7f)) (4 * p + 1) =
        Some (slice (4 * p + 1 + length (WriteVarInt ?n)) (length str))"
      using string_loop_read [of ?n 7 "4 * p + 1" ?bs "str @ rest" "ucast (?b AND 0x7f)" "map_option ((*) 4) end"]
        p(3) e unat_u32 [of mark] unfolding mark' len by (simp add: w hd unat_drop_bit less_mult_imp_div_less add.assoc)
    then show ?thesis
      using p(1,2) ne varint_byte(1) [of mark] \<open>?b AND 3 = 0\<close> by (simp add: String_init_def hd w Let_def)
  qed
qed

lemma string_read:
  assumes "length str < 2 ^ 30" and "holds mem p (string_words str)" and "reaches end (p + length (string_words str))"
  obtains s where "String_init mem (Some p) end = Some s" "s_ptr s \<noteq> None" "slice_bytes mem s = Some str"
    "String_Detect mem (Some p) end = Some (slice p (length (string_words str)))"
proof -
  let ?h = "length (string_bytes str) - length str"
  have hlen: "length (string_bytes str) = ?h + length str" by (simp add: string_bytes_def)
  obtain rest where rest: "drop (4 * p) (mem_bytes mem) = string_bytes str @ rest"
    using drop_bytes [OF assms(2)] by (auto simp: string_words_def mem_bytes_words_of)
  have "reaches (map_option ((*) 4) end) (4 * p + length (string_bytes str))"
    using assms(3) WordSize_bounds(1) [of "length (string_bytes str)"] by (cases "end") (auto simp: string_words_def)
  then have init: "String_init mem (Some p) end = Some (slice (4 * p + ?h) (length str))"
    by (intro String_init_read [OF assms(1) rest])
  have "drop (4 * p + ?h) (mem_bytes mem) = drop ?h (string_bytes str) @ rest"
    using rest hlen by (metis add.commute drop_drop drop_append diff_is_0_eq' drop_0 le_add1)
  also have "drop ?h (string_bytes str) = str" by (simp add: string_bytes_def)
  finally have body: "drop (4 * p + ?h) (mem_bytes mem) = str @ rest" .
  have "4 * p + ?h + length str \<le> length (mem_bytes mem)"
    using arg_cong [OF rest, of length] hlen assms(2) by (cases "string_bytes str") (auto simp: holds_def string_words_def WordSize_def)
  then have "slice_bytes mem (slice (4 * p + ?h) (length str)) = Some str"
    by (simp add: slice_bytes_def slice_def body del: length_mem_bytes)
  moreover have "String_Detect mem (Some p) end = Some (slice p (length (string_words str)))"
    using hlen by (simp add: String_Detect_def init slice_def string_words_def WordSize_def)
  ultimately show thesis using that [OF init] by (simp add: slice_def)
qed

end
