(* ===== verification/SerialUnit.thy ===== *)
theory SerialUnit
  imports SerialString
begin

text \<open>
  What a unit stands for: the words it holds, or the words of its segment of the buffer. A serializer
  \<open>emits\<close> the words of an object when the unit it returns stands for them and the buffer has grown by
  exactly those words, or not at all.
\<close>

subsection \<open>Contents of units\<close>

definition unit_ok :: "nat \<Rightarrow> Unit \<Rightarrow> bool" where
  "unit_ok n u \<longleftrightarrow> length (u_data u) = 3 \<and> u_len u \<le> 3 \<and>
    (u_len u = 0 \<and> seg_len u \<noteq> 0 \<longrightarrow> unat (seg_len u) \<le> unat (seg_pos u) \<and> unat (seg_pos u) \<le> n)"

definition content :: "u32 list \<Rightarrow> Unit \<Rightarrow> u32 list" where
  "content V u = (if u_len u \<noteq> 0 then take (u_len u) (u_data u)
    else take (unat (seg_len u)) (drop (length V - unat (seg_pos u)) V))"

definition emitted :: "u32 list \<Rightarrow> u32 list \<Rightarrow> Buffer \<Rightarrow> Unit \<Rightarrow> bool" where
  "emitted V ws buf' u \<longleftrightarrow> buf_ok buf' \<and> unit_ok (Size buf') u \<and> content (View buf') u = ws \<and>
    (if u_len u \<noteq> 0 then View buf' = V else View buf' = ws @ V \<and> unat (seg_pos u) = Size buf')"

lemma length_content: "unit_ok (length V) u \<Longrightarrow> length (content V u) = unit_size u"
  by (auto simp: unit_ok_def content_def unit_size_def)

text \<open>Words put in front of the buffer do not change what a unit stands for.\<close>

lemma content_append: "unit_ok (length V) u \<Longrightarrow> content (ws @ V) u = content V u"
  by (auto simp: unit_ok_def content_def)

lemma unit_ok_mono: "unit_ok n u \<Longrightarrow> n \<le> m \<Longrightarrow> unit_ok m u"
  by (auto simp: unit_ok_def)

lemma set_data_eq:
  assumes "length (u_data u) = 3" and "length ws \<le> 3"
  shows "set_data ws u = Some \<lparr>u_len = length ws, u_data = ws @ drop (length ws) (u_data u)\<rparr>"
  using assms by (simp add: set_data_def)

lemma emitted_inline:
  assumes "buf_ok buf" and "length (u_data u) = 3" and "0 < length ws" "length ws \<le> 3"
  shows "\<exists>u'. set_data ws u = Some u' \<and> u_len u' = length ws \<and> emitted (View buf) ws buf u'"
  using assms by (auto simp: set_data_eq emitted_def unit_ok_def content_def)

lemma Segment_simps [simp]:
  "u_len (Segment a b) = 0" "seg_pos (Segment a b) = of_nat b" "seg_len (Segment a b) = of_nat (b - a)" "length (u_data (Segment a b)) = 3"
  by (simp_all add: Segment_def seg_pos_def seg_len_def)

lemma unat_of_nat_32: "n < 2 ^ 32 \<Longrightarrow> unat (of_nat n :: u32) = n"
  by (simp add: unat_of_nat)

lemma emitted_segment:
  assumes "buf_ok buf'" and "View buf' = ws @ V" and "Size buf' < 2 ^ 32" and "lst = length V"
  shows "emitted V ws buf' (Segment lst (Size buf'))"
proof -
  have sz: "Size buf' = length ws + lst" using length_View [OF assms(1)] assms(2,4) by simp
  then have "unat (of_nat (Size buf') :: u32) = Size buf'" "unat (of_nat (Size buf' - lst) :: u32) = length ws"
    using assms(3) unat_of_nat_32 [of "Size buf'"] unat_of_nat_32 [of "length ws"] by auto
  then show ?thesis using assms sz by (simp add: emitted_def unit_ok_def content_def)
qed

subsection \<open>Strings\<close>

lemma string_words_length:
  "length (string_words str) = WordSize (length (string_bytes str))" "0 < length (string_words str)"
  using length_WriteVarInt WordSize_bounds(3) [of "length (string_bytes str)"]
  by (auto simp: string_words_def string_bytes_def)

lemma Serialize_str_spec:
  assumes "buf_ok buf" and "length (u_data u) = 3" and "length str < 2 ^ 30" and "Size buf + length (string_words str) < 2 ^ 32"
  shows "\<exists>buf' u'. Serialize_str str buf u = Some (True, buf', u') \<and> emitted (View buf) (string_words str) buf' u'"
proof -
  let ?n = "length (string_words str)"
  have ne: "string_bytes str \<noteq> []" using length_WriteVarInt by (auto simp: string_bytes_def)
  have sz: "WordSize (length (WriteVarInt (push_bit 2 (of_nat (length str)))) + length str) = ?n"
    using string_words_length(1) [of str] by (simp add: string_bytes_def)
  have fill: "fill_bytes (WriteVarInt (push_bit 2 (of_nat (length str))) @ str) dest = Some (string_words str)"
    if "length dest = ?n" for dest
    using fill_bytes_eq [OF _ ne, of dest] that string_words_length(1) [of str] by (simp add: string_words_def string_bytes_def)
  show ?thesis
  proof (cases "?n = 1")
    case True
    then obtain u' where "set_data (string_words str) u = Some u'" "emitted (View buf) (string_words str) buf u'"
      using emitted_inline [OF assms(1,2), of "string_words str"] by auto
    then show ?thesis using assms(2,3) True by (simp add: Serialize_str_def Let_def sz fill)
  next
    case False
    obtain old where b1: "buf_ok (Expand ?n buf)" "length old = ?n" "View (Expand ?n buf) = old @ View buf"
      using Expand_spec [OF assms(1), of ?n] by blast
    then have "length (View (Expand ?n buf)) = ?n + length (View buf)" by simp
    then have room: "Head (Expand ?n buf) + ?n \<le> length (cells (Expand ?n buf))"
      using b1(1) by (auto simp: View_eq Head_def buf_ok_def)
    have "View (Expand ?n buf) = [] @ old @ View buf" using b1 by simp
    from store_spec [OF b1(1) this, of "string_words str"] b1(2)
    obtain b2 where b2: "store (Head (Expand ?n buf)) (string_words str) (Expand ?n buf) = Some b2" "buf_ok b2"
        "View b2 = string_words str @ View buf" by auto
    have "Size b2 < 2 ^ 32" using length_View [OF b2(2)] length_View [OF assms(1)] assms(4) b2(3) by simp
    then have "emitted (View buf) (string_words str) b2 (Segment (Size buf) (Size b2))"
      using emitted_segment [OF b2(2,3)] length_View [OF assms(1)] by simp
    then show ?thesis using assms(3) False room b2(1) by (simp add: Serialize_str_def Let_def sz fill)
  qed
qed

text \<open>
  Claim C27: a string of less than \<open>2 ^ 30\<close> bytes is serialized, and wherever its words are placed in a
  block, the view of access.h returns exactly its bytes, and \<open>Detect\<close> the extent of its words.
\<close>

theorem string_roundtrip:
  assumes "buf_ok buf" and "length (u_data u) = 3" and "length str < 2 ^ 30" and "Size buf + length (string_words str) < 2 ^ 32"
  shows "\<exists>buf' u'. Serialize_str str buf u = Some (True, buf', u') \<and>
    (\<forall>mem p. holds mem p (content (View buf') u') \<longrightarrow>
      (\<exists>s. String_init mem (Some p) (Some (length mem)) = Some s \<and> slice_bytes mem s = Some str \<and>
        String_Detect mem (Some p) (Some (length mem)) = Some (slice p (length (content (View buf') u')))))"
proof -
  obtain buf' u' where s: "Serialize_str str buf u = Some (True, buf', u')" "emitted (View buf) (string_words str) buf' u'"
    using Serialize_str_spec [OF assms] by blast
  have "\<exists>s. String_init mem (Some p) (Some (length mem)) = Some s \<and> slice_bytes mem s = Some str \<and>
      String_Detect mem (Some p) (Some (length mem)) = Some (slice p (length (string_words str)))"
    if h: "holds mem p (string_words str)" for mem p
  proof -
    have "reaches (Some (length mem)) (p + length (string_words str))" using h by (simp add: holds_def)
    from string_read [OF assms(3) h this] show ?thesis by blast
  qed
  then show ?thesis using s by (simp add: emitted_def)
qed

theorem string_roundtrip_witness:
  "\<exists>buf' u'. Serialize_str [104, 105] (empty_buffer (\<lambda>i. 0)) unit_init = Some (True, buf', u')"
proof -
  have "length (string_words [104, 105]) = 1"
    by (simp add: string_words_def string_bytes_def WriteVarInt_eq WordSize_def)
  then have "Size (empty_buffer (\<lambda>i. 0)) + length (string_words [104, 105]) < 2 ^ 32" by (simp add: Size_def empty_buffer_def)
  from string_roundtrip [OF buf_ok_empty _ _ this, of unit_init] show ?thesis by (auto simp: unit_init_def)
qed

subsection \<open>Folding\<close>

text \<open>
  Folding a freshly serialized object of at most three words moves it from the buffer into
  the unit and leaves the buffer as it was before; a bigger one stays where it is.
\<close>

theorem fold_field_exact:
  assumes "emitted V ws buf' u" and "ws \<noteq> []"
  shows "\<exists>buf'' u''. FoldField buf' u = Some (buf'', u'') \<and> buf_ok buf'' \<and> content (View buf'') u'' = ws \<and> length (u_data u'') = 3 \<and>
    (if length ws < 4 then View buf'' = V \<and> u_len u'' = length ws else buf'' = buf' \<and> u'' = u)"
proof (cases "u_len u = 0")
  case False
  then show ?thesis using assms by (auto simp: emitted_def FoldField_def content_def unit_ok_def)
next
  case True
  have e: "buf_ok buf'" "unit_ok (Size buf') u" "content (View buf') u = ws" "View buf' = ws @ V" "unat (seg_pos u) = Size buf'"
    using assms(1) True by (auto simp: emitted_def)
  have len: "unat (seg_len u) = length ws" using length_content [of "View buf'" u] e(1-3) True by (simp add: unit_size_def)
  have nz: "seg_len u \<noteq> 0" "seg_len u < 4 \<longleftrightarrow> length ws < 4" using len assms(2) by (auto simp: word_less_nat_alt)
  show ?thesis
  proof (cases "length ws < 4")
    case False
    then show ?thesis using nz e by (simp add: FoldField_def unit_ok_def)
  next
    case small: True
    have d: "length (u_data u) = 3" using e(2) by (simp add: unit_ok_def)
    have drop: "drop (b_off buf') (cells buf') = ws @ V" using e(1,4) by (simp add: View_eq)
    have "length (View buf') = length ws + length (V)" using e(4) by simp
    then have room: "b_off buf' + length ws \<le> length (cells buf')" "length ws \<le> Size buf'"
      using e(1) by (auto simp: View_eq buf_ok_def Size_def)
    have "rd_range (cells buf') (Head buf') (unat (seg_len u)) = Some ws"
      using room(1) drop by (simp add: Head_def len)
    moreover obtain u' where "set_data ws u = Some u'" "u_len u' = length ws" "length (u_data u') = 3" "content W u' = ws" for W
      using assms(2) small d set_data_eq [OF d, of ws] by (auto simp: content_def)
    moreover have "buf_ok (Shrink (length ws) buf')" "View (Shrink (length ws) buf') = V"
      using Shrink_spec [OF e(1) room(2)] e(4) by auto
    ultimately show ?thesis using True nz small e(5) by (simp add: FoldField_def)
  qed
qed

theorem fold_field_exact_witness:
  "\<exists>buf'' u''. FoldField (empty_buffer (\<lambda>i. 0)) \<lparr>u_len = 2, u_data = [7, 8, 0]\<rparr> = Some (buf'', u'') \<and>
    content (View buf'') u'' = [7, 8]"
proof -
  have "emitted [] [7, 8] (empty_buffer (\<lambda>i. 0)) \<lparr>u_len = 2, u_data = [7, 8, 0]\<rparr>"
    by (simp add: emitted_def unit_ok_def content_def)
  from fold_field_exact [OF this] show ?thesis by auto
qed

end
