(* ===== verification/SerialPack.thy ===== *)
theory SerialPack
  imports SerialUnit
begin

text \<open>
  How src/serialize.cc lays out the elements of arrays and maps: the width of the cells, moving the
  segments that stay out of their cells towards the end of the buffer, and writing the cells.
\<close>

subsection \<open>The width of the cells\<close>

text \<open>The words of the elements with cells of width \<open>m\<close>.\<close>

definition cost :: "nat \<Rightarrow> Unit list \<Rightarrow> nat" where
  "cost m us = (\<Sum>u\<leftarrow>us. m + (if unit_size u > m then unit_size u else 0))"

lemma array_sizes_eq: "array_sizes us (a, b, c) = (a + cost 1 us, b + cost 2 us, c + cost 3 us)"
  by (induction us arbitrary: a b c) (auto simp: cost_def unit_size_def Let_def)

lemma BestArraySize_spec:
  assumes "BestArraySize us = (sz, m)"
  shows "m \<in> {1, 2, 3} \<and> sz = cost m us \<and> (\<forall>k\<in>{1, 2, 3}. sz \<le> cost k us) \<and> (\<forall>k\<in>{1, 2, 3}. cost k us = sz \<longrightarrow> m \<le> k)"
  using assms by (auto simp: BestArraySize_def array_sizes_eq Let_def numeral_2_eq_2 numeral_3_eq_3 split: if_splits)

text \<open>
  \<open>BestArraySize\<close> returns the smallest number of words the elements can take over the cell
  widths 1, 2 and 3, with the smallest width that reaches it.
\<close>

theorem best_array_size_optimal:
  "let (sz, m) = BestArraySize us in
    m \<in> {1, 2, 3} \<and> sz = cost m us \<and> sz = Min {cost 1 us, cost 2 us, cost 3 us} \<and> m = (LEAST k. 1 \<le> k \<and> cost k us = sz)"
proof -
  obtain sz m where b: "BestArraySize us = (sz, m)" by fastforce
  note s = BestArraySize_spec [OF b]
  have mn: "sz = Min {cost 1 us, cost 2 us, cost 3 us}" by (rule Min_eqI [symmetric]) (use s in auto)
  have least: "m = (LEAST k. 1 \<le> k \<and> cost k us = sz)"
  proof (rule Least_equality [symmetric])
    show "1 \<le> m \<and> cost m us = sz" using s by auto
    show "m \<le> k" if "1 \<le> k \<and> cost k us = sz" for k
    proof (cases "k \<le> 3")
      case True
      then have "k \<in> {1, 2, 3}" using that by auto
      then show ?thesis using s that by blast
    qed (use s in auto)
  qed
  show ?thesis
    unfolding b Let_def prod.case by (intro conjI) (use s in blast, use s in blast, rule mn, rule least)
qed

subsection \<open>Moving words\<close>

text \<open>\<open>n\<close> words that end at \<open>src\<close> moved so that they end at \<open>tail\<close>.\<close>

definition moved :: "nat \<Rightarrow> nat \<Rightarrow> nat \<Rightarrow> 'a list \<Rightarrow> 'a list" where
  "moved n tail src xs = take (tail - n) xs @ take n (drop (src - n) xs) @ drop tail xs"

lemma moved_0: "moved 0 tail src xs = xs"
  by (simp add: moved_def)

lemma length_moved: "n \<le> src \<Longrightarrow> src \<le> tail \<Longrightarrow> tail \<le> length xs \<Longrightarrow> length (moved n tail src xs) = length xs"
  by (simp add: moved_def)

lemma nth_moved:
  assumes "n \<le> src" "src \<le> tail" "tail \<le> length xs" "i < length xs"
  shows "moved n tail src xs ! i = (if tail - n \<le> i \<and> i < tail then xs ! (i - (tail - src)) else xs ! i)"
  using assms by (auto simp: moved_def nth_append min_def intro!: arg_cong [of _ _ "(!) xs"])

lemma moved_same: "n \<le> tail \<Longrightarrow> tail \<le> length xs \<Longrightarrow> moved n tail tail xs = xs"
  by (rule nth_equalityI) (simp_all add: length_moved nth_moved)

lemma moved_moved:
  assumes "k \<le> n" "n \<le> src" "src \<le> tail" "tail \<le> length xs"
  shows "moved (n - k) (tail - k) (src - k) (moved k tail src xs) = moved n tail src xs"
proof (rule nth_equalityI)
  show "length (moved (n - k) (tail - k) (src - k) (moved k tail src xs)) = length (moved n tail src xs)"
    using assms by (simp add: length_moved)
  fix i assume "i < length (moved (n - k) (tail - k) (src - k) (moved k tail src xs))"
  then have i: "i < length xs" using assms by (simp add: length_moved)
  have "moved (n - k) (tail - k) (src - k) (moved k tail src xs) ! i =
      (if tail - n \<le> i \<and> i < tail - k then moved k tail src xs ! (i - (tail - src)) else moved k tail src xs ! i)"
    using assms i by (subst nth_moved) (simp_all add: length_moved)
  also have "\<dots> = moved n tail src xs ! i"
    using assms i by (auto simp: nth_moved)
  finally show "moved (n - k) (tail - k) (src - k) (moved k tail src xs) ! i = moved n tail src xs ! i" .
qed

lemma store_moved:
  assumes "k \<le> src" "src \<le> tail" "tail \<le> length (cells buf)" "0 < k"
  shows "store (tail - k) (take k (drop (src - k) (cells buf))) buf = Some (buf\<lparr>b_data := Some (moved k tail src (cells buf))\<rparr>)"
proof -
  have "length (take k (drop (src - k) (cells buf))) = k" using assms by simp
  then show ?thesis using assms by (auto simp: store_def moved_def wr_range_def)
qed

lemma cells_update [simp]: "cells (buf\<lparr>b_data := Some xs\<rparr>) = xs"
  by (simp add: cells_def)

lemma move_loop_eq:
  assumes "n \<le> src" "src \<le> tail" "tail \<le> length (cells buf)"
  shows "move_loop n tail src buf =
    Some (tail - n, src - n, if n = 0 then buf else buf\<lparr>b_data := Some (moved n tail src (cells buf))\<rparr>)"
  using assms
proof (induction n arbitrary: tail src buf)
  case (Suc n)
  let ?xs = "moved 1 tail src (cells buf)" and ?b = "buf\<lparr>b_data := Some (moved 1 tail src (cells buf))\<rparr>"
  have "take 1 (drop (src - 1) (cells buf)) = [cells buf ! (src - 1)]"
    using Suc.prems by (simp add: take_Suc_conv_app_nth)
  then have st: "store (tail - 1) [cells buf ! (src - 1)] buf = Some ?b"
    using store_moved [of 1 src tail buf] Suc.prems by simp
  have "move_loop n (tail - 1) (src - 1) ?b =
      Some (tail - 1 - n, src - 1 - n, if n = 0 then ?b else ?b\<lparr>b_data := Some (moved n (tail - 1) (src - 1) ?xs)\<rparr>)"
    using Suc.IH [of "src - 1" "tail - 1" ?b] Suc.prems by (simp add: length_moved)
  moreover have "moved n (tail - 1) (src - 1) ?xs = moved (Suc n) tail src (cells buf)"
    using moved_moved [of 1 "Suc n" src tail "cells buf"] Suc.prems by simp
  ultimately show ?case using Suc.prems st by (auto simp: moved_0)
qed simp

lemma move_sse_eq:
  assumes "n \<le> src" "src \<le> tail" "tail \<le> length (cells buf)"
  shows "move_sse n tail src buf =
    Some (tail - n, src - n, if n = 0 then buf else buf\<lparr>b_data := Some (moved n tail src (cells buf))\<rparr>)"
  using assms
proof (induction n tail src buf rule: move_sse.induct)
  case (1 n tail src buf)
  show ?case
  proof (cases "n \<ge> 4")
    case True
    let ?xs = "moved 4 tail src (cells buf)" and ?v = "take 4 (drop (src - 4) (cells buf))"
      and ?b = "buf\<lparr>b_data := Some (moved 4 tail src (cells buf))\<rparr>"
    have rd: "rd_range (cells buf) (src - 4) 4 = Some ?v" using True "1.prems" by simp
    have st: "store (tail - 4) ?v buf = Some ?b" using store_moved [of 4 src tail buf] True "1.prems" by simp
    have "move_sse (n - 4) (tail - 4) (src - 4) ?b =
        Some (tail - n, src - n, if n = 4 then ?b else ?b\<lparr>b_data := Some (moved (n - 4) (tail - 4) (src - 4) ?xs)\<rparr>)"
      using "1.IH" [OF True _ rd st] True "1.prems" by (simp add: length_moved)
    moreover have "moved (n - 4) (tail - 4) (src - 4) ?xs = moved n tail src (cells buf)"
      using moved_moved [of 4 n src tail "cells buf"] True "1.prems" by simp
    ultimately show ?thesis
      using True "1.prems" rd st by (auto simp: move_sse.simps [of n] moved_0)
  next
    case False
    then show ?thesis using move_loop_eq [OF "1.prems"] by (simp add: move_sse.simps [of n])
  qed
qed

text \<open>
  The copy in blocks of four words that \<open>Pick\<close> compiles to with SSE3 and its loop over single
  words leave the same buffer and pointers for overlapping ranges, as long as the words move towards
  the end of the buffer.
\<close>

theorem move_sse_equivalent:
  assumes "n \<le> src" "src \<le> tail" "tail \<le> length (cells buf)"
  shows "move_sse n tail src buf = move_loop n tail src buf"
  using move_sse_eq [OF assms] move_loop_eq [OF assms] by simp

theorem move_sse_equivalent_witness:
  "move_sse 5 8 6 \<lparr>b_data = Some [1, 2, 3, 4, 5, 6, 7, 8, 9], b_size = 9, b_off = 0, b_fresh = (\<lambda>i. 0)\<rparr> =
    move_loop 5 8 6 \<lparr>b_data = Some [1, 2, 3, 4, 5, 6, 7, 8, 9], b_size = 9, b_off = 0, b_fresh = (\<lambda>i. 0)\<rparr>"
  by (rule move_sse_equivalent) (simp_all add: cells_def)

subsection \<open>Picking the segments\<close>

lemma drop_moved:
  assumes "off \<le> src - n" "n \<le> src" "src \<le> tail" "tail \<le> length xs"
  shows "drop off (moved n tail src xs) = moved n (tail - off) (src - off) (drop off xs)"
proof (rule nth_equalityI)
  show "length (drop off (moved n tail src xs)) = length (moved n (tail - off) (src - off) (drop off xs))"
    using assms by (simp add: length_moved)
  fix i assume "i < length (drop off (moved n tail src xs))"
  then have i: "i < length xs - off" using assms by (simp add: length_moved)
  then have "moved n (tail - off) (src - off) (drop off xs) ! i =
      (if tail - off - n \<le> i \<and> i < tail - off then drop off xs ! (i - (tail - src)) else drop off xs ! i)"
    using assms by (subst nth_moved) auto
  also have "\<dots> = moved n tail src xs ! (off + i)"
    using assms i by (subst nth_moved) (auto simp: intro!: arg_cong [of _ _ "(!) xs"])
  finally show "drop off (moved n tail src xs) ! i = moved n (tail - off) (src - off) (drop off xs) ! i"
    using assms i by (simp add: length_moved)
qed

lemma drop_moved_part: "tail \<le> length xs \<Longrightarrow> drop (tail - n) (moved n tail src xs) = take n (drop (src - n) xs) @ drop tail xs"
  by (simp add: moved_def)

lemma take_moved_part: "tail \<le> length xs \<Longrightarrow> k \<le> tail - n \<Longrightarrow> take k (moved n tail src xs) = take k xs"
  by (simp add: moved_def min_absorb1)

text \<open>Both views agree on the words that have not been picked yet, in front of the position \<open>p\<close>.\<close>

definition agree :: "nat \<Rightarrow> 'a list \<Rightarrow> 'a list \<Rightarrow> bool" where
  "agree p V W \<longleftrightarrow> length V = length W \<and> take (length V - p) V = take (length V - p) W"

lemma agree_refl [simp]: "agree p V V"
  by (simp add: agree_def)

lemma agree_mono: "agree p V W \<Longrightarrow> p \<le> q \<Longrightarrow> agree q V W"
  unfolding agree_def by (metis diff_le_mono2 min.absorb1 take_take)

lemma agree_trans:
  assumes "agree p V W" and "agree p W X"
  shows "agree p V X"
proof -
  have len: "length V = length W" "length W = length X" using assms by (auto simp: agree_def)
  have "take (length V - p) V = take (length V - p) W" using assms(1) unfolding agree_def by blast
  also have "\<dots> = take (length W - p) W" by (simp only: len(1))
  also have "\<dots> = take (length W - p) X" using assms(2) unfolding agree_def by blast
  also have "\<dots> = take (length V - p) X" by (simp only: len(1))
  finally show ?thesis unfolding agree_def using len by (intro conjI) (simp_all only:)
qed

lemma agree_part:
  assumes "agree p V W" and "i + n \<le> length V - p"
  shows "take n (drop i V) = take n (drop i W)"
proof -
  have "take n (drop i X) = drop i (take (i + n) (take (length V - p) X))" for X :: "'a list"
    using assms(2) by (simp add: take_drop add.commute min_absorb1)
  then show ?thesis using assms(1) unfolding agree_def by metis
qed

lemma content_agree:
  assumes "agree p V W" and "unit_ok (length V) u" and "u_len u = 0 \<longrightarrow> p + unit_size u \<le> unat (seg_pos u)"
  shows "content V u = content W u"
proof (cases "u_len u = 0")
  case True
  have "length W = length V" using assms(1) by (simp add: agree_def)
  then show ?thesis
    using True assms(2,3) agree_part [OF assms(1), of "length V - unat (seg_pos u)" "unat (seg_len u)"]
    by (cases "seg_len u = 0") (simp_all add: content_def unit_ok_def unit_size_def)
qed (simp add: content_def)

text \<open>The unit in its cell of width \<open>m\<close>, when it fits.\<close>

definition inlined :: "u32 list \<Rightarrow> Unit \<Rightarrow> Unit" where
  "inlined V u = (if u_len u \<noteq> 0 then u else \<lparr>u_len = unit_size u, u_data = content V u @ drop (unit_size u) (u_data u)\<rparr>)"

definition relocated :: "nat \<Rightarrow> Unit \<Rightarrow> Unit" where
  "relocated T u = u\<lparr>u_data := (u_data u)[0 := of_nat (T + unit_size u)]\<rparr>"

definition stays :: "nat \<Rightarrow> Unit \<Rightarrow> bool" where
  "stays m u \<longleftrightarrow> u_len u = 0 \<and> m < unit_size u"

lemma content_cells:
  assumes "buf_ok buf" and "unit_ok (Size buf) u" and "u_len u = 0" and "0 < unit_size u"
  shows "rd_range (cells buf) (b_size buf - unat (seg_pos u)) (unit_size u) = Some (content (View buf) u)"
proof -
  have ok: "unat (seg_len u) \<le> unat (seg_pos u)" "unat (seg_pos u) \<le> Size buf" using assms(2-4) by (auto simp: unit_ok_def unit_size_def)
  have off: "b_size buf - unat (seg_pos u) = b_off buf + (Size buf - unat (seg_pos u))" "length (cells buf) = b_size buf"
    using assms(1) ok by (auto simp: buf_ok_def Size_def)
  then show ?thesis
    using ok assms(1,3) length_View [OF assms(1)]
    by (auto simp: content_def unit_size_def View_eq add.commute buf_ok_def Size_def)
qed

lemma Pick_inline:
  assumes "buf_ok buf" and "unit_ok (Size buf) u" and "0 < unit_size u" and "\<not> stays m u" and "m \<le> 3"
  shows "Pick u buf tail m = Some (inlined (View buf) u, buf, tail)"
proof (cases "u_len u = 0")
  case True
  then have fits: "unit_size u \<le> m" "unit_size u = unat (seg_len u)" using assms(4) by (auto simp: stays_def unit_size_def)
  have "unat (seg_pos u) \<le> b_size buf" using assms(2,3) True by (auto simp: unit_ok_def unit_size_def Size_def)
  then have "buf_at buf (unat (seg_pos u)) = Some (b_size buf - unat (seg_pos u))" by (simp add: buf_at_def At_def)
  moreover have "length (content (View buf) u) = unit_size u" using length_content assms(1,2) by simp
  moreover have "set_data (content (View buf) u) u = Some (inlined (View buf) u)"
    using calculation(2) fits assms(2,5) True by (subst set_data_eq) (auto simp: unit_ok_def inlined_def)
  ultimately show ?thesis
    using True fits content_cells [OF assms(1,2) True assms(3)] by (simp add: Pick_def)
qed (simp add: Pick_def inlined_def)

lemma Pick_moves:
  assumes ok: "buf_ok buf" "unit_ok (Size buf) u" and st: "stays m u" and T: "T + unit_size u \<le> unat (seg_pos u)"
    and small: "Size buf < 2 ^ 32"
  obtains buf' where "Pick u buf (b_size buf - T) m = Some (relocated T u, buf', b_size buf - (T + unit_size u))"
    "buf_ok buf'" "b_size buf' = b_size buf" "b_off buf' = b_off buf"
    "drop (Size buf - (T + unit_size u)) (View buf') = content (View buf) u @ drop (Size buf - T) (View buf)"
    "agree (unat (seg_pos u)) (View buf) (View buf')"
proof -
  let ?n = "unat (seg_len u)" and ?pos = "unat (seg_pos u)" and ?S = "Size buf" and ?V = "View buf"
  have u: "u_len u = 0" "unit_size u = ?n" using st by (auto simp: stays_def unit_size_def)
  have "seg_len u \<noteq> 0" using st by (auto simp: stays_def unit_size_def)
  then have p: "?n \<le> ?pos" "?pos \<le> ?S" "length (u_data u) = 3" using ok(2) u by (auto simp: unit_ok_def)
  have S: "?S \<le> b_size buf" "length (cells buf) = b_size buf" "b_size buf - ?S = b_off buf" "length ?V = ?S"
    using ok(1) length_View by (auto simp: buf_ok_def Size_def)
  have se: "unat (seg_end u) = ?pos - ?n" using p by (simp add: seg_end_def unat_sub word_le_nat_alt)
  let ?tail = "b_size buf - T" and ?src = "b_size buf - (?pos - ?n)"
  have at: "buf_at buf (unat (seg_end u)) = Some ?src" using p S by (simp add: buf_at_def At_def se)
  define buf' where "buf' = (if ?src < ?tail then buf\<lparr>b_data := Some (moved ?n ?tail ?src (cells buf))\<rparr> else buf)"
  have le: "?n \<le> ?src" "?src \<le> ?tail" "?tail \<le> length (cells buf)" "b_off buf \<le> ?src - ?n"
    using T p S u(2) by auto
  have cells: "cells buf' = moved ?n ?tail ?src (cells buf)"
  proof (cases "?src < ?tail")
    case False
    then have "?src = ?tail" using le by simp
    then show ?thesis using False le moved_same [of ?n ?tail "cells buf"] by (simp add: buf'_def)
  next
    case True
    then show ?thesis unfolding buf'_def if_P [OF True] by simp
  qed
  have same: "b_size buf' = b_size buf" "b_off buf' = b_off buf" by (simp_all add: buf'_def)
  have ok': "buf_ok buf'" using ok(1) le by (simp add: buf_ok_def cells same length_moved)
  have view: "View buf' = moved ?n (?S - T) (?S - (?pos - ?n)) ?V"
    using drop_moved [OF le(4) le(1-3)] S p T u ok(1) by (simp add: View_eq ok' cells same Size_def add.commute)
  have n0: "0 < ?n" using st u by (auto simp: stays_def)
  have "Pick u buf ?tail m = Some (relocated T u, buf', b_size buf - (T + unit_size u))"
  proof (cases "?src < ?tail")
    case True
    have d: "?tail - ?n - (?src - ?n) = ?pos - ?n - T" using T p S u by auto
    have "seg_pos u - of_nat (?tail - ?n - (?src - ?n)) = of_nat (T + ?n)"
    proof -
      have "seg_pos u = of_nat ?pos" by simp
      also have "?pos = (T + ?n) + (?pos - ?n - T)" using T u by simp
      finally show ?thesis unfolding d by (metis add_diff_cancel_right' of_nat_add)
    qed
    then show ?thesis
      using True st u at move_loop_eq [OF le(1-3)] n0
      by (simp add: Pick_def stays_def buf'_def relocated_def)
  next
    case False
    then have "?pos = T + ?n" using T p S u by auto
    then have "seg_pos u = of_nat (T + ?n)" by (rule word_eq_of_natI)
    moreover obtain x xs where "u_data u = x # xs" using p(3) by (cases "u_data u") auto
    ultimately have "relocated T u = u" using u by (simp add: relocated_def seg_pos_def)
    then show ?thesis using False st u at le p T by (simp add: Pick_def stays_def buf'_def)
  qed
  moreover have "drop (?S - (T + unit_size u)) (View buf') = content ?V u @ drop (?S - T) ?V"
  proof -
    have "?S - (T + unit_size u) = ?S - T - ?n" "?S - (?pos - ?n) - ?n = ?S - ?pos" using T p u by auto
    then show ?thesis using drop_moved_part [of "?S - T" ?V ?n] S u by (simp add: view content_def)
  qed
  moreover have "agree ?pos ?V (View buf')"
  proof -
    have "length (View buf') = ?S" "?S - ?pos \<le> ?S - T - ?n" using length_View [OF ok'] T u(2) same by (auto simp: Size_def)
    then show ?thesis using take_moved_part [of "?S - T" ?V "?S - ?pos" ?n] S by (simp add: agree_def view)
  qed
  ultimately show thesis using that ok' same by blast
qed

text \<open>
  Units in the order in which they were put in front of the buffer, each with the width of its cell:
  segments follow each other from the position \<open>p\<close> on, and no unit is empty.
\<close>

fun stacked :: "nat \<Rightarrow> nat \<Rightarrow> Unit list \<Rightarrow> bool" where
  "stacked n p [] \<longleftrightarrow> p \<le> n"
| "stacked n p (u # us) \<longleftrightarrow> unit_ok n u \<and> 0 < unit_size u \<and>
    (if u_len u = 0 then p + unit_size u \<le> unat (seg_pos u) \<and> stacked n (unat (seg_pos u)) us else stacked n p us)"

fun picks :: "(nat \<times> Unit) list \<Rightarrow> Buffer \<Rightarrow> nat \<Rightarrow> ((nat \<times> Unit) list \<times> Buffer \<times> nat) option" where
  "picks [] buf tail = Some ([], buf, tail)"
| "picks ((m, u) # us) buf tail = do {
     (u, buf, tail) \<leftarrow> Pick u buf tail m;
     (us, buf, tail) \<leftarrow> picks us buf tail;
     Some ((m, u) # us, buf, tail)
   }"

fun packed :: "u32 list \<Rightarrow> nat \<Rightarrow> (nat \<times> Unit) list \<Rightarrow> (nat \<times> Unit) list" where
  "packed V T [] = []"
| "packed V T ((m, u) # us) =
    (if stays m u then (m, relocated T u) # packed V (T + unit_size u) us else (m, inlined V u) # packed V T us)"

fun kept :: "u32 list \<Rightarrow> (nat \<times> Unit) list \<Rightarrow> u32 list" where
  "kept V [] = []"
| "kept V ((m, u) # us) = kept V us @ (if stays m u then content V u else [])"

lemma picks_spec:
  assumes "buf_ok buf" and "Size buf < 2 ^ 32" and "\<forall>(m, u)\<in>set us. m \<le> 3" and "stacked (Size buf) p (map snd us)"
    and "T \<le> p" and "agree p V (View buf)"
  shows "\<exists>buf'. picks us buf (b_size buf - T) = Some (packed V T us, buf', b_size buf - (T + length (kept V us))) \<and>
    buf_ok buf' \<and> b_size buf' = b_size buf \<and> b_off buf' = b_off buf \<and> T + length (kept V us) \<le> Size buf \<and>
    drop (Size buf - (T + length (kept V us))) (View buf') = kept V us @ drop (Size buf - T) (View buf)"
  using assms
proof (induction us arbitrary: buf p T)
  case (Cons mu us)
  obtain m u where mu: "mu = (m, u)" by fastforce
  let ?p = "if u_len u = 0 then unat (seg_pos u) else p"
  have u: "unit_ok (Size buf) u" "0 < unit_size u" "u_len u = 0 \<longrightarrow> p + unit_size u \<le> unat (seg_pos u)"
      "stacked (Size buf) ?p (map snd us)" "p \<le> ?p"
    using Cons.prems(4) by (auto simp: mu split: if_splits)
  have len: "length V = Size buf" using Cons.prems(1,6) by (simp add: agree_def)
  have c: "content (View buf) u = content V u" using content_agree [OF Cons.prems(6)] u len by simp
  show ?case
  proof (cases "stays m u")
    case False
    have "picks us buf (b_size buf - T) = Some (packed V T us, buf', b_size buf - (T + length (kept V us))) \<Longrightarrow>
        picks (mu # us) buf (b_size buf - T) = Some (packed V T (mu # us), buf', b_size buf - (T + length (kept V (mu # us))))" for buf'
      using False Pick_inline [OF Cons.prems(1) u(1,2) False] Cons.prems(3) c by (simp add: mu inlined_def)
    moreover have "agree ?p V (View buf)" "T \<le> ?p" using agree_mono [OF Cons.prems(6) u(5)] u(5) Cons.prems(5) by auto
    ultimately show ?thesis using Cons.IH [OF Cons.prems(1,2) _ u(4)] Cons.prems(3) False by (fastforce simp: mu)
  next
    case True
    then have z: "u_len u = 0" by (simp add: stays_def)
    have T: "T + unit_size u \<le> unat (seg_pos u)" using u z Cons.prems(5) by simp
    obtain b1 where b1: "Pick u buf (b_size buf - T) m = Some (relocated T u, b1, b_size buf - (T + unit_size u))"
        "buf_ok b1" "b_size b1 = b_size buf" "b_off b1 = b_off buf"
        "drop (Size buf - (T + unit_size u)) (View b1) = content V u @ drop (Size buf - T) (View buf)"
        "agree (unat (seg_pos u)) (View buf) (View b1)"
      using Pick_moves [OF Cons.prems(1) u(1) True T Cons.prems(2)] c by metis
    have sz: "Size b1 = Size buf" by (simp add: Size_def b1)
    have "agree (unat (seg_pos u)) V (View b1)"
      using agree_trans [OF agree_mono [OF Cons.prems(6), of "unat (seg_pos u)"] b1(6)] u(5) z by simp
    with Cons.IH [of b1 "unat (seg_pos u)" "T + unit_size u"] b1(2) Cons.prems(2,3) u(4) z T obtain b2 where b2:
        "picks us b1 (b_size buf - (T + unit_size u)) =
          Some (packed V (T + unit_size u) us, b2, b_size buf - (T + unit_size u + length (kept V us)))"
        "buf_ok b2" "b_size b2 = b_size buf" "b_off b2 = b_off buf" "T + unit_size u + length (kept V us) \<le> Size buf"
        "drop (Size buf - (T + unit_size u + length (kept V us))) (View b2) = kept V us @ drop (Size buf - (T + unit_size u)) (View b1)"
      by (auto simp: sz b1(3,4))
    have "length (content V u) = unit_size u" using length_content [of V u] u(1) len by simp
    then have k: "T + length (kept V (mu # us)) = T + unit_size u + length (kept V us)" using True by (simp add: mu)
    show ?thesis unfolding k using True b1(1,5) b2 by (simp add: mu)
  qed
qed simp

end
