(* ===== verification/SerialArray.thy ===== *)
theory SerialArray
  imports SerialPack
begin

text \<open>
  The cells of arrays and maps, and that the array view of access.h finds the elements that
  \<open>SerializeArray\<close> of src/serialize.cc was given.
\<close>

subsection \<open>Writing cells\<close>

lemma Offset_props:
  assumes "unat w < 2 ^ 30"
  shows "Offset w AND 3 = 3" "drop_bit 2 (Offset w) = w"
proof -
  have three: "(3 :: u32) = mask 2" by (simp add: mask_eq_exp_minus_1)
  show "Offset w AND 3 = 3"
    unfolding Offset_def three by (rule bit_word_eqI) (auto simp: bit_simps)
  have w: "take_bit 30 w = w"
    using assms by (intro word_eq_unatI) (simp add: unsigned_take_bit_eq take_bit_nat_eq_self)
  have "drop_bit 2 (Offset w) = take_bit 30 w"
    unfolding Offset_def three by (rule bit_word_eqI) (auto simp: bit_simps)
  then show "drop_bit 2 (Offset w) = w" using w by simp
qed

text \<open>The cell of width \<open>m\<close> at the distance \<open>D\<close> from the end of the buffer.\<close>

definition cell_words :: "nat \<Rightarrow> nat \<Rightarrow> Unit \<Rightarrow> u32 list" where
  "cell_words m D u = (if u_len u = 0 then Offset (of_nat D - seg_pos u) # replicate (m - 1) 0
    else take (u_len u) (u_data u) @ replicate (m - u_len u) 0)"

definition cell_unit :: "nat \<Rightarrow> Unit \<Rightarrow> bool" where
  "cell_unit m u \<longleftrightarrow> 1 \<le> m \<and> m \<le> 3 \<and> u_len u \<le> m \<and> length (u_data u) = 3"

lemma length_cell_words [simp]: "cell_unit m u \<Longrightarrow> length (cell_words m D u) = m"
  by (auto simp: cell_words_def cell_unit_def)

lemma Expand_store2:
  assumes "buf_ok buf" and "n = length a + length b"
  shows "\<exists>b1 b2. store (Head (Expand n buf)) a (Expand n buf) = Some b1 \<and> Head b1 = Head (Expand n buf) \<and>
    store (Head (Expand n buf) + length a) b b1 = Some b2 \<and> buf_ok b2 \<and> View b2 = a @ b @ View buf"
proof -
  obtain old where e: "buf_ok (Expand n buf)" "length old = n" "View (Expand n buf) = old @ View buf"
    using Expand_spec [OF assms(1)] by blast
  have "View (Expand n buf) = [] @ take (length a) old @ drop (length a) old @ View buf" using e(3) by simp
  from store_spec [OF e(1) this, of a] obtain b1 where b1: "store (Head (Expand n buf)) a (Expand n buf) = Some b1" "buf_ok b1"
      "View b1 = a @ drop (length a) old @ View buf" "b_off b1 = b_off (Expand n buf)"
    using e(2) assms(2) by auto
  from store_spec [OF b1(2,3), of b] show ?thesis using b1 e(2) assms(2) by (auto simp: Head_def)
qed

lemma Size_Expand: "buf_ok buf \<Longrightarrow> Size (Expand n buf) = Size buf + n"
  using Expand_spec [of buf n] by (metis length_View length_append add.commute)

lemma Mark_spec:
  assumes "buf_ok buf" and "cell_unit m u"
  shows "\<exists>buf'. Mark u buf m = Some buf' \<and> buf_ok buf' \<and> View buf' = cell_words m (Size buf + m) u @ View buf"
proof (cases "u_len u = 0")
  case True
  then show ?thesis
    using Expand_store2 [OF assms(1), of m "[Offset (of_nat (Size buf + m) - seg_pos u)]" "replicate (m - 1) 0"] assms
    by (auto simp: Mark_def cell_words_def cell_unit_def Size_Expand)
next
  case False
  then show ?thesis
    using Expand_store2 [OF assms(1), of m "take (u_len u) (u_data u)" "replicate (m - u_len u) 0"] assms
    by (auto simp: Mark_def cell_words_def cell_unit_def)
qed

fun marks :: "(nat \<times> Unit) list \<Rightarrow> Buffer \<Rightarrow> Buffer option" where
  "marks [] buf = Some buf"
| "marks ((m, u) # us) buf = do { buf \<leftarrow> Mark u buf m; marks us buf }"

fun cells_of :: "nat \<Rightarrow> (nat \<times> Unit) list \<Rightarrow> u32 list" where
  "cells_of D [] = []"
| "cells_of D ((m, u) # us) = cells_of (D + m) us @ cell_words m (D + m) u"

definition width :: "(nat \<times> Unit) list \<Rightarrow> nat" where
  "width us = sum_list (map fst us)"

lemma width_simps [simp]: "width [] = 0" "width ((m, u) # us) = m + width us"
  by (simp_all add: width_def)

lemma length_cells_of: "\<forall>(m, u)\<in>set us. cell_unit m u \<Longrightarrow> length (cells_of D us) = width us"
  by (induction D us rule: cells_of.induct) auto

lemma marks_spec:
  assumes "buf_ok buf" and "\<forall>(m, u)\<in>set us. cell_unit m u"
  shows "\<exists>buf'. marks us buf = Some buf' \<and> buf_ok buf' \<and> View buf' = cells_of (Size buf) us @ View buf"
  using assms
proof (induction us arbitrary: buf)
  case (Cons mu us)
  obtain m u where mu: "mu = (m, u)" by fastforce
  obtain b1 where b1: "Mark u buf m = Some b1" "buf_ok b1" "View b1 = cell_words m (Size buf + m) u @ View buf"
    using Mark_spec [OF Cons.prems(1), of m u] Cons.prems(2) by (auto simp: mu)
  have "Size b1 = Size buf + m"
    using length_View [OF b1(2)] length_View [OF Cons.prems(1)] Cons.prems(2) by (simp add: b1(3) mu)
  then show ?case using Cons.IH [OF b1(2)] Cons.prems(2) b1 by (auto simp: mu)
qed simp

subsection \<open>Reading cells\<close>

text \<open>The cell of width \<open>m\<close> at the index \<open>p\<close> of a block stands for the words \<open>ws\<close>.\<close>

definition cell_ok :: "mem \<Rightarrow> nat \<Rightarrow> nat \<Rightarrow> u32 list \<Rightarrow> bool" where
  "cell_ok M p m ws \<longleftrightarrow> 1 \<le> m \<and> p + m \<le> length M \<and>
    (if length ws \<le> m then holds M p (ws @ replicate (m - length ws) 0)
     else M ! p AND 3 = 3 \<and> holds M (p + unat (drop_bit 2 (M ! p))) ws)"

lemma holds_append: "holds M p ws \<Longrightarrow> holds (X @ M @ Y) (length X + p) ws"
  by (auto simp: holds_def)

lemma holds_trans:
  assumes "holds M P A" and "holds A p ws"
  shows "holds M (P + p) ws"
proof -
  obtain X Y where "M = X @ A @ Y" "length X = P" by (rule holdsE [OF assms(1)])
  then show ?thesis using holds_append [OF assms(2), of X Y] by simp
qed

lemma cell_ok_trans:
  assumes "holds M P A" and "cell_ok A p m ws"
  shows "cell_ok M (P + p) m ws"
proof -
  obtain X Y where M: "M = X @ A @ Y" "length X = P" by (rule holdsE [OF assms(1)])
  have "M ! (P + p) = A ! p" using assms(2) by (auto simp: M cell_ok_def nth_append)
  then show ?thesis
    using assms holds_trans [OF assms(1)] by (auto simp: cell_ok_def M add.assoc)
qed

lemma holds_take: "holds M p ws \<Longrightarrow> p + length ws \<le> L \<Longrightarrow> holds (take L M) p ws"
  by (auto simp: holds_def drop_take min_def)

lemma cell_ok_take:
  assumes "cell_ok M p m ws" and "p + m \<le> L" and "m < length ws \<Longrightarrow> p + unat (drop_bit 2 (M ! p)) + length ws \<le> L"
  shows "cell_ok (take L M) p m ws"
  using assms holds_take [of M] by (auto simp: cell_ok_def min_def)

lemma holds_suffix: "D \<le> length M \<Longrightarrow> drop (length M - D) M = ws @ rest \<Longrightarrow> holds M (length M - D) ws"
  by (metis append_take_drop_id diff_le_self holdsI length_take min_absorb2)

lemma seg_pos_relocated: "length (u_data u) = 3 \<Longrightarrow> seg_pos (relocated T u) = of_nat (T + unit_size u)"
  "u_len (relocated T u) = u_len u"
  by (simp_all add: seg_pos_def relocated_def)

lemma inlined_content:
  assumes "unit_ok (length V) u" and "0 < unit_size u"
  shows "u_len (inlined V u) = unit_size u" "take (unit_size u) (u_data (inlined V u)) = content V u"
  using assms length_content [OF assms(1)] by (auto simp: inlined_def unit_size_def content_def)

lemma cell_inline:
  assumes "unit_ok (length V) u" and "0 < unit_size u"
  shows "cell_words m D (inlined V u) = content V u @ replicate (m - unit_size u) 0"
  using assms(2) inlined_content [OF assms] by (simp add: cell_words_def)

lemma drop_after: "drop a M = xs @ ys \<Longrightarrow> a + length xs = b \<Longrightarrow> drop b M = ys"
  by (metis add.commute append_eq_conv_conj drop_drop)

text \<open>What arrays and maps require of a unit and the width of its cell.\<close>

definition fits_cell :: "nat \<Rightarrow> nat \<Rightarrow> Unit \<Rightarrow> bool" where
  "fits_cell n m u \<longleftrightarrow> unit_ok n u \<and> 0 < unit_size u \<and> 1 \<le> m \<and> m \<le> 3 \<and> u_len u \<le> m"

lemma packed_cells:
  assumes "\<forall>(m, u)\<in>set us. fits_cell (length V) m u"
  shows "\<forall>(m, u)\<in>set (packed V T us). cell_unit m u" "map fst (packed V T us) = map fst us"
proof -
  show "map fst (packed V T us) = map fst us" by (induction V T us rule: packed.induct) auto
  have "cell_unit m (inlined V u)" if "fits_cell (length V) m u" "\<not> stays m u" for m u
    using that inlined_content [of V u] length_content [of V u]
    by (auto simp: fits_cell_def cell_unit_def stays_def inlined_def unit_ok_def unit_size_def)
  moreover have "cell_unit m (relocated T u)" if "fits_cell (length V) m u" for T m u
    using that by (auto simp: fits_cell_def cell_unit_def relocated_def unit_ok_def)
  ultimately show "\<forall>(m, u)\<in>set (packed V T us). cell_unit m u"
    using assms by (induction V T us rule: packed.induct) auto
qed

lemma length_cells: "\<forall>(m, u)\<in>set us. fits_cell (length V) m u \<Longrightarrow> length (cells_of D (packed V T us)) = width us"
  using length_cells_of [OF packed_cells(1)] packed_cells(2) by (simp add: width_def)

lemma kept_step:
  assumes "drop (length M - (T + length (kept V ((m, u) # us)))) M = kept V ((m, u) # us) @ drop (length M - T) M"
    and "stays m u" and "length (content V u) = unit_size u" and "T + length (kept V ((m, u) # us)) \<le> length M"
  shows "drop (length M - (T + unit_size u)) M = content V u @ drop (length M - T) M"
    and "drop (length M - (T + unit_size u + length (kept V us))) M = kept V us @ content V u @ drop (length M - T) M"
proof -
  have k: "T + length (kept V ((m, u) # us)) = T + unit_size u + length (kept V us)" using assms(2,3) by simp
  show d: "drop (length M - (T + unit_size u + length (kept V us))) M = kept V us @ content V u @ drop (length M - T) M"
    using assms(1) unfolding k using assms(2) by simp
  show "drop (length M - (T + unit_size u)) M = content V u @ drop (length M - T) M"
    using assms(4) unfolding k by (intro drop_after [OF d]) simp
qed

text \<open>The cell of a unit that stays behind its cell.\<close>

lemma cell_offset:
  assumes "fits_cell (length V) m u" and "stays m u" and "holds M p (cell_words m (D + m) (relocated T u))"
    and p: "p = length M - (D + m)" "D + m \<le> length M" and T: "T + unit_size u \<le> D" "D + m < 2 ^ 32" "D + m - T < 2 ^ 30"
    and c: "drop (length M - (T + unit_size u)) M = content V u @ rest"
  shows "cell_ok (take (length M - T) M) p m (content V u)"
proof -
  have u: "length (u_data u) = 3" "u_len u = 0" "1 \<le> m" "m \<le> 3" using assms(1,2) by (auto simp: fits_cell_def unit_ok_def stays_def)
  have len: "length (content V u) = unit_size u" using assms(1) length_content by (simp add: fits_cell_def)
  let ?off = "D + m - (T + unit_size u)"
  have "(of_nat (D + m) - of_nat (T + unit_size u) :: u32) = of_nat ?off" using T(1) by (simp add: of_nat_diff)
  moreover have "unat (of_nat ?off :: u32) = ?off" using T by (intro unat_of_nat_32) linarith
  ultimately have w: "cell_words m (D + m) (relocated T u) = Offset (of_nat ?off) # replicate (m - 1) 0"
      "Offset (of_nat ?off) AND 3 = 3" "unat (drop_bit 2 (Offset (of_nat ?off :: u32))) = ?off"
    using u T Offset_props [of "of_nat ?off"] by (simp_all add: cell_words_def seg_pos_relocated)
  have Mp: "M ! p = Offset (of_nat ?off)"
    using assms(3) unfolding w(1) by (auto elim!: holdsE simp: nth_append)
  moreover have "p + m \<le> length M" using p by simp
  moreover have "holds M (p + ?off) (content V u)"
    using holds_suffix [OF _ c] p T by simp
  ultimately have "cell_ok M p m (content V u)" using w assms(2) u by (simp add: cell_ok_def len stays_def)
  moreover have "p + unat (drop_bit 2 (M ! p)) + unit_size u \<le> length M - T" unfolding Mp w(3) using p T by linarith
  moreover have "p + m \<le> length M - T" using p T by linarith
  ultimately show ?thesis by (intro cell_ok_take) (simp_all add: len)
qed

text \<open>Where the cells are, counted from the end of the block.\<close>

lemma cells_read:
  assumes "\<forall>(m, u)\<in>set us. fits_cell (length V) m u"
    and "D + width us \<le> length M" and "\<exists>rest. drop (length M - (D + width us)) M = cells_of D (packed V T us) @ rest"
    and "drop (length M - (T + length (kept V us))) M = kept V us @ drop (length M - T) M" and "T + length (kept V us) \<le> D"
    and "D + width us < 2 ^ 32" and "D + width us - T < 2 ^ 30" and "j < length us"
  shows "cell_ok (take (length M - T) M) (length M - (D + width (take (Suc j) us))) (fst (us ! j)) (content V (snd (us ! j)))"
  using assms
proof (induction us arbitrary: D T j)
  case (Cons mu us)
  obtain m u where mu: "mu = (m, u)" by fastforce
  have u: "fits_cell (length V) m u" "unit_ok (length V) u" "0 < unit_size u" using Cons.prems(1) by (auto simp: mu fits_cell_def)
  have len: "length (content V u) = unit_size u" using length_content [OF u(2)] .
  let ?T = "if stays m u then T + unit_size u else T" and ?u = "if stays m u then relocated T u else inlined V u"
  obtain rest where rest: "drop (length M - (D + m + width us)) M = cells_of (D + m) (packed V ?T us) @ cell_words m (D + m) ?u @ rest"
    using Cons.prems(3) by (auto simp: mu add.assoc split: if_splits)
  have le: "T + length (kept V (mu # us)) \<le> length M" "D + m \<le> length M" using Cons.prems(2,5) by (simp_all add: mu)
  note k = kept_step [OF Cons.prems(4) [unfolded mu] _ len le(1) [unfolded mu]]
  show ?case
  proof (cases j)
    case (Suc i)
    have "drop (length M - (?T + length (kept V us))) M = kept V us @ drop (length M - ?T) M"
      using k Cons.prems(4) by (cases "stays m u") (simp_all add: mu)
    then have "cell_ok (take (length M - ?T) M) (length M - (D + m + width (take (Suc i) us))) (fst (us ! i)) (content V (snd (us ! i)))"
      using Cons.prems rest Suc len by (intro Cons.IH [of "D + m" ?T]) (auto simp: mu add.assoc split: if_splits)
    moreover have "holds (take (length M - T) M) 0 (take (length M - ?T) M)" by (simp add: holds_def min_def)
    ultimately show ?thesis using cell_ok_trans [of "take (length M - T) M" 0] by (simp add: mu Suc add.assoc)
  next
    case 0
    let ?p = "length M - (D + m)"
    have "length (cells_of (D + m) (packed V ?T us)) = width us" using Cons.prems(1) by (intro length_cells) simp
    then have "drop ?p M = cell_words m (D + m) ?u @ rest"
      using Cons.prems(2) by (intro drop_after [OF rest]) (simp add: mu)
    then have cell: "holds M ?p (cell_words m (D + m) ?u)" using holds_suffix [OF le(2)] by simp
    have "cell_ok (take (length M - T) M) ?p m (content V u)"
    proof (cases "stays m u")
      case True
      then show ?thesis
        using cell Cons.prems(5-7) len by (intro cell_offset [OF u(1) True _ refl le(2) _ _ _ k(1)]) (simp_all add: mu)
    next
      case False
      then have fit: "unit_size u \<le> m" using u(1) by (auto simp: fits_cell_def stays_def unit_size_def)
      then have "cell_ok M ?p m (content V u)"
        using False cell u(1) le len cell_inline [OF u(2,3)] by (auto simp: cell_ok_def fits_cell_def)
      then show ?thesis using fit le len Cons.prems(5) by (rule_tac cell_ok_take) auto
    qed
    then show ?thesis by (simp add: mu 0)
  qed
qed simp

subsection \<open>The layout of the elements\<close>

lemma stays_iff: "fits_cell n m u \<Longrightarrow> stays m u \<longleftrightarrow> m < unit_size u"
  by (auto simp: fits_cell_def stays_def unit_size_def split: if_splits)

lemma length_kept:
  assumes "\<forall>(m, u)\<in>set us. fits_cell (length V) m u"
  shows "length (kept V us) + width us = (\<Sum>(m, u)\<leftarrow>us. m + (if m < unit_size u then unit_size u else 0))"
  using assms
proof (induction V us rule: kept.induct)
  case (2 V m u us)
  then have "fits_cell (length V) m u" by simp
  then have "length (content V u) = unit_size u" "stays m u \<longleftrightarrow> m < unit_size u" using length_content stays_iff by (auto simp: fits_cell_def)
  then show ?case using 2 by simp
qed simp

text \<open>
  Picking and marking the elements replaces everything behind \<open>lst\<close> by a body in which the cell of
  every element stands for what the element stood for.
\<close>

lemma layout_spec:
  assumes ok: "buf_ok buf" "Size buf < 2 ^ 32" and us: "\<forall>(m, u)\<in>set us. fits_cell (Size buf) m u"
    and st: "stacked (Size buf) lst (map snd us)" "lst \<le> Size buf" and size: "length (kept (View buf) us) + width us < 2 ^ 30"
      "lst + length (kept (View buf) us) + width us < 2 ^ 32"
  obtains b1 tail b2 B where "picks us buf (b_size buf - lst) = Some (packed (View buf) lst us, b1, tail)" "Head b1 \<le> tail"
    "marks (packed (View buf) lst us) (Shrink (tail - Head b1) b1) = Some b2" "buf_ok b2"
    "View b2 = B @ drop (Size buf - lst) (View buf)" "length B = length (kept (View buf) us) + width us"
    "\<And>j. j < length us \<Longrightarrow> cell_ok B (width us - width (take (Suc j) us)) (fst (us ! j)) (content (View buf) (snd (us ! j)))"
    "B = cells_of (lst + length (kept (View buf) us)) (packed (View buf) lst us) @ kept (View buf) us"
proof -
  let ?V = "View buf" and ?S = "Size buf" and ?K = "kept (View buf) us" and ?base = "drop (Size buf - lst) (View buf)"
  have len: "length ?V = ?S" using length_View ok(1) .
  have m3: "\<forall>(m, u)\<in>set us. m \<le> 3" using us by (auto simp: fits_cell_def)
  have us': "\<forall>(m, u)\<in>set us. fits_cell (length ?V) m u" using us len by simp
  let ?tail = "b_size buf - (lst + length ?K)"
  obtain b1 where b1: "picks us buf (b_size buf - lst) = Some (packed ?V lst us, b1, ?tail)" "buf_ok b1"
      "b_size b1 = b_size buf" "b_off b1 = b_off buf" "lst + length ?K \<le> ?S" "drop (?S - (lst + length ?K)) (View b1) = ?K @ ?base"
    using picks_spec [OF ok m3 st(1) order.refl agree_refl] by auto
  have head: "Head b1 \<le> ?tail" "?tail - Head b1 = ?S - (lst + length ?K)" "Size b1 = ?S"
    using b1(3-5) ok(1) by (auto simp: Head_def Size_def buf_ok_def)
  let ?b = "Shrink (?tail - Head b1) b1"
  have b: "buf_ok ?b" "View ?b = ?K @ ?base" using Shrink_spec [OF b1(2), of "?tail - Head b1"] b1(6) head by auto
  have sz: "Size ?b = lst + length ?K" using length_View [OF b(1)] st(2) len unfolding b(2) by simp
  obtain b2 where b2: "marks (packed ?V lst us) ?b = Some b2" "buf_ok b2" "View b2 = cells_of (lst + length ?K) (packed ?V lst us) @ ?K @ ?base"
    using marks_spec [OF b(1) packed_cells(1) [OF us']] b(2) sz by auto
  define B where "B = cells_of (lst + length ?K) (packed ?V lst us) @ ?K"
  have lenB: "length B = length ?K + width us" using length_cells [OF us'] by (simp add: B_def)
  have base: "length ?base = lst" using len st(2) by simp
  have "cell_ok B (width us - width (take (Suc j) us)) (fst (us ! j)) (content ?V (snd (us ! j)))" if j: "j < length us" for j
  proof -
    let ?M = "B @ ?base"
    have M: "length ?M = lst + length ?K + width us" using lenB base by simp
    have M1: "?M = cells_of (lst + length ?K) (packed ?V lst us) @ (?K @ ?base)" by (simp only: B_def append.assoc)
    have "length ?M - (lst + length ?K) = length (cells_of (lst + length ?K) (packed ?V lst us))" "length ?M - lst = length B"
      unfolding M using length_cells [OF us', of "lst + length ?K" lst] lenB by simp_all
    then have d: "drop (length ?M - (lst + length ?K)) ?M = ?K @ drop (length ?M - lst) ?M"
      using M1 append_eq_conv_conj by metis
    have c: "\<exists>rest. drop (length ?M - (lst + length ?K + width us)) ?M = cells_of (lst + length ?K) (packed ?V lst us) @ rest"
      unfolding M diff_self_eq_0 drop_0 using M1 by blast
    have "cell_ok (take (length ?M - lst) ?M) (length ?M - (lst + length ?K + width (take (Suc j) us))) (fst (us ! j)) (content ?V (snd (us ! j)))"
      using size M by (intro cells_read [OF us' _ c d order.refl _ _ j]) linarith+
    then show ?thesis using M lenB by simp
  qed
  then show thesis using that [OF b1(1) head(1) b2(1,2)] b2(3) lenB by (simp add: B_def)
qed

subsection \<open>Arrays\<close>

lemma pick_loop_eq:
  "pick_loop m us buf tail = map_option (\<lambda>(us, buf, tail). (map snd us, buf, tail)) (picks (map (Pair m) us) buf tail)"
proof (induction us arbitrary: buf tail)
  case (Cons u us)
  show ?case
    by (cases "Pick u buf tail m") (auto simp: Cons bind_map_option split: bind_splits prod.splits intro!: option.expand)
qed simp

lemma mark_loop_eq: "mark_loop m us buf = marks (map (Pair m) us) buf"
  by (induction us arbitrary: buf) (auto split: bind_splits)

lemma map_Pair_snd:
  assumes "map fst xs = map (\<lambda>_. m) ys"
  shows "map (Pair m) (map snd xs) = xs"
proof (rule nth_equalityI)
  show "map (Pair m) (map snd xs) ! i = xs ! i" if "i < length (map (Pair m) (map snd xs))" for i
  proof -
    have "fst (xs ! i) = map fst xs ! i" using that by simp
    also have "\<dots> = m" using that assms map_eq_imp_length_eq [OF assms] by simp
    finally show ?thesis using that by (simp add: prod_eq_iff)
  qed
qed simp

lemma stacked_units: "stacked n p us \<Longrightarrow> (\<forall>u\<in>set us. unit_ok n u \<and> 0 < unit_size u) \<and> p \<le> n"
  by (induction us arbitrary: p) (fastforce split: if_splits)+

text \<open>The head word of an array.\<close>

lemma array_head:
  assumes "n < 2 ^ 30" and "m \<le> 3"
  defines "h \<equiv> push_bit 2 (of_nat n) OR of_nat m :: u32"
  shows "h AND 3 = of_nat m" "drop_bit 2 h = of_nat n"
proof -
  have m: "unat (of_nat m :: u32) = m" and n: "unat (push_bit 2 (of_nat n) :: u32) = 4 * n"
    using assms by (simp_all add: unat_of_nat unat_push_bit)
  have "\<not> (bit (push_bit 2 (of_nat n) :: u32) k \<and> bit (of_nat m :: u32) k)" for k
  proof (cases "k < 2")
    case False
    have "of_nat m = (take_bit 2 (of_nat m) :: u32)"
      using assms(2) m by (intro word_eq_unatI) (simp add: unsigned_take_bit_eq take_bit_nat_eq_self)
    then show ?thesis using False by (metis bit_take_bit_iff)
  qed (simp add: bit_push_bit_iff)
  then have "h = push_bit 2 (of_nat n) + of_nat m" unfolding h_def by (intro disjunctive_add [symmetric]) auto
  then have h: "unat h = 4 * n + m" using n m assms by (simp add: unat_word_ariths)
  show "h AND 3 = of_nat m" using h m assms(2) by (intro word_eq_unatI) (simp add: unat_and_3)
  show "drop_bit 2 h = of_nat n" using assms(1,2) by (intro word_eq_unatI) (simp only: unat_drop_bit h unat_of_nat, simp)
qed

text \<open>The words of an array with the given contents, and cells of width \<open>m\<close>.\<close>

definition array_words :: "nat \<Rightarrow> u32 list list \<Rightarrow> u32 list \<Rightarrow> bool" where
  "array_words m wss A \<longleftrightarrow> 1 \<le> m \<and> m \<le> 3 \<and> length wss < 2 ^ 30 \<and> 1 + m * length wss \<le> length A \<and>
    A ! 0 = push_bit 2 (of_nat (length wss)) OR of_nat m \<and> (\<forall>i<length wss. cell_ok A (1 + m * i) m (wss ! i))"

lemma width_Pair: "width (map (Pair m) us) = m * length us"
  by (induction us) simp_all

lemma cost_rev: "cost m (rev us) = cost m us"
  by (simp add: cost_def sum_list_rev flip: rev_map)

lemma cost_ge: "m * length us \<le> cost m us"
  by (induction us) (simp_all add: cost_def)

lemma SerializeArray_spec:
  assumes ok: "buf_ok buf" "Size buf < 2 ^ 32" and ne: "elements \<noteq> []" and best: "BestArraySize elements = (sz, m)" "sz < 2 ^ 30"
    and st: "stacked (Size buf) lst (rev elements)" and inl: "\<forall>u\<in>set elements. u_len u \<le> m" and room: "lst + 1 + sz < 2 ^ 32"
  obtains buf' A where "SerializeArray elements buf lst u = Some (True, buf', Segment lst (Size buf'))"
    "emitted (drop (Size buf - lst) (View buf)) A buf' (Segment lst (Size buf'))"
    "length A = 1 + sz" "array_words m (map (content (View buf)) elements) A"
    "tl A = cells_of (lst + length (kept (View buf) (map (Pair m) (rev elements)))) (packed (View buf) lst (map (Pair m) (rev elements))) @
      kept (View buf) (map (Pair m) (rev elements))"
proof -
  let ?us = "map (Pair m) (rev elements)" and ?V = "View buf" and ?n = "length elements"
  have m: "m \<in> {1, 2, 3}" "sz = cost m elements" using BestArraySize_spec [OF best(1)] by auto
  have lst: "lst \<le> Size buf" and fit: "\<forall>(m, u)\<in>set ?us. fits_cell (Size buf) m u"
    using stacked_units [OF st] inl m(1) by (auto simp: fits_cell_def)
  have "\<forall>(m, u)\<in>set ?us. fits_cell (length ?V) m u" using fit length_View [OF ok(1)] by simp
  from length_kept [OF this] have k: "length (kept ?V ?us) + width ?us = sz"
    using cost_rev [of m elements] m(2) by (simp add: cost_def o_def)
  obtain b1 tail b2 B where b: "picks ?us buf (b_size buf - lst) = Some (packed ?V lst ?us, b1, tail)" "Head b1 \<le> tail"
      "marks (packed ?V lst ?us) (Shrink (tail - Head b1) b1) = Some b2" "buf_ok b2" "View b2 = B @ drop (Size buf - lst) ?V" "length B = length (kept ?V ?us) + width ?us"
      "\<And>j. j < length ?us \<Longrightarrow> cell_ok B (width ?us - width (take (Suc j) ?us)) (fst (?us ! j)) (content ?V (snd (?us ! j)))"
      "B = cells_of (lst + length (kept ?V ?us)) (packed ?V lst ?us) @ kept ?V ?us"
    by (rule layout_spec [OF ok fit _ lst _ _]) (use st best(2) room k in \<open>simp_all add: o_def\<close>)
  have lenB: "length B = sz" using b(6) k by simp
  let ?h = "push_bit 2 (of_nat ?n) OR of_nat m :: u32"
  obtain b3 where b3: "Put ?h b2 = Some b3" "buf_ok b3" "View b3 = (?h # B) @ drop (Size buf - lst) ?V"
    using Put_slice_spec [OF b(4), of "[?h]"] b(5) by (auto simp: Put_eq_Put_slice)
  have base: "length (drop (Size buf - lst) ?V) = lst" using length_View [OF ok(1)] lst by simp
  have "Size b3 < 2 ^ 32" using length_View [OF b3(2)] base room lenB by (simp add: b3(3))
  then have "emitted (drop (Size buf - lst) ?V) (?h # B) b3 (Segment lst (Size b3))"
    using emitted_segment [OF b3(2,3)] base by simp
  moreover have "map (Pair m) (map snd (packed ?V lst ?us)) = packed ?V lst ?us"
    using packed_cells(2) [OF \<open>\<forall>(m, u)\<in>set ?us. fits_cell (length ?V) m u\<close>] by (intro map_Pair_snd) (simp add: o_def)
  then have "SerializeArray elements buf lst u = Some (True, b3, Segment lst (Size b3))"
    using ne best lst b(1-3) b3(1) by (simp add: SerializeArray_def buf_at_def At_def Size_def pick_loop_eq mark_loop_eq not_less)
  moreover have "array_words m (map (content ?V) elements) (?h # B)"
  proof -
    have "cell_ok (?h # B) (1 + m * i) m (content ?V (elements ! i))" if i: "i < ?n" for i
    proof -
      let ?j = "?n - 1 - i"
      have j: "?j < length ?us" "?us ! ?j = (m, elements ! i)" using i by (simp_all add: rev_nth)
      have sj: "Suc ?j = ?n - i" using i by simp
      have "width ?us - width (take (Suc ?j) ?us) = m * i"
        unfolding sj using i by (simp add: width_Pair take_map min_absorb2 diff_mult_distrib2 [symmetric])
      then have "cell_ok B (m * i) m (content ?V (elements ! i))" using b(7) [OF j(1)] j(2) by simp
      moreover have "holds (?h # B) 1 B" using holdsI [of "[?h]" B "[]"] by simp
      ultimately show ?thesis using cell_ok_trans by blast
    qed
    moreover have "m * ?n \<le> sz" "?n \<le> m * ?n" using cost_ge m by auto
    ultimately show ?thesis using m(1) best(2) lenB by (auto simp: array_words_def)
  qed
  ultimately show thesis using that b(8) lenB by (metis length_Cons Suc_eq_plus1_left list.sel(3))
qed

subsection \<open>Reading elements back\<close>

text \<open>Objects whose first word is not taken for an offset when they are kept in a cell.\<close>

definition plain :: "u32 list \<Rightarrow> bool" where
  "plain ws \<longleftrightarrow> ws \<noteq> [] \<and> (length ws \<le> 3 \<longrightarrow> ws ! 0 AND 3 \<noteq> 3)"

text \<open>Through the field \<open>f\<close> the views reach the words \<open>ws\<close>: by value when they fit, as an object otherwise.\<close>

definition field_reads :: "mem \<Rightarrow> Field \<Rightarrow> u32 list \<Rightarrow> bool" where
  "field_reads mem f ws \<longleftrightarrow>
    (length ws \<le> f_width f \<longrightarrow> (\<exists>q. GetValue f (Some (length mem)) = slice q (f_width f) \<and>
      holds mem q (ws @ replicate (f_width f - length ws) 0))) \<and>
    (plain ws \<or> f_width f < length ws \<longrightarrow> (\<exists>q. GetObject mem f (Some (length mem)) = Some (Some q) \<and> holds mem q ws))"

lemma holds_prefix: "holds mem p (ws @ zs) \<Longrightarrow> holds mem p ws"
  by (auto simp: holds_def take_add intro: append_eq_append_conv [THEN iffD1, THEN conjunct1])

lemma cell_reads:
  assumes "cell_ok mem p m ws" and "m \<le> 3"
  shows "field_reads mem \<lparr>f_ptr = Some p, f_width = m\<rparr> ws"
proof (cases "length ws \<le> m")
  case True
  have h: "holds mem p (ws @ replicate (m - length ws) 0)" "p + m \<le> length mem" "1 \<le> m" using assms(1) True by (auto simp: cell_ok_def)
  have "GetObject mem \<lparr>f_ptr = Some p, f_width = m\<rparr> (Some (length mem)) = Some (Some p) \<and> holds mem p ws" if "plain ws"
  proof -
    have "mem ! p = ws ! 0" using h(1) that by (auto elim!: holdsE simp: plain_def nth_append)
    then show ?thesis using that True assms(2) h holds_prefix [OF h(1)] by (simp add: GetObject_def plain_def Let_def)
  qed
  then show ?thesis using True h by (auto simp: field_reads_def GetValue_def)
next
  case False
  let ?q = "p + unat (drop_bit 2 (mem ! p))"
  have h: "mem ! p AND 3 = 3" "holds mem ?q ws" "p < length mem" using assms(1) False by (auto simp: cell_ok_def)
  then have "?q < length mem" using False by (auto simp: holds_def)
  then show ?thesis using False h by (simp add: field_reads_def GetObject_def Let_def)
qed

text \<open>The view of serialized array words, and its fields.\<close>

definition array_view :: "nat \<Rightarrow> nat \<Rightarrow> nat \<Rightarrow> Array" where
  "array_view P m n = \<lparr>a_body = Some (P + 1), a_size = of_nat n, a_width = of_nat m\<rparr>"

lemma array_view_init:
  assumes "array_words m wss A" and "holds mem P A"
  shows "Array_init mem (Some P) (Some (length mem)) = Some (array_view P m (length wss))"
    and "unat (of_nat (length wss) :: u32) = length wss" "unat (of_nat m :: u32) = m"
    and "i < length wss \<Longrightarrow> Array_at (array_view P m (length wss)) (of_nat i) = Some \<lparr>f_ptr = Some (P + (1 + m * i)), f_width = m\<rparr>"
    and "i < length wss \<Longrightarrow> field_reads mem \<lparr>f_ptr = Some (P + (1 + m * i)), f_width = m\<rparr> (wss ! i)"
proof -
  let ?n = "length wss"
  have A: "1 \<le> m" "m \<le> 3" "?n < 2 ^ 30" "1 + m * ?n \<le> length A" "A ! 0 = push_bit 2 (of_nat ?n) OR of_nat m"
      "\<And>i. i < ?n \<Longrightarrow> cell_ok A (1 + m * i) m (wss ! i)"
    using assms(1) by (auto simp: array_words_def)
  have P: "P < length mem" "mem ! P = A ! 0" "P + 1 + m * ?n \<le> length mem"
    using assms(2) A(4) by (auto elim!: holdsE simp: nth_append)
  have u: "unat (of_nat m :: u32) = m" "unat (of_nat i :: u32) = i" if "i \<le> ?n" for i
    using A that by (simp_all add: unat_of_nat)
  have prod: "unat (of_nat m * of_nat i :: u32) = m * i" if "i \<le> ?n" for i
    using array_product [of "of_nat m" "of_nat i"] u that A by simp
  have "(of_nat m :: u32) \<noteq> 0" using u(1) [OF order.refl] A(1) by auto
  then show "Array_init mem (Some P) (Some (length mem)) = Some (array_view P m ?n)"
    using P A(1) u [OF order.refl] prod [OF order.refl] array_head [OF A(3,2)]
    by (simp add: Array_init_def A(5) Let_def array_view_def)
  show "unat (of_nat ?n :: u32) = ?n" "unat (of_nat m :: u32) = m" using u [OF order.refl] by simp_all
  show "Array_at (array_view P m ?n) (of_nat i) = Some \<lparr>f_ptr = Some (P + (1 + m * i)), f_width = m\<rparr>" if "i < ?n"
    using prod [of i] u [of i] that by (simp add: Array_at_def array_view_def)
  show "field_reads mem \<lparr>f_ptr = Some (P + (1 + m * i)), f_width = m\<rparr> (wss ! i)" if "i < ?n"
    using cell_reads [OF cell_ok_trans [OF assms(2) A(6) [OF that]] A(2)] .
qed

lemma array_read:
  assumes "array_words m wss A" and "holds mem P A"
  shows "\<exists>a. Array_init mem (Some P) (Some (length mem)) = Some a \<and> a_body a \<noteq> None \<and> unat (a_size a) = length wss \<and>
    (\<forall>i<length wss. \<exists>f. Array_at a (of_nat i) = Some f \<and> field_reads mem f (wss ! i))"
  using array_view_init [OF assms] by (auto simp: array_view_def)

text \<open>
  Claim C3: an array of units that were put in front of the buffer from the last to the first is
  serialized within its size limit; the words behind \<open>lst\<close> are untouched, and wherever the words of
  the array are placed, the array view has the size and every element that the units stood for.
\<close>

theorem array_roundtrip:
  assumes "buf_ok buf" "Size buf < 2 ^ 32" and "elements \<noteq> []" and "BestArraySize elements = (sz, m)" "sz < 2 ^ 30"
    and "stacked (Size buf) lst (rev elements)" and "\<forall>u\<in>set elements. u_len u \<le> m" and "lst + 1 + sz < 2 ^ 32"
  shows "\<exists>buf' A. SerializeArray elements buf lst u = Some (True, buf', Segment lst (Size buf')) \<and> buf_ok buf' \<and>
    View buf' = A @ drop (Size buf - lst) (View buf) \<and> content (View buf') (Segment lst (Size buf')) = A \<and>
    (\<forall>mem P. holds mem P A \<longrightarrow> (\<exists>a. Array_init mem (Some P) (Some (length mem)) = Some a \<and> unat (a_size a) = length elements \<and>
      (\<forall>i<length elements. \<exists>f. Array_at a (of_nat i) = Some f \<and> field_reads mem f (content (View buf) (elements ! i)))))"
proof -
  obtain buf' A where s: "SerializeArray elements buf lst u = Some (True, buf', Segment lst (Size buf'))"
      "emitted (drop (Size buf - lst) (View buf)) A buf' (Segment lst (Size buf'))"
      "array_words m (map (content (View buf)) elements) A"
    by (rule SerializeArray_spec [OF assms])
  have "\<exists>a. Array_init mem (Some P) (Some (length mem)) = Some a \<and> unat (a_size a) = length elements \<and>
      (\<forall>i<length elements. \<exists>f. Array_at a (of_nat i) = Some f \<and> field_reads mem f (content (View buf) (elements ! i)))"
    if "holds mem P A" for mem P
    using array_read [OF s(3) that] by auto
  then show ?thesis using s(1,2) by (auto simp: emitted_def)
qed

theorem array_roundtrip_witness:
  "\<exists>buf' A. SerializeArray [\<lparr>u_len = 1, u_data = [7, 0, 0]\<rparr>, \<lparr>u_len = 1, u_data = [9, 0, 0]\<rparr>] (empty_buffer (\<lambda>i. 0)) 0 unit_init =
    Some (True, buf', Segment 0 (Size buf')) \<and> View buf' = A \<and>
    (\<exists>a. Array_init A (Some 0) (Some (length A)) = Some a \<and> unat (a_size a) = 2)"
proof -
  let ?us = "[\<lparr>u_len = 1, u_data = [7, 0, 0]\<rparr>, \<lparr>u_len = 1, u_data = [9, 0, 0]\<rparr>]" and ?b = "empty_buffer (\<lambda>i. 0)"
  have best: "BestArraySize ?us = (2, 1)" by (simp add: BestArraySize_def Let_def)
  have st: "stacked (Size ?b) 0 (rev ?us)" by (simp add: unit_ok_def unit_size_def)
  have sz: "Size ?b < 2 ^ 32" by (simp add: Size_def empty_buffer_def)
  have p: "?us \<noteq> []" "(2 :: nat) < 2 ^ 30" "\<forall>u\<in>set ?us. u_len u \<le> 1" "0 + 1 + (2 :: nat) < 2 ^ 32" by simp_all
  obtain buf' A where r: "SerializeArray ?us ?b 0 unit_init = Some (True, buf', Segment 0 (Size buf'))" "View buf' = A @ drop (Size ?b - 0) (View ?b)"
      "\<forall>mem P. holds mem P A \<longrightarrow> (\<exists>a. Array_init mem (Some P) (Some (length mem)) = Some a \<and> unat (a_size a) = length ?us)"
    using array_roundtrip [OF buf_ok_empty sz p(1) best p(2) st p(3,4), of unit_init] by blast
  moreover have "holds A 0 A" by (simp add: holds_def)
  ultimately show ?thesis by (auto simp: numeral_2_eq_2)
qed

end
