(* ===== verification/MessageRead.thy ===== *)
theory MessageRead
  imports SerialArray
begin

text \<open>
  The head of a message: two-bit widths of its fields, twelve in the first word and twenty-five in
  each 64-bit section together with the number of words in front of the section. \<open>GetField\<close> and
  \<open>HasField\<close> of access.h on such a head.
\<close>

subsection \<open>Two-bit widths\<close>

lemma unat_width: "unat (drop_bit (i * 2) v AND 3 :: 'a::len word) = field2 (unat v) i"
  by (simp only: unat_and_3 unat_drop_bit field2_def mult.commute [of i] power_mult) simp

lemma unat_low_fields: "unat (v AND NOT (push_bit (i * 2) (- 1)) :: 'a::len word) = unat v mod 4 ^ i"
proof -
  have "v AND NOT (push_bit (i * 2) (- 1)) = take_bit (i * 2) v" by (rule bit_word_eqI) (auto simp: bit_simps)
  then have "unat (v AND NOT (push_bit (i * 2) (- 1))) = take_bit (i * 2) (unat v)" by (simp only: unsigned_take_bit_eq)
  then show ?thesis by (simp only: take_bit_eq_mod mult.commute [of i] power_mult) simp
qed

lemma field2_mod: "field2 (v mod 4 ^ i) k = (if k < i then field2 v k else 0)"
proof (cases "k < i")
  case True
  then obtain d where i: "i = k + (1 + d)" by (metis add.assoc less_imp_add_positive Suc_eq_plus1_left less_natE)
  have "v mod 4 ^ i = 4 ^ k * (v div 4 ^ k mod 4 ^ (1 + d)) + v mod 4 ^ k" by (simp only: i power_add mod_mult2_eq)
  then have "v mod 4 ^ i div 4 ^ k = v div 4 ^ k mod 4 ^ (1 + d)" by simp
  then show ?thesis using True by (simp add: field2_def mod_mod_cancel)
next
  case False
  then show ?thesis using field2_zero [of "v mod 4 ^ i" i k] by simp
qed

lemma sum_field2_mod:
  assumes "i \<le> n"
  shows "(\<Sum>k<n. field2 (v mod 4 ^ i) k) = (\<Sum>k<i. field2 v k)"
  unfolding field2_mod using assms by (intro sum.mono_neutral_cong_right) auto

lemma field2_dsum:
  assumes "\<And>i. W i \<le> 3" and "k < n"
  shows "field2 (dsum 4 n W + 4 ^ n * c) k = W k"
proof -
  define f where "f i = (if i < n then W i else 0)" for i
  have "dsum 4 n W = dsum 4 n f" by (rule dsum_cong) (simp add: f_def)
  moreover have "dsum 4 n f div 4 ^ k mod 4 = f k"
    using assms(2) by (intro dsum_digit) (auto simp: f_def less_Suc_eq_le [of _ 3, simplified] assms(1))
  moreover have "field2 (x + 4 ^ n * c) k = field2 x k" for x
  proof -
    obtain d where n: "n = k + (1 + d)" using assms(2) by (metis add.assoc less_imp_add_positive Suc_eq_plus1_left less_natE)
    have "x + 4 ^ n * c = x + (4 * (4 ^ d * c)) * 4 ^ k" by (simp add: n power_add)
    then have "(x + 4 ^ n * c) div 4 ^ k = 4 * (4 ^ d * c) + x div 4 ^ k" by (simp only: div_mult_self1 power_not_zero zero_neq_numeral [symmetric] not_False_eq_True)
    then show ?thesis by (simp add: field2_def)
  qed
  ultimately show ?thesis using assms(2) by (simp add: field2_def f_def)
qed

subsection \<open>The head of a message\<close>

text \<open>The number of words of the fields in front of field \<open>i\<close>.\<close>

definition before :: "(nat \<Rightarrow> nat) \<Rightarrow> nat \<Rightarrow> nat" where
  "before W i = (\<Sum>k<i. W k)"

lemma before_Suc [simp]: "before W 0 = 0" "before W (Suc i) = before W i + W i"
  by (simp_all add: before_def)

lemma before_mono: "i \<le> j \<Longrightarrow> before W i \<le> before W j"
  unfolding before_def by (intro sum_mono2) auto

lemma before_add: "before W (i + j) = before W i + (\<Sum>k<j. W (i + k))"
  by (induction j) simp_all

definition head_value :: "(nat \<Rightarrow> nat) \<Rightarrow> nat \<Rightarrow> nat" where
  "head_value W sec = sec + 256 * dsum 4 12 W"

definition mark_value :: "(nat \<Rightarrow> nat) \<Rightarrow> nat \<Rightarrow> nat" where
  "mark_value W k = dsum 4 25 (\<lambda>j. W (12 + 25 * k + j)) + 4 ^ 25 * before W (12 + 25 * k)"

definition message_head :: "(nat \<Rightarrow> nat) \<Rightarrow> nat \<Rightarrow> mem \<Rightarrow> nat \<Rightarrow> bool" where
  "message_head W sec mem P \<longleftrightarrow> sec < 256 \<and> (\<forall>i. W i \<le> 3) \<and> (\<forall>i\<ge>12 + 25 * sec. W i = 0) \<and>
    P < length mem \<and> unat (mem ! P) = head_value W sec \<and>
    (\<forall>k < sec. before W (12 + 25 * k) < 2 ^ 14 \<and> (\<exists>v. rd64 mem (P + 1 + 2 * k) = Some v \<and> unat v = mark_value W k)) \<and>
    P + 1 + 2 * sec + before W (12 + 25 * sec) \<le> length mem"

lemma message_headE:
  assumes "message_head W sec mem P"
  shows "unat (mem ! P AND 0xff) = sec" "unat (drop_bit 8 (mem ! P)) = dsum 4 12 W" "W i \<le> 3"
proof -
  have h: "unat (mem ! P) = sec + 256 * dsum 4 12 W" "sec < 256" and "\<forall>i. W i \<le> 3"
    using assms by (auto simp: message_head_def head_value_def)
  then show "unat (mem ! P AND 0xff) = sec" "unat (drop_bit 8 (mem ! P)) = dsum 4 12 W" "W i \<le> 3"
    by (simp_all add: unat_and_0xff unat_drop_bit)
qed

lemma before_bound:
  assumes "message_head W sec mem P"
  shows "before W i \<le> before W (12 + 25 * sec)"
proof (cases "i \<le> 12 + 25 * sec")
  case False
  then obtain d where i: "i = 12 + 25 * sec + d" by (metis le_add_diff_inverse nat_le_linear)
  have "(\<Sum>k<d. W (12 + 25 * sec + k)) = 0" using assms by (intro sum.neutral) (simp add: message_head_def)
  then show ?thesis by (simp only: i before_add)
qed (rule before_mono)

lemma section_read:
  assumes "message_head W sec mem P" and "\<not> fid < 12" and "(fid - 12) div 25 < sec"
  obtains v where "rd64 mem (P + 1 + 2 * ((fid - 12) div 25)) = Some v" "unat (drop_bit ((fid - 12) mod 25 * 2) v AND 3) = W fid"
    "unat (Count64 (v AND NOT (push_bit ((fid - 12) mod 25 * 2) (- 1))) + ucast (drop_bit 50 v)) = before W fid"
proof -
  let ?a = "(fid - 12) div 25" and ?b = "(fid - 12) mod 25"
  define F where "F j = W (12 + 25 * ?a + j)" for j
  obtain v where v: "rd64 mem (P + 1 + 2 * ?a) = Some v" "unat v = dsum 4 25 F + 4 ^ 25 * before W (12 + 25 * ?a)"
      and small: "before W (12 + 25 * ?a) < 2 ^ 14"
    using assms(1,3) unfolding message_head_def mark_value_def F_def by blast
  have F3: "F j \<le> 3" for j unfolding F_def by (rule message_headE(3) [OF assms(1)])
  have fid: "12 + 25 * ?a + ?b = fid" "?b < 25" using assms(2) by simp_all
  have w: "field2 (unat v) k = F k" if "k < 25" for k unfolding v(2) using F3 that by (rule field2_dsum)
  have d: "dsum 4 25 F < 4 ^ 25" using F3 by (intro dsum_less) (simp add: less_Suc_eq_le [of _ 3, simplified])
  have "unat (drop_bit 50 v) = before W (12 + 25 * ?a)"
  proof -
    have "unat (drop_bit 50 v) = (dsum 4 25 F + before W (12 + 25 * ?a) * 4 ^ 25) div 4 ^ 25" by (simp add: unat_drop_bit v(2))
    also have "\<dots> = before W (12 + 25 * ?a)" using d by simp
    finally show ?thesis .
  qed
  then have c: "unat (ucast (drop_bit 50 v) :: u32) = before W (12 + 25 * ?a)" using small by (simp add: unat_ucast)
  have s: "unat (Count64 (v AND NOT (push_bit (?b * 2) (- 1)))) = (\<Sum>k<?b. F k)"
    using fid(2) sum_field2_mod [of ?b 32 "unat v"] by (simp only: Count64_sum unat_low_fields) (simp add: w)
  have "(\<Sum>k<?b. F k) \<le> of_nat (card {..<?b}) * 3" using F3 by (intro sum_bounded_above) simp
  then have "(\<Sum>k<?b. F k) \<le> 75" using fid(2) by simp
  then have "unat (Count64 (v AND NOT (push_bit (?b * 2) (- 1))) + ucast (drop_bit 50 v)) = before W (12 + 25 * ?a) + (\<Sum>k<?b. F k)"
    using small by (simp only: unat_word_ariths s c) simp
  also have "\<dots> = before W fid" unfolding F_def before_add [symmetric] fid(1) ..
  finally have "unat (Count64 (v AND NOT (push_bit (?b * 2) (- 1))) + ucast (drop_bit 50 v)) = before W fid" .
  moreover have "unat (drop_bit (?b * 2) v AND 3) = W fid" using w [OF fid(2)] fid(1) by (simp add: unat_width F_def)
  ultimately show thesis using that v(1) by blast
qed

lemma GetField_read:
  assumes "message_head W sec mem P"
  shows "GetField mem (Some P) fid (Some (length mem)) =
    Some (if W fid = 0 then null_field else \<lparr>f_ptr = Some (P + 1 + 2 * sec + before W fid), f_width = W fid\<rparr>)"
proof -
  note h = message_headE [OF assms]
  have P: "P < length mem" using assms by (simp add: message_head_def)
  have b: "\<not> length mem < P + 1 + sec * 2 + before W fid + W fid"
    using before_bound [OF assms, of "Suc fid"] assms by (simp add: message_head_def)
  show ?thesis
  proof (cases "fid < 12")
    case True
    let ?v = "drop_bit 8 (mem ! P)"
    have f: "field2 (unat ?v) k = W k" if "k < 12" for k using field2_dsum [OF h(3) that, where c = 0] by (simp add: h(2))
    have "unat (drop_bit (fid * 2) ?v AND 3) = W fid" using f [OF True] by (simp only: unat_width)
    moreover have "unat (Count32 (?v AND NOT (push_bit (fid * 2) (- 1)))) = before W fid"
      using True sum_field2_mod [of fid 16 "unat ?v"] f by (simp only: Count32_sum unat_low_fields before_def) simp
    ultimately show ?thesis
      using True P b by (simp only: GetField_def msg_word_def option.case rd_Some Option.bind.simps Let_def h(1) if_True) auto
  next
    case False
    show ?thesis
    proof (cases "(fid - 12) div 25 < sec")
      case True
      obtain v where v: "rd64 mem (P + 1 + 2 * ((fid - 12) div 25)) = Some v" "unat (drop_bit ((fid - 12) mod 25 * 2) v AND 3) = W fid"
          "unat (Count64 (v AND NOT (push_bit ((fid - 12) mod 25 * 2) (- 1))) + ucast (drop_bit 50 v)) = before W fid"
        by (rule section_read [OF assms False True])
      then show ?thesis
        using False True P b by (simp only: GetField_def msg_word_def option.case rd_Some Option.bind.simps Let_def h(1) if_False not_le v) auto
    next
      case sec: False
      then have "12 + 25 * sec \<le> fid" using False by (simp add: div_less_iff_less_mult) 
      then have "W fid = 0" using assms by (simp add: message_head_def)
      then show ?thesis using False sec P by (simp add: GetField_def msg_word_def Let_def h(1))
    qed
  qed
qed

lemma HasField_read:
  assumes "message_head W sec mem P"
  shows "HasField mem (Some P) fid = Some (W fid \<noteq> 0)"
proof -
  note h = message_headE [OF assms]
  have P: "P < length mem" using assms by (simp add: message_head_def)
  have nz: "x \<noteq> 0 \<longleftrightarrow> unat x \<noteq> 0" for x :: "'a::len word" by (simp add: unat_eq_zero)
  show ?thesis
  proof (cases "fid < 12")
    case True
    have "field2 (unat (drop_bit 8 (mem ! P))) fid = W fid" using field2_dsum [OF h(3) True, where c = 0] by (simp add: h(2))
    then show ?thesis
      using True P by (simp only: HasField_def msg_word_def option.case rd_Some Option.bind.simps Let_def if_True nz unat_width)
  next
    case False
    show ?thesis
    proof (cases "(fid - 12) div 25 < sec")
      case True
      obtain v where v: "rd64 mem (P + 1 + 2 * ((fid - 12) div 25)) = Some v" "unat (drop_bit ((fid - 12) mod 25 * 2) v AND 3) = W fid"
        by (rule section_read [OF assms False True])
      then show ?thesis
        using False True P by (simp only: HasField_def msg_word_def option.case rd_Some Option.bind.simps Let_def h(1) if_False v nz) simp
    next
      case sec: False
      then have "12 + 25 * sec \<le> fid" using False by (simp add: div_less_iff_less_mult)
      then have "W fid = 0" using assms by (simp add: message_head_def)
      then show ?thesis using False sec P by (simp add: HasField_def msg_word_def Let_def h(1))
    qed
  qed
qed

end
