(* ===== verification/SerialMessage.thy ===== *)
theory SerialMessage
  imports MessageRead
begin

text \<open>
  \<open>SerializeMessage\<close> of src/serialize.cc: the words it writes, and that the message view of access.h
  finds every field that the units stood for.
\<close>

subsection \<open>Fields\<close>

definition fw :: "Unit \<Rightarrow> nat" where
  "fw u = (if u_len u \<noteq> 0 then u_len u else if seg_len u \<noteq> 0 then 1 else 0)"

definition field_words :: "nat \<Rightarrow> Unit \<Rightarrow> u32 list" where
  "field_words pos u = (if u_len u \<noteq> 0 then take (u_len u) (u_data u)
    else if seg_len u \<noteq> 0 then [Offset (of_nat pos - seg_pos u)] else [])"

fun body_words :: "nat \<Rightarrow> Unit list \<Rightarrow> u32 list" where
  "body_words pos [] = []"
| "body_words pos (u # us) = field_words pos u @ body_words (pos - fw u) us"

definition fwsum :: "Unit list \<Rightarrow> nat" where
  "fwsum us = sum_list (map fw us)"

lemma fwsum_simps [simp]: "fwsum [] = 0" "fwsum (u # us) = fw u + fwsum us" "fwsum (us @ vs) = fwsum us + fwsum vs"
  by (simp_all add: fwsum_def)

lemma fwsum_split: "fwsum us = fwsum (take n us) + fwsum (drop n us)"
  by (metis append_take_drop_id fwsum_simps(3))

lemma fw_bound: "unit_ok n u \<Longrightarrow> fw u \<le> 3" and fw_size: "fw u = 0 \<longleftrightarrow> unit_size u = 0"
  by (auto simp: unit_ok_def fw_def unit_size_def unat_eq_zero)

lemma length_field_words [simp]: "unit_ok n u \<Longrightarrow> length (field_words pos u) = fw u"
  by (auto simp: unit_ok_def field_words_def fw_def)

lemma body_words_append: "body_words pos (us @ vs) = body_words pos us @ body_words (pos - fwsum us) vs"
  by (induction us arbitrary: pos) simp_all

lemma length_body_words: "\<forall>u\<in>set us. unit_ok n u \<Longrightarrow> length (body_words pos us) = fwsum us"
  by (induction us arbitrary: pos) auto

lemma put_field_spec:
  assumes "buf_ok buf" and "unit_ok n u" and "View buf = X @ old @ Y" and "length old = fw u"
  shows "\<exists>b. put_field u buf (Head buf + length X) pos = Some (fw u, b, Head buf + length X + fw u, pos - fw u) \<and>
    buf_ok b \<and> View b = X @ field_words pos u @ Y \<and> Head b = Head buf"
proof (cases "fw u = 0")
  case True
  then show ?thesis using assms by (auto simp: put_field_def fw_def field_words_def split: if_splits)
next
  case False
  obtain b where b: "store (Head buf + length X) (field_words pos u) buf = Some b" "buf_ok b" "View b = X @ field_words pos u @ Y"
      "b_off b = b_off buf"
    using store_spec [OF assms(1,3), of "field_words pos u"] assms(2,4) by auto
  have "rd_range (u_data u) 0 (u_len u) = Some (take (u_len u) (u_data u))" using assms(2) by (simp add: unit_ok_def)
  then show ?thesis using False b by (auto simp: put_field_def fw_def field_words_def Head_def split: if_splits)
qed

subsection \<open>The head word\<close>

lemma unat_or_push:
  assumes "unat (a :: 'a::len word) < 2 ^ k" and "unat b * 2 ^ k < 2 ^ LENGTH('a)"
  shows "unat (a OR push_bit k b) = unat a + 2 ^ k * unat b"
proof -
  have a: "take_bit k a = a" using assms(1) by (intro word_eq_unatI) (simp add: unsigned_take_bit_eq take_bit_nat_eq_self)
  have "\<not> (bit a i \<and> bit (push_bit k b) i)" for i
    by (subst a [symmetric]) (simp add: bit_take_bit_iff bit_push_bit_iff)
  then have "a OR push_bit k b = a + push_bit k b" by (intro disjunctive_add [symmetric]) auto
  moreover have p: "unat (push_bit k b) = unat b * 2 ^ k" using assms(2) by (simp add: unat_push_bit)
  moreover have "unat a + unat b * 2 ^ k < 2 ^ LENGTH('a)"
  proof -
    have "k \<le> LENGTH('a) \<or> unat b = 0"
    proof (rule ccontr)
      assume "\<not> (k \<le> LENGTH('a) \<or> unat b = 0)"
      then have "2 ^ LENGTH('a) \<le> (2::nat) ^ k" "2 ^ k \<le> unat b * 2 ^ k" by (auto intro: power_increasing)
      then show False using assms(2) by linarith
    qed
    then show ?thesis
    proof
      assume k: "k \<le> LENGTH('a)"
      have "2 ^ LENGTH('a) = 2 ^ (LENGTH('a) - k) * (2::nat) ^ k" using k by (simp flip: power_add)
      moreover have "unat b < 2 ^ (LENGTH('a) - k)" using assms(2) calculation by simp
      then have "(unat b + 1) * 2 ^ k \<le> 2 ^ (LENGTH('a) - k) * 2 ^ k" by (intro mult_le_mono1) simp
      ultimately show ?thesis using assms(1) by simp
    next
      assume "unat b = 0"
      then show ?thesis using unat_lt_exp [of a] by simp
    qed
  qed
  ultimately show ?thesis by (simp add: unat_word_ariths mult.commute)
qed

definition widths :: "Unit list \<Rightarrow> nat \<Rightarrow> nat" where
  "widths us i = (if i < length us then fw (us ! i) else 0)"

lemma widths_simps [simp]: "widths (u # us) 0 = fw u" "widths (u # us) (Suc i) = widths us i" "widths [] i = 0"
  by (simp_all add: widths_def)

lemma digits_Cons: "dsum 4 (length (u # us)) (widths (u # us)) = fw u + 4 * dsum 4 (length us) (widths us)"
  by (simp add: dsum_Suc)

lemma or_digit:
  assumes "unat (h :: 'a::len word) < 2 ^ k" and "w \<le> 3" and "k + 2 \<le> LENGTH('a)"
  shows "unat (h OR push_bit k (of_nat w)) = unat h + 2 ^ k * w" "unat (h OR push_bit k (of_nat w)) < 2 ^ (k + 2)"
proof -
  have p: "2 ^ (k + 2) = 4 * (2::nat) ^ k" by simp
  have le: "(2::nat) ^ (k + 2) \<le> 2 ^ LENGTH('a)" using assms(3) by (rule power_increasing) simp
  have "(2::nat) ^ 2 \<le> 2 ^ LENGTH('a)" using assms(3) by (intro power_increasing) auto
  then have w: "unat (of_nat w :: 'a word) = w" using assms(2) by (simp add: unat_of_nat)
  have "w * 2 ^ k \<le> 3 * 2 ^ k" using assms(2) by (rule mult_le_mono1)
  also have "\<dots> < 4 * 2 ^ k" by simp
  finally have "unat (of_nat w :: 'a word) * 2 ^ k < 2 ^ LENGTH('a)" using le unfolding p w by linarith
  from unat_or_push [OF assms(1) this] show v: "unat (h OR push_bit k (of_nat w)) = unat h + 2 ^ k * w" by (simp add: w)
  show "unat (h OR push_bit k (of_nat w)) < 2 ^ (k + 2)"
    unfolding v p mult.commute [of _ w] using assms(1) \<open>w * 2 ^ k \<le> 3 * 2 ^ k\<close> by linarith
qed

lemma head_loop_spec:
  assumes "buf_ok buf" and "\<forall>u\<in>set us. unit_ok n u" and "View buf = h # X @ old @ Y" and "length old = fwsum us"
    and "unat h < 2 ^ (8 + i * 2)" and "i + length us \<le> 12"
  shows "\<exists>b h'. head_loop us i (Head buf) buf (Head buf + (1 + length X)) pos cnt =
      Some (b, Head buf + (1 + length X) + fwsum us, pos - fwsum us, cnt + of_nat (fwsum us)) \<and>
    buf_ok b \<and> View b = h' # X @ body_words pos us @ Y \<and> Head b = Head buf \<and>
    unat h' = unat h + 2 ^ (8 + i * 2) * dsum 4 (length us) (widths us)"
  using assms
proof (induction us arbitrary: buf h X old i pos cnt)
  case (Cons u us)
  have u: "unit_ok n u" "fw u \<le> 3" using Cons.prems(2) fw_bound by auto
  have "View buf = (h # X) @ take (fw u) old @ drop (fw u) old @ Y" "length (take (fw u) old) = fw u"
    using Cons.prems(3,4) by simp_all
  from put_field_spec [OF Cons.prems(1) u(1) this] obtain b where
    b: "put_field u buf (Head buf + (1 + length X)) pos = Some (fw u, b, Head buf + (1 + length X) + fw u, pos - fw u)"
      "buf_ok b" "View b = [] @ [h] @ X @ field_words pos u @ drop (fw u) old @ Y" "Head b = Head buf"
    by auto
  let ?h = "h OR push_bit (8 + i * 2) (of_nat (fw u))"
  have hd: "rd (cells b) (Head buf) = Some h"
  proof -
    have d: "drop (b_off b) (cells b) = h # X @ field_words pos u @ drop (fw u) old @ Y" using b(2,3) by (simp add: View_eq)
    show ?thesis using b(4) drop_hd [of "b_off b" "cells b" "[h]"] d by (simp add: Head_def)
  qed
  from store_spec [OF b(2,3), of "[?h]"] obtain b2 where
    b2: "store (Head buf) [?h] b = Some b2" "buf_ok b2" "View b2 = ?h # (X @ field_words pos u) @ drop (fw u) old @ Y" "Head b2 = Head buf"
    using b(4) by (auto simp: Head_def)
  note d = or_digit [of h "8 + i * 2" "fw u", OF Cons.prems(5) u(2)]
  have i: "8 + i * 2 + 2 \<le> LENGTH(32)" using Cons.prems(6) by simp
  have e: "8 + Suc i * 2 = 8 + i * 2 + 2" by simp
  from Cons.IH [OF b2(2) _ b2(3), of "Suc i" "pos - fw u" "cnt + of_nat (fw u)"] obtain b' h' where
    r: "head_loop us (Suc i) (Head buf) b2 (Head buf + (1 + length X) + fw u) (pos - fw u) (cnt + of_nat (fw u)) =
        Some (b', Head buf + (1 + length X) + fwsum (u # us), pos - fwsum (u # us), cnt + of_nat (fwsum (u # us)))"
      "buf_ok b'" "View b' = h' # (X @ field_words pos u) @ body_words (pos - fw u) us @ Y" "Head b' = Head buf"
      "unat h' = unat ?h + 2 ^ (8 + Suc i * 2) * dsum 4 (length us) (widths us)"
    using Cons.prems(2,4,6) d(2) [OF i] u(1) b2(4) unfolding e by (auto simp: add.assoc)
  have "unat h' = unat h + 2 ^ (8 + i * 2) * dsum 4 (length (u # us)) (widths (u # us))"
    unfolding digits_Cons r(5) d(1) [OF i] e power_add by (simp add: algebra_simps)
  then show ?case using r b(1) hd b2(1) by (auto simp: add.assoc)
qed simp

subsection \<open>The sections\<close>

lemma mark_fields_spec:
  assumes "buf_ok buf" and "\<forall>u\<in>set us. unit_ok n u" and "View buf = X @ old @ Y" and "length old = fwsum us"
    and "unat lo < 2 ^ j" and "j + 2 * length us \<le> 50"
  shows "\<exists>b lo'. mark_fields us j (hi OR lo) buf (Head buf + length X) pos cnt =
      Some (hi OR lo', b, Head buf + length X + fwsum us, pos - fwsum us, cnt + of_nat (fwsum us)) \<and>
    buf_ok b \<and> View b = X @ body_words pos us @ Y \<and> Head b = Head buf \<and>
    unat lo' = unat lo + 2 ^ j * dsum 4 (length us) (widths us) \<and> unat lo' < 2 ^ (j + 2 * length us)"
  using assms
proof (induction us arbitrary: buf lo X old j pos cnt)
  case (Cons u us)
  have u: "unit_ok n u" "fw u \<le> 3" using Cons.prems(2) fw_bound by auto
  have "View buf = X @ take (fw u) old @ drop (fw u) old @ Y" "length (take (fw u) old) = fw u"
    using Cons.prems(3,4) by simp_all
  from put_field_spec [OF Cons.prems(1) u(1) this] obtain b where
    b: "put_field u buf (Head buf + length X) pos = Some (fw u, b, Head buf + length X + fw u, pos - fw u)"
      "buf_ok b" "View b = (X @ field_words pos u) @ drop (fw u) old @ Y" "Head b = Head buf"
    by auto
  let ?lo = "lo OR push_bit j (of_nat (fw u))"
  have j: "j + 2 \<le> LENGTH(64)" using Cons.prems(6) by simp
  note d = or_digit [OF Cons.prems(5) u(2) j]
  from Cons.IH [OF b(2) _ b(3), of ?lo "j + 2" "pos - fw u" "cnt + of_nat (fw u)"] obtain b' lo' where
    r: "mark_fields us (j + 2) (hi OR ?lo) b (Head buf + length X + fw u) (pos - fw u) (cnt + of_nat (fw u)) =
        Some (hi OR lo', b', Head buf + length X + fwsum (u # us), pos - fwsum (u # us), cnt + of_nat (fwsum (u # us)))"
      "buf_ok b'" "View b' = (X @ field_words pos u) @ body_words (pos - fw u) us @ Y" "Head b' = Head buf"
      "unat lo' = unat ?lo + 2 ^ (j + 2) * dsum 4 (length us) (widths us)" "unat lo' < 2 ^ (j + 2 + 2 * length us)"
    using Cons.prems(2,4,6) d(2) u(1) b(4) by (auto simp: add.assoc)
  have "unat lo' = unat lo + 2 ^ j * dsum 4 (length (u # us)) (widths (u # us))"
    unfolding digits_Cons r(5) d(1) power_add by (simp add: algebra_simps)
  then show ?case using r b(1) by (auto simp: add.assoc or.assoc)
qed auto

text \<open>The two words of a section.\<close>

definition mark_pair :: "(nat \<Rightarrow> nat) \<Rightarrow> nat \<Rightarrow> u32 list" where
  "mark_pair W k = (let m = of_nat (mark_value W k) :: u64 in [ucast m, ucast (drop_bit 32 m)])"

definition mark_pairs_upto :: "(nat \<Rightarrow> nat) \<Rightarrow> nat \<Rightarrow> u32 list" where
  "mark_pairs_upto W k = concat (map (mark_pair W) [0..<k])"

lemma mark_pairs_upto_simps [simp]:
  "mark_pairs_upto W 0 = []" "mark_pairs_upto W (Suc k) = mark_pairs_upto W k @ mark_pair W k" "length (mark_pairs_upto W k) = 2 * k"
  by (induction k) (simp_all add: mark_pairs_upto_def mark_pair_def Let_def)

lemma widths_block: "widths (take 25 (drop i us)) j = (if j < 25 then widths us (i + j) else 0)"
  by (auto simp: widths_def)

lemma dsum_widths: "length us \<le> n \<Longrightarrow> dsum 4 (length us) (widths us) = dsum 4 n (widths us)"
  unfolding dsum_def by (rule sum.mono_neutral_left) (auto simp: widths_def)

lemma fwsum_before: "before (widths us) i = fwsum (take i us)"
proof (induction i arbitrary: us)
  case (Suc i)
  then show ?case by (cases us) (simp_all add: before_def sum.lessThan_Suc_shift del: sum.lessThan_Suc)
qed simp

lemma mark_value_word:
  fixes cnt :: u32 and lo :: u64
  assumes "unat lo = dsum 4 25 (\<lambda>j. W (12 + 25 * k + j))" "unat lo < 2 ^ 50" and "unat cnt = before W (12 + 25 * k)" "unat cnt < 2 ^ 14"
  shows "push_bit 50 (ucast cnt) OR lo = of_nat (mark_value W k)" "unat (push_bit 50 (ucast cnt) OR lo) = mark_value W k"
proof -
  have "unat (lo OR push_bit 50 (ucast cnt)) = unat lo + 2 ^ 50 * unat cnt"
    using assms by (subst unat_or_push) simp_all
  then show v: "unat (push_bit 50 (ucast cnt) OR lo) = mark_value W k"
    using assms by (simp add: mark_value_def or.commute)
  show "push_bit 50 (ucast cnt) OR lo = of_nat (mark_value W k)" using v by (rule word_eq_of_natI)
qed

lemma blk_loop_spec:
  fixes fs :: "Unit list"
  defines "W \<equiv> widths fs" and "sec \<equiv> (length fs + 12) div 25"
  assumes "buf_ok buf" and "\<forall>u\<in>set fs. unit_ok n u" and "k \<le> sec" and "fwsum fs < 2 ^ 32"
    and "View buf = h # mark_pairs_upto W k @ blks @ Z @ old @ Y" and "length blks = 2 * (sec - k)"
    and "length old = fwsum (drop (12 + 25 * k) fs)" and "cnt = of_nat (before W (12 + 25 * k))"
  shows "\<exists>ok b. blk_loop (drop (12 + 25 * k) fs) (Head buf + (1 + 2 * k)) buf (Head buf + (1 + 2 * sec + length Z)) pos cnt = Some (ok, b) \<and>
    buf_ok b \<and> (ok \<longleftrightarrow> (\<forall>i\<in>{k..<sec}. before W (12 + 25 * i) < 2 ^ 14)) \<and>
    (ok \<longrightarrow> View b = h # mark_pairs_upto W sec @ Z @ body_words pos (drop (12 + 25 * k) fs) @ Y)"
  using assms(3-)
proof (induction "sec - k" arbitrary: buf k blks Z old pos cnt)
  case 0
  then have k: "k = sec" by simp
  have "drop (12 + 25 * sec) fs = []" by (simp add: sec_def)
  then show ?case using 0 by (auto simp: k blk_loop.simps [of "[]"])
next
  case (Suc d)
  let ?us = "drop (12 + 25 * k) fs" and ?us' = "drop (12 + 25 * Suc k) fs" and ?t = "take 25 (drop (12 + 25 * k) fs)"
  have k: "k < sec" using Suc.hyps(2) by simp
  then have ne: "?us \<noteq> []" by (simp add: sec_def)
  have us': "drop 25 ?us = ?us'" by simp
  have le: "before W (12 + 25 * k) \<le> fwsum fs"
    using fwsum_split [of fs "12 + 25 * k"] by (simp add: W_def fwsum_before)
  then have c: "unat cnt = before W (12 + 25 * k)" using Suc.prems(4,8) by (simp add: unat_of_nat)
  have c14: "cnt \<ge> 2 ^ 14 \<longleftrightarrow> \<not> before W (12 + 25 * k) < 2 ^ 14" by (simp add: word_le_nat_alt c not_less)
  show ?case
  proof (cases "before W (12 + 25 * k) < 2 ^ 14")
    case False
    then have "blk_loop ?us (Head buf + (1 + 2 * k)) buf (Head buf + (1 + 2 * sec + length Z)) pos cnt = Some (False, buf)"
      using ne c14 by (simp add: blk_loop.simps [of ?us])
    then show ?thesis using False k Suc.prems(1) by auto
  next
    case True
    have tok: "\<forall>u\<in>set ?t. unit_ok n u" using Suc.prems(2) by (meson in_set_dropD in_set_takeD)
    let ?X = "h # mark_pairs_upto W k @ blks @ Z"
    have sum: "fwsum ?us = fwsum ?t + fwsum ?us'" using fwsum_split [of ?us 25] by (simp only: us')
    have X: "length ?X = 1 + 2 * sec + length Z" using Suc.prems(3,6) by simp
    have v: "View buf = ?X @ take (fwsum ?t) old @ drop (fwsum ?t) old @ Y" "length (take (fwsum ?t) old) = fwsum ?t"
      using Suc.prems(5,7) sum by simp_all
    have j: "0 + 2 * length ?t \<le> 50" by simp
    have lo0: "unat (0 :: u64) < 2 ^ 0" by simp
    from mark_fields_spec [OF Suc.prems(1) tok v lo0 j, of "push_bit 50 (ucast cnt)" pos cnt] obtain b lo where
      m: "mark_fields ?t 0 (push_bit 50 (ucast cnt)) buf (Head buf + (1 + 2 * sec + length Z)) pos cnt =
          Some (push_bit 50 (ucast cnt) OR lo, b, Head buf + (1 + 2 * sec + length Z) + fwsum ?t, pos - fwsum ?t, cnt + of_nat (fwsum ?t))"
        "buf_ok b" "View b = ?X @ body_words pos ?t @ drop (fwsum ?t) old @ Y" "Head b = Head buf"
        "unat lo = dsum 4 (length ?t) (widths ?t)" "unat lo < 2 ^ (2 * length ?t)"
      unfolding X by auto
    have lo: "unat lo = dsum 4 25 (\<lambda>j. W (12 + 25 * k + j))"
      using m(5) dsum_widths [of ?t 25] by (simp add: widths_block W_def dsum_def)
    have "(2::nat) ^ (2 * length ?t) \<le> 2 ^ 50" using j by (intro power_increasing) simp_all
    then have lo50: "unat lo < 2 ^ 50" using m(6) by linarith
    note mw = mark_value_word [OF lo lo50 c] 
    define mark where "mark = push_bit 50 (ucast cnt) OR lo"
    have pair: "[ucast mark, ucast (drop_bit 32 mark)] = mark_pair W k"
      using mw(1) True c by (simp add: mark_def mark_pair_def Let_def)
    have blks: "length (take 2 blks) = 2" "blks = take 2 blks @ drop 2 blks" using Suc.prems(6) k by simp_all
    have "View b = (h # mark_pairs_upto W k) @ take 2 blks @ drop 2 blks @ Z @ body_words pos ?t @ drop (fwsum ?t) old @ Y"
      using m(3) blks(2) by (metis append_Cons append_assoc)
    from store_spec [OF m(2) this, of "mark_pair W k"] obtain b2 where
      b2: "store (Head buf + (1 + 2 * k)) (mark_pair W k) b = Some b2" "buf_ok b2" "Head b2 = Head buf"
        "View b2 = h # mark_pairs_upto W (Suc k) @ drop 2 blks @ (Z @ body_words pos ?t) @ drop (fwsum ?t) old @ Y"
      using m(4) blks(1) by (auto simp: Head_def mark_pair_def Let_def)
    have lenb: "length (body_words pos ?t) = fwsum ?t" by (rule length_body_words [OF tok])
    have bef: "before W (12 + 25 * Suc k) = before W (12 + 25 * k) + fwsum ?t"
    proof -
      have "take (12 + 25 * Suc k) fs = take (12 + 25 * k) fs @ ?t"
        using take_add [of "12 + 25 * k" 25 fs] by simp
      then show ?thesis by (simp add: W_def fwsum_before)
    qed
    have "d = sec - Suc k" "Suc k \<le> sec" "length (drop 2 blks) = 2 * (sec - Suc k)" "length (drop (fwsum ?t) old) = fwsum ?us'"
      using Suc.hyps(2) k Suc.prems(6,7) sum by simp_all
    moreover have "cnt + of_nat (fwsum ?t) = of_nat (before W (12 + 25 * Suc k))"
      unfolding Suc.prems(8) bef by (rule of_nat_add [symmetric])
    ultimately
    have "\<exists>ok b'. blk_loop ?us' (Head b2 + (1 + 2 * Suc k)) b2 (Head b2 + (1 + 2 * sec + length (Z @ body_words pos ?t))) (pos - fwsum ?t) (cnt + of_nat (fwsum ?t)) = Some (ok, b') \<and>
        buf_ok b' \<and> (ok \<longleftrightarrow> (\<forall>i\<in>{Suc k..<sec}. before W (12 + 25 * i) < 2 ^ 14)) \<and>
        (ok \<longrightarrow> View b' = h # mark_pairs_upto W sec @ (Z @ body_words pos ?t) @ body_words (pos - fwsum ?t) ?us' @ Y)"
      by (intro Suc.hyps(1) [OF _ b2(2) Suc.prems(2) _ Suc.prems(4) b2(4)])
    then
    obtain ok b' where r: "blk_loop ?us' (Head buf + (1 + 2 * Suc k)) b2 (Head buf + (1 + 2 * sec + length Z) + fwsum ?t) (pos - fwsum ?t) (cnt + of_nat (fwsum ?t)) = Some (ok, b')"
        "buf_ok b'" "ok \<longleftrightarrow> (\<forall>i\<in>{Suc k..<sec}. before W (12 + 25 * i) < 2 ^ 14)"
        "ok \<longrightarrow> View b' = h # mark_pairs_upto W sec @ (Z @ body_words pos ?t) @ body_words (pos - fwsum ?t) ?us' @ Y"
      unfolding b2(3) length_append lenb by (auto simp: add.assoc)
    have all: "(\<forall>i\<in>{k..<sec}. before W (12 + 25 * i) < 2 ^ 14) \<longleftrightarrow> (\<forall>i\<in>{Suc k..<sec}. before W (12 + 25 * i) < 2 ^ 14)"
    proof -
      have "{k..<sec} = insert k {Suc k..<sec}" using k by auto
      then show ?thesis using True by simp
    qed
    have body: "body_words pos ?us = body_words pos ?t @ body_words (pos - fwsum ?t) ?us'"
      using body_words_append [of pos ?t "drop 25 ?us"] append_take_drop_id [of 25 ?us] us' by metis
    have "blk_loop ?us (Head buf + (1 + 2 * k)) buf (Head buf + (1 + 2 * sec + length Z)) pos cnt = Some (ok, b')"
      using ne True c14 m(1) r(1) b2(1) by (simp add: blk_loop.simps [of ?us] pair [symmetric] mark_def [symmetric] us')
    then show ?thesis using r(2-4) body all by auto
  qed
qed

subsection \<open>The words of a message\<close>

lemma field_sizes_spec: "snd (field_sizes us) = fwsum us" "fwsum us \<le> fst (field_sizes us)"
proof (induction us)
  case (Cons u us)
  have "0 < unat (seg_len u)" if "seg_len u \<noteq> 0" using that by (simp add: unat_gt_0)
  then show "snd (field_sizes (u # us)) = fwsum (u # us)" "fwsum (u # us) \<le> fst (field_sizes (u # us))"
    using Cons by (auto simp: fw_def Let_def split: prod.splits)
qed simp_all

lemma trim_fields_split:
  obtains zs where "flds = trim_fields flds @ zs" "\<forall>u\<in>set zs. unit_size u = 0"
proof
  let ?P = "\<lambda>u. unit_size u = 0"
  show "flds = trim_fields flds @ rev (takeWhile ?P (rev flds))"
    unfolding trim_fields_def by (metis rev_append rev_rev_ident takeWhile_dropWhile_id)
  show "\<forall>u\<in>set (rev (takeWhile ?P (rev flds))). unit_size u = 0" by (auto dest: set_takeWhileD)
qed

definition sections :: "Unit list \<Rightarrow> nat" where
  "sections fs = (length fs + 12) div 25"

lemma sections_bound: "length fs \<le> 12 + 25 * sections fs"
  unfolding sections_def by linarith

definition message_body :: "nat \<Rightarrow> Unit list \<Rightarrow> u32 list" where
  "message_body n fs = mark_pairs_upto (widths fs) (sections fs) @ body_words (n + fwsum fs) fs"

lemma length_message_body: "\<forall>u\<in>set fs. unit_ok k u \<Longrightarrow> length (message_body n fs) = 2 * sections fs + fwsum fs"
  by (simp add: message_body_def length_body_words)

lemma dsum_head: "dsum 4 (length (take 12 fs)) (widths (take 12 fs)) = dsum 4 12 (widths fs)"
proof -
  have "dsum 4 (length (take 12 fs)) (widths (take 12 fs)) = dsum 4 12 (widths (take 12 fs))" by (rule dsum_widths) simp
  also have "\<dots> = dsum 4 12 (widths fs)" by (rule dsum_cong) (simp add: widths_def)
  finally show ?thesis .
qed

lemma ball_upto: "(\<forall>i\<in>{0..<n}. P i) \<longleftrightarrow> (\<forall>i<n. P i)" for n :: nat
  by auto

lemma SerializeMessage_spec:
  assumes ok: "buf_ok buf" and fs: "fs = trim_fields flds" "fs \<noteq> []" "\<forall>u\<in>set fs. unit_ok n u"
    and sz: "fst (field_sizes fs) < 2 ^ 30" "sections fs \<le> 255"
  obtains r b where "SerializeMessage flds buf lst u = Some (r, b, if r then Segment lst (Size b) else u)" "buf_ok b"
    "r \<longleftrightarrow> (\<forall>i < sections fs. before (widths fs) (12 + 25 * i) < 2 ^ 14)"
    "r \<longrightarrow> (\<exists>h. unat h = head_value (widths fs) (sections fs) \<and> View b = (h # message_body (Size buf) fs) @ View buf)"
proof -
  let ?W = "widths fs" and ?sec = "sections fs" and ?t = "take 12 fs" and ?us = "drop 12 fs" and ?pos = "Size buf + fwsum fs"
  let ?n = "1 + ?sec * 2 + fwsum fs"
  have sum: "fwsum fs = fwsum ?t + fwsum ?us" "fwsum fs < 2 ^ 30" using fwsum_split field_sizes_spec(2) [of fs] sz(1) by auto
  obtain old where e: "buf_ok (Expand ?n buf)" "length old = ?n" "View (Expand ?n buf) = old @ View buf"
    using Expand_spec [OF ok] by blast
  define blks old1 old2 where "blks = take (2 * ?sec) (drop 1 old)" and "old1 = take (fwsum ?t) (drop (1 + 2 * ?sec) old)"
    and "old2 = drop (fwsum ?t) (drop (1 + 2 * ?sec) old)"
  have len: "length blks = 2 * ?sec" "length old1 = fwsum ?t" "length old2 = fwsum ?us" using e(2) sum by (simp_all add: blks_def old1_def old2_def)
  have old: "old = [hd old] @ blks @ old1 @ old2"
  proof -
    have "drop 1 old = blks @ drop (2 * ?sec) (drop 1 old)" by (simp only: blks_def append_take_drop_id)
    moreover have "drop (2 * ?sec) (drop 1 old) = old1 @ old2" by (simp only: old1_def old2_def append_take_drop_id) simp
    ultimately show ?thesis using e(2) by (cases old) auto
  qed
  have "View (Expand ?n buf) = [] @ [hd old] @ blks @ old1 @ old2 @ View buf" using e(3) old by (metis append_Nil append_assoc)
  from store_spec [OF e(1) this, of "[of_nat ?sec]"] obtain b1 where
    b1: "store (Head (Expand ?n buf)) [of_nat ?sec] (Expand ?n buf) = Some b1" "buf_ok b1" "Head b1 = Head (Expand ?n buf)" "Size b1 = Size (Expand ?n buf)"
      "View b1 = of_nat ?sec # blks @ old1 @ old2 @ View buf"
    by (auto simp: Head_def Size_def)
  have usec: "unat (of_nat ?sec :: u32) = ?sec" using sz(2) by (simp add: unat_of_nat)
  have tok: "\<forall>u\<in>set ?t. unit_ok n u" using fs(3) by (meson in_set_takeD)
  have "unat (of_nat ?sec :: u32) < 2 ^ (8 + 0 * 2)" "0 + length ?t \<le> 12" using sz(2) by (simp_all add: usec)
  from head_loop_spec [OF b1(2) tok b1(5) len(2) this, of ?pos 0] obtain b2 h where
    b2: "head_loop ?t 0 (Head b1) b1 (Head b1 + (1 + 2 * ?sec)) ?pos 0 =
        Some (b2, Head b1 + (1 + 2 * ?sec) + fwsum ?t, ?pos - fwsum ?t, of_nat (fwsum ?t))"
      "buf_ok b2" "View b2 = h # blks @ body_words ?pos ?t @ old2 @ View buf" "Head b2 = Head b1" "unat h = head_value ?W ?sec"
    using len(1) unfolding dsum_head usec head_value_def by auto
  have lenZ: "length (body_words ?pos ?t) = fwsum ?t" by (rule length_body_words [OF tok])
  have blk: "\<exists>r b. blk_loop (drop (12 + 25 * 0) fs) (Head b2 + (1 + 2 * 0)) b2 (Head b2 + (1 + 2 * ((length fs + 12) div 25) + length (body_words ?pos ?t)))
      (?pos - fwsum ?t) (of_nat (fwsum ?t)) = Some (r, b) \<and> buf_ok b \<and>
      (r \<longleftrightarrow> (\<forall>i\<in>{0..<(length fs + 12) div 25}. before ?W (12 + 25 * i) < 2 ^ 14)) \<and>
      (r \<longrightarrow> View b = h # mark_pairs_upto ?W ((length fs + 12) div 25) @ body_words ?pos ?t @ body_words (?pos - fwsum ?t) (drop (12 + 25 * 0) fs) @ View buf)"
    using b2(3) len sum by (intro blk_loop_spec [OF b2(2) fs(3), where blks = blks and old = old2]) (simp_all add: sections_def fwsum_before)
  then obtain r b where r: "blk_loop ?us (Head b1 + 1) b2 (Head b1 + (1 + 2 * ?sec) + fwsum ?t) (?pos - fwsum ?t) (of_nat (fwsum ?t)) = Some (r, b)"
      "buf_ok b" "r \<longleftrightarrow> (\<forall>i < ?sec. before ?W (12 + 25 * i) < 2 ^ 14)"
      "r \<longrightarrow> View b = h # mark_pairs_upto ?W ?sec @ body_words ?pos ?t @ body_words (?pos - fwsum ?t) ?us @ View buf"
    unfolding b2(4) lenZ sections_def [symmetric] ball_upto mult_0_right add_0_right add.assoc by blast
  have body: "body_words ?pos fs = body_words ?pos ?t @ body_words (?pos - fwsum ?t) ?us"
    using body_words_append [of ?pos ?t ?us] append_take_drop_id [of 12 fs] by metis
  obtain sz where fsz: "field_sizes fs = (sz, fwsum fs)" "sz < 2 ^ 30" using field_sizes_spec(1) [of fs] sz(1) by (cases "field_sizes fs") auto
  have "flds \<noteq> []" using fs(1,2) by (auto simp: trim_fields_def)
  have pos: "Size b1 - (1 + ?sec * 2) = ?pos" using b1(4) Size_Expand [OF ok, of ?n] by simp
  have "SerializeMessage flds buf lst u = Some (r, b, if r then Segment lst (Size b) else u)"
    unfolding SerializeMessage_def Let_def fs(1) [symmetric] fsz prod.case sections_def [symmetric]
    using \<open>flds \<noteq> []\<close> fs(2) fsz(2) \<open>sections fs \<le> 255\<close> b1(1) b2(1) [unfolded b1(3)] r(1) [unfolded b1(3)] pos
    by (simp add: mult.commute add.assoc)
  moreover have "\<exists>h. unat h = head_value ?W ?sec \<and> View b = (h # message_body (Size buf) fs) @ View buf" if r
    using r(4) that b2(5) by (auto simp: message_body_def body)
  ultimately show thesis using that r(2,3) by blast
qed

subsection \<open>Reading the fields back\<close>

lemma split_words: "ucast (ucast m :: u32) OR push_bit 32 (ucast (ucast (drop_bit 32 m) :: u32)) = (m :: u64)"
proof (rule bit_word_eqI)
  fix i assume "i < LENGTH(64)"
  then show "bit (ucast (ucast m :: u32) OR push_bit 32 (ucast (ucast (drop_bit 32 m) :: u32)) :: u64) i = bit m i"
    by (cases "i < 32") (auto simp: bit_simps)
qed

lemma holds_mark_pair: "k < sec \<Longrightarrow> holds (mark_pairs_upto W sec) (2 * k) (mark_pair W k)"
proof -
  assume "k < sec"
  then have "[0..<sec] = [0..<k] @ k # [Suc k..<sec]" using upt_add_eq_append [of 0 k "sec - k"] by (simp add: upt_conv_Cons)
  then have "mark_pairs_upto W sec = mark_pairs_upto W k @ mark_pair W k @ concat (map (mark_pair W) [Suc k..<sec])"
    by (simp only: mark_pairs_upto_def map_append concat_append list.map concat.simps)
  then show ?thesis using holdsI [of "mark_pairs_upto W k"] by simp
qed

lemma rd64_pair:
  assumes "holds mem p (mark_pair W k)"
  shows "rd64 mem p = Some (of_nat (mark_value W k))"
proof -
  obtain X Y where "mem = X @ mark_pair W k @ Y" "length X = p" by (rule holdsE [OF assms])
  then show ?thesis
    using split_words [of "of_nat (mark_value W k)"] by (auto simp: rd64_def mark_pair_def Let_def nth_append)
qed

lemma message_head_holds:
  assumes fs: "\<forall>u\<in>set fs. unit_ok n u" "sections fs \<le> 255" and h: "unat h = head_value (widths fs) (sections fs)"
    and small: "\<forall>i < sections fs. before (widths fs) (12 + 25 * i) < 2 ^ 14" and mem: "holds mem P (h # message_body k fs)"
  shows "message_head (widths fs) (sections fs) mem P"
proof -
  let ?W = "widths fs" and ?sec = "sections fs"
  have W: "?W i \<le> 3" for i using fs(1) fw_bound [of n] by (simp add: widths_def)
  have W0: "?W i = 0" if "12 + 25 * ?sec \<le> i" for i using that sections_bound [of fs] by (simp add: widths_def)
  obtain X Y where X: "mem = X @ (h # message_body k fs) @ Y" "length X = P" by (rule holdsE [OF mem])
  have "before ?W (12 + 25 * ?sec) = fwsum fs" by (simp add: fwsum_before sections_def)
  then have len: "P + 1 + 2 * ?sec + before ?W (12 + 25 * ?sec) \<le> length mem"
    using length_message_body [OF fs(1)] by (simp add: X(1) X(2) [symmetric])
  have "rd64 mem (P + 1 + 2 * i) = Some (of_nat (mark_value ?W i)) \<and> unat (of_nat (mark_value ?W i) :: u64) = mark_value ?W i"
    if "i < ?sec" for i
  proof
    have "holds (h # message_body k fs) 1 (mark_pairs_upto ?W ?sec)" using holdsI [of "[h]"] by (simp add: message_body_def)
    from holds_trans [OF holds_trans [OF mem this] holds_mark_pair [OF that]]
    show "rd64 mem (P + 1 + 2 * i) = Some (of_nat (mark_value ?W i))" by (rule rd64_pair)
    have "dsum 4 25 (\<lambda>j. ?W (12 + 25 * i + j)) < 4 ^ 25" using W by (intro dsum_less) (simp add: less_Suc_eq_le [of _ 3, simplified])
    then have "mark_value ?W i < 2 ^ 64" using small that by (auto simp: mark_value_def dest!: spec [of _ i])
    then show "unat (of_nat (mark_value ?W i) :: u64) = mark_value ?W i" by (simp add: unat_of_nat)
  qed
  moreover have "P < length mem" "unat (mem ! P) = head_value ?W ?sec" using h by (auto simp: X(1) X(2) [symmetric] nth_append)
  ultimately show ?thesis unfolding message_head_def using fs(2) W W0 len small by auto
qed

lemma body_field:
  assumes "\<forall>u\<in>set fs. unit_ok n u" and "i < length fs"
  shows "holds (h # message_body k fs) (1 + 2 * sections fs + before (widths fs) i) (field_words (k + fwsum fs - before (widths fs) i) (fs ! i))"
proof -
  let ?pos = "k + fwsum fs" and ?t = "take i fs"
  have "fs = ?t @ fs ! i # drop (Suc i) fs" using assms(2) by (rule id_take_nth_drop)
  then have b: "body_words ?pos fs = body_words ?pos ?t @ field_words (?pos - fwsum ?t) (fs ! i) @ body_words (?pos - fwsum ?t - fw (fs ! i)) (drop (Suc i) fs)"
    by (metis body_words_append body_words.simps(2))
  have "length (body_words ?pos ?t) = fwsum ?t" using assms(1) by (intro length_body_words [of _ n]) (meson in_set_takeD)
  then show ?thesis
    using holdsI [of "h # mark_pairs_upto (widths fs) (sections fs) @ body_words ?pos ?t" "field_words (?pos - fwsum ?t) (fs ! i)"
        "body_words (?pos - fwsum ?t - fw (fs ! i)) (drop (Suc i) fs)"]
    by (simp add: message_body_def b fwsum_before add.assoc)
qed

text \<open>Through the field \<open>f\<close> the views reach what the unit \<open>u\<close> stood for.\<close>

definition field_gets :: "mem \<Rightarrow> Field \<Rightarrow> Unit \<Rightarrow> u32 list \<Rightarrow> bool" where
  "field_gets mem f u ws \<longleftrightarrow>
    (if u_len u \<noteq> 0 then f_width f = length ws \<and> field_reads mem f ws
     else \<exists>q. GetObject mem f (Some (length mem)) = Some (Some q) \<and> holds mem q ws)"

lemma offset_object:
  assumes "p < length mem" and "mem ! p = Offset (of_nat off)" and "off < 2 ^ 30" and "holds mem (p + off) ws" and "ws \<noteq> []"
  shows "GetObject mem \<lparr>f_ptr = Some p, f_width = w\<rparr> (Some (length mem)) = Some (Some (p + off))"
proof -
  have "unat (of_nat off :: u32) = off" using assms(3) by (intro unat_of_nat_32) simp
  then have o: "Offset (of_nat off) AND 3 = 3" "unat (drop_bit 2 (Offset (of_nat off))) = off" using Offset_props assms(3) by simp_all
  have "p + off < length mem" using assms(4,5) by (cases ws) (auto simp: holds_def)
  then show ?thesis using assms(1,2) o by (simp add: GetObject_def Let_def)
qed

lemma field_read:
  assumes fs: "\<forall>u\<in>set fs. unit_ok (length V) u" "i < length fs" "unit_size (fs ! i) \<noteq> 0"
    and st: "u_len (fs ! i) = 0 \<longrightarrow> lst + unat (seg_len (fs ! i)) \<le> unat (seg_pos (fs ! i))" "length V - lst + fwsum fs < 2 ^ 30"
    and mem: "holds mem P ((h # message_body (length V) fs) @ take (length V - lst) V)"
  shows "field_gets mem \<lparr>f_ptr = Some (P + 1 + 2 * sections fs + before (widths fs) i), f_width = widths fs i\<rparr> (fs ! i) (content V (fs ! i))"
proof -
  let ?A = "h # message_body (length V) fs" and ?u = "fs ! i" and ?b = "before (widths fs) i"
  let ?p = "1 + 2 * sections fs + ?b" and ?w = "field_words (length V + fwsum fs - ?b) (fs ! i)"
  have u: "unit_ok (length V) ?u" "widths fs i = fw ?u" using fs(1,2) by (auto simp: widths_def)
  have hA: "holds mem P ?A" using mem by (rule holds_prefix)
  have w: "holds mem (P + ?p) ?w" using holds_trans [OF hA body_field [OF fs(1,2)]] .
  have lenc: "length (content V ?u) = unit_size ?u" using length_content [OF u(1)] .
  show ?thesis
  proof (cases "u_len ?u = 0")
    case False
    then have "?w = content V ?u" "fw ?u = unit_size ?u" by (auto simp: field_words_def content_def fw_def unit_size_def)
    moreover have "cell_ok mem (P + ?p) (fw ?u) (content V ?u)"
      using w calculation lenc fs(3) by (auto simp: cell_ok_def holds_def)
    ultimately show ?thesis
      using cell_reads fw_bound [OF u(1)] False u(2) lenc by (simp add: field_gets_def add.assoc)
  next
    case True
    then have nz: "seg_len ?u \<noteq> 0" using fs(3) by (auto simp: unit_size_def)
    have pos: "unat (seg_len ?u) \<le> unat (seg_pos ?u)" "unat (seg_pos ?u) \<le> length V" "lst + unat (seg_len ?u) \<le> unat (seg_pos ?u)"
      using u(1) True st(1) nz by (auto simp: unit_ok_def)
    have b: "?b \<le> fwsum fs" using fwsum_split [of fs i] by (simp add: fwsum_before)
    let ?off = "length V + fwsum fs - ?b - unat (seg_pos ?u)"
    have "(of_nat (length V + fwsum fs - ?b) - seg_pos ?u :: u32) = of_nat ?off"
    proof -
      have "(of_nat ?off :: u32) = of_nat (length V + fwsum fs - ?b) - of_nat (unat (seg_pos ?u))" using pos b by (intro of_nat_diff) simp
      then show ?thesis by simp
    qed
    then have w1: "?w = [Offset (of_nat ?off)]" using True nz by (simp add: field_words_def)
    have mp: "P + ?p < length mem" "mem ! (P + ?p) = Offset (of_nat ?off)"
      using w unfolding w1 by (auto elim!: holdsE simp: nth_append)
    have "holds (take (length V - lst) V) (length V - unat (seg_pos ?u)) (content V ?u)"
      using True pos by (intro holds_take) (simp_all add: holds_def content_def)
    moreover have "holds mem (P + length ?A) (take (length V - lst) V)"
      using holds_trans [OF mem, of "length ?A"] holdsI [of ?A "take (length V - lst) V" "[]"] by simp
    ultimately have "holds mem (P + length ?A + (length V - unat (seg_pos ?u))) (content V ?u)" using holds_trans by blast
    moreover have "P + length ?A + (length V - unat (seg_pos ?u)) = P + ?p + ?off"
      using b pos length_message_body [OF fs(1)] by simp
    ultimately have c: "holds mem (P + ?p + ?off) (content V ?u)" by (simp only:)
    have "content V ?u \<noteq> []" using lenc fs(3) by auto
    from offset_object [OF mp _ c this] show ?thesis
      using c pos st(2) True by (auto simp: field_gets_def add.assoc)
  qed
qed

subsection \<open>Properties\<close>

lemma trim_units: "\<forall>u\<in>set flds. P u \<Longrightarrow> \<forall>u\<in>set (trim_fields flds). P u"
  by (auto simp: trim_fields_def dest: set_dropWhileD)

lemma trim_field:
  "widths (trim_fields flds) i \<noteq> 0 \<longleftrightarrow> i < length flds \<and> unit_size (flds ! i) \<noteq> 0"
  "widths (trim_fields flds) i \<noteq> 0 \<Longrightarrow> i < length (trim_fields flds) \<and> trim_fields flds ! i = flds ! i"
proof -
  obtain zs where z: "flds = trim_fields flds @ zs" "\<forall>u\<in>set zs. unit_size u = 0" by (rule trim_fields_split)
  have nth: "trim_fields flds ! i = flds ! i" if "i < length (trim_fields flds)" using that z(1) by (metis nth_append)
  have zero: "unit_size (flds ! i) = 0" if "i < length flds" "\<not> i < length (trim_fields flds)"
  proof -
    have "flds ! i = zs ! (i - length (trim_fields flds))" using that(2) z(1) by (metis nth_append)
    moreover have "i - length (trim_fields flds) < length zs" using that arg_cong [OF z(1), of length] by simp
    ultimately show ?thesis using z(2) by simp
  qed
  have "length (trim_fields flds) \<le> length flds" using arg_cong [OF z(1), of length] by simp
  then show "widths (trim_fields flds) i \<noteq> 0 \<longleftrightarrow> i < length flds \<and> unit_size (flds ! i) \<noteq> 0"
      "widths (trim_fields flds) i \<noteq> 0 \<Longrightarrow> i < length (trim_fields flds) \<and> trim_fields flds ! i = flds ! i"
    using nth zero by (auto simp: widths_def fw_size simp del: neq0_conv split: if_splits)
qed

text \<open>The message view on the words of a message: every field that is not empty, and no other.\<close>

definition message_reads :: "mem \<Rightarrow> nat \<Rightarrow> u32 list \<Rightarrow> Unit list \<Rightarrow> bool" where
  "message_reads mem P V flds \<longleftrightarrow> Message_init mem (Some P) (Some (length mem)) = Some (Some P) \<and>
    (\<forall>fid. HasField mem (Some P) fid = Some (fid < length flds \<and> unit_size (flds ! fid) \<noteq> 0) \<and>
      (if fid < length flds \<and> unit_size (flds ! fid) \<noteq> 0
       then \<exists>f. GetField mem (Some P) fid (Some (length mem)) = Some f \<and> field_gets mem f (flds ! fid) (content V (flds ! fid))
       else GetField mem (Some P) fid (Some (length mem)) = Some null_field))"

lemma message_read:
  assumes unit: "\<forall>u\<in>set (trim_fields flds). unit_ok (length V) u"
      "\<forall>u\<in>set (trim_fields flds). u_len u = 0 \<and> seg_len u \<noteq> 0 \<longrightarrow> lst + unat (seg_len u) \<le> unat (seg_pos u)"
    and sz: "sections (trim_fields flds) \<le> 255" "\<forall>i < sections (trim_fields flds). before (widths (trim_fields flds)) (12 + 25 * i) < 2 ^ 14"
    and room: "length V - lst + fwsum (trim_fields flds) < 2 ^ 30"
    and h: "unat h = head_value (widths (trim_fields flds)) (sections (trim_fields flds))"
    and mem: "holds mem P ((h # message_body (length V) (trim_fields flds)) @ take (length V - lst) V)"
  shows "message_reads mem P V flds"
proof -
  let ?fs = "trim_fields flds" and ?W = "widths (trim_fields flds)"
  have mh: "message_head ?W (sections ?fs) mem P" using message_head_holds [OF unit(1) sz(1) h sz(2) holds_prefix [OF mem]] .
  have "Message_init mem (Some P) (Some (length mem)) = Some (Some P)"
    using message_headE(1) [OF mh] mh by (simp add: Message_init_def Let_def message_head_def)
  moreover have "field_gets mem \<lparr>f_ptr = Some (P + 1 + 2 * sections ?fs + before ?W fid), f_width = ?W fid\<rparr> (flds ! fid) (content V (flds ! fid))"
    if w: "?W fid \<noteq> 0" for fid
  proof -
    have i: "fid < length ?fs" "?fs ! fid = flds ! fid" "unit_size (?fs ! fid) \<noteq> 0" using trim_field [of flds fid] w by auto
    have "u_len (?fs ! fid) = 0 \<longrightarrow> lst + unat (seg_len (?fs ! fid)) \<le> unat (seg_pos (?fs ! fid))"
      using unit(2) i(1,3) by (auto simp: unit_size_def)
    then show ?thesis using field_read [OF unit(1) i(1,3) _ room mem] i(2) by simp
  qed
  ultimately show ?thesis using HasField_read [OF mh] GetField_read [OF mh] unfolding message_reads_def trim_field(1) [symmetric] by simp
qed

text \<open>What \<open>SerializeMessage\<close> writes, with its length and its head word.\<close>

lemma message_written:
  assumes ok: "buf_ok buf" "lst \<le> Size buf" and ne: "trim_fields flds \<noteq> []"
    and us: "\<forall>u\<in>set flds. unit_ok (Size buf) u \<and> (u_len u = 0 \<and> seg_len u \<noteq> 0 \<longrightarrow> lst + unat (seg_len u) \<le> unat (seg_pos u))"
    and sz: "fst (field_sizes (trim_fields flds)) < 2 ^ 30" "sections (trim_fields flds) \<le> 255"
      "\<forall>i < sections (trim_fields flds). before (widths (trim_fields flds)) (12 + 25 * i) < 2 ^ 14"
    and room: "Size buf - lst + fwsum (trim_fields flds) < 2 ^ 30" "Size buf + 1 + 2 * sections (trim_fields flds) + fwsum (trim_fields flds) < 2 ^ 32"
  obtains buf' Obj where "SerializeMessage flds buf lst u = Some (True, buf', Segment lst (Size buf'))"
    "emitted (drop (Size buf - lst) (View buf)) Obj buf' (Segment lst (Size buf'))"
    "length Obj = 1 + 2 * sections (trim_fields flds) + fwsum (trim_fields flds) + (Size buf - lst)" "unat (Obj ! 0) mod 256 = sections (trim_fields flds)"
    "\<And>mem P. holds mem P Obj \<Longrightarrow> message_reads mem P (View buf) flds"
proof -
  define fs where "fs = trim_fields flds"
  note fsd = fs_def [symmetric]
  let ?V = "View buf" and ?W = "widths fs"
  have len: "length ?V = Size buf" using length_View [OF ok(1)] .
  have unit: "\<forall>u\<in>set fs. unit_ok (length ?V) u" "\<forall>u\<in>set fs. u_len u = 0 \<and> seg_len u \<noteq> 0 \<longrightarrow> lst + unat (seg_len u) \<le> unat (seg_pos u)"
    using trim_units [OF us] by (auto simp: fs_def len)
  obtain r b where "SerializeMessage flds buf lst u = Some (r, b, if r then Segment lst (Size b) else u)" and b: "buf_ok b"
      and rr: "r \<longleftrightarrow> (\<forall>i < sections fs. before ?W (12 + 25 * i) < 2 ^ 14)"
      "r \<longrightarrow> (\<exists>h. unat h = head_value ?W (sections fs) \<and> View b = (h # message_body (Size buf) fs) @ ?V)"
    by (rule SerializeMessage_spec [OF ok(1) fs_def ne [unfolded fsd] unit(1) sz(1,2) [unfolded fsd]])
  moreover have r using rr(1) sz(3) unfolding fsd by simp
  ultimately obtain h where s: "SerializeMessage flds buf lst u = Some (True, b, Segment lst (Size b))"
      and h: "unat h = head_value ?W (sections fs)" "View b = (h # message_body (Size buf) fs) @ ?V" by auto
  let ?obj = "(h # message_body (length ?V) fs) @ take (length ?V - lst) ?V"
  have v: "View b = ?obj @ drop (Size buf - lst) ?V" using h(2) len by (simp only: append_assoc append_take_drop_id)
  have lobj: "length ?obj = 1 + 2 * sections fs + fwsum fs + (Size buf - lst)" using length_message_body [OF unit(1)] len by simp
  have "Size b < 2 ^ 32" using length_View [OF b] length_message_body [OF unit(1)] len room(2) unfolding h(2) fsd by simp
  moreover have "lst = length (drop (Size buf - lst) ?V)" using len ok(2) by simp
  ultimately have "emitted (drop (Size buf - lst) ?V) ?obj b (Segment lst (Size b))" using emitted_segment [OF b v] by blast
  moreover have "unat (?obj ! 0) mod 256 = sections fs" using h(1) sz(2) unfolding fsd by (simp add: head_value_def)
  ultimately show thesis
    using that [of b ?obj] s lobj message_read [OF unit [unfolded fs_def] sz(2,3), of h] h(1) room(1) unfolding len fs_def by blast
qed

text \<open>
  Claim C1: a message whose units were put in front of the buffer behind \<open>lst\<close> is serialized within the
  limits of the format, and wherever its words are placed, the message view has exactly the fields
  whose units were not empty, each standing for what its unit stood for; all others are null.
\<close>

theorem message_roundtrip:
  assumes "buf_ok buf" "lst \<le> Size buf" and "trim_fields flds \<noteq> []"
    and "\<forall>u\<in>set flds. unit_ok (Size buf) u \<and> (u_len u = 0 \<and> seg_len u \<noteq> 0 \<longrightarrow> lst + unat (seg_len u) \<le> unat (seg_pos u))"
    and "fst (field_sizes (trim_fields flds)) < 2 ^ 30" "sections (trim_fields flds) \<le> 255"
      "\<forall>i < sections (trim_fields flds). before (widths (trim_fields flds)) (12 + 25 * i) < 2 ^ 14"
    and "Size buf - lst + fwsum (trim_fields flds) < 2 ^ 30" "Size buf + 1 + 2 * sections (trim_fields flds) + fwsum (trim_fields flds) < 2 ^ 32"
  shows "\<exists>buf' Obj. SerializeMessage flds buf lst u = Some (True, buf', Segment lst (Size buf')) \<and> buf_ok buf' \<and>
    View buf' = Obj @ drop (Size buf - lst) (View buf) \<and> content (View buf') (Segment lst (Size buf')) = Obj \<and>
    (\<forall>mem P. holds mem P Obj \<longrightarrow> Message_init mem (Some P) (Some (length mem)) = Some (Some P) \<and>
      (\<forall>fid. HasField mem (Some P) fid = Some (fid < length flds \<and> unit_size (flds ! fid) \<noteq> 0) \<and>
        (if fid < length flds \<and> unit_size (flds ! fid) \<noteq> 0
         then \<exists>f. GetField mem (Some P) fid (Some (length mem)) = Some f \<and> field_gets mem f (flds ! fid) (content (View buf) (flds ! fid))
         else GetField mem (Some P) fid (Some (length mem)) = Some null_field)))"
proof -
  obtain buf' Obj where "SerializeMessage flds buf lst u = Some (True, buf', Segment lst (Size buf'))"
      "emitted (drop (Size buf - lst) (View buf)) Obj buf' (Segment lst (Size buf'))" "\<And>mem P. holds mem P Obj \<Longrightarrow> message_reads mem P (View buf) flds"
    by (rule message_written [OF assms, of u]) blast
  then show ?thesis unfolding message_reads_def [symmetric] emitted_def by auto
qed

theorem message_roundtrip_witness:
  "\<exists>buf' Obj. SerializeMessage [\<lparr>u_len = 1, u_data = [7, 0, 0]\<rparr>, unit_init] (empty_buffer (\<lambda>i. 0)) 0 unit_init =
      Some (True, buf', Segment 0 (Size buf')) \<and> View buf' = Obj \<and> HasField Obj (Some 0) 0 = Some True"
proof -
  let ?us = "[\<lparr>u_len = 1, u_data = [7, 0, 0]\<rparr>, unit_init]" and ?b = "empty_buffer (\<lambda>i. 0)"
  have t: "trim_fields ?us = [\<lparr>u_len = 1, u_data = [7, 0, 0]\<rparr>]" by (simp add: trim_fields_def unit_size_def unit_init_def seg_len_def)
  have z: "Size ?b = 0" by (simp add: Size_def empty_buffer_def)
  have "\<exists>buf' Obj. SerializeMessage ?us ?b 0 unit_init = Some (True, buf', Segment 0 (Size buf')) \<and> buf_ok buf' \<and>
      View buf' = Obj @ drop (Size ?b - 0) (View ?b) \<and> content (View buf') (Segment 0 (Size buf')) = Obj \<and>
      (\<forall>mem P. holds mem P Obj \<longrightarrow> Message_init mem (Some P) (Some (length mem)) = Some (Some P) \<and>
        (\<forall>fid. HasField mem (Some P) fid = Some (fid < length ?us \<and> unit_size (?us ! fid) \<noteq> 0) \<and>
          (if fid < length ?us \<and> unit_size (?us ! fid) \<noteq> 0
           then \<exists>f. GetField mem (Some P) fid (Some (length mem)) = Some f \<and> field_gets mem f (?us ! fid) (content (View ?b) (?us ! fid))
           else GetField mem (Some P) fid (Some (length mem)) = Some null_field)))"
    by (rule message_roundtrip, unfold t z)
      (simp_all add: sections_def fwsum_def fw_def unit_ok_def unit_init_def seg_len_def seg_pos_def)
  then obtain buf' Obj where r: "SerializeMessage ?us ?b 0 unit_init = Some (True, buf', Segment 0 (Size buf'))" "View buf' = Obj @ drop (Size ?b - 0) (View ?b)"
      "\<And>mem P fid. holds mem P Obj \<Longrightarrow> HasField mem (Some P) fid = Some (fid < length ?us \<and> unit_size (?us ! fid) \<noteq> 0)" by blast
  moreover have "holds Obj 0 Obj" by (simp add: holds_def)
  ultimately show ?thesis using r(3) [of Obj 0 0] by (auto simp: unit_size_def)
qed

text \<open>
  \<open>SerializeMessage\<close> on units with at least one that is not empty never leaves the buffer, and
  refuses exactly the messages of \<open>2 ^ 30\<close> words or more, of more than 255 sections, or with a section
  that starts behind more than \<open>2 ^ 14 - 1\<close> words of fields.
\<close>

theorem message_limits:
  assumes "buf_ok buf" and "\<forall>u\<in>set flds. unit_ok n u" and "trim_fields flds \<noteq> []"
  shows "\<exists>r b u'. SerializeMessage flds buf lst u = Some (r, b, u') \<and> buf_ok b \<and>
    (r \<longleftrightarrow> fst (field_sizes (trim_fields flds)) < 2 ^ 30 \<and> (length (trim_fields flds) + 12) div 25 \<le> 255 \<and>
      (\<forall>i < (length (trim_fields flds) + 12) div 25. before (widths (trim_fields flds)) (12 + 25 * i) < 2 ^ 14))"
proof (cases "fst (field_sizes (trim_fields flds)) < 2 ^ 30 \<and> sections (trim_fields flds) \<le> 255")
  case True
  obtain r b where "SerializeMessage flds buf lst u = Some (r, b, if r then Segment lst (Size b) else u)" "buf_ok b"
      "r \<longleftrightarrow> (\<forall>i < sections (trim_fields flds). before (widths (trim_fields flds)) (12 + 25 * i) < 2 ^ 14)"
    by (rule SerializeMessage_spec [OF assms(1) refl assms(3) trim_units [OF assms(2)]]) (use True in simp_all)
  then show ?thesis using True by (auto simp: sections_def)
next
  case False
  have "flds \<noteq> []" using assms(3) by (auto simp: trim_fields_def)
  then have "SerializeMessage flds buf lst u = Some (False, buf, u)"
    using False assms(3) by (auto simp: SerializeMessage_def Let_def sections_def split: prod.splits)
  then show ?thesis using assms(1) False by (auto simp: sections_def)
qed

theorem message_limits_witness:
  "\<exists>r b u'. SerializeMessage [\<lparr>u_len = 1, u_data = [7, 0, 0]\<rparr>] (empty_buffer (\<lambda>i. 0)) 0 unit_init = Some (r, b, u') \<and> r"
  using message_limits [of "empty_buffer (\<lambda>i. 0)" "[\<lparr>u_len = 1, u_data = [7, 0, 0]\<rparr>]" 0 0 unit_init]
  by (simp add: unit_ok_def trim_fields_def unit_size_def) blast

end
