(* ===== verification/SerialMap.thy ===== *)
theory SerialMap
  imports SerialMessage
begin

text \<open>
  \<open>SerializeMap\<close> of src/serialize.cc: the cells of the keys and values behind the index, and that
  \<open>Find\<close> of access.h returns exactly the pairs of the keys that were serialized.
\<close>

subsection \<open>An index inside of a block\<close>

text \<open>
  The index of a map has the widths of its cells in the four upper bits of its first word, and is
  followed by the cells: bytes behind the first word are read alike.
\<close>

lemma Bit2_mono: "Bit2 bm p = Some v \<Longrightarrow> Bit2 (bm @ e) p = Some v"
  by (auto simp: Bit2_def rd_def nth_append split: if_splits)

lemma load64_mono: "load64 bm i = Some v \<Longrightarrow> load64 (bm @ e) i = Some v"
  by (auto simp: load64_def rd_range_def split: if_splits)

lemma rd_range_tail: "rd_range (h @ r) i n = Some x \<Longrightarrow> length h \<le> i \<Longrightarrow> length h' = length h \<Longrightarrow> rd_range (h' @ r @ e) i n = Some x"
  by (auto simp: rd_range_def split: if_splits)

lemma table_entry_tail:
  "table_entry k (h @ r) tab a = Some x \<Longrightarrow> length h \<le> tab \<Longrightarrow> length h' = length h \<Longrightarrow> table_entry k (h' @ r @ e) tab a = Some x"
  using rd_range_tail [of h r "tab + k * a" k _ h' e] by (auto simp: table_entry_def)

lemma load32_tail: "load32 (h @ r) i = Some x \<Longrightarrow> length h \<le> i \<Longrightarrow> length h' = length h \<Longrightarrow> load32 (h' @ r @ e) i = Some x"
  using rd_range_tail [of h r i 4 _ h' e] by (auto simp: load32_def)

lemma locate_slots_tail:
  assumes "locate_slots sec (h @ r) slots = Some v" and "length h = 4" "length h' = 4"
    and "load32 (h @ r) 0 = Some x" "load32 (h' @ r @ e) 0 = Some x'" "RealSize x' = RealSize x"
  shows "locate_slots sec (h' @ r @ e) slots = Some v"
proof -
  let ?bm = "drop 8 (h @ r)"
  have tab: "length h \<le> 8 + unat (BitmapSize sec)" using assms(2) by simp
  obtain s0 s1 s2 x0 x1 x2 slot off block where
    s: "rd slots 0 = Some s0" "rd slots 1 = Some s1" "rd slots 2 = Some s2"
      "Bit2 ?bm (unat s0) = Some x0" "Bit2 ?bm (unat s1) = Some x1" "Bit2 ?bm (unat s2) = Some x2"
      "rd slots ((x0 + x1 + x2) mod 3) = Some slot"
      "table_off (RealSize x) (h @ r) (8 + unat (BitmapSize sec)) (unat (drop_bit 5 slot)) = Some off"
      "load64 ?bm (8 * unat (drop_bit 5 slot)) = Some block" "v = off + CountValidSlot (block OR push_bit (2 * unat (slot AND 31)) (- 1))"
    using assms(1,4) by (auto simp: locate_slots_def Let_def table_off_def bind_eq_Some_conv)
  have "8 \<le> length (h @ r)" using s(9) by (auto simp: load64_def rd_range_def split: if_splits)
  then have bm: "drop 8 (h' @ r @ e) = ?bm @ e" using assms(2,3) by simp
  have t: "table_off (RealSize x) (h' @ r @ e) (8 + unat (BitmapSize sec)) (unat (drop_bit 5 slot)) = Some off"
    using s(8) table_entry_tail [OF _ tab, of _ r _ off h' e] assms(2,3) by (auto simp: table_off_def split: if_splits)
  show ?thesis
    by (simp only: locate_slots_def Let_def assms(5,6) bind.simps bm s(1-3,7) Bit2_mono [OF s(4)] Bit2_mono [OF s(5)]
        Bit2_mono [OF s(6)] load64_mono [OF s(9)] table_off_def [symmetric] t s(10))
qed

lemma Locate_tail:
  assumes "PerfectHash_Locate ph key = Some v" and "ph_data ph = Some (h @ r)" and "length h = 4" "length h' = 4"
    and "load32 (h @ r) 0 = Some x" "load32 (h' @ r @ e) 0 = Some x'" "RealSize x' = RealSize x"
    and "ph_section ph' = ph_section ph" "ph_data ph' = Some (h' @ r @ e)"
  shows "PerfectHash_Locate ph' key = Some v"
proof (cases "RealSize x < 2")
  case True
  then show ?thesis using assms by (simp add: PerfectHash_Locate_def)
next
  case False
  obtain seed code where s: "load32 (h @ r) 4 = Some seed" "hash_key key seed = Some code" "ph_section ph \<noteq> 0"
      "locate_slots (ph_section ph) (h @ r) [u32_at code 0 mod ph_section ph, u32_at code 1 mod ph_section ph + ph_section ph,
        u32_at code 2 mod ph_section ph + ph_section ph * 2] = Some v"
    using assms(1,2,5) False by (auto simp: PerfectHash_Locate_def Let_def bind_eq_Some_conv split: if_splits)
  have "load32 (h' @ r @ e) 4 = Some seed" using load32_tail [OF s(1)] assms(3,4) by simp
  then show ?thesis
    using False assms(6-9) s(2,3) locate_slots_tail [OF s(4) assms(3-7)] by (simp add: PerfectHash_Locate_def Let_def)
qed

lemma init_tail:
  assumes "PerfectHash_init (h @ r) sz0 = Some ph" and "ph_data ph = Some (h @ r)" and "length h = 4" "length h' = 4"
    and "load32 (h @ r) 0 = Some x" "load32 (h' @ r @ e) 0 = Some x'" "RealSize x' = RealSize x"
    and "sz = 0 \<or> unat (ph_data_size ph) \<le> unat sz" and "4 \<le> unat (ph_data_size ph)"
  shows "PerfectHash_init (h' @ r @ e) sz = Some (ph\<lparr>ph_data := Some (h' @ r @ e)\<rparr>)"
proof -
  have "\<not> (sz \<noteq> 0 \<and> sz < 4)" using assms(8,9) by (auto simp: word_less_nat_alt)
  moreover have "\<not> (sz \<noteq> 0 \<and> sz < ph_data_size ph)" using assms(8) by (auto simp: word_less_nat_alt)
  ultimately show ?thesis using assms(1,2,5,6,7) by (auto simp: PerfectHash_init_eq ph_null_def split: if_splits)
qed

subsection \<open>The cells of the pairs\<close>

definition flat :: "nat \<Rightarrow> nat \<Rightarrow> (Unit \<times> Unit) list \<Rightarrow> (nat \<times> Unit) list" where
  "flat m1 m2 ps = concat (map (\<lambda>(k, v). [(m2, v), (m1, k)]) ps)"

lemma flat_simps [simp]: "flat m1 m2 [] = []" "flat m1 m2 ((k, v) # ps) = (m2, v) # (m1, k) # flat m1 m2 ps"
  "length (flat m1 m2 ps) = 2 * length ps" "width (flat m1 m2 ps) = (m1 + m2) * length ps"
  by (simp_all add: flat_def) (induction ps; auto simp: flat_def)+

lemma flat_nth:
  "j < length ps \<Longrightarrow> flat m1 m2 ps ! (2 * j) = (m2, snd (ps ! j)) \<and> flat m1 m2 ps ! (2 * j + 1) = (m1, fst (ps ! j)) \<and>
    take (2 * j + 1) (flat m1 m2 ps) = flat m1 m2 (take j ps) @ [(m2, snd (ps ! j))] \<and>
    take (2 * j + 2) (flat m1 m2 ps) = flat m1 m2 (take (Suc j) ps)"
proof (induction ps arbitrary: j)
  case (Cons p ps)
  obtain k v where p: "p = (k, v)" by fastforce
  show ?case
  proof (cases j)
    case (Suc i)
    then show ?thesis using Cons.IH [of i] Cons.prems by (simp add: p)
  qed (simp add: p)
qed simp

lemma width_append [simp]: "width (us @ vs) = width us + width vs"
  by (simp add: width_def)

lemma pick_pairs_flat:
  "picks (flat m1 m2 ps) buf tail = Some (us, b, t) \<Longrightarrow> \<exists>ps'. us = flat m1 m2 ps' \<and> pick_pairs m1 m2 ps buf tail = Some (ps', b, t)"
proof (induction ps arbitrary: buf tail us)
  case Nil
  then show ?case by (auto intro: exI [of _ "[]"])
next
  case (Cons p ps)
  obtain k v where p: "p = (k, v)" by fastforce
  obtain v' b1 t1 k' b2 t2 us' where s: "Pick v buf tail m2 = Some (v', b1, t1)" "Pick k b1 t1 m1 = Some (k', b2, t2)"
      "picks (flat m1 m2 ps) b2 t2 = Some (us', b, t)" "us = (m2, v') # (m1, k') # us'"
    using Cons.prems by (auto simp: p bind_eq_Some_conv)
  obtain ps' where "us' = flat m1 m2 ps'" "pick_pairs m1 m2 ps b2 t2 = Some (ps', b, t)" using Cons.IH [OF s(3)] by blast
  then show ?case using s by (intro exI [of _ "(k', v') # ps'"]) (simp add: p)
qed

lemma mark_pairs_flat: "mark_pairs m1 m2 ps buf = marks (flat m1 m2 ps) buf"
proof (induction ps arbitrary: buf)
  case (Cons p ps)
  obtain k v where "p = (k, v)" by fastforce
  then show ?case using Cons by (auto split: bind_splits)
qed simp

lemma flat_cost:
  "(\<Sum>(m, u)\<leftarrow>flat m1 m2 ps. m + (if m < unit_size u then unit_size u else 0)) = cost m1 (map fst ps) + cost m2 (map snd ps)"
proof (induction ps)
  case (Cons p ps)
  obtain k v where "p = (k, v)" by fastforce
  then show ?case using Cons by (simp add: cost_def)
qed (simp add: cost_def)

text \<open>The words of an index with the widths of the cells in its first word.\<close>

definition index_words :: "u8 list \<Rightarrow> nat \<Rightarrow> nat \<Rightarrow> u32 list" where
  "index_words index m1 m2 = (words_of index)[0 := words_of index ! 0 OR push_bit 30 (of_nat m1) OR push_bit 28 (of_nat m2)]"

lemma length_index_words [simp]: "length (index_words index m1 m2) = WordSize (length index)"
  by (simp add: index_words_def)

lemma view_read:
  assumes "buf_ok b" and "View b = xs @ ys"
  shows "rd_range (cells b) (Head b) (length xs) = Some xs"
proof -
  have d: "drop (b_off b) (cells b) = xs @ ys" using assms by (simp add: View_eq)
  have "length (cells b) - b_off b = length xs + length ys" using arg_cong [OF d, of length] by simp
  moreover have "b_off b \<le> length (cells b)" using assms(1) by (simp add: buf_ok_def)
  ultimately show ?thesis using d by (simp add: rd_range_def Head_def)
qed

lemma SerializeMap_spec:
  assumes ok: "buf_ok buf" "Size buf < 2 ^ 32" and ne: "pairs \<noteq> []" "index \<noteq> []"
    and best: "BestArraySize (map fst pairs) = (ksz, m1)" "BestArraySize (map snd pairs) = (vsz, m2)" "WordSize (length index) + ksz + vsz < 2 ^ 30"
    and st: "stacked (Size buf) lst (map snd (flat m1 m2 (rev pairs)))" and inl: "\<forall>(k, v)\<in>set pairs. u_len k \<le> m1 \<and> u_len v \<le> m2"
    and room: "lst + WordSize (length index) + ksz + vsz < 2 ^ 32"
  obtains buf' B where "SerializeMap index pairs buf lst u = Some (True, buf', Segment lst (Size buf'))"
    "emitted (drop (Size buf - lst) (View buf)) (index_words index m1 m2 @ B) buf' (Segment lst (Size buf'))"
    "length B = ksz + vsz" "(m1 + m2) * length pairs \<le> length B" "m1 \<in> {1, 2, 3}" "m2 \<in> {1, 2, 3}"
    "\<And>j. j < length pairs \<Longrightarrow> cell_ok B ((m1 + m2) * j) m1 (content (View buf) (fst (pairs ! j))) \<and>
      cell_ok B ((m1 + m2) * j + m1) m2 (content (View buf) (snd (pairs ! j)))"
proof -
  let ?us = "flat m1 m2 (rev pairs)" and ?V = "View buf" and ?n = "length pairs" and ?i = "WordSize (length index)"
  have m: "m1 \<in> {1, 2, 3}" "ksz = cost m1 (map fst pairs)" "m2 \<in> {1, 2, 3}" "vsz = cost m2 (map snd pairs)"
    using BestArraySize_spec [OF best(1)] BestArraySize_spec [OF best(2)] by auto
  have in_us: "(w, x) \<in> set ?us \<Longrightarrow> 1 \<le> w \<and> w \<le> 3 \<and> u_len x \<le> w" for w x
    using m(1,3) inl by (fastforce simp: flat_def)
  have lst: "lst \<le> Size buf" and fit: "\<forall>(m, u)\<in>set ?us. fits_cell (Size buf) m u"
    using stacked_units [OF st] in_us by (force simp: fits_cell_def)+
  have fitV: "\<forall>(m, u)\<in>set ?us. fits_cell (length ?V) m u" using fit length_View [OF ok(1)] by simp
  have "cost m (map f (rev pairs)) = cost m (map f pairs)" for m f by (simp only: rev_map [symmetric] cost_rev)
  then have k: "length (kept ?V ?us) + width ?us = ksz + vsz" using length_kept [OF fitV] flat_cost [of m1 m2 "rev pairs"] m(2,4) by simp
  obtain b1 tail b2 B where b: "picks ?us buf (b_size buf - lst) = Some (packed ?V lst ?us, b1, tail)" "Head b1 \<le> tail"
      "marks (packed ?V lst ?us) (Shrink (tail - Head b1) b1) = Some b2" "buf_ok b2" "View b2 = B @ drop (Size buf - lst) ?V"
      "length B = length (kept ?V ?us) + width ?us"
      "\<And>j. j < length ?us \<Longrightarrow> cell_ok B (width ?us - width (take (Suc j) ?us)) (fst (?us ! j)) (content ?V (snd (?us ! j)))"
      "B = cells_of (lst + length (kept ?V ?us)) (packed ?V lst ?us) @ kept ?V ?us"
    by (rule layout_spec [OF ok fit _ lst _ _]) (use st best(3) room k in simp_all)
  obtain ps where ps: "packed ?V lst ?us = flat m1 m2 ps" "pick_pairs m1 m2 (rev pairs) buf (b_size buf - lst) = Some (ps, b1, tail)"
    using pick_pairs_flat [OF b(1)] by blast
  have i0: "0 < ?i" using ne(2) WordSize_bounds(3) [of "length index"] by (cases index) auto
  obtain old where e: "buf_ok (Expand ?i b2)" "length old = ?i" "View (Expand ?i b2) = old @ View b2" using Expand_spec [OF b(4)] by blast
  have rd: "rd_range (cells (Expand ?i b2)) (Head (Expand ?i b2)) ?i = Some old" using view_read [OF e(1,3)] e(2) by simp
  have fill: "fill_bytes index old = Some (words_of index)" using fill_bytes_eq [OF e(2) ne(2)] .
  have "View (Expand ?i b2) = [] @ old @ View b2" using e(3) by simp
  from store_spec [OF e(1) this, of "index_words index m1 m2"] obtain b3 where
    b3: "store (Head (Expand ?i b2)) (index_words index m1 m2) (Expand ?i b2) = Some b3" "buf_ok b3" "View b3 = index_words index m1 m2 @ View b2"
    using e(2) by auto
  have base: "length (drop (Size buf - lst) ?V) = lst" using length_View [OF ok(1)] lst by simp
  have v: "View b3 = (index_words index m1 m2 @ B) @ drop (Size buf - lst) ?V" using b3(3) b(5) by simp
  have "Size b3 < 2 ^ 32" using length_View [OF b3(2)] base room b(6) k unfolding v by simp
  then have em: "emitted (drop (Size buf - lst) ?V) (index_words index m1 m2 @ B) b3 (Segment lst (Size b3))"
    using emitted_segment [OF b3(2) v] base by simp
  have "SerializeMap index pairs buf lst u = Some (True, b3, Segment lst (Size b3))"
    using ne best lst b(2,3) ps b3(1) rd fill i0
    by (simp add: SerializeMap_def buf_at_def At_def Size_def mark_pairs_flat not_less index_words_def)
  moreover have "cell_ok B ((m1 + m2) * j) m1 (content ?V (fst (pairs ! j))) \<and> cell_ok B ((m1 + m2) * j + m1) m2 (content ?V (snd (pairs ! j)))"
    if j: "j < ?n" for j
  proof
    define k where "k = ?n - 1 - j"
    let ?w = "m1 + m2"
    have k: "k < length (rev pairs)" "rev pairs ! k = pairs ! j" "Suc k + j = ?n" using j by (simp_all add: rev_nth k_def)
    note f = flat_nth [OF k(1), of m1 m2, unfolded k(2)]
    have n: "?w * ?n = ?w * k + ?w + ?w * j" using k(3) by (metis add_mult_distrib2 mult_Suc_right add.commute)
    have "length (take (Suc k) (rev pairs)) = Suc k" "length (take k (rev pairs)) = k" using k(1) by simp_all
    then have "width (take (2 * k + 2) ?us) = ?w * k + ?w" "width (take (2 * k + 1) ?us) = ?w * k + m2"
      using f by (simp_all add: mult_Suc_right)
    then have "width ?us - width (take (Suc (2 * k + 1)) ?us) = ?w * j" "width ?us - width (take (Suc (2 * k)) ?us) = ?w * j + m1"
      using n by simp_all
    then show "cell_ok B (?w * j) m1 (content ?V (fst (pairs ! j)))" "cell_ok B (?w * j + m1) m2 (content ?V (snd (pairs ! j)))"
      using b(7) [of "2 * k + 1"] b(7) [of "2 * k"] f k(1) by simp_all
  qed
  moreover have "(m1 + m2) * ?n \<le> length B" using b(6) by simp
  ultimately show thesis using that em b(6) k m(1,3) by simp
qed

subsection \<open>Reading a map\<close>

lemma map_head:
  fixes x :: u32
  assumes "unat x < 2 ^ 28" and "m1 \<le> 3" "m2 \<le> 3"
  defines "h \<equiv> x OR push_bit 30 (of_nat m1) OR push_bit 28 (of_nat m2)"
  shows "drop_bit 30 h AND 3 = of_nat m1" "drop_bit 28 h AND 3 = of_nat m2" "RealSize h = x"
proof -
  have m: "unat (of_nat m1 :: u32) = m1" "unat (of_nat m2 :: u32) = m2" using assms(2,3) by (simp_all add: unat_of_nat)
  have "unat (x OR push_bit 28 (of_nat m2)) = unat x + 2 ^ 28 * m2" using assms(1,3) m by (subst unat_or_push) simp_all
  moreover from this have "unat ((x OR push_bit 28 (of_nat m2)) OR push_bit 30 (of_nat m1)) = unat x + 2 ^ 28 * m2 + 2 ^ 30 * m1"
    using assms(1-3) m by (subst unat_or_push) simp_all
  ultimately have h: "unat h = unat x + 2 ^ 28 * m2 + 2 ^ 30 * m1" by (simp only: h_def ac_simps)
  have d: "unat h div 2 ^ 28 = m2 + 4 * m1" using h assms(1) by simp
  have "unat h div 2 ^ 30 = unat h div 2 ^ 28 div 2 ^ 2" by (simp only: div_mult2_eq [symmetric] power_add [symmetric]) simp
  also have "\<dots> = m1" unfolding d using assms(3) by simp
  finally show "drop_bit 30 h AND 3 = of_nat m1"
    using assms(2) m by (intro word_eq_unatI) (simp only: unat_and_3 unat_drop_bit, simp)
  show "drop_bit 28 h AND 3 = of_nat m2"
    using d assms(3) m by (intro word_eq_unatI) (simp only: unat_and_3 unat_drop_bit, simp)
  have "unat h = unat x + 2 ^ 28 * (m2 + 4 * m1)" using h by simp
  then show "RealSize h = x" using assms(1) by (intro word_eq_unatI) (simp only: RealSize_nat mod_mult_self2, simp)
qed

lemma index_split:
  assumes "load32 index 0 = Some x"
  obtains r where "index = take 4 index @ r" "length (take 4 index) = 4" "words_of index = x # words_of r"
    "WordSize (length index) = 1 + WordSize (length r)"
proof -
  have len: "4 \<le> length index" and x: "x = word_of_bytes (take 4 index)" using assms by (auto simp: load32_def rd_range_def split: if_splits)
  have w: "words_of (take 4 index @ drop 4 index) = word_of_bytes (take 4 index) # words_of (drop 4 index)"
    using len by (intro words_of_four) simp
  have "WordSize (length index) = 1 + WordSize (length (drop 4 index))" using len by (simp add: WordSize_def)
  then show thesis using that [of "drop 4 index"] len x w by simp
qed

text \<open>The map view of a serialized map finds the index where the built object has it.\<close>

definition map_is :: "Map \<Rightarrow> nat \<Rightarrow> nat \<Rightarrow> nat \<Rightarrow> nat \<Rightarrow> (u8 list \<Rightarrow> u32 option) \<Rightarrow> bool" where
  "map_is m body m1 m2 n loc \<longleftrightarrow> m_body m = Some body \<and> m_kw m = of_nat m1 \<and> m_vw m = of_nat m2 \<and>
    Map_Size m = Some (of_nat n) \<and> PerfectHash_Locate (m_index m) = loc"

lemma map_read:
  assumes po: "rereads po n" "ph_data po = Some index" "n < 2 ^ 28" and m: "m1 \<in> {1, 2, 3}" "m2 \<in> {1, 2, 3}"
    and mem: "holds mem P (index_words index m1 m2 @ B)" "length mem < 2 ^ 30" and B: "(m1 + m2) * n \<le> length B"
  shows "\<exists>m. Map_init mem (Some P) (Some (length mem)) = Some m \<and>
    map_is m (P + WordSize (length index)) m1 m2 n (PerfectHashObject_Locate po)"
proof -
  let ?x = "of_nat n :: u32"
  have len: "length index = unat (ph_data_size po)" and x: "load32 index 0 = Some ?x"
    using po(1,2) by (auto simp: rereads_def)
  have l4: "4 \<le> length index" using x by (auto simp: load32_def rd_range_def split: if_splits)
  obtain ph where ph: "PerfectHash_init index (ph_data_size po) = Some ph" "ph_data_size ph = ph_data_size po"
      "PerfectHash_Size ph = Some ?x" "\<And>key. PerfectHash_Locate ph key = PerfectHashObject_Locate po key"
    using po(1,2) len by (auto simp: rereads_def)
  have sz0: "ph_data_size po \<noteq> 0" using l4 len by auto
  have tot: "\<exists>v. PerfectHash_Locate ph key = Some v" for key using Locate_total [OF ph(1) sz0] len by simp
  have dat: "ph_data ph = Some index"
    using ph(1,2) sz0 x by (auto simp: PerfectHash_init_eq ph_null_def split: if_splits)
  obtain r where r: "index = take 4 index @ r" "length (take 4 index) = 4" "words_of index = ?x # words_of r"
      "WordSize (length index) = 1 + WordSize (length r)" by (rule index_split [OF x])
  define h where "h = ?x OR push_bit 30 (of_nat m1) OR push_bit 28 (of_nat m2)"
  have ux: "unat ?x = n" using po(3) by (simp add: unat_of_nat)
  note hd = map_head [of ?x m1 m2, folded h_def]
  have hd': "drop_bit 30 h AND 3 = of_nat m1" "drop_bit 28 h AND 3 = of_nat m2" "RealSize h = ?x"
    using hd m ux po(3) by auto
  have iw: "index_words index m1 m2 = h # words_of r" by (simp add: index_words_def r(3) h_def)
  obtain rest where "drop (4 * P) (mem_bytes mem) = mem_bytes (index_words index m1 m2 @ B) @ rest" using drop_bytes [OF mem(1)] by blast
  then obtain e where data: "drop (4 * P) (mem_bytes mem) = bytes_of_word 4 h @ r @ e"
    by (simp add: iw mem_bytes_words_of del: bytes_of_word_numeral)
  have P: "P < length mem" "mem ! P = h" "P + WordSize (length index) + (m1 + m2) * n \<le> length mem"
    using mem(1) B r(4) unfolding iw by (auto elim!: holdsE simp: nth_append)
  have lim: "unat (index_limit P (Some (length mem))) = 4 * length mem - 4 * P" using index_limit_inside(1) [OF P(1) mem(2)] by simp
  have "length index \<le> 4 * WordSize (length index)" by (rule WordSize_bounds(1))
  also have "\<dots> \<le> 4 * length mem - 4 * P" using P(3) by simp
  finally have room: "unat (ph_data_size ph) \<le> unat (index_limit P (Some (length mem)))" using lim len ph(2) by simp
  have load: "load32 (bytes_of_word 4 h @ r @ e) 0 = Some h" by (rule load32_header(1))
  have init: "PerfectHash_init (drop (4 * P) (mem_bytes mem)) (index_limit P (Some (length mem))) =
      Some (ph\<lparr>ph_data := Some (bytes_of_word 4 h @ r @ e)\<rparr>)" (is "_ = Some ?ph")
    unfolding data using r(1,2) ph(1,2) dat x load hd'(3) RealSize_small [of ?x] ux po(3) room l4 len
    by (intro init_tail [where h = "take 4 index" and x = ?x and x' = h]) (simp_all del: bytes_of_word_numeral)
  have loc: "PerfectHash_Locate ?ph = PerfectHashObject_Locate po"
  proof
    fix key
    obtain v where v: "PerfectHash_Locate ph key = Some v" using tot by blast
    have "PerfectHash_Locate ?ph key = Some v"
      using r(1,2) dat x load hd'(3) RealSize_small [of ?x] ux po(3)
      by (intro Locate_tail [OF v, where h = "take 4 index" and x = ?x and x' = h]) (simp_all del: bytes_of_word_numeral)
    then show "PerfectHash_Locate ?ph key = PerfectHashObject_Locate po key" using v ph(4) by simp
  qed
  have size: "PerfectHash_Size ?ph = Some ?x" using load hd'(3) by (simp add: PerfectHash_Size_def del: bytes_of_word_numeral)
  have um: "unat (of_nat m1 :: u32) = m1" "unat (of_nat m2 :: u32) = m2" using m by auto
  then have nz: "(of_nat m1 :: u32) \<noteq> 0" "(of_nat m2 :: u32) \<noteq> 0" using m by auto
  have prod: "unat ((of_nat m1 + of_nat m2) * ?x) = (m1 + m2) * n"
    using map_product [of "of_nat m1" "of_nat m2" ?x] um ux m po(3) by auto
  have "Map_init mem (Some P) (Some (length mem)) = Some \<lparr>m_index = ?ph, m_body = Some (P + WordSize (length index)), m_kw = of_nat m1, m_vw = of_nat m2\<rparr>"
    using P nz init size prod len ph(2) by (simp add: Map_init_def hd' Let_def del: bytes_of_word_numeral)
  then show ?thesis using size loc by (simp add: map_is_def Map_Size_def del: bytes_of_word_numeral)
qed

subsection \<open>Searching keys\<close>

lemma words_of_hd: "bs \<noteq> [] \<Longrightarrow> words_of bs ! 0 = word_of_bytes (take 4 bs)"
  by (induction bs rule: words_of.induct) (simp_all add: numeral_eq_Suc del: word_of_bytes.simps)

lemma string_plain: "plain (string_words str)"
proof -
  let ?mark = "push_bit 2 (of_nat (length str)) :: u32"
  have "\<not> bit (hd (WriteVarInt ?mark)) 0"
    by (subst WriteVarInt_eq) (simp add: bit_simps)
  moreover have "string_bytes str ! 0 = hd (WriteVarInt ?mark)" "string_bytes str \<noteq> []"
    using length_WriteVarInt [of ?mark] by (simp_all add: string_bytes_def nth_append hd_conv_nth)
  ultimately have "\<not> bit (string_words str ! 0) 0"
    by (simp add: string_words_def words_of_hd bit_word_of_bytes)
  then have "\<not> bit (string_words str ! 0 AND 3) 0" by (simp add: bit_and_iff)
  moreover have "bit (3 :: u32) 0" by simp
  ultimately have "string_words str ! 0 AND 3 \<noteq> 3" by metis
  moreover have "string_words str \<noteq> []" using string_words_length(2) [of str] by auto
  ultimately show ?thesis by (simp add: plain_def)
qed

lemma map_is_entry:
  assumes "map_is m body m1 m2 n loc" and "m1 \<le> 3" "m2 \<le> 3" "n < 2 ^ 28" and "pos < of_nat n"
  shows "map_entry m pos = Some (Some (body + (m1 + m2) * unat pos))" "unat pos < n"
proof -
  have u: "unat (of_nat n :: u32) = n" "unat (of_nat m1 :: u32) = m1" "unat (of_nat m2 :: u32) = m2"
    using assms(2-4) by (simp_all add: unat_of_nat)
  show n: "unat pos < n" using assms(5) u(1) by (simp add: word_less_nat_alt)
  have "unat ((of_nat m1 + of_nat m2) * pos) = (m1 + m2) * unat pos"
    using map_product [of "of_nat m1" "of_nat m2" pos] u assms(2-4) n by simp
  then show "map_entry m pos = Some (Some (body + (m1 + m2) * unat pos))" using assms(1) by (simp add: map_entry_def map_is_def)
qed

text \<open>A search, when the key stored at the position that the index gives is known.\<close>

lemma Map_Find_read:
  assumes m: "map_is m body m1 m2 n loc" "m1 \<le> 3" "m2 \<le> 3" "n < 2 ^ 28" and loc: "loc key = Some pos"
    and k: "pos < of_nat n \<Longrightarrow> cell_ok mem (body + (m1 + m2) * unat pos) m1 (string_words k) \<and> length k < 2 ^ 30"
  shows "Map_Find mem m key (Some (length mem)) =
    (if pos < of_nat n \<and> k = key then Some (Some (body + (m1 + m2) * unat pos)) else Map_end m)"
proof (cases "pos < of_nat n")
  case False
  then show ?thesis using m(1) loc by (auto simp: Map_Find_def map_is_def not_less dest: leD)
next
  case True
  let ?p = "body + (m1 + m2) * unat pos"
  have um: "unat (of_nat m1 :: u32) = m1" using m(2) by (simp add: unat_of_nat)
  have "field_reads mem \<lparr>f_ptr = Some ?p, f_width = m1\<rparr> (string_words k)" using k [OF True] m(2) cell_reads by blast
  then obtain q where q: "GetObject mem \<lparr>f_ptr = Some ?p, f_width = m1\<rparr> (Some (length mem)) = Some (Some q)" "holds mem q (string_words k)"
    using string_plain by (auto simp: field_reads_def)
  have "reaches (Some (length mem)) (q + length (string_words k))" using q(2) by (simp add: holds_def)
  then obtain s where s: "String_init mem (Some q) (Some (length mem)) = Some s" "s_ptr s \<noteq> None" "slice_bytes mem s = Some k"
    using string_read [of k mem q "Some (length mem)"] q(2) k [OF True] by blast
  have "Pair_Key (Map_deref m (Some ?p)) = \<lparr>f_ptr = Some ?p, f_width = m1\<rparr>"
    using m(1) um by (simp add: Pair_Key_def Map_deref_def map_is_def)
  then show ?thesis
    using True m(1) loc map_is_entry(1) [OF m True] q(1) s by (auto simp: Map_Find_def map_is_def dest: leD)
qed

lemma Map_Find_scalar_read:
  assumes m: "map_is m body m1 m2 n loc" "m1 \<le> 3" "m2 \<le> 3" "n < 2 ^ 28" and loc: "loc key = Some pos"
    and k: "pos < of_nat n \<Longrightarrow> cell_ok mem (body + (m1 + m2) * unat pos) m1 (words_of k) \<and> length k = length key"
    and wd: "WordSize (length key) = m1"
  shows "Map_Find_scalar mem m key (Some (length mem)) =
    (if pos < of_nat n \<and> k = key then Some (Some (body + (m1 + m2) * unat pos)) else Map_end m)"
proof (cases "pos < of_nat n")
  case False
  then show ?thesis using m(1) loc by (auto simp: Map_Find_scalar_def map_is_def not_less dest: leD)
next
  case True
  let ?p = "body + (m1 + m2) * unat pos"
  have um: "unat (of_nat m1 :: u32) = m1" using m(2) by (simp add: unat_of_nat)
  have len: "length k = length key" "WordSize (length key) = m1" using k [OF True] wd by simp_all
  have h: "holds mem ?p (words_of k)" "?p + m1 \<le> length mem" using k [OF True] len by (auto simp: cell_ok_def)
  obtain rest where rest: "drop (4 * ?p) (mem_bytes mem) = mem_bytes (words_of k) @ rest" using drop_bytes [OF h(1)] by blast
  have fit: "4 * ?p + length key \<le> 4 * length mem" using h(2) WordSize_bounds(1) [of "length key"] unfolding len(2) by simp
  have "take (length key) (drop (4 * ?p) (mem_bytes mem)) = k" unfolding rest mem_bytes_words_of using len(1) by simp
  then have rd: "rd_range (mem_bytes mem) (4 * ?p) (length key) = Some k" using fit by (simp add: rd_range_def)
  have "GetValue (Pair_Key (Map_deref m (Some ?p))) (Some (length mem)) = slice ?p m1"
    using m(1) um h(2) by (simp add: GetValue_def Pair_Key_def Map_deref_def map_is_def)
  then show ?thesis
    using True m(1) loc map_is_entry(1) [OF m True] rd len(2)
    by (auto simp: Map_Find_scalar_def map_is_def slice_def WordSize_def dest: leD)
qed

lemma pair_value_reads:
  assumes "map_is m body m1 m2 n loc" and "m1 \<le> 3" "m2 \<le> 3" and "cell_ok mem (p + m1) m2 ws"
  shows "\<exists>f. Pair_Value (Map_deref m (Some p)) = Some f \<and> field_reads mem f ws"
proof -
  have "unat (of_nat m1 :: u32) = m1" "unat (of_nat m2 :: u32) = m2" using assms(2,3) by (simp_all add: unat_of_nat)
  then show ?thesis
    using assms cell_reads [OF assms(4,3)] by (simp add: Pair_Value_def Map_deref_def map_is_def)
qed

lemma BestArraySize_uniform:
  assumes "us \<noteq> []" and "\<forall>u\<in>set us. unit_size u = w" and "w \<in> {1, 2, 3}" and "BestArraySize us = (sz, m)"
  shows "m = w"
proof -
  have c: "cost k us = length us * (k + (if w > k then w else 0))" for k
    using assms(2) unfolding cost_def by (induction us) (simp_all add: algebra_simps)
  have n: "0 < length us" using assms(1) by simp
  note s = BestArraySize_spec [OF assms(4)]
  have "sz \<le> length us * w" using s assms(3) c by auto
  then have "length us * (m + (if w > m then w else 0)) \<le> length us * w" using s c by auto
  then have "m + (if w > m then w else 0) \<le> w" using n by simp
  then show ?thesis using s by (auto split: if_splits)
qed

subsection \<open>Properties\<close>

text \<open>The key at a position of the index.\<close>

lemma index_lookup:
  assumes "indexes po ks" and "length ks < 2 ^ 28"
  obtains at where "\<And>pos. pos < of_nat (length ks) \<Longrightarrow> at pos \<in> set ks \<and> PerfectHashObject_Locate po (at pos) = Some pos"
    "\<And>key pos. PerfectHashObject_Locate po key = Some pos \<Longrightarrow> pos < of_nat (length ks) \<and> at pos = key \<longleftrightarrow> key \<in> set ks"
proof -
  let ?n = "length ks"
  obtain f where f: "bij_betw f {..<?n} {..<?n}" "\<And>i. i < ?n \<Longrightarrow> PerfectHashObject_Locate po (ks ! i) = Some (of_nat (f i))"
    using assms(1) by (auto simp: indexes_def)
  define g where "g = the_inv_into {..<?n} f"
  have g: "g (f i) = i" "f i < ?n" if "i < ?n" for i
    using that f(1) bij_betw_apply [OF f(1)] by (auto simp: g_def bij_betw_def the_inv_into_f_f)
  have fg: "f (g j) = j" "g j < ?n" if "j < ?n" for j
    using that f(1) bij_betw_apply [OF bij_betw_the_inv_into [OF f(1)], of j]
    by (auto simp: g_def bij_betw_def intro: f_the_inv_into_f)
  have un: "unat (of_nat j :: u32) = j" if "j \<le> ?n" for j using that assms(2) by (simp add: unat_of_nat)
  have lt: "pos < of_nat ?n \<longleftrightarrow> unat pos < ?n" for pos :: u32 by (simp add: word_less_nat_alt un)
  define at where "at pos = ks ! g (unat pos)" for pos :: u32
  have "at pos \<in> set ks \<and> PerfectHashObject_Locate po (at pos) = Some pos" if "pos < of_nat ?n" for pos
    using fg [of "unat pos"] f(2) [of "g (unat pos)"] that by (simp add: at_def lt)
  moreover have "pos < of_nat ?n \<and> at pos = key \<longleftrightarrow> key \<in> set ks" if loc: "PerfectHashObject_Locate po key = Some pos" for key pos
  proof
    assume "pos < of_nat ?n \<and> at pos = key"
    then show "key \<in> set ks" using fg(2) [of "unat pos"] by (auto simp: at_def lt)
  next
    assume "key \<in> set ks"
    then obtain i where i: "i < ?n" "ks ! i = key" by (auto simp: in_set_conv_nth)
    then have "pos = of_nat (f i)" using f(2) loc by auto
    then show "pos < of_nat ?n \<and> at pos = key" using i g [OF i(1)] un [of "f i"] by (auto simp: at_def lt)
  qed
  ultimately show thesis using that by blast
qed

text \<open>
  The pairs are in the order of the index of the keys \<open>ks\<close>: at the position of a key there are its
  words, as \<open>kw\<close> writes them, and the words of its value.
\<close>

definition in_order :: "PerfectHashObject \<Rightarrow> u8 list list \<Rightarrow> (u8 list \<Rightarrow> u32 list) \<Rightarrow> (u8 list \<Rightarrow> u32 list) \<Rightarrow> u32 list \<Rightarrow> (Unit \<times> Unit) list \<Rightarrow> bool" where
  "in_order po ks kw vals V pairs \<longleftrightarrow> length pairs = length ks \<and>
    (\<forall>k\<in>set ks. \<exists>p. PerfectHashObject_Locate po k = Some p \<and> content V (fst (pairs ! unat p)) = kw k \<and> content V (snd (pairs ! unat p)) = vals k)"

text \<open>What a search of all keys gives: the value of every key of the map, and the end for every other key.\<close>

definition finds :: "(u8 list \<Rightarrow> ptr option) \<Rightarrow> mem \<Rightarrow> Map \<Rightarrow> u8 list set \<Rightarrow> u8 list list \<Rightarrow> (u8 list \<Rightarrow> u32 list) \<Rightarrow> bool" where
  "finds srch mem m U ks vals \<longleftrightarrow>
    (\<forall>key\<in>U. if key \<in> set ks
      then \<exists>q f. srch key = Some (Some q) \<and> Pair_Value (Map_deref m (Some q)) = Some f \<and> field_reads mem f (vals key)
      else srch key = Map_end m)"

lemma finds_spec:
  assumes po: "indexes po ks" "length ks < 2 ^ 28" and m: "map_is m body m1 m2 (length ks) (PerfectHashObject_Locate po)" "m1 \<le> 3" "m2 \<le> 3"
    and tot: "\<And>key. \<exists>v. PerfectHashObject_Locate po key = Some v"
    and ord: "in_order po ks kw vals V pairs"
    and cells: "\<And>j. j < length pairs \<Longrightarrow> cell_ok mem (body + (m1 + m2) * j) m1 (content V (fst (pairs ! j))) \<and>
      cell_ok mem (body + (m1 + m2) * j + m1) m2 (content V (snd (pairs ! j)))"
    and srch: "\<And>key pos k. key \<in> U \<Longrightarrow> PerfectHashObject_Locate po key = Some pos \<Longrightarrow>
      (pos < of_nat (length ks) \<Longrightarrow> k \<in> set ks \<and> cell_ok mem (body + (m1 + m2) * unat pos) m1 (kw k)) \<Longrightarrow>
      srch key = (if pos < of_nat (length ks) \<and> k = key then Some (Some (body + (m1 + m2) * unat pos)) else Map_end m)"
  shows "finds srch mem m U ks vals"
proof -
  obtain at where at: "\<And>pos. pos < of_nat (length ks) \<Longrightarrow> at pos \<in> set ks \<and> PerfectHashObject_Locate po (at pos) = Some pos"
      "\<And>key pos. PerfectHashObject_Locate po key = Some pos \<Longrightarrow> pos < of_nat (length ks) \<and> at pos = key \<longleftrightarrow> key \<in> set ks"
    using index_lookup [OF po] by blast
  have un: "unat pos < length pairs" if "pos < of_nat (length ks)" for pos :: u32
    using map_is_entry(2) [OF m po(2) that] ord by (simp add: in_order_def)
  have c: "content V (fst (pairs ! unat pos)) = kw k" "content V (snd (pairs ! unat pos)) = vals k"
    if "k \<in> set ks" "PerfectHashObject_Locate po k = Some pos" for k pos
    using ord that by (auto simp: in_order_def)
  have "if key \<in> set ks
      then \<exists>q f. srch key = Some (Some q) \<and> Pair_Value (Map_deref m (Some q)) = Some f \<and> field_reads mem f (vals key)
      else srch key = Map_end m" if U: "key \<in> U" for key
  proof -
    obtain pos where loc: "PerfectHashObject_Locate po key = Some pos" using tot by blast
    have "cell_ok mem (body + (m1 + m2) * unat pos) m1 (kw (at pos))" if "pos < of_nat (length ks)"
      using cells [OF un [OF that]] c at(1) [OF that] by metis
    then have f: "srch key = (if pos < of_nat (length ks) \<and> at pos = key then Some (Some (body + (m1 + m2) * unat pos)) else Map_end m)"
      using at(1) by (intro srch [OF U loc]) blast
    show ?thesis
    proof (cases "key \<in> set ks")
      case True
      then have pos: "pos < of_nat (length ks)" "at pos = key" using at(2) [OF loc] by auto
      have "cell_ok mem (body + (m1 + m2) * unat pos + m1) m2 (vals key)" using cells [OF un [OF pos(1)]] c(2) [OF True loc] by simp
      from pair_value_reads [OF m this] show ?thesis using True f pos by auto
    next
      case False
      then show ?thesis using f at(2) [OF loc] by auto
    qed
  qed
  then show ?thesis unfolding finds_def by blast
qed

lemma serialized_map:
  assumes built: "PerfectHashObject_Build vector_reader gseed junk nc \<lparr>vr_keys = ks, vr_idx = i\<rparr> = Some (po, r)" "ph_data po = Some index"
    and mem: "holds mem P (index_words index m1 m2 @ B)" "length mem < 2 ^ 30" and B: "(m1 + m2) * length ks \<le> length B"
    and m: "m1 \<in> {1, 2, 3}" "m2 \<in> {1, 2, 3}"
  obtains m where "Map_init mem (Some P) (Some (length mem)) = Some m" "indexes po ks" "length ks < 2 ^ 28"
    "map_is m (P + WordSize (length index)) m1 m2 (length ks) (PerfectHashObject_Locate po)" "\<And>key. \<exists>v. PerfectHashObject_Locate po key = Some v"
proof -
  have po: "length ks < 2 ^ 28" "indexes po ks" "rereads po (length ks)"
    using vector_Build [of gseed junk nc ks i] built by auto
  obtain mp where mp: "Map_init mem (Some P) (Some (length mem)) = Some mp"
      "map_is mp (P + WordSize (length index)) m1 m2 (length ks) (PerfectHashObject_Locate po)"
    using map_read [OF po(3) built(2) po(1) m mem B] by blast
  have "load32 index 0 = Some (of_nat (length ks))" using po(3) built(2) by (auto simp: rereads_def)
  then have "index \<noteq> []" by (auto simp: load32_def rd_range_def split: if_splits)
  then have "0 < length (index_words index m1 m2)" using WordSize_bounds(3) [of "length index"] by simp
  then have "P < length mem" using mem(1) by (auto simp: holds_def)
  then have "map_in mem mp" using Map_init_inside [of mem "Some P"] mem(2) mp(1) by simp
  then have "\<And>key. \<exists>v. PerfectHashObject_Locate po key = Some v" using mp(2) by (simp add: map_in_def map_is_def)
  then show thesis using that mp po by blast
qed

text \<open>Serializing a map and searching the result, for any way \<open>kw\<close> to write keys that the search reads back.\<close>

lemma map_serialized_finds:
  assumes built: "PerfectHashObject_Build vector_reader gseed junk nc \<lparr>vr_keys = ks, vr_idx = i\<rparr> = Some (po, r)" "ph_data po = Some index"
    and ord: "ks \<noteq> []" "in_order po ks kw vals (View buf) pairs"
    and buf: "buf_ok buf" "Size buf < 2 ^ 32"
    and best: "BestArraySize (map fst pairs) = (ksz, m1)" "BestArraySize (map snd pairs) = (vsz, m2)" "WordSize (length index) + ksz + vsz < 2 ^ 30"
    and st: "stacked (Size buf) lst (map snd (flat m1 m2 (rev pairs)))" "\<forall>(k, v)\<in>set pairs. u_len k \<le> m1 \<and> u_len v \<le> m2"
    and room: "lst + WordSize (length index) + ksz + vsz < 2 ^ 32"
    and srch: "\<And>mem m body key pos k. map_is m body m1 m2 (length ks) (PerfectHashObject_Locate po) \<Longrightarrow> m1 \<le> 3 \<Longrightarrow> m2 \<le> 3 \<Longrightarrow>
      length ks < 2 ^ 28 \<Longrightarrow> key \<in> U \<Longrightarrow> PerfectHashObject_Locate po key = Some pos \<Longrightarrow>
      (pos < of_nat (length ks) \<Longrightarrow> k \<in> set ks \<and> cell_ok mem (body + (m1 + m2) * unat pos) m1 (kw k)) \<Longrightarrow>
      srch mem m key = (if pos < of_nat (length ks) \<and> k = key then Some (Some (body + (m1 + m2) * unat pos)) else Map_end m)"
  shows "\<exists>buf' Obj. SerializeMap index pairs buf lst u = Some (True, buf', Segment lst (Size buf')) \<and> buf_ok buf' \<and>
    View buf' = Obj @ drop (Size buf - lst) (View buf) \<and> content (View buf') (Segment lst (Size buf')) = Obj \<and>
    (\<forall>mem P. holds mem P Obj \<and> length mem < 2 ^ 30 \<longrightarrow>
      (\<exists>m. Map_init mem (Some P) (Some (length mem)) = Some m \<and> Map_Size m = Some (of_nat (length ks)) \<and> finds (srch mem m) mem m U ks vals))"
proof -
  have n: "length pairs = length ks" "pairs \<noteq> []" using ord by (auto simp: in_order_def)
  have "rereads po (length ks)" using vector_Build [of gseed junk nc ks i] built by auto
  then have "load32 index 0 = Some (of_nat (length ks))" using built(2) by (auto simp: rereads_def)
  then have "index \<noteq> []" by (auto simp: load32_def rd_range_def split: if_splits)
  from SerializeMap_spec [OF buf n(2) this best st room] obtain buf' B where
    s: "SerializeMap index pairs buf lst u = Some (True, buf', Segment lst (Size buf'))"
      "emitted (drop (Size buf - lst) (View buf)) (index_words index m1 m2 @ B) buf' (Segment lst (Size buf'))"
      "(m1 + m2) * length ks \<le> length B" "m1 \<in> {1, 2, 3}" "m2 \<in> {1, 2, 3}"
    and cells: "\<And>j. j < length pairs \<Longrightarrow> cell_ok B ((m1 + m2) * j) m1 (content (View buf) (fst (pairs ! j))) \<and>
      cell_ok B ((m1 + m2) * j + m1) m2 (content (View buf) (snd (pairs ! j)))"
    unfolding n(1) by metis
  have le: "m1 \<le> 3" "m2 \<le> 3" using s(4,5) by auto
  have "\<exists>m. Map_init mem (Some P) (Some (length mem)) = Some m \<and> Map_Size m = Some (of_nat (length ks)) \<and> finds (srch mem m) mem m U ks vals"
    if mem: "holds mem P (index_words index m1 m2 @ B)" "length mem < 2 ^ 30" for mem P
  proof -
    obtain m where m: "Map_init mem (Some P) (Some (length mem)) = Some m" "indexes po ks" "length ks < 2 ^ 28"
      "map_is m (P + WordSize (length index)) m1 m2 (length ks) (PerfectHashObject_Locate po)" "\<And>key. \<exists>v. PerfectHashObject_Locate po key = Some v"
      using serialized_map [OF built mem s(3-5)] by metis
    have "holds (index_words index m1 m2 @ B) (WordSize (length index)) B" by (simp add: holds_def)
    then have h: "holds mem (P + WordSize (length index)) B" by (rule holds_trans [OF mem(1)])
    have "cell_ok mem (P + WordSize (length index) + (m1 + m2) * j) m1 (content (View buf) (fst (pairs ! j))) \<and>
        cell_ok mem (P + WordSize (length index) + (m1 + m2) * j + m1) m2 (content (View buf) (snd (pairs ! j)))" if "j < length pairs" for j
      using cell_ok_trans [OF h] cells [OF that] by (metis add.assoc)
    then have "finds (srch mem m) mem m U ks vals" by (rule finds_spec [OF m(2,3,4) le m(5) ord(2)]) (assumption | rule srch [OF m(4) le m(3)])+
    then show ?thesis using m(1,4) by (auto simp: map_is_def)
  qed
  then show ?thesis using s(1,2) by (auto simp: emitted_def)
qed

text \<open>
  Claim C2: for an index built over the keys and pairs in the order of that index, whose keys are
  serialized strings, \<open>SerializeMap\<close> succeeds and leaves the buffer below \<open>lst\<close> as it was; wherever its
  words are in memory (of less than \<open>2 ^ 30\<close> words), the map view has the number of keys, the search of
  a key of the map gives the pair whose value reads back as the words of its value, and the search of
  any other key gives \<open>end()\<close>.
\<close>

theorem map_roundtrip:
  assumes "PerfectHashObject_Build vector_reader gseed junk nc \<lparr>vr_keys = ks, vr_idx = i\<rparr> = Some (po, r)" "ph_data po = Some index"
    and "ks \<noteq> []" "in_order po ks string_words vals (View buf) pairs" and "\<forall>k\<in>set ks. length k < 2 ^ 30"
    and "buf_ok buf" "Size buf < 2 ^ 32"
    and "BestArraySize (map fst pairs) = (ksz, m1)" "BestArraySize (map snd pairs) = (vsz, m2)" "WordSize (length index) + ksz + vsz < 2 ^ 30"
    and "stacked (Size buf) lst (map snd (flat m1 m2 (rev pairs)))" "\<forall>(k, v)\<in>set pairs. u_len k \<le> m1 \<and> u_len v \<le> m2"
    and "lst + WordSize (length index) + ksz + vsz < 2 ^ 32"
  shows "\<exists>buf' Obj. SerializeMap index pairs buf lst u = Some (True, buf', Segment lst (Size buf')) \<and> buf_ok buf' \<and>
    View buf' = Obj @ drop (Size buf - lst) (View buf) \<and> content (View buf') (Segment lst (Size buf')) = Obj \<and>
    (\<forall>mem P. holds mem P Obj \<and> length mem < 2 ^ 30 \<longrightarrow>
      (\<exists>m. Map_init mem (Some P) (Some (length mem)) = Some m \<and> Map_Size m = Some (of_nat (length ks)) \<and>
        finds (\<lambda>key. Map_Find mem m key (Some (length mem))) mem m UNIV ks vals))"
  by (rule map_serialized_finds [OF assms(1-4,6-13), where U = UNIV], rule Map_Find_read [where loc = "PerfectHashObject_Locate po"], use assms(5) in auto)

text \<open>
  The same for keys of a scalar type of \<open>kb\<close> bytes, whose words are their bytes: every search
  of a key of that type gives its pair, or \<open>end()\<close> when the key is not of the map.
\<close>

theorem map_roundtrip_scalar:
  assumes "PerfectHashObject_Build vector_reader gseed junk nc \<lparr>vr_keys = ks, vr_idx = i\<rparr> = Some (po, r)" "ph_data po = Some index"
    and "ks \<noteq> []" "in_order po ks words_of vals (View buf) pairs" and "\<forall>k\<in>set ks. length k = kb" "kb \<in> {4, 8}"
    and "buf_ok buf" "Size buf < 2 ^ 32"
    and "BestArraySize (map fst pairs) = (ksz, m1)" "BestArraySize (map snd pairs) = (vsz, m2)" "WordSize (length index) + ksz + vsz < 2 ^ 30"
    and "stacked (Size buf) lst (map snd (flat m1 m2 (rev pairs)))" "\<forall>(k, v)\<in>set pairs. u_len k = WordSize kb \<and> u_len v \<le> m2"
    and "lst + WordSize (length index) + ksz + vsz < 2 ^ 32"
  shows "\<exists>buf' Obj. SerializeMap index pairs buf lst u = Some (True, buf', Segment lst (Size buf')) \<and> buf_ok buf' \<and>
    View buf' = Obj @ drop (Size buf - lst) (View buf) \<and> content (View buf') (Segment lst (Size buf')) = Obj \<and>
    (\<forall>mem P. holds mem P Obj \<and> length mem < 2 ^ 30 \<longrightarrow>
      (\<exists>m. Map_init mem (Some P) (Some (length mem)) = Some m \<and> Map_Size m = Some (of_nat (length ks)) \<and>
        finds (\<lambda>key. Map_Find_scalar mem m key (Some (length mem))) mem m {key. length key = kb} ks vals))"
proof -
  have w: "WordSize kb \<in> {1, 2, 3}" "WordSize kb \<noteq> 0" using assms(6) by (auto simp: WordSize_def)
  have "map fst pairs \<noteq> []" using assms(3,4) by (auto simp: in_order_def)
  moreover have "\<forall>u\<in>set (map fst pairs). unit_size u = WordSize kb" using assms(13) w(2) by (force simp: unit_size_def)
  ultimately have m1: "m1 = WordSize kb" using BestArraySize_uniform [OF _ _ w(1) assms(9)] by blast
  then have inl: "\<forall>(k, v)\<in>set pairs. u_len k \<le> m1 \<and> u_len v \<le> m2" using assms(13) by auto
  show ?thesis
    by (rule map_serialized_finds [OF assms(1-4,7-12) inl assms(14), where U = "{key. length key = kb}"],
      rule Map_Find_scalar_read [where loc = "PerfectHashObject_Locate po"], use assms(5) m1 in auto)
qed

text \<open>The index of one key, and one pair of inline words behind it.\<close>

lemma one_key_index:
  "\<exists>po r. PerfectHashObject_Build vector_reader gseed junk nc \<lparr>vr_keys = [k], vr_idx = i\<rparr> = Some (po, r) \<and>
    ph_data po = Some [1, 0, 0, 0] \<and> (\<forall>key. PerfectHashObject_Locate po key = Some 0)"
  by (simp add: PerfectHashObject_Build_def vector_reader_def vr_total_def object_of_def PerfectHashObject_Locate_def load32_def rd_range_def RealSize_def)

definition unit_word :: "u32 \<Rightarrow> Unit" where
  "unit_word a = \<lparr>u_len = 1, u_data = [a, 0, 0]\<rparr>"

lemma unit_word [simp]:
  "unit_size (unit_word a) = 1" "unit_ok n (unit_word a)" "content V (unit_word a) = [a]" "BestArraySize [unit_word a] = (1, 1)" "u_len (unit_word a) = 1"
  by (simp_all add: unit_word_def unit_size_def unit_ok_def content_def BestArraySize_def Let_def)

lemma finds_both:
  "finds srch mem m U ks vals \<Longrightarrow> a \<in> U \<inter> set ks \<Longrightarrow> b \<in> U - set ks \<Longrightarrow> \<exists>q. srch a = Some (Some q) \<and> srch b = Map_end m"
  unfolding finds_def by (metis DiffE IntE)

lemma empty_sizes: "Size (empty_buffer j) = 0" "View (empty_buffer j) = []"
  by (simp_all add: Size_def) (simp add: empty_buffer_def)

lemma one_pair_length:
  assumes "SerializeMap [1, 0, 0, 0] [(unit_word a, unit_word b)] (empty_buffer j) 0 u = Some (True, buf', u')"
  shows "length (View buf') = 3"
proof -
  let ?b = "empty_buffer j" and ?ps = "[(unit_word a, unit_word b)]"
  have z: "Size ?b = 0" "View ?b = []" by (rule empty_sizes)+
  obtain b' B where s: "SerializeMap [1, 0, 0, 0] ?ps ?b 0 u = Some (True, b', Segment 0 (Size b'))"
      "emitted (drop (Size ?b - 0) (View ?b)) (index_words [1, 0, 0, 0] 1 1 @ B) b' (Segment 0 (Size b'))" "length B = 1 + 1"
    by (rule SerializeMap_spec [of ?b ?ps "[1, 0, 0, 0]" 1 1 1 1 0 u]) (simp_all add: buf_ok_empty z WordSize_def)
  then show ?thesis using assms by (auto simp: emitted_def WordSize_def z split: if_splits)
qed

theorem map_roundtrip_witness:
  "\<exists>buf' Obj m q. SerializeMap [1, 0, 0, 0] [(unit_word 0x6104, unit_word 7)] (empty_buffer (\<lambda>i. 0)) 0 unit_init = Some (True, buf', Segment 0 (Size buf')) \<and>
      View buf' = Obj \<and> Map_init Obj (Some 0) (Some (length Obj)) = Some m \<and>
      Map_Find Obj m [0x61] (Some (length Obj)) = Some (Some q) \<and> Map_Find Obj m [0x62] (Some (length Obj)) = Map_end m"
proof -
  let ?b = "empty_buffer (\<lambda>i. 0)" and ?ps = "[(unit_word 0x6104, unit_word 7)]"
  obtain po r where po: "PerfectHashObject_Build vector_reader 7 (\<lambda>_ _. 0) True \<lparr>vr_keys = [[0x61]], vr_idx = 0\<rparr> = Some (po, r)"
      "ph_data po = Some [1, 0, 0, 0]" "\<And>key. PerfectHashObject_Locate po key = Some 0" using one_key_index by blast
  have "string_words [0x61] = [0x6104]" by (simp add: string_words_def string_bytes_def WriteVarInt.simps)
  then have ord: "in_order po [[0x61]] string_words (\<lambda>_. [7]) (View ?b) ?ps" using po(3) by (simp add: in_order_def)
  have z: "Size ?b = 0" "View ?b = []" by (rule empty_sizes)+
  have "\<exists>buf' Obj. SerializeMap [1, 0, 0, 0] ?ps ?b 0 unit_init = Some (True, buf', Segment 0 (Size buf')) \<and> buf_ok buf' \<and>
    View buf' = Obj @ drop (Size ?b - 0) (View ?b) \<and> content (View buf') (Segment 0 (Size buf')) = Obj \<and>
    (\<forall>mem P. holds mem P Obj \<and> length mem < 2 ^ 30 \<longrightarrow>
      (\<exists>m. Map_init mem (Some P) (Some (length mem)) = Some m \<and> Map_Size m = Some (of_nat (length [[0x61 :: u8]])) \<and>
        finds (\<lambda>key. Map_Find mem m key (Some (length mem))) mem m UNIV [[0x61]] (\<lambda>_. [7])))"
    by (rule map_roundtrip [OF po(1,2) _ ord]) (simp_all add: z WordSize_def buf_ok_empty, simp_all add: WordSize_def)
  then obtain buf' Obj where s: "SerializeMap [1, 0, 0, 0] ?ps ?b 0 unit_init = Some (True, buf', Segment 0 (Size buf'))" "View buf' = Obj @ drop (Size ?b - 0) (View ?b)"
      "\<And>mem P. holds mem P Obj \<Longrightarrow> length mem < 2 ^ 30 \<Longrightarrow> \<exists>m. Map_init mem (Some P) (Some (length mem)) = Some m \<and>
        finds (\<lambda>key. Map_Find mem m key (Some (length mem))) mem m UNIV [[0x61]] (\<lambda>_. [7])"
    by blast
  have "holds Obj 0 Obj" "length Obj < 2 ^ 30" using one_pair_length [OF s(1)] s(2) by (simp_all add: holds_def z)
  from s(3) [OF this] obtain m where "Map_init Obj (Some 0) (Some (length Obj)) = Some m"
      "finds (\<lambda>key. Map_Find Obj m key (Some (length Obj))) Obj m UNIV [[0x61]] (\<lambda>_. [7])" by blast
  moreover from finds_both [OF this(2), of "[0x61]" "[0x62]"] obtain q where
    "Map_Find Obj m [0x61] (Some (length Obj)) = Some (Some q)" "Map_Find Obj m [0x62] (Some (length Obj)) = Map_end m" by auto
  moreover have "View buf' = Obj" using s(2) by (simp add: z)
  ultimately show ?thesis using s(1) by blast
qed

theorem map_roundtrip_scalar_witness:
  "\<exists>buf' Obj m q. SerializeMap [1, 0, 0, 0] [(unit_word 5, unit_word 7)] (empty_buffer (\<lambda>i. 0)) 0 unit_init = Some (True, buf', Segment 0 (Size buf')) \<and>
      View buf' = Obj \<and> Map_init Obj (Some 0) (Some (length Obj)) = Some m \<and>
      Map_Find_scalar Obj m [5, 0, 0, 0] (Some (length Obj)) = Some (Some q) \<and> Map_Find_scalar Obj m [6, 0, 0, 0] (Some (length Obj)) = Map_end m"
proof -
  let ?b = "empty_buffer (\<lambda>i. 0)" and ?ps = "[(unit_word 5, unit_word 7)]" and ?U = "{key :: u8 list. length key = 4}"
  obtain po r where po: "PerfectHashObject_Build vector_reader 7 (\<lambda>_ _. 0) True \<lparr>vr_keys = [[5, 0, 0, 0]], vr_idx = 0\<rparr> = Some (po, r)"
      "ph_data po = Some [1, 0, 0, 0]" "\<And>key. PerfectHashObject_Locate po key = Some 0" using one_key_index by blast
  have ord: "in_order po [[5, 0, 0, 0]] words_of (\<lambda>_. [7]) (View ?b) ?ps" using po(3) by (simp add: in_order_def)
  have z: "Size ?b = 0" "View ?b = []" by (rule empty_sizes)+
  have "\<exists>buf' Obj. SerializeMap [1, 0, 0, 0] ?ps ?b 0 unit_init = Some (True, buf', Segment 0 (Size buf')) \<and> buf_ok buf' \<and>
    View buf' = Obj @ drop (Size ?b - 0) (View ?b) \<and> content (View buf') (Segment 0 (Size buf')) = Obj \<and>
    (\<forall>mem P. holds mem P Obj \<and> length mem < 2 ^ 30 \<longrightarrow>
      (\<exists>m. Map_init mem (Some P) (Some (length mem)) = Some m \<and> Map_Size m = Some (of_nat (length [[5 :: u8, 0, 0, 0]])) \<and>
        finds (\<lambda>key. Map_Find_scalar mem m key (Some (length mem))) mem m ?U [[5, 0, 0, 0]] (\<lambda>_. [7])))"
    by (rule map_roundtrip_scalar [OF po(1,2) _ ord]) (simp_all add: z WordSize_def buf_ok_empty, simp_all add: WordSize_def)
  then obtain buf' Obj where s: "SerializeMap [1, 0, 0, 0] ?ps ?b 0 unit_init = Some (True, buf', Segment 0 (Size buf'))" "View buf' = Obj @ drop (Size ?b - 0) (View ?b)"
      "\<And>mem P. holds mem P Obj \<Longrightarrow> length mem < 2 ^ 30 \<Longrightarrow> \<exists>m. Map_init mem (Some P) (Some (length mem)) = Some m \<and>
        finds (\<lambda>key. Map_Find_scalar mem m key (Some (length mem))) mem m ?U [[5, 0, 0, 0]] (\<lambda>_. [7])"
    by blast
  have "holds Obj 0 Obj" "length Obj < 2 ^ 30" using one_pair_length [OF s(1)] s(2) by (simp_all add: holds_def z)
  from s(3) [OF this] obtain m where "Map_init Obj (Some 0) (Some (length Obj)) = Some m"
      "finds (\<lambda>key. Map_Find_scalar Obj m key (Some (length Obj))) Obj m ?U [[5, 0, 0, 0]] (\<lambda>_. [7])" by blast
  moreover from finds_both [OF this(2), of "[5, 0, 0, 0]" "[6, 0, 0, 0]"] obtain q where
    "Map_Find_scalar Obj m [5, 0, 0, 0] (Some (length Obj)) = Some (Some q)" "Map_Find_scalar Obj m [6, 0, 0, 0] (Some (length Obj)) = Map_end m" by auto
  moreover have "View buf' = Obj" using s(2) by (simp add: z)
  ultimately show ?thesis using s(1) by blast
qed

end
