(* ===== verification/DecodeTape.thy ===== *)
theory DecodeTape
  imports Hash
begin

text \<open>
  The decoder of typescript/wasm/decode_tape.cc: a schema is registered as a table of type plans, and
  \<open>pc_decode_tape\<close> walks an untrusted block of serialized data along a plan and writes a tape of the
  places of all values.  The globals of the file are the record \<open>Decoder\<close>; the part of them that a walk
  only reads is the record \<open>DecodeEnv\<close>.

  A function of the walk returns its value or the reason why it stopped: \<open>Refused\<close> is the result
  \<open>false\<close> with the error left as it is, \<open>NoMemory\<close> the result \<open>false\<close> with the error set to
  \<open>PC_WASM_OUT_OF_MEMORY\<close> (or the exception \<open>std::bad_alloc\<close>), \<open>Fault\<close> an access outside of a vector,
  and \<open>Unfinished\<close> that the fuel of the model was too small.  The tape after a stop is dropped, as
  \<open>pc_decode_tape\<close> clears it.  \<open>alloc n\<close> says whether a vector can grow to \<open>n\<close> elements.
\<close>

datatype stop = Refused | NoMemory | Fault | Unfinished

type_synonym 'a res = "stop + 'a"

definition andThen :: "'a res \<Rightarrow> ('a \<Rightarrow> 'b res) \<Rightarrow> 'b res" where
  "andThen m f = (case m of Inl e \<Rightarrow> Inl e | Inr x \<Rightarrow> f x)"

lemma andThen_simps [simp]: "andThen (Inl e) f = Inl e" "andThen (Inr x) f = f x"
  by (simp_all add: andThen_def)

definition fetch :: "'a list \<Rightarrow> nat \<Rightarrow> 'a res" where
  "fetch xs i = (case rd xs i of None \<Rightarrow> Inl Fault | Some x \<Rightarrow> Inr x)"

subsection \<open>Model: kinds and plans\<close>

definition kNone :: u32 where "kNone = 0"
definition kMessage :: u32 where "kMessage = 1"
definition kBytes :: u32 where "kBytes = 2"
definition kString :: u32 where "kString = 3"
definition kF64 :: u32 where "kF64 = 4"
definition kF32 :: u32 where "kF32 = 5"
definition kU64 :: u32 where "kU64 = 6"
definition kU32 :: u32 where "kU32 = 7"
definition kI64 :: u32 where "kI64 = 8"
definition kI32 :: u32 where "kI32 = 9"
definition kBool :: u32 where "kBool = 10"
definition kEnum :: u32 where "kEnum = 11"
definition kArray :: u32 where "kArray = 20"
definition kMap :: u32 where "kMap = 21"

lemmas kinds = kNone_def kMessage_def kBytes_def kString_def kF64_def kF32_def kU64_def kU32_def kI64_def kI32_def
  kBool_def kEnum_def kArray_def kMap_def

definition kNoType :: u32 where "kNoType = - 1"
definition kMaximumDepth :: u32 where "kMaximumDepth = 256"
definition kMaximumBufferSize :: u32 where "kMaximumBufferSize = push_bit 30 1"

record FieldPlan =
  fp_id :: u32
  fp_kind :: u32
  fp_child :: u32

record TypePlan =
  tp_kind :: u32
  tp_value_kind :: u32
  tp_key_kind :: u32
  tp_child :: u32
  tp_committed :: bool
  tp_fields :: "FieldPlan list"
  tp_field_index_by_id :: "16 word list"

definition type_plan :: "u32 \<Rightarrow> TypePlan" where
  "type_plan kind = \<lparr>tp_kind = kind, tp_value_kind = kNone, tp_key_kind = kNone, tp_child = kNoType, tp_committed = False,
    tp_fields = [], tp_field_index_by_id = []\<rparr>"

record Location =
  word_offset :: u32
  limit_word_offset :: u32

record ByteSpan =
  span_offset :: u32
  span_length :: u32

record DecodeEnv =
  g_input :: "u8 list"
  g_input_length :: u32
  g_types :: "TypePlan list"

definition ValidValueKind :: "u32 \<Rightarrow> bool" where
  "ValidValueKind kind \<longleftrightarrow> (kind \<ge> kMessage \<and> kind \<le> kEnum) \<or> kind = kArray \<or> kind = kMap"

definition ValidKeyKind :: "u32 \<Rightarrow> bool" where
  "ValidKeyKind kind \<longleftrightarrow> kind = kString \<or> kind = kU64 \<or> kind = kU32 \<or> kind = kI64 \<or> kind = kI32"

definition IsComplex :: "u32 \<Rightarrow> bool" where
  "IsComplex kind \<longleftrightarrow> kind = kMessage \<or> kind = kArray \<or> kind = kMap"

definition ScalarWidthWords :: "u32 \<Rightarrow> u32" where
  "ScalarWidthWords kind =
    (if kind = kBool \<or> kind = kF32 \<or> kind = kU32 \<or> kind = kI32 \<or> kind = kEnum then 1
     else if kind = kF64 \<or> kind = kU64 \<or> kind = kI64 then 2
     else 0)"

subsection \<open>Model: reading the input\<close>

definition Load32 :: "u8 list \<Rightarrow> nat \<Rightarrow> u32 res" where
  "Load32 bs i = (case load32 bs i of None \<Rightarrow> Inl Fault | Some w \<Rightarrow> Inr w)"

definition RequireWords :: "u32 \<Rightarrow> u64 \<Rightarrow> u32 \<Rightarrow> bool" where
  "RequireWords off width limit \<longleftrightarrow> off \<le> limit \<and> width \<le> ucast (limit - off)"

definition RequireInputWords :: "DecodeEnv \<Rightarrow> u32 \<Rightarrow> u64 \<Rightarrow> bool" where
  "RequireInputWords E off width = RequireWords off width (g_input_length E div 4)"

definition ReadWord :: "DecodeEnv \<Rightarrow> u32 \<Rightarrow> u32 res" where
  "ReadWord E off = (if \<not> RequireInputWords E off 1 then Inl Refused else Load32 (g_input E) (unat off * 4))"

definition ObjectLocation :: "DecodeEnv \<Rightarrow> u32 \<Rightarrow> u32 \<Rightarrow> Location res" where
  "ObjectLocation E off width =
    (if width = 0 then Inl Refused
     else andThen (ReadWord E off) (\<lambda>first.
       if first AND 3 = 3 then
         let delta = drop_bit 2 first in
         if delta = 0 \<or> delta > g_input_length E div 4 - off then Inl Refused
         else
           let target = off + delta in
           if \<not> RequireInputWords E target 1 then Inl Refused
           else Inr \<lparr>word_offset = target, limit_word_offset = g_input_length E div 4\<rparr>
       else if \<not> RequireInputWords E off (ucast width) then Inl Refused
       else Inr \<lparr>word_offset = off, limit_word_offset = off + width\<rparr>))"

text \<open>The loop of \<open>ParseBytes\<close> over the bytes of the mark; \<open>k\<close> counts the bytes that are left.\<close>

primrec parse_mark :: "DecodeEnv \<Rightarrow> u64 \<Rightarrow> nat \<Rightarrow> nat \<Rightarrow> u64 \<Rightarrow> u64 \<Rightarrow> ByteSpan res" where
  "parse_mark E byte_limit 0 shift byte_offset mark = Inl Refused"
| "parse_mark E byte_limit (Suc k) shift byte_offset mark =
    (if byte_offset \<ge> byte_limit \<or> byte_offset \<ge> ucast (g_input_length E) then Inl Refused
     else andThen (fetch (g_input E) (unat byte_offset)) (\<lambda>byte.
       let byte_offset = byte_offset + 1;
           mark = mark + push_bit shift (ucast (byte AND 0x7f)) in
       if byte AND 0x80 = 0 then
         if mark AND 3 \<noteq> 0 then Inl Refused
         else
           let len = mark div 4 in
           if len > 0xffffffff \<or> byte_offset > byte_limit \<or> len > byte_limit - byte_offset \<or>
             byte_offset > ucast (g_input_length E) \<or> len > ucast (g_input_length E) - byte_offset
           then Inl Refused
           else Inr \<lparr>span_offset = ucast byte_offset, span_length = ucast len\<rparr>
       else parse_mark E byte_limit k (shift + 7) byte_offset mark))"

definition ParseBytes :: "DecodeEnv \<Rightarrow> Location \<Rightarrow> ByteSpan res" where
  "ParseBytes E loc =
    (if \<not> RequireWords (word_offset loc) 1 (limit_word_offset loc) then Inl Refused
     else parse_mark E (ucast (limit_word_offset loc) * 4) 5 0 (ucast (word_offset loc) * 4) 0)"

primrec SumWidths :: "nat \<Rightarrow> u32 \<Rightarrow> u32" where
  "SumWidths 0 widths = 0"
| "SumWidths (Suc n) widths = (widths AND 3) + SumWidths n (drop_bit 2 widths)"

definition SectionForSize :: "u32 \<Rightarrow> u32" where
  "SectionForSize sz = max 10 (ucast ((ucast sz * 105 + 255 :: u64) div 256))"

definition BitmapSizeForSection :: "u32 \<Rightarrow> u32" where
  "BitmapSizeForSection sec = ((sec * 3 + 31) AND NOT 31) div 4"

definition IndexByteLength :: "u32 \<Rightarrow> u64" where
  "IndexByteLength count =
    (if count \<le> 1 then 4
     else
       let bitmap = BitmapSizeForSection (SectionForSize count);
           bytes = (ucast bitmap :: u64) in
       (if count > 0xffff then bytes + ucast (bitmap div 2)
        else if count > 0xff then bytes + ucast (bitmap div 4)
        else if count > 24 then bytes + ucast (bitmap div 8)
        else bytes) + 8)"

subsection \<open>Model: the tape\<close>

definition Append :: "(nat \<Rightarrow> bool) \<Rightarrow> u32 \<Rightarrow> u32 list \<Rightarrow> u32 list res" where
  "Append alloc v tape = (if alloc (length tape + 1) then Inr (tape @ [v]) else Inl NoMemory)"

definition AppendHeader :: "(nat \<Rightarrow> bool) \<Rightarrow> u32 \<Rightarrow> u32 \<Rightarrow> u32 \<Rightarrow> u32 \<Rightarrow> u32 \<Rightarrow> u32 list \<Rightarrow> u32 list res" where
  "AppendHeader alloc kind type_id count data0 data1 tape =
    andThen (Append alloc kind tape) (\<lambda>tape.
    andThen (Append alloc type_id tape) (\<lambda>tape.
    andThen (Append alloc count tape) (\<lambda>tape.
    andThen (Append alloc data0 tape) (\<lambda>tape.
    Append alloc data1 tape))))"

definition resize_tape :: "(nat \<Rightarrow> bool) \<Rightarrow> nat \<Rightarrow> u32 list \<Rightarrow> u32 list res" where
  "resize_tape alloc n tape = (if alloc n then Inr (take n tape @ replicate (n - length tape) 0) else Inl NoMemory)"

definition set_tape :: "nat \<Rightarrow> u32 \<Rightarrow> u32 list \<Rightarrow> u32 list res" where
  "set_tape i v tape = (if i < length tape then Inr (tape[i := v]) else Inl Fault)"

definition ValidateScalar :: "DecodeEnv \<Rightarrow> u32 \<Rightarrow> u32 \<Rightarrow> u32 \<Rightarrow> u32 \<Rightarrow> u32 list \<Rightarrow> u32 list res" where
  "ValidateScalar E kind off width descriptor tape =
    (if kind = kString \<or> kind = kBytes then
       andThen (ObjectLocation E off width) (\<lambda>object.
       andThen (ParseBytes E object) (\<lambda>bytes.
       andThen (set_tape (unat descriptor) (span_offset bytes) tape) (\<lambda>tape.
       set_tape (unat (descriptor + 1)) (span_length bytes) tape)))
     else if width = ScalarWidthWords kind then Inr tape
     else Inl Refused)"

subsection \<open>Model: messages\<close>

definition record_field :: "TypePlan \<Rightarrow> nat \<Rightarrow> u32 \<Rightarrow> u32 \<Rightarrow> u32 \<Rightarrow> u32 list \<Rightarrow> u32 list res" where
  "record_field plan descriptors fid off width tape =
    (if unat fid \<ge> length (tp_field_index_by_id plan) then Inr tape
     else andThen (fetch (tp_field_index_by_id plan) (unat fid)) (\<lambda>index.
       if sint index < 0 then Inr tape
       else andThen (set_tape (descriptors + unat (scast index * 2 :: u32)) off tape) (\<lambda>tape.
         set_tape (descriptors + unat (scast index * 2 + 1 :: u32)) width tape)))"

text \<open>The fields of the head word, \<open>n\<close> of them left.\<close>

primrec head_fields :: "TypePlan \<Rightarrow> nat \<Rightarrow> u32 \<Rightarrow> u32 \<Rightarrow> nat \<Rightarrow> u32 \<Rightarrow> u32 \<Rightarrow> u32 \<Rightarrow> u32 list \<Rightarrow> u32 list res" where
  "head_fields plan descriptors body limit 0 fid widths off tape = Inr tape"
| "head_fields plan descriptors body limit (Suc n) fid widths off tape =
    (let width = widths AND 3 in
     if width \<noteq> 0 then
       if \<not> RequireWords (body + off) (ucast width) limit then Inl Refused
       else andThen (record_field plan descriptors fid (body + off) width tape) (\<lambda>tape.
         head_fields plan descriptors body limit n (fid + 1) (drop_bit 2 widths) (off + width) tape)
     else head_fields plan descriptors body limit n (fid + 1) (drop_bit 2 widths) off tape)"

text \<open>The fields of one section from field \<open>index\<close> of the section on.\<close>

primrec section_fields :: "TypePlan \<Rightarrow> nat \<Rightarrow> u32 \<Rightarrow> u32 \<Rightarrow> u32 \<Rightarrow> u32 \<Rightarrow> u32 \<Rightarrow> nat \<Rightarrow> nat \<Rightarrow> u32 \<Rightarrow> u32 list \<Rightarrow> u32 list res" where
  "section_fields plan descriptors body limit sec low high 0 index off tape = Inr tape"
| "section_fields plan descriptors body limit sec low high (Suc n) index off tape =
    (let shift = index * 2;
         width = (if shift < 32 then drop_bit shift low AND 3 else drop_bit (shift - 32) high AND 3) in
     if width \<noteq> 0 then
       if \<not> RequireWords (body + off) (ucast width) limit then Inl Refused
       else andThen (record_field plan descriptors (12 + sec * 25 + of_nat index) (body + off) width tape) (\<lambda>tape.
         section_fields plan descriptors body limit sec low high n (index + 1) (off + width) tape)
     else section_fields plan descriptors body limit sec low high n (index + 1) off tape)"

text \<open>The sections from \<open>sec\<close> on.\<close>

primrec section_loop :: "DecodeEnv \<Rightarrow> TypePlan \<Rightarrow> nat \<Rightarrow> u32 \<Rightarrow> Location \<Rightarrow> nat \<Rightarrow> u32 \<Rightarrow> u32 list \<Rightarrow> u32 list res" where
  "section_loop E plan descriptors body loc 0 sec tape = Inr tape"
| "section_loop E plan descriptors body loc (Suc n) sec tape =
    (let section_offset = word_offset loc + 1 + sec * 2 in
     andThen (ReadWord E section_offset) (\<lambda>low.
     andThen (ReadWord E (section_offset + 1)) (\<lambda>high.
     andThen (section_fields plan descriptors body (limit_word_offset loc) sec low high 25 0 (drop_bit 18 high) tape) (\<lambda>tape.
     section_loop E plan descriptors body loc n (sec + 1) tape))))"

type_synonym visitor = "u32 \<Rightarrow> Location \<Rightarrow> u32 \<Rightarrow> u32 list \<Rightarrow> u32 list res"

primrec visit_fields :: "DecodeEnv \<Rightarrow> visitor \<Rightarrow> u32 \<Rightarrow> FieldPlan list \<Rightarrow> nat \<Rightarrow> u32 list \<Rightarrow> u32 list res" where
  "visit_fields E visit depth [] descriptor tape = Inr tape"
| "visit_fields E visit depth (field # flds) descriptor tape =
    andThen (fetch tape descriptor) (\<lambda>off.
    andThen (fetch tape (descriptor + 1)) (\<lambda>width.
    if off = 0 then visit_fields E visit depth flds (descriptor + 2) tape
    else if \<not> IsComplex (fp_kind field) then
      andThen (ValidateScalar E (fp_kind field) off width (of_nat descriptor) tape) (\<lambda>tape.
      visit_fields E visit depth flds (descriptor + 2) tape)
    else if depth \<ge> kMaximumDepth \<or> fp_child field = kNoType then Inl Refused
    else
      andThen (ObjectLocation E off width) (\<lambda>child.
      andThen (visit (fp_child field) child (depth + 1) tape) (\<lambda>tape.
      visit_fields E visit depth flds (descriptor + 2) tape))))"

text \<open>The number of words of the body, from the head word or from the last section.\<close>

definition body_width :: "DecodeEnv \<Rightarrow> Location \<Rightarrow> u32 \<Rightarrow> u32 \<Rightarrow> u32 res" where
  "body_width E loc first section_count =
    (if section_count = 0 then Inr (SumWidths 12 (drop_bit 8 first))
     else
       let lst = word_offset loc + 1 + (section_count - 1) * 2 in
       andThen (ReadWord E lst) (\<lambda>low.
       andThen (ReadWord E (lst + 1)) (\<lambda>high.
       Inr (drop_bit 18 high + SumWidths 16 low + SumWidths 9 (high AND 0x0003ffff)))))"

definition VisitMessage :: "(nat \<Rightarrow> bool) \<Rightarrow> DecodeEnv \<Rightarrow> visitor \<Rightarrow> u32 \<Rightarrow> TypePlan \<Rightarrow> Location \<Rightarrow> u32 \<Rightarrow> u32 list \<Rightarrow> u32 list res" where
  "VisitMessage alloc E visit type_id plan loc depth tape =
    (if \<not> RequireWords (word_offset loc) 1 (limit_word_offset loc) then Inl Refused
     else andThen (ReadWord E (word_offset loc)) (\<lambda>first.
       let section_count = first AND 0xff;
           header_words = 1 + ucast section_count * 2 :: u64 in
       if \<not> RequireWords (word_offset loc) header_words (limit_word_offset loc) then Inl Refused
       else
         let body = word_offset loc + ucast header_words in
         andThen (body_width E loc first section_count) (\<lambda>body_words.
         if \<not> RequireWords body (ucast body_words) (limit_word_offset loc) then Inl Refused
         else
           andThen (AppendHeader alloc kMessage type_id (of_nat (length (tp_fields plan))) 0 0 tape) (\<lambda>tape.
           let descriptors = length tape in
           andThen (resize_tape alloc (descriptors + length (tp_fields plan) * 2) tape) (\<lambda>tape.
           andThen (head_fields plan descriptors body (limit_word_offset loc) 12 0 (drop_bit 8 first) 0 tape) (\<lambda>tape.
           andThen (section_loop E plan descriptors body loc (unat section_count) 0 tape) (\<lambda>tape.
           visit_fields E visit depth (tp_fields plan) descriptors tape)))))))"

subsection \<open>Model: arrays and maps\<close>

primrec validate_elements :: "DecodeEnv \<Rightarrow> u32 \<Rightarrow> u32 \<Rightarrow> u32 \<Rightarrow> u32 \<Rightarrow> nat \<Rightarrow> u32 \<Rightarrow> u32 list \<Rightarrow> u32 list res" where
  "validate_elements E kind body width descriptors 0 index tape = Inr tape"
| "validate_elements E kind body width descriptors (Suc n) index tape =
    andThen (ValidateScalar E kind (body + index * width) width (descriptors + index * 2) tape) (\<lambda>tape.
    validate_elements E kind body width descriptors n (index + 1) tape)"

text \<open>The children at \<open>base + index * stride\<close>, \<open>n\<close> of them left.\<close>

primrec visit_children :: "DecodeEnv \<Rightarrow> visitor \<Rightarrow> u32 \<Rightarrow> u32 \<Rightarrow> u32 \<Rightarrow> u32 \<Rightarrow> u32 \<Rightarrow> u32 \<Rightarrow> nat \<Rightarrow> u32 \<Rightarrow> u32 list \<Rightarrow> u32 list res" where
  "visit_children E visit child depth base stride skip width 0 index tape = Inr tape"
| "visit_children E visit child depth base stride skip width (Suc n) index tape =
    andThen (ObjectLocation E (base + index * stride + skip) width) (\<lambda>loc.
    andThen (visit child loc (depth + 1) tape) (\<lambda>tape.
    visit_children E visit child depth base stride skip width n (index + 1) tape))"

definition VisitArray :: "(nat \<Rightarrow> bool) \<Rightarrow> DecodeEnv \<Rightarrow> visitor \<Rightarrow> u32 \<Rightarrow> TypePlan \<Rightarrow> Location \<Rightarrow> u32 \<Rightarrow> u32 list \<Rightarrow> u32 list res" where
  "VisitArray alloc E visit type_id plan loc depth tape =
    (if tp_value_kind plan = kBool then
       andThen (ParseBytes E loc) (\<lambda>bytes. AppendHeader alloc kArray type_id (span_length bytes) (span_offset bytes) 0 tape)
     else if \<not> RequireWords (word_offset loc) 1 (limit_word_offset loc) then Inl Refused
     else andThen (ReadWord E (word_offset loc)) (\<lambda>header.
       let width = header AND 3;
           count = drop_bit 2 header;
           body = word_offset loc + 1 in
       if width = 0 \<or> \<not> RequireWords body (ucast width * ucast count) (limit_word_offset loc) then Inl Refused
       else
         andThen (AppendHeader alloc kArray type_id count body width tape) (\<lambda>tape.
         if tp_value_kind plan = kString \<or> tp_value_kind plan = kBytes then
           let descriptors = length tape in
           andThen (resize_tape alloc (descriptors + unat count * 2) tape) (\<lambda>tape.
           validate_elements E (tp_value_kind plan) body width (of_nat descriptors) (unat count) 0 tape)
         else if \<not> IsComplex (tp_value_kind plan) then
           (if width = ScalarWidthWords (tp_value_kind plan) then Inr tape else Inl Refused)
         else if depth \<ge> kMaximumDepth \<or> tp_child plan = kNoType then Inl Refused
         else visit_children E visit (tp_child plan) depth body width 0 width (unat count) 0 tape)))"

primrec validate_pairs :: "DecodeEnv \<Rightarrow> TypePlan \<Rightarrow> u32 \<Rightarrow> u32 \<Rightarrow> u32 \<Rightarrow> u32 \<Rightarrow> u32 \<Rightarrow> nat \<Rightarrow> u32 \<Rightarrow> u32 list \<Rightarrow> u32 list res" where
  "validate_pairs E plan body key_width value_width descriptor_stride descriptors 0 index tape = Inr tape"
| "validate_pairs E plan body key_width value_width descriptor_stride descriptors (Suc n) index tape =
    (let key = body + index * (key_width + value_width);
         val = key + key_width;
         descriptor = descriptors + index * descriptor_stride in
     andThen (if tp_key_kind plan = kString then ValidateScalar E kString key key_width descriptor tape else Inr tape) (\<lambda>tape.
     let descriptor = (if tp_key_kind plan = kString then descriptor + 2 else descriptor) in
     andThen (if tp_value_kind plan = kString \<or> tp_value_kind plan = kBytes
       then ValidateScalar E (tp_value_kind plan) val value_width descriptor tape else Inr tape) (\<lambda>tape.
     validate_pairs E plan body key_width value_width descriptor_stride descriptors n (index + 1) tape)))"

definition VisitMap :: "(nat \<Rightarrow> bool) \<Rightarrow> DecodeEnv \<Rightarrow> visitor \<Rightarrow> u32 \<Rightarrow> TypePlan \<Rightarrow> Location \<Rightarrow> u32 \<Rightarrow> u32 list \<Rightarrow> u32 list res" where
  "VisitMap alloc E visit type_id plan loc depth tape =
    (if \<not> RequireWords (word_offset loc) 1 (limit_word_offset loc) then Inl Refused
     else andThen (ReadWord E (word_offset loc)) (\<lambda>header.
       let key_width = drop_bit 30 header AND 3;
           value_width = drop_bit 28 header AND 3;
           count = header AND 0x0fffffff;
           body64 = ucast (word_offset loc) + (IndexByteLength count + 3) div 4 in
       if key_width = 0 \<or> value_width = 0 \<or> body64 > 0xffffffff then Inl Refused
       else
         let body = ucast body64;
             stride = key_width + value_width in
         if \<not> RequireWords body (ucast stride * ucast count) (limit_word_offset loc) then Inl Refused
         else
           andThen (AppendHeader alloc kMap type_id count body (key_width OR push_bit 16 value_width) tape) (\<lambda>tape.
           let string_key = (tp_key_kind plan = kString);
               byte_value = (tp_value_kind plan = kString \<or> tp_value_kind plan = kBytes);
               descriptor_stride = (if string_key then 2 else 0) + (if byte_value then 2 else 0) :: u32;
               descriptors = length tape in
           andThen (if descriptor_stride \<noteq> 0 then resize_tape alloc (descriptors + unat descriptor_stride * unat count) tape else Inr tape) (\<lambda>tape.
           if \<not> string_key \<and> key_width \<noteq> ScalarWidthWords (tp_key_kind plan) then Inl Refused
           else if \<not> IsComplex (tp_value_kind plan) \<and> \<not> byte_value \<and> value_width \<noteq> ScalarWidthWords (tp_value_kind plan) then Inl Refused
           else
             andThen (validate_pairs E plan body key_width value_width descriptor_stride (of_nat descriptors) (unat count) 0 tape) (\<lambda>tape.
             if \<not> IsComplex (tp_value_kind plan) then Inr tape
             else if depth \<ge> kMaximumDepth \<or> tp_child plan = kNoType then Inl Refused
             else visit_children E visit (tp_child plan) depth body stride key_width value_width (unat count) 0 tape)))))"

subsection \<open>Model: the walk\<close>

primrec Visit :: "(nat \<Rightarrow> bool) \<Rightarrow> DecodeEnv \<Rightarrow> nat \<Rightarrow> visitor" where
  "Visit alloc E 0 = (\<lambda>type_id loc depth tape. Inl Unfinished)"
| "Visit alloc E (Suc n) = (\<lambda>type_id loc depth tape.
    if type_id = 0 \<or> unat type_id > length (g_types E) then Inl Refused
    else andThen (fetch (g_types E) (unat (type_id - 1))) (\<lambda>plan.
      if \<not> tp_committed plan then Inl Refused
      else if tp_kind plan = kMessage then VisitMessage alloc E (Visit alloc E n) type_id plan loc depth tape
      else if tp_kind plan = kArray then VisitArray alloc E (Visit alloc E n) type_id plan loc depth tape
      else if tp_kind plan = kMap then VisitMap alloc E (Visit alloc E n) type_id plan loc depth tape
      else Inl Refused))"

end
