(* ===== verification/DecodeApi.thy ===== *)
theory DecodeApi
  imports DecodeTape
begin

text \<open>
  The exported functions of typescript/wasm/decode_tape.cc over the globals of that file.  A pointer
  result is modelled by whether it is not null.  \<open>None\<close> is an access outside of a vector, or that the
  fuel of the model was too small.  The fuel of a walk is one more than \<open>kMaximumDepth\<close>, as a walk
  goes one level deeper only below that depth; the fuel of \<open>Reserve\<close> is the number of times that a
  capacity of 32 bits can double.
\<close>

definition PC_WASM_OK :: u32 where "PC_WASM_OK = 0"
definition PC_WASM_INVALID_ARGUMENT :: u32 where "PC_WASM_INVALID_ARGUMENT = 1"
definition PC_WASM_OUT_OF_MEMORY :: u32 where "PC_WASM_OUT_OF_MEMORY = 5"
definition PC_WASM_INTERNAL_ERROR :: u32 where "PC_WASM_INTERNAL_ERROR = 6"
definition PC_WASM_INVALID_DATA :: u32 where "PC_WASM_INVALID_DATA = 7"

lemmas status = PC_WASM_OK_def PC_WASM_INVALID_ARGUMENT_def PC_WASM_OUT_OF_MEMORY_def PC_WASM_INTERNAL_ERROR_def PC_WASM_INVALID_DATA_def

record Decoder = DecodeEnv +
  g_plan :: "u8 list"
  g_tape :: "u32 list"
  g_decode_error :: u32

definition initial_decoder :: Decoder where
  "initial_decoder = \<lparr>g_input = replicate 65536 0, g_input_length = 0, g_types = [], g_plan = replicate 8192 0, g_tape = [],
    g_decode_error = PC_WASM_OK\<rparr>"

subsection \<open>Model: growing the buffers\<close>

primrec reserve_loop :: "nat \<Rightarrow> u32 \<Rightarrow> u32 \<Rightarrow> u32 option" where
  "reserve_loop 0 minimum capacity = None"
| "reserve_loop (Suc n) minimum capacity =
    (if capacity < minimum then
       if capacity > kMaximumBufferSize div 2 then Some kMaximumBufferSize
       else reserve_loop n minimum (capacity * 2)
     else Some capacity)"

definition Decode_Reserve :: "(nat \<Rightarrow> bool) \<Rightarrow> u8 list \<Rightarrow> u32 \<Rightarrow> (bool \<times> u8 list) option" where
  "Decode_Reserve alloc buffer minimum =
    (if minimum = 0 \<or> minimum > kMaximumBufferSize then Some (False, buffer)
     else if length buffer \<ge> unat minimum then Some (True, buffer)
     else do {
       capacity \<leftarrow> reserve_loop 33 minimum (of_nat (length buffer));
       Some (if alloc (unat capacity) then (True, take (unat capacity) buffer @ replicate (unat capacity - length buffer) 0)
         else (False, buffer))
     })"

definition pc_decode_input_reserve :: "(nat \<Rightarrow> bool) \<Rightarrow> u32 \<Rightarrow> Decoder \<Rightarrow> (bool \<times> Decoder) option" where
  "pc_decode_input_reserve alloc minimum_capacity d = do {
     (ok, buffer) \<leftarrow> Decode_Reserve alloc (g_input d) minimum_capacity;
     Some (if \<not> ok then (False, d\<lparr>g_decode_error := PC_WASM_OUT_OF_MEMORY\<rparr>)
       else (True, d\<lparr>g_input := buffer, g_decode_error := PC_WASM_OK\<rparr>))
   }"

definition pc_decode_input_capacity :: "Decoder \<Rightarrow> u32" where
  "pc_decode_input_capacity d = of_nat (length (g_input d))"

definition pc_decode_plan_reserve :: "(nat \<Rightarrow> bool) \<Rightarrow> u32 \<Rightarrow> Decoder \<Rightarrow> (bool \<times> Decoder) option" where
  "pc_decode_plan_reserve alloc minimum_capacity d = do {
     (ok, buffer) \<leftarrow> Decode_Reserve alloc (g_plan d) minimum_capacity;
     Some (if \<not> ok then (False, d\<lparr>g_decode_error := PC_WASM_OUT_OF_MEMORY\<rparr>)
       else (True, d\<lparr>g_plan := buffer, g_decode_error := PC_WASM_OK\<rparr>))
   }"

subsection \<open>Model: schemas\<close>

definition pc_decode_schema_reserve :: "(nat \<Rightarrow> bool) \<Rightarrow> u32 \<Rightarrow> Decoder \<Rightarrow> u32 \<times> Decoder" where
  "pc_decode_schema_reserve alloc kind d =
    (if kind \<noteq> kMessage \<and> kind \<noteq> kArray \<and> kind \<noteq> kMap then (0, d\<lparr>g_decode_error := PC_WASM_INVALID_ARGUMENT\<rparr>)
     else if \<not> alloc (length (g_types d) + 1) then (0, d\<lparr>g_decode_error := PC_WASM_OUT_OF_MEMORY\<rparr>)
     else (of_nat (length (g_types d) + 1), d\<lparr>g_types := g_types d @ [type_plan kind], g_decode_error := PC_WASM_OK\<rparr>))"

definition pc_decode_schema_count :: "Decoder \<Rightarrow> u32" where
  "pc_decode_schema_count d = of_nat (length (g_types d))"

definition pc_decode_schema_kind :: "Decoder \<Rightarrow> u32 \<Rightarrow> u32 option" where
  "pc_decode_schema_kind d handle =
    (if handle = 0 \<or> unat handle > length (g_types d) then Some kNone
     else do { schema \<leftarrow> rd (g_types d) (unat (handle - 1)); Some (if tp_committed schema then tp_kind schema else kNone) })"

text \<open>The lambda \<open>word\<close> of \<open>CommitPlan\<close>.\<close>

definition plan_word :: "u8 list \<Rightarrow> u32 \<Rightarrow> u32 res" where
  "plan_word plan index = Load32 plan (unat index * 4)"

primrec read_fields :: "u8 list \<Rightarrow> nat \<Rightarrow> u32 \<Rightarrow> FieldPlan list res" where
  "read_fields plan 0 index = Inr []"
| "read_fields plan (Suc n) index =
    andThen (plan_word plan (4 + index * 3)) (\<lambda>fid.
    andThen (plan_word plan (5 + index * 3)) (\<lambda>kind.
    andThen (plan_word plan (6 + index * 3)) (\<lambda>child.
    if fid \<ge> 6387 \<or> \<not> ValidValueKind kind \<or> IsComplex kind \<noteq> (child \<noteq> kNoType) then Inl Refused
    else andThen (read_fields plan n (index + 1)) (\<lambda>flds.
      Inr (\<lparr>fp_id = fid, fp_kind = kind, fp_child = child\<rparr> # flds)))))"

primrec index_fields :: "FieldPlan list \<Rightarrow> u32 \<Rightarrow> 16 word list \<Rightarrow> 16 word list res" where
  "index_fields [] index table = Inr table"
| "index_fields (field # flds) index table =
    andThen (fetch table (unat (fp_id field))) (\<lambda>old.
    if old \<noteq> - 1 then Inl Refused
    else index_fields flds (index + 1) (table[unat (fp_id field) := ucast index]))"

definition validate_child :: "TypePlan list \<Rightarrow> u32 \<Rightarrow> u32 \<Rightarrow> bool res" where
  "validate_child types expected_kind child_handle =
    (if \<not> IsComplex expected_kind then Inr True
     else if child_handle = 0 \<or> unat child_handle > length types then Inr False
     else andThen (fetch types (unat (child_handle - 1))) (\<lambda>t. Inr (tp_kind t = expected_kind)))"

primrec validate_fields :: "TypePlan list \<Rightarrow> FieldPlan list \<Rightarrow> bool res" where
  "validate_fields types [] = Inr True"
| "validate_fields types (field # flds) =
    andThen (validate_child types (fp_kind field) (fp_child field)) (\<lambda>ok.
    if \<not> ok then Inr False else validate_fields types flds)"

text \<open>The type of a message: its fields, and their indexes by the numbers of the fields.\<close>

definition commit_message :: "(nat \<Rightarrow> bool) \<Rightarrow> u8 list \<Rightarrow> u32 \<Rightarrow> u32 \<Rightarrow> TypePlan \<Rightarrow> TypePlan res" where
  "commit_message alloc plan record_words field_count type =
    (if record_words \<noteq> 4 + field_count * 3 \<or> field_count > 6387 then Inl Refused
     else if \<not> alloc (unat field_count) then Inl NoMemory
     else andThen (read_fields plan (unat field_count) 0) (\<lambda>flds.
       if field_count = 0 then Inr (type\<lparr>tp_fields := flds\<rparr>)
       else
         let maximum_id = fold max (map fp_id flds) 0 in
         if \<not> alloc (unat (maximum_id + 1)) then Inl NoMemory
         else andThen (index_fields flds 0 (replicate (unat (maximum_id + 1)) (- 1))) (\<lambda>table.
           Inr (type\<lparr>tp_fields := flds, tp_field_index_by_id := table\<rparr>))))"

definition CommitPlan :: "(nat \<Rightarrow> bool) \<Rightarrow> u32 \<Rightarrow> u32 \<Rightarrow> Decoder \<Rightarrow> Decoder res" where
  "CommitPlan alloc handle len d =
    (if len < 16 \<or> len AND 3 \<noteq> 0 \<or> unat len > length (g_plan d) then Inl Refused
     else if handle = 0 \<or> unat handle > length (g_types d) then Inl Refused
     else
       andThen (plan_word (g_plan d) 0) (\<lambda>kind.
       andThen (plan_word (g_plan d) 1) (\<lambda>auxiliary.
       andThen (plan_word (g_plan d) 2) (\<lambda>record_words.
       andThen (plan_word (g_plan d) 3) (\<lambda>child.
       if record_words \<noteq> len div 4 \<or> record_words < 4 then Inl Refused
       else andThen (fetch (g_types d) (unat (handle - 1))) (\<lambda>reserved.
       if tp_committed reserved \<or> tp_kind reserved \<noteq> kind then Inl Refused
       else
         let type = (type_plan kind)\<lparr>tp_child := child\<rparr> in
         andThen
           (if kind = kMessage then commit_message alloc (g_plan d) record_words auxiliary type
            else if kind = kArray then
              if record_words \<noteq> 4 \<or> \<not> ValidValueKind auxiliary then Inl Refused
              else if IsComplex auxiliary \<noteq> (child \<noteq> kNoType) then Inl Refused
              else Inr (type\<lparr>tp_value_kind := auxiliary\<rparr>)
            else if kind = kMap then
              let key_kind = auxiliary AND 0xff;
                  value_kind = drop_bit 8 auxiliary AND 0xff in
              if record_words \<noteq> 4 \<or> \<not> ValidKeyKind key_kind \<or> \<not> ValidValueKind value_kind then Inl Refused
              else if IsComplex value_kind \<noteq> (child \<noteq> kNoType) then Inl Refused
              else Inr (type\<lparr>tp_key_kind := key_kind, tp_value_kind := value_kind\<rparr>)
            else Inl Refused) (\<lambda>type.
         andThen
           (if tp_kind type = kMessage then validate_fields (g_types d) (tp_fields type)
            else validate_child (g_types d) (tp_value_kind type) (tp_child type)) (\<lambda>ok.
         if \<not> ok then Inl Refused
         else Inr (d\<lparr>g_types := (g_types d)[unat (handle - 1) := type\<lparr>tp_committed := True\<rparr>]\<rparr>)))))))))"

definition pc_decode_plan_commit :: "(nat \<Rightarrow> bool) \<Rightarrow> u32 \<Rightarrow> u32 \<Rightarrow> Decoder \<Rightarrow> (u32 \<times> Decoder) option" where
  "pc_decode_plan_commit alloc handle plan_length d =
    (case CommitPlan alloc handle plan_length d of
       Inr d \<Rightarrow> Some (PC_WASM_OK, d\<lparr>g_decode_error := PC_WASM_OK\<rparr>)
     | Inl Refused \<Rightarrow> Some (PC_WASM_INVALID_DATA, d\<lparr>g_decode_error := PC_WASM_INVALID_DATA\<rparr>)
     | Inl NoMemory \<Rightarrow> Some (PC_WASM_OUT_OF_MEMORY, d\<lparr>g_decode_error := PC_WASM_OUT_OF_MEMORY\<rparr>)
     | Inl Fault \<Rightarrow> None
     | Inl Unfinished \<Rightarrow> None)"

subsection \<open>Model: decoding\<close>

definition kInitialTapeWords :: nat where "kInitialTapeWords = 2 * 1024"

definition walk_fuel :: nat where "walk_fuel = 257"

text \<open>
  The reservation of the first words of the tape can fail as well; a tape that already has that
  capacity got it from an earlier reservation.
\<close>

definition pc_decode_tape :: "(nat \<Rightarrow> bool) \<Rightarrow> u32 \<Rightarrow> u32 \<Rightarrow> Decoder \<Rightarrow> (u32 \<times> Decoder) option" where
  "pc_decode_tape alloc handle input_length d =
    (if input_length = 0 \<or> input_length AND 3 \<noteq> 0 \<or> unat input_length > length (g_input d) \<or> handle = 0 \<or> unat handle > length (g_types d)
     then Some (0, d\<lparr>g_decode_error := PC_WASM_INVALID_ARGUMENT\<rparr>)
     else do {
       schema \<leftarrow> rd (g_types d) (unat (handle - 1));
       if \<not> tp_committed schema then Some (0, d\<lparr>g_decode_error := PC_WASM_INVALID_ARGUMENT\<rparr>)
       else
         let d = d\<lparr>g_input_length := input_length, g_tape := []\<rparr> in
         if \<not> alloc kInitialTapeWords then Some (0, d\<lparr>g_decode_error := PC_WASM_OUT_OF_MEMORY\<rparr>)
         else
           case Visit alloc (DecodeEnv.truncate d) walk_fuel handle \<lparr>word_offset = 0, limit_word_offset = input_length div 4\<rparr> 0 [] of
             Inr tape \<Rightarrow>
               if length tape > 0xffffffff div 4 then Some (0, d\<lparr>g_decode_error := PC_WASM_OUT_OF_MEMORY\<rparr>)
               else Some (of_nat (length tape * 4), d\<lparr>g_tape := tape, g_decode_error := PC_WASM_OK\<rparr>)
           | Inl Refused \<Rightarrow> Some (0, if g_decode_error d = PC_WASM_OK then d\<lparr>g_decode_error := PC_WASM_INVALID_DATA\<rparr> else d)
           | Inl NoMemory \<Rightarrow> Some (0, d\<lparr>g_decode_error := PC_WASM_OUT_OF_MEMORY\<rparr>)
           | Inl Fault \<Rightarrow> None
           | Inl Unfinished \<Rightarrow> None
     })"

definition pc_decode_tape_output :: "Decoder \<Rightarrow> u32 list option" where
  "pc_decode_tape_output d = (if g_tape d = [] then None else Some (g_tape d))"

definition pc_decode_last_error :: "Decoder \<Rightarrow> u32" where
  "pc_decode_last_error d = g_decode_error d"

text \<open>
  The calls that the host makes, in any order and with any arguments, and the bytes that it writes
  through the pointers it got into the input and into the plan.
\<close>

inductive decoder_step :: "(nat \<Rightarrow> bool) \<Rightarrow> Decoder \<Rightarrow> Decoder \<Rightarrow> bool" for alloc where
  input_reserve: "pc_decode_input_reserve alloc n d = Some (r, d') \<Longrightarrow> decoder_step alloc d d'"
| plan_reserve: "pc_decode_plan_reserve alloc n d = Some (r, d') \<Longrightarrow> decoder_step alloc d d'"
| schema_reserve: "pc_decode_schema_reserve alloc kind d = (h, d') \<Longrightarrow> decoder_step alloc d d'"
| plan_commit: "pc_decode_plan_commit alloc h n d = Some (r, d') \<Longrightarrow> decoder_step alloc d d'"
| decode: "pc_decode_tape alloc h n d = Some (r, d') \<Longrightarrow> decoder_step alloc d d'"
| host_input: "length bs = length (g_input d) \<Longrightarrow> decoder_step alloc d (d\<lparr>g_input := bs\<rparr>)"
| host_plan: "length bs = length (g_plan d) \<Longrightarrow> decoder_step alloc d (d\<lparr>g_plan := bs\<rparr>)"

inductive decoder_reachable :: "(nat \<Rightarrow> bool) \<Rightarrow> Decoder \<Rightarrow> bool" for alloc where
  start: "decoder_reachable alloc initial_decoder"
| step: "decoder_reachable alloc d \<Longrightarrow> decoder_step alloc d d' \<Longrightarrow> decoder_reachable alloc d'"

end
