(* ===== verification/DecodeSafe.thy ===== *)
theory DecodeSafe
  imports DecodeTape
begin

text \<open>
  The walk of the decoder never leaves a vector and always ends, on every input and with every plan
  that \<open>CommitPlan\<close> lets pass, and the tape it writes follows the grammar \<open>tape_of\<close>: the records of a
  value and of the values inside of it in order, with all places inside of the input.
\<close>

subsection \<open>Stops that are results of the code\<close>

definition fine :: "'a res \<Rightarrow> ('a \<Rightarrow> bool) \<Rightarrow> bool" where
  "fine m Q = (case m of Inl e \<Rightarrow> e = Refused \<or> e = NoMemory | Inr x \<Rightarrow> Q x)"

lemma fine_simps [simp]: "fine (Inl Refused) Q" "fine (Inl NoMemory) Q" "\<not> fine (Inl Fault) Q" "\<not> fine (Inl Unfinished) Q" "fine (Inr x) Q \<longleftrightarrow> Q x"
  by (simp_all add: fine_def)

lemma fine_andThen: "fine m P \<Longrightarrow> (\<And>x. m = Inr x \<Longrightarrow> P x \<Longrightarrow> fine (f x) Q) \<Longrightarrow> fine (andThen m f) Q"
  by (cases m) (auto simp: fine_def)

lemma fine_mono: "fine m P \<Longrightarrow> (\<And>x. P x \<Longrightarrow> Q x) \<Longrightarrow> fine m Q"
  by (auto simp: fine_def split: sum.splits)

lemma fine_if: "(b \<Longrightarrow> fine m Q) \<Longrightarrow> (\<not> b \<Longrightarrow> fine n Q) \<Longrightarrow> fine (if b then m else n) Q"
  by simp

lemma fetch_fine: "i < length xs \<Longrightarrow> fine (fetch xs i) (\<lambda>x. x = xs ! i)"
  by (simp add: fetch_def)

subsection \<open>Reading\<close>

definition env_ok :: "DecodeEnv \<Rightarrow> bool" where
  "env_ok E \<longleftrightarrow> unat (g_input_length E) \<le> length (g_input E)"

abbreviation words :: "DecodeEnv \<Rightarrow> nat" where
  "words E \<equiv> unat (g_input_length E) div 4"

lemma RequireWords_iff: "RequireWords off width limit \<longleftrightarrow> unat off + unat width \<le> unat limit"
proof (cases "off \<le> limit")
  case True
  then have "unat (limit - off) = unat limit - unat off" "unat off \<le> unat limit" by (simp_all add: unat_sub word_le_nat_alt)
  then show ?thesis using True by (auto simp: RequireWords_def word_le_nat_alt)
next
  case False
  then show ?thesis by (auto simp: RequireWords_def word_le_nat_alt)
qed

lemma RequireInputWords_iff: "RequireInputWords E off width \<longleftrightarrow> unat off + unat width \<le> words E"
  by (simp add: RequireInputWords_def RequireWords_iff unat_div)

lemma words_bound: "words E < 2 ^ 30"
  using unat_u32 [of "g_input_length E"] by simp

lemma ReadWord_fine: "env_ok E \<Longrightarrow> fine (ReadWord E off) (\<lambda>_. unat off < words E)"
proof -
  assume "env_ok E"
  then have "unat off * 4 + 4 \<le> length (g_input E)" if "unat off < words E" using that by (simp add: env_ok_def)
  then show ?thesis by (auto simp: ReadWord_def RequireInputWords_iff Load32_def load32_def intro!: fine_if)
qed

definition loc_ok :: "DecodeEnv \<Rightarrow> Location \<Rightarrow> bool" where
  "loc_ok E loc \<longleftrightarrow> unat (limit_word_offset loc) \<le> words E"

lemma ObjectLocation_fine:
  assumes "env_ok E" and "unat off + unat width \<le> words E"
  shows "fine (ObjectLocation E off width) (loc_ok E)"
proof -
  have "unat (off + width) = unat off + unat width"
    using assms(2) words_bound [of E] by (simp add: unat_word_ariths)
  then show ?thesis unfolding ObjectLocation_def
    by (intro fine_if fine_andThen [OF ReadWord_fine [OF assms(1)]])
      (use assms in \<open>auto simp: Let_def loc_ok_def unat_div intro!: fine_if\<close>)
qed

definition span_in :: "DecodeEnv \<Rightarrow> u32 \<Rightarrow> u32 \<Rightarrow> bool" where
  "span_in E off len \<longleftrightarrow> 0 < unat off \<and> unat off + unat len \<le> unat (g_input_length E)"

lemma span_nonzero: "span_in E off len \<Longrightarrow> off \<noteq> 0"
  by (auto simp: span_in_def)

lemma parse_mark_fine:
  assumes "env_ok E"
  shows "fine (parse_mark E byte_limit k shift byte_offset mark) (\<lambda>s. span_in E (span_offset s) (span_length s))"
proof (induction k arbitrary: shift byte_offset mark)
  case (Suc k)
  let ?n = "ucast (g_input_length E) :: u64"
  have n: "unat ?n = unat (g_input_length E)" by simp
  have byte: "fine (fetch (g_input E) (unat byte_offset)) (\<lambda>_. True)" if "\<not> (byte_offset \<ge> byte_limit \<or> byte_offset \<ge> ?n)"
  proof -
    have "unat byte_offset < unat (g_input_length E)" using that n by (simp add: word_le_nat_alt)
    then show ?thesis using assms fetch_fine [of "unat byte_offset" "g_input E"] by (auto simp: env_ok_def fine_def split: sum.splits)
  qed
  have fin: "span_in E (ucast (byte_offset + 1)) (ucast len)"
    if b: "\<not> (byte_offset \<ge> byte_limit \<or> byte_offset \<ge> ?n)"
      and l: "\<not> (len > 0xffffffff \<or> byte_offset + 1 > byte_limit \<or> len > byte_limit - (byte_offset + 1) \<or> byte_offset + 1 > ?n \<or> len > ?n - (byte_offset + 1))"
    for len :: u64
  proof -
    have "unat byte_offset < unat (g_input_length E)" using b n by (simp add: word_le_nat_alt)
    then have o: "unat (byte_offset + 1) = unat byte_offset + 1" using unat_u32 [of "g_input_length E"] by (simp add: unat_word_ariths)
    moreover have "unat (byte_offset + 1) \<le> unat ?n" using l by (metis not_less word_le_nat_alt)
    moreover from this have "unat (?n - (byte_offset + 1)) = unat ?n - unat (byte_offset + 1)" by (simp add: unat_sub word_le_nat_alt)
    moreover have "unat len \<le> unat (?n - (byte_offset + 1))" using l by (metis not_less word_le_nat_alt)
    ultimately have "unat byte_offset + 1 + unat len \<le> unat (g_input_length E)" using n by simp
    moreover have "unat (ucast (byte_offset + 1) :: u32) = unat byte_offset + 1" "unat (ucast len :: u32) = unat len"
      using calculation unat_u32 [of "g_input_length E"] o by (simp_all add: unat_ucast)
    ultimately show ?thesis by (simp add: span_in_def)
  qed
  show ?case unfolding parse_mark.simps
    by (intro fine_if fine_andThen [OF byte]) (use fin Suc in \<open>auto simp: Let_def\<close>)
qed simp

lemma ParseBytes_fine: "env_ok E \<Longrightarrow> fine (ParseBytes E loc) (\<lambda>s. span_in E (span_offset s) (span_length s))"
  by (simp add: ParseBytes_def parse_mark_fine del: parse_mark.simps)

subsection \<open>The grammar of the tape\<close>

definition place_in :: "DecodeEnv \<Rightarrow> u32 \<Rightarrow> u32 \<Rightarrow> bool" where
  "place_in E off width \<longleftrightarrow> unat off + unat width \<le> words E"

text \<open>Descriptors of strings: pairs of a place in bytes and a length.\<close>

fun spans :: "DecodeEnv \<Rightarrow> u32 list \<Rightarrow> bool" where
  "spans E [] \<longleftrightarrow> True"
| "spans E [off] \<longleftrightarrow> False"
| "spans E (off # len # D) \<longleftrightarrow> span_in E off len \<and> spans E D"

text \<open>
  The descriptors \<open>D\<close> of the fields of a message and the tapes \<open>cs\<close> of its children: nothing for an
  absent field, the bytes of a string, the place of a scalar of the right width, and the place of an
  object together with its tape.
\<close>

fun fields_tape :: "(u32 \<Rightarrow> u32 list \<Rightarrow> bool) \<Rightarrow> DecodeEnv \<Rightarrow> FieldPlan list \<Rightarrow> u32 list \<Rightarrow> u32 list list \<Rightarrow> bool" where
  "fields_tape P E [] D cs \<longleftrightarrow> D = [] \<and> cs = []"
| "fields_tape P E (f # fs) (off # width # D) cs \<longleftrightarrow>
    (if off = 0 then fields_tape P E fs D cs
     else if \<not> IsComplex (fp_kind f) then
       (if fp_kind f = kString \<or> fp_kind f = kBytes then span_in E off width
        else place_in E off width \<and> width = ScalarWidthWords (fp_kind f)) \<and> fields_tape P E fs D cs
     else place_in E off width \<and> (\<exists>c cs'. cs = c # cs' \<and> P (fp_child f) c \<and> fields_tape P E fs D cs'))"
| "fields_tape P E (f # fs) [off] cs \<longleftrightarrow> False"
| "fields_tape P E (f # fs) [] cs \<longleftrightarrow> False"

lemma fields_tape_mono [mono]: "P \<le> Q \<Longrightarrow> fields_tape P E fs D cs \<longrightarrow> fields_tape Q E fs D cs"
proof (induction P E fs D cs rule: fields_tape.induct)
  case (2 P E f fs off width D cs)
  then show ?case by (auto simp: le_fun_def split: if_splits)
qed auto

definition type_at :: "DecodeEnv \<Rightarrow> u32 \<Rightarrow> TypePlan \<Rightarrow> bool" where
  "type_at E t plan \<longleftrightarrow> t \<noteq> 0 \<and> unat t \<le> length (g_types E) \<and> g_types E ! (unat t - 1) = plan \<and> tp_committed plan"

definition is_bytes :: "u32 \<Rightarrow> bool" where
  "is_bytes kind \<longleftrightarrow> kind = kString \<or> kind = kBytes"

inductive tape_of :: "DecodeEnv \<Rightarrow> u32 \<Rightarrow> u32 list \<Rightarrow> bool" for E where
  message: "type_at E t plan \<Longrightarrow> tp_kind plan = kMessage \<Longrightarrow> fields_tape (tape_of E) E (tp_fields plan) D cs \<Longrightarrow>
    tape_of E t ([kMessage, t, of_nat (length (tp_fields plan)), 0, 0] @ D @ concat cs)"
| bools: "type_at E t plan \<Longrightarrow> tp_kind plan = kArray \<Longrightarrow> tp_value_kind plan = kBool \<Longrightarrow> span_in E off len \<Longrightarrow>
    tape_of E t [kArray, t, len, off, 0]"
| array_bytes: "type_at E t plan \<Longrightarrow> tp_kind plan = kArray \<Longrightarrow> is_bytes (tp_value_kind plan) \<Longrightarrow>
    unat body + unat width * unat count \<le> words E \<Longrightarrow> length D = 2 * unat count \<Longrightarrow> spans E D \<Longrightarrow>
    tape_of E t ([kArray, t, count, body, width] @ D)"
| array_scalar: "type_at E t plan \<Longrightarrow> tp_kind plan = kArray \<Longrightarrow> width = ScalarWidthWords (tp_value_kind plan) \<Longrightarrow>
    unat body + unat width * unat count \<le> words E \<Longrightarrow> tape_of E t [kArray, t, count, body, width]"
| array_object: "type_at E t plan \<Longrightarrow> tp_kind plan = kArray \<Longrightarrow> IsComplex (tp_value_kind plan) \<Longrightarrow>
    unat body + unat width * unat count \<le> words E \<Longrightarrow> length cs = unat count \<Longrightarrow> \<forall>c\<in>set cs. tape_of E (tp_child plan) c \<Longrightarrow>
    tape_of E t ([kArray, t, count, body, width] @ concat cs)"
| pairs: "type_at E t plan \<Longrightarrow> tp_kind plan = kMap \<Longrightarrow> unat body + (unat kw + unat vw) * unat count \<le> words E \<Longrightarrow>
    (tp_key_kind plan = kString \<or> kw = ScalarWidthWords (tp_key_kind plan)) \<Longrightarrow>
    (IsComplex (tp_value_kind plan) \<or> is_bytes (tp_value_kind plan) \<or> vw = ScalarWidthWords (tp_value_kind plan)) \<Longrightarrow>
    length D = ((if tp_key_kind plan = kString then 2 else 0) + (if is_bytes (tp_value_kind plan) then 2 else 0)) * unat count \<Longrightarrow> spans E D \<Longrightarrow>
    length cs = (if IsComplex (tp_value_kind plan) then unat count else 0) \<Longrightarrow> \<forall>c\<in>set cs. tape_of E (tp_child plan) c \<Longrightarrow>
    tape_of E t ([kMap, t, count, body, kw OR push_bit 16 vw] @ D @ concat cs)"

subsection \<open>Appending to the tape\<close>

definition small :: "(nat \<Rightarrow> bool) \<Rightarrow> bool" where
  "small alloc \<longleftrightarrow> (\<forall>n. alloc n \<longrightarrow> n < 2 ^ 30)"

lemma AppendHeader_fine:
  "fine (AppendHeader alloc kind t count data0 data1 tape) (\<lambda>tape'. tape' = tape @ [kind, t, count, data0, data1])"
  by (auto simp: AppendHeader_def Append_def intro!: fine_andThen fine_if)

lemma AppendHeader_alloc: "AppendHeader alloc kind t count data0 data1 tape = Inr tape' \<Longrightarrow> alloc (length tape')"
  by (auto simp: AppendHeader_def Append_def split: if_splits)

lemma resize_tape_fine:
  "small alloc \<Longrightarrow> fine (resize_tape alloc (length tape + n) tape) (\<lambda>tape'. tape' = tape @ replicate n 0 \<and> length tape + n < 2 ^ 30)"
  by (auto simp: resize_tape_def small_def)

lemma set_tape_fine: "i < length tape \<Longrightarrow> fine (set_tape i v tape) (\<lambda>tape'. tape' = tape[i := v])"
  by (simp add: set_tape_def)

lemma ValidateScalar_fine:
  assumes "env_ok E" and "place_in E off width" and "unat descriptor = length pre" and "length pre < 2 ^ 30"
  shows "fine (ValidateScalar E kind off width descriptor (pre @ a # b # suf))
    (\<lambda>tape. if is_bytes kind then \<exists>a b. tape = pre @ a # b # suf \<and> span_in E a b
      else tape = pre @ a # b # suf \<and> width = ScalarWidthWords kind)"
proof -
  have d: "unat (descriptor + 1) = length pre + 1" using assms(3,4) by (simp add: unat_word_ariths)
  have p: "unat off + unat width \<le> words E" using assms(2) by (simp add: place_in_def)
  show ?thesis
    unfolding ValidateScalar_def is_bytes_def [symmetric]
    by (intro fine_if fine_andThen [OF ObjectLocation_fine [OF assms(1) p]] fine_andThen [OF ParseBytes_fine [OF assms(1)]]
        fine_andThen [OF set_tape_fine] fine_mono [OF set_tape_fine])
      (use d assms(3) in \<open>auto simp: nth_append list_update_append\<close>)
qed

subsection \<open>Messages\<close>

definition places :: "DecodeEnv \<Rightarrow> u32 list \<Rightarrow> bool" where
  "places E D \<longleftrightarrow> (\<forall>i. 2 * i + 1 < length D \<longrightarrow> D ! (2 * i) = 0 \<or> place_in E (D ! (2 * i)) (D ! (2 * i + 1)))"

text \<open>The tape while the places of fields are recorded: \<open>pre\<close> and the descriptors of \<open>n\<close> fields.\<close>

definition recording :: "DecodeEnv \<Rightarrow> u32 list \<Rightarrow> nat \<Rightarrow> u32 list \<Rightarrow> bool" where
  "recording E pre n tape \<longleftrightarrow> (\<exists>D. tape = pre @ D \<and> length D = 2 * n \<and> places E D)"

definition plan_ok :: "TypePlan \<Rightarrow> bool" where
  "plan_ok plan \<longleftrightarrow> length (tp_fields plan) \<le> 6387 \<and>
    (\<forall>v\<in>set (tp_field_index_by_id plan). sint v < 0 \<or> nat (sint v) < length (tp_fields plan))"

definition types_ok :: "DecodeEnv \<Rightarrow> bool" where
  "types_ok E \<longleftrightarrow> (\<forall>plan\<in>set (g_types E). tp_committed plan \<longrightarrow> plan_ok plan)"

lemma unat_scast_index:
  assumes "0 \<le> sint (v :: 16 word)"
  shows "unat (scast v :: u32) = nat (sint v)"
proof -
  have "sint v < 2 ^ 15" using sint_lt [of v] by simp
  then have n: "nat (sint v) < 2 ^ 32" by simp
  have "(scast v :: u32) = word_of_int (sint v)" by (rule scast_eq)
  also have "\<dots> = of_nat (nat (sint v))" using assms by (metis of_int_of_nat_eq of_int_eq_id id_apply int_nat_eq word_of_int_eq_iff)
  finally show ?thesis using n by (simp add: unat_of_nat)
qed

lemma places_update:
  assumes "places E D" and "2 * j + 1 < length D" and "place_in E off width"
  shows "places E (D[2 * j := off, 2 * j + 1 := width])"
proof -
  have "D[2 * j := off, 2 * j + 1 := width] ! (2 * i) = (if i = j then off else D ! (2 * i)) \<and>
      D[2 * j := off, 2 * j + 1 := width] ! (2 * i + 1) = (if i = j then width else D ! (2 * i + 1))" if "2 * i + 1 < length D" for i
    using that assms(2) by (auto simp: nth_list_update)
  then show ?thesis using assms by (simp add: places_def)
qed

lemma record_field_fine:
  assumes plan: "plan_ok plan" "n = length (tp_fields plan)" and tape: "recording E pre n tape" and "place_in E off width" "descriptors = length pre"
  shows "fine (record_field plan descriptors fid off width tape) (recording E pre n)"
proof (cases "unat fid < length (tp_field_index_by_id plan) \<and> 0 \<le> sint (tp_field_index_by_id plan ! unat fid)")
  case True
  let ?v = "tp_field_index_by_id plan ! unat fid"
  define j where "j = nat (sint ?v)"
  have j: "j < n" "n \<le> 6387" using True plan nth_mem by (fastforce simp: plan_ok_def j_def)+
  have "unat (scast ?v :: u32) = j" using unat_scast_index True j_def by blast
  then have u: "unat (scast ?v * 2 :: u32) = 2 * j" "unat (scast ?v * 2 + 1 :: u32) = 2 * j + 1"
    using j by (simp_all add: unat_word_ariths)
  obtain D where D: "tape = pre @ D" "length D = 2 * n" "places E D" using tape by (auto simp: recording_def)
  have "record_field plan descriptors fid off width tape = Inr (pre @ D[2 * j := off, 2 * j + 1 := width])"
    using True j(1) assms(5) D(1,2) u by (simp add: record_field_def fetch_def set_tape_def list_update_append)
  then show ?thesis using places_update [OF D(3) _ assms(4), of j] D(2) j(1) by (auto simp: recording_def)
next
  case False
  then show ?thesis using tape by (auto simp: record_field_def fetch_def)
qed

lemma place_in_body:
  assumes "RequireWords (body + off) (ucast width) limit" and "unat limit \<le> words E"
  shows "place_in E (body + off) width"
  using assms by (simp add: RequireWords_iff place_in_def)

lemma head_fields_fine:
  assumes "plan_ok plan" "m = length (tp_fields plan)" "unat limit \<le> words E" "descriptors = length pre"
  shows "recording E pre m tape \<Longrightarrow> fine (head_fields plan descriptors body limit n fid widths off tape) (recording E pre m)"
proof (induction n arbitrary: fid widths off tape)
  case (Suc n)
  show ?case unfolding head_fields.simps Let_def
    by (intro fine_if fine_andThen [OF record_field_fine [OF assms(1,2) Suc.prems _ assms(4)]] Suc.IH)
      (use place_in_body [OF _ assms(3)] Suc.prems in auto)
qed simp

lemma section_fields_fine:
  assumes "plan_ok plan" "m = length (tp_fields plan)" "unat limit \<le> words E" "descriptors = length pre"
  shows "recording E pre m tape \<Longrightarrow> fine (section_fields plan descriptors body limit sec low high n index off tape) (recording E pre m)"
proof (induction n arbitrary: index off tape)
  case (Suc n)
  let ?w = "if index * 2 < 32 then drop_bit (index * 2) low AND 3 else drop_bit (index * 2 - 32) high AND 3"
  show ?case unfolding section_fields.simps Let_def
    by (intro fine_if [of "?w \<noteq> 0"] fine_if [of "\<not> RequireWords (body + off) (ucast ?w) limit"]
        fine_andThen [OF record_field_fine [OF assms(1,2) Suc.prems _ assms(4)]] Suc.IH)
      (use place_in_body [OF _ assms(3)] Suc.prems in auto)
qed simp

lemma section_loop_fine:
  assumes "env_ok E" and plan: "plan_ok plan" "m = length (tp_fields plan)" and "loc_ok E loc" "descriptors = length pre"
  shows "recording E pre m tape \<Longrightarrow> fine (section_loop E plan descriptors body loc n sec tape) (recording E pre m)"
proof (induction n arbitrary: sec tape)
  case (Suc n)
  have lim: "unat (limit_word_offset loc) \<le> words E" using assms(4) by (simp add: loc_ok_def)
  show ?case unfolding section_loop.simps Let_def
    by (intro fine_andThen [OF ReadWord_fine [OF assms(1)]] fine_andThen [OF section_fields_fine [OF plan lim assms(5) Suc.prems]] Suc.IH)
qed simp

definition visitor_ok :: "DecodeEnv \<Rightarrow> visitor \<Rightarrow> u32 \<Rightarrow> bool" where
  "visitor_ok E visit depth \<longleftrightarrow> (\<forall>t loc tape. loc_ok E loc \<longrightarrow>
    fine (visit t loc (depth + 1) tape) (\<lambda>tape'. \<exists>ws. tape' = tape @ ws \<and> tape_of E t ws))"

lemma visitor_okD:
  "visitor_ok E visit depth \<Longrightarrow> loc_ok E loc \<Longrightarrow> fine (visit t loc (depth + 1) tape) (\<lambda>tape'. \<exists>ws. tape' = tape @ ws \<and> tape_of E t ws)"
  by (simp add: visitor_ok_def)

lemma fields_tape_step:
  assumes "fine m (\<lambda>t. \<exists>D' cs. t = pre @ a # b # D' @ (suf @ concat cs0) @ concat cs \<and> F D' cs)" and "\<And>D' cs. F D' cs \<Longrightarrow> G (a # b # D') (cs0 @ cs)"
  shows "fine m (\<lambda>t. \<exists>D' cs. t = pre @ D' @ suf @ concat cs \<and> G D' cs)"
  using assms(1)
proof (rule fine_mono)
  fix t assume "\<exists>D' cs. t = pre @ a # b # D' @ (suf @ concat cs0) @ concat cs \<and> F D' cs"
  then obtain D' cs where "t = pre @ (a # b # D') @ suf @ concat (cs0 @ cs)" "G (a # b # D') (cs0 @ cs)" using assms(2) by auto
  then show "\<exists>D' cs. t = pre @ D' @ suf @ concat cs \<and> G D' cs" by blast
qed

lemma visit_fields_fine:
  assumes "env_ok E" and "depth < kMaximumDepth \<Longrightarrow> visitor_ok E visit depth"
  shows "length D = 2 * length fs \<Longrightarrow> places E D \<Longrightarrow> length pre + length D < 2 ^ 30 \<Longrightarrow>
    fine (visit_fields E visit depth fs (length pre) (pre @ D @ suf))
      (\<lambda>tape'. \<exists>D' cs. tape' = pre @ D' @ suf @ concat cs \<and> fields_tape (tape_of E) E fs D' cs)"
proof (induction fs arbitrary: D pre suf)
  case (Cons f fs)
  obtain off width D2 where D: "D = off # width # D2" using Cons.prems(1) by (cases D; cases "tl D") auto
  have pl: "off = 0 \<or> place_in E off width" "places E D2"
    using Cons.prems(2) by (auto simp: places_def D dest: spec [of _ 0]) (metis Suc_less_eq add_Suc_right mult_Suc_right nth_Cons_Suc add_2_eq_Suc plus_1_eq_Suc)
  let ?tape = "pre @ D @ suf"
  have rest: "fine (visit_fields E visit depth fs (length pre + 2) (pre @ a # b # D2 @ suf'))
      (\<lambda>tape'. \<exists>D' cs. tape' = pre @ a # b # D' @ suf' @ concat cs \<and> fields_tape (tape_of E) E fs D' cs)" for a b suf'
    using Cons.IH [of D2 "pre @ [a, b]" suf'] Cons.prems pl(2) by (simp add: D)
  have get: "fetch ?tape (length pre) = Inr off" "fetch ?tape (length pre + 1) = Inr width"
    by (simp_all add: fetch_def D rd_def nth_append)
  have len: "length pre < 2 ^ 30" "unat (of_nat (length pre) :: u32) = length pre" using Cons.prems(3) by (simp_all add: unat_of_nat)
  note step = fields_tape_step [where F = "fields_tape (tape_of E) E fs" and G = "fields_tape (tape_of E) E (f # fs)" and pre = pre and suf = suf]
  consider "off = 0" | "off \<noteq> 0" "\<not> IsComplex (fp_kind f)" | "off \<noteq> 0" "IsComplex (fp_kind f)" by blast
  then show ?case
  proof cases
    case 1
    then have "fine (visit_fields E visit depth fs (length pre + 2) ?tape)
        (\<lambda>tape'. \<exists>D' cs. tape' = pre @ D' @ suf @ concat cs \<and> fields_tape (tape_of E) E (f # fs) D' cs)"
      by (intro step [of _ off width "[]"]) (use rest [of off width suf] in \<open>simp_all add: D\<close>)
    then show ?thesis using 1 get by simp
  next
    case 2
    then have p: "place_in E off width" using pl(1) by simp
    have more: "fine (visit_fields E visit depth fs (length pre + 2) tape)
        (\<lambda>tape'. \<exists>D' cs. tape' = pre @ D' @ suf @ concat cs \<and> fields_tape (tape_of E) E (f # fs) D' cs)"
      if t: "if is_bytes (fp_kind f) then \<exists>a b. tape = pre @ a # b # D2 @ suf \<and> span_in E a b
        else tape = pre @ off # width # D2 @ suf \<and> width = ScalarWidthWords (fp_kind f)" for tape
    proof -
      obtain a b where ab: "tape = pre @ a # b # D2 @ suf" "a \<noteq> 0"
          "if is_bytes (fp_kind f) then span_in E a b else place_in E a b \<and> b = ScalarWidthWords (fp_kind f)"
        using t 2(1) p span_nonzero by (metis (full_types))
      show ?thesis
        by (intro step [of _ a b "[]"]) (use rest [of a b suf] 2(2) ab in \<open>auto simp: is_bytes_def split: if_splits\<close>)
    qed
    have "fine (ValidateScalar E (fp_kind f) off width (of_nat (length pre)) (pre @ off # width # D2 @ suf))
      (\<lambda>tape. if is_bytes (fp_kind f) then \<exists>a b. tape = pre @ a # b # D2 @ suf \<and> span_in E a b
        else tape = pre @ off # width # D2 @ suf \<and> width = ScalarWidthWords (fp_kind f))"
      by (rule ValidateScalar_fine [OF assms(1) p len(2,1)])
    then show ?thesis using 2 get more by (simp add: D fine_andThen)
  next
    case 3
    then have p: "place_in E off width" "unat off + unat width \<le> words E" using pl(1) by (simp_all add: place_in_def)
    have more: "fine (visit_fields E visit depth fs (length pre + 2) (?tape @ ws))
        (\<lambda>tape'. \<exists>D' cs. tape' = pre @ D' @ suf @ concat cs \<and> fields_tape (tape_of E) E (f # fs) D' cs)"
      if ws: "tape_of E (fp_child f) ws" for ws
      by (intro step [of _ off width "[ws]"]) (use rest [of off width "suf @ ws"] 3 p ws in \<open>simp_all add: D\<close>)
    show ?thesis
    proof (cases "depth \<ge> kMaximumDepth \<or> fp_child f = kNoType")
      case True
      then show ?thesis using 3 get by simp
    next
      case False
      then have v: "visitor_ok E visit depth" using assms(2) by (simp add: not_le)
      have "fine (andThen (ObjectLocation E off width) (\<lambda>child. andThen (visit (fp_child f) child (depth + 1) ?tape)
          (\<lambda>tape. visit_fields E visit depth fs (length pre + 2) tape)))
          (\<lambda>tape'. \<exists>D' cs. tape' = pre @ D' @ suf @ concat cs \<and> fields_tape (tape_of E) E (f # fs) D' cs)"
        by (rule fine_andThen [OF ObjectLocation_fine [OF assms(1) p(2)]], rule fine_andThen [OF visitor_okD [OF v]], assumption) (use more in auto)
      then show ?thesis using False 3 get by simp
    qed
  qed
qed simp

lemma body_width_fine: "env_ok E \<Longrightarrow> fine (body_width E loc first count) (\<lambda>_. True)"
  by (auto simp: body_width_def Let_def intro!: fine_if fine_andThen [OF ReadWord_fine])

lemma places_zero: "places E (replicate n 0)"
  by (simp add: places_def)

lemma VisitMessage_fine:
  assumes "env_ok E" "small alloc" and t: "type_at E t plan" "tp_kind plan = kMessage" "plan_ok plan" and "loc_ok E loc"
    and "depth < kMaximumDepth \<Longrightarrow> visitor_ok E visit depth"
  shows "fine (VisitMessage alloc E visit t plan loc depth tape) (\<lambda>tape'. \<exists>ws. tape' = tape @ ws \<and> tape_of E t ws)"
proof -
  let ?n = "length (tp_fields plan)" and ?hd = "[kMessage, t, of_nat (length (tp_fields plan)), 0, 0]"
  have lim: "unat (limit_word_offset loc) \<le> words E" using assms(6) by (simp add: loc_ok_def)
  let ?pre = "tape @ ?hd"
  have fields: "fine (visit_fields E visit depth (tp_fields plan) (length ?pre) tape') (\<lambda>tape'. \<exists>ws. tape' = tape @ ws \<and> tape_of E t ws)"
    if r: "recording E ?pre ?n tape'" and len: "length ?pre + ?n * 2 < 2 ^ 30" for tape'
  proof -
    obtain D where D: "tape' = ?pre @ D @ []" "length D = 2 * ?n" "places E D" using r by (auto simp: recording_def)
    have "fine (visit_fields E visit depth (tp_fields plan) (length ?pre) (?pre @ D @ []))
        (\<lambda>tape'. \<exists>D' cs. tape' = ?pre @ D' @ [] @ concat cs \<and> fields_tape (tape_of E) E (tp_fields plan) D' cs)"
      using D(2,3) len by (intro visit_fields_fine [OF assms(1,7)]) simp_all
    then show ?thesis unfolding D(1)
    proof (rule fine_mono)
      fix x assume "\<exists>D' cs. x = ?pre @ D' @ [] @ concat cs \<and> fields_tape (tape_of E) E (tp_fields plan) D' cs"
      then obtain D' cs where "x = tape @ ?hd @ D' @ concat cs" "fields_tape (tape_of E) E (tp_fields plan) D' cs" by auto
      then show "\<exists>ws. x = tape @ ws \<and> tape_of E t ws" using tape_of.message [OF t(1,2)] by blast
    qed
  qed
  have walk: "fine (andThen (resize_tape alloc (length ?pre + ?n * 2) ?pre) (\<lambda>tape.
      andThen (head_fields plan (length ?pre) body (limit_word_offset loc) 12 0 w 0 tape) (\<lambda>tape.
      andThen (section_loop E plan (length ?pre) body loc k 0 tape) (\<lambda>tape.
      visit_fields E visit depth (tp_fields plan) (length ?pre) tape)))) (\<lambda>tape'. \<exists>ws. tape' = tape @ ws \<and> tape_of E t ws)" for body w k
  proof (rule fine_andThen [OF resize_tape_fine [OF assms(2)]])
    fix x assume x: "x = ?pre @ replicate (?n * 2) 0 \<and> length ?pre + ?n * 2 < 2 ^ 30"
    then have "recording E ?pre ?n x" using places_zero by (auto simp: recording_def)
    then show "fine (andThen (head_fields plan (length ?pre) body (limit_word_offset loc) 12 0 w 0 x) (\<lambda>tape.
      andThen (section_loop E plan (length ?pre) body loc k 0 tape) (\<lambda>tape.
      visit_fields E visit depth (tp_fields plan) (length ?pre) tape))) (\<lambda>tape'. \<exists>ws. tape' = tape @ ws \<and> tape_of E t ws)"
      by (intro fine_andThen [OF head_fields_fine [OF t(3) refl lim refl]]
          fine_andThen [OF section_loop_fine [OF assms(1) t(3) refl assms(6) refl]] fields) (use x in auto)
  qed
  show ?thesis unfolding VisitMessage_def Let_def
    by (intro fine_if fine_andThen [OF ReadWord_fine [OF assms(1)]] fine_andThen [OF body_width_fine [OF assms(1)]]
        fine_andThen [OF AppendHeader_fine]) (use walk in simp_all)
qed

subsection \<open>Arrays and maps\<close>

lemma cell_place:
  fixes body index stride :: u32
  assumes "unat body + unat stride * N \<le> W" "W < 2 ^ 30" and "unat index < N"
  shows "unat (body + index * stride) = unat body + unat index * unat stride" "unat body + unat index * unat stride + unat stride \<le> W"
proof -
  have "(unat index + 1) * unat stride \<le> N * unat stride" using assms(3) by (intro mult_le_mono1) simp
  then show le: "unat body + unat index * unat stride + unat stride \<le> W" using assms(1) by (simp add: algebra_simps)
  then show "unat (body + index * stride) = unat body + unat index * unat stride"
    using assms(2) by (simp add: unat_word_ariths mod_simps)
qed

lemma unat_step: "unat (index :: u32) + 1 < 2 ^ 32 \<Longrightarrow> unat (index + 1) = unat index + 1"
  by (simp add: unat_word_ariths)

lemma unat_add_small: "unat (x :: u32) + unat y < 2 ^ 32 \<Longrightarrow> unat (x + y) = unat x + unat y"
  by (simp add: unat_word_ariths)

lemma descriptor_place:
  fixes descriptors index stride :: u32
  assumes "unat descriptors + unat stride * N < 2 ^ 30" and "unat index \<le> N"
  shows "unat (descriptors + index * stride) = unat descriptors + unat index * unat stride"
proof -
  have "unat index * unat stride \<le> unat stride * N" using assms(2) by (subst mult.commute) (rule mult_le_mono2)
  from le_less_trans [OF add_left_mono [OF this] assms(1)] have "unat descriptors + unat index * unat stride < 2 ^ 32" by simp
  then show ?thesis by (simp add: unat_word_ariths mod_simps)
qed

lemma and_3_le: "unat (w AND 3 :: u32) \<le> 3"
  using word_and_le1 [of w 3] by (simp add: word_le_nat_alt)

lemma product_64:
  fixes a b :: u32
  assumes "unat a \<le> k" "k \<le> 6"
  shows "unat (ucast a * ucast b :: u64) = unat a * unat b"
proof -
  have "unat a * unat b \<le> 6 * 2 ^ 32" using assms unat_u32 [of b] by (intro mult_le_mono) simp_all
  then show ?thesis by (simp add: unat_word_ariths)
qed

lemma validate_elements_fine:
  assumes "env_ok E" "is_bytes kind" and N: "unat body + unat width * N \<le> words E" "unat descriptors + 2 * N < 2 ^ 30" "unat descriptors = length pre" "N < 2 ^ 30"
  shows "unat index + n = N \<Longrightarrow> length X = 2 * unat index \<Longrightarrow> length D = 2 * n \<Longrightarrow>
    fine (validate_elements E kind body width descriptors n index (pre @ X @ D)) (\<lambda>t. \<exists>D'. t = pre @ X @ D' \<and> length D' = 2 * n \<and> spans E D')"
proof (induction n arbitrary: index X D)
  case (Suc n)
  obtain a b D2 where D: "D = a # b # D2" "length D2 = 2 * n" using Suc.prems(3) by (cases D; cases "tl D") auto
  have i: "unat index < N" "unat (index + 1) = unat index + 1" using Suc.prems(1) N(4) by (simp_all add: unat_step)
  have p: "place_in E (body + index * width) width" using cell_place [OF N(1) words_bound i(1)] by (simp add: place_in_def)
  have d: "unat (descriptors + index * 2) = length (pre @ X)" "length (pre @ X) < 2 ^ 30"
    using descriptor_place [of descriptors 2 N index] N(2,3) i(1) Suc.prems(2) by simp_all
  have "fine (ValidateScalar E kind (body + index * width) width (descriptors + index * 2) (pre @ X @ a # b # D2))
      (\<lambda>t. \<exists>a b. t = pre @ (X @ [a, b]) @ D2 \<and> span_in E a b)"
    using ValidateScalar_fine [OF assms(1) p d, of kind a b D2] assms(2) by simp
  then show ?case unfolding validate_elements.simps D(1)
  proof (rule fine_andThen)
    fix t assume "\<exists>a b. t = pre @ (X @ [a, b]) @ D2 \<and> span_in E a b"
    then obtain a b where t: "t = pre @ (X @ [a, b]) @ D2" "span_in E a b" by blast
    have "fine (validate_elements E kind body width descriptors n (index + 1) t) (\<lambda>t. \<exists>D'. t = pre @ (X @ [a, b]) @ D' \<and> length D' = 2 * n \<and> spans E D')"
      unfolding t(1) using Suc.IH [of "index + 1" "X @ [a, b]" D2] Suc.prems i D(2) by simp
    then show "fine (validate_elements E kind body width descriptors n (index + 1) t) (\<lambda>t. \<exists>D'. t = pre @ X @ D' \<and> length D' = 2 * Suc n \<and> spans E D')"
    proof (rule fine_mono)
      fix x assume "\<exists>D'. x = pre @ (X @ [a, b]) @ D' \<and> length D' = 2 * n \<and> spans E D'"
      then obtain D' where "x = pre @ X @ (a # b # D')" "length (a # b # D') = 2 * Suc n" "spans E (a # b # D')" using t(2) by auto
      then show "\<exists>D'. x = pre @ X @ D' \<and> length D' = 2 * Suc n \<and> spans E D'" by blast
    qed
  qed
qed simp

lemma visit_children_fine:
  assumes "env_ok E" "visitor_ok E visit depth" and N: "unat base + unat stride * N \<le> words E" "N < 2 ^ 30" and "unat skip + unat width \<le> unat stride"
  shows "unat index + n = N \<Longrightarrow> fine (visit_children E visit child depth base stride skip width n index tape)
    (\<lambda>t. \<exists>cs. t = tape @ concat cs \<and> length cs = n \<and> (\<forall>c\<in>set cs. tape_of E child c))"
proof (induction n arbitrary: index tape)
  case (Suc n)
  have i: "unat index < N" "unat (index + 1) = unat index + 1" using Suc.prems N(2) by (simp_all add: unat_step)
  note c = cell_place [OF N(1) words_bound i(1)]
  have "unat (base + index * stride + skip) = unat (base + index * stride) + unat skip"
    using c assms(5) words_bound [of E] by (simp add: unat_word_ariths(1) [of "base + index * stride"])
  then have p: "unat (base + index * stride + skip) + unat width \<le> words E" using c assms(5) by simp
  show ?case unfolding visit_children.simps
  proof (rule fine_andThen [OF ObjectLocation_fine [OF assms(1) p]], rule fine_andThen [OF visitor_okD [OF assms(2)]], assumption)
    fix t assume "\<exists>ws. t = tape @ ws \<and> tape_of E child ws"
    then obtain ws where t: "t = tape @ ws" "tape_of E child ws" by blast
    have "fine (visit_children E visit child depth base stride skip width n (index + 1) t)
        (\<lambda>x. \<exists>cs. x = t @ concat cs \<and> length cs = n \<and> (\<forall>c\<in>set cs. tape_of E child c))" using Suc.IH [of "index + 1" t] Suc.prems i by simp
    then show "fine (visit_children E visit child depth base stride skip width n (index + 1) t)
        (\<lambda>x. \<exists>cs. x = tape @ concat cs \<and> length cs = Suc n \<and> (\<forall>c\<in>set cs. tape_of E child c))"
    proof (rule fine_mono)
      fix x assume "\<exists>cs. x = t @ concat cs \<and> length cs = n \<and> (\<forall>c\<in>set cs. tape_of E child c)"
      then obtain cs where "x = tape @ concat (ws # cs)" "length (ws # cs) = Suc n" "\<forall>c\<in>set (ws # cs). tape_of E child c" using t by auto
      then show "\<exists>cs. x = tape @ concat cs \<and> length cs = Suc n \<and> (\<forall>c\<in>set cs. tape_of E child c)" by blast
    qed
  qed
qed simp

lemma VisitArray_fine:
  assumes "env_ok E" "small alloc" and t: "type_at E t plan" "tp_kind plan = kArray" and "loc_ok E loc"
    and v: "depth < kMaximumDepth \<Longrightarrow> visitor_ok E visit depth"
  shows "fine (VisitArray alloc E visit t plan loc depth tape) (\<lambda>tape'. \<exists>ws. tape' = tape @ ws \<and> tape_of E t ws)" (is "fine _ ?Q")
proof (cases "tp_value_kind plan = kBool")
  case True
  then show ?thesis unfolding VisitArray_def
    by (auto intro!: fine_andThen [OF ParseBytes_fine [OF assms(1)]] fine_mono [OF AppendHeader_fine] tape_of.bools [OF t])
next
  case False
  have lim: "unat (limit_word_offset loc) \<le> words E" using assms(5) by (simp add: loc_ok_def)
  have body: "fine (if is_bytes (tp_value_kind plan) then
        andThen (resize_tape alloc (length pre + unat count * 2) pre) (\<lambda>tape.
        validate_elements E (tp_value_kind plan) body width (of_nat (length pre)) (unat count) 0 tape)
      else if \<not> IsComplex (tp_value_kind plan) then
        (if width = ScalarWidthWords (tp_value_kind plan) then Inr pre else Inl Refused)
      else if depth \<ge> kMaximumDepth \<or> tp_child plan = kNoType then Inl Refused
      else visit_children E visit (tp_child plan) depth body width 0 width (unat count) 0 pre) ?Q"
    if N: "unat body + unat width * unat count \<le> words E" "unat count < 2 ^ 30" and pre: "pre = tape @ [kArray, t, count, body, width]" for pre body width count
  proof (intro fine_if)
    assume b: "is_bytes (tp_value_kind plan)"
    show "fine (andThen (resize_tape alloc (length pre + unat count * 2) pre) (\<lambda>tape.
        validate_elements E (tp_value_kind plan) body width (of_nat (length pre)) (unat count) 0 tape)) ?Q"
    proof (rule fine_andThen [OF resize_tape_fine [OF assms(2)]])
      fix x assume "x = pre @ replicate (unat count * 2) 0 \<and> length pre + unat count * 2 < 2 ^ 30"
      then have x: "x = pre @ [] @ replicate (unat count * 2) 0" "length pre + unat count * 2 < 2 ^ 30" by simp_all
      have u: "unat (of_nat (length pre) :: u32) = length pre" using x(2) by (simp add: unat_of_nat)
      show "fine (validate_elements E (tp_value_kind plan) body width (of_nat (length pre)) (unat count) 0 x) ?Q" unfolding x(1)
        by (rule fine_mono [OF validate_elements_fine [OF assms(1) b N(1) _ u N(2)]])
          (use x(2) u pre tape_of.array_bytes [OF t b N(1)] in auto)
    qed
  next
    assume "\<not> \<not> IsComplex (tp_value_kind plan)" "\<not> (depth \<ge> kMaximumDepth \<or> tp_child plan = kNoType)"
    then show "fine (visit_children E visit (tp_child plan) depth body width 0 width (unat count) 0 pre) ?Q"
      by (intro fine_mono [OF visit_children_fine [OF assms(1) v N]]) (use pre tape_of.array_object [OF t _ N(1)] in \<open>auto simp: not_le\<close>)
  qed (use pre tape_of.array_scalar [OF t _ N(1)] in auto)
  have elems: "fine (if width = 0 \<or> \<not> RequireWords body (ucast width * ucast count) (limit_word_offset loc) then Inl Refused
       else
         andThen (AppendHeader alloc kArray t count body width tape) (\<lambda>tape.
         if tp_value_kind plan = kString \<or> tp_value_kind plan = kBytes then
           andThen (resize_tape alloc (length tape + unat count * 2) tape) (\<lambda>tape'.
           validate_elements E (tp_value_kind plan) body width (of_nat (length tape)) (unat count) 0 tape')
         else if \<not> IsComplex (tp_value_kind plan) then
           (if width = ScalarWidthWords (tp_value_kind plan) then Inr tape else Inl Refused)
         else if depth \<ge> kMaximumDepth \<or> tp_child plan = kNoType then Inl Refused
         else visit_children E visit (tp_child plan) depth body width 0 width (unat count) 0 tape)) ?Q"
    if w: "width = header AND 3" "count = drop_bit 2 header" for header body width count
  proof (rule fine_if [OF fine_simps(1)], rule fine_andThen [OF AppendHeader_fine])
    assume "\<not> (width = 0 \<or> \<not> RequireWords body (ucast width * ucast count) (limit_word_offset loc))"
    then have "unat body + unat (ucast width * ucast count :: u64) \<le> words E" using lim by (simp add: RequireWords_iff)
    then have "unat body + unat width * unat count \<le> words E" using product_64 [of width 3 count] and_3_le [of header] w(1) by simp
    moreover have "unat count < 2 ^ 30" using unat_u32 [of header] by (simp add: w(2) unat_drop_bit)
    moreover fix pre assume "pre = tape @ [kArray, t, count, body, width]"
    ultimately show "fine (if tp_value_kind plan = kString \<or> tp_value_kind plan = kBytes then
           andThen (resize_tape alloc (length pre + unat count * 2) pre) (\<lambda>tape'.
           validate_elements E (tp_value_kind plan) body width (of_nat (length pre)) (unat count) 0 tape')
         else if \<not> IsComplex (tp_value_kind plan) then
           (if width = ScalarWidthWords (tp_value_kind plan) then Inr pre else Inl Refused)
         else if depth \<ge> kMaximumDepth \<or> tp_child plan = kNoType then Inl Refused
         else visit_children E visit (tp_child plan) depth body width 0 width (unat count) 0 pre) ?Q"
      using body by (simp only: is_bytes_def)
  qed
  show ?thesis unfolding VisitArray_def Let_def if_not_P [OF False]
    by (rule fine_if [OF fine_simps(1)], rule fine_andThen [OF ReadWord_fine [OF assms(1)]], rule elems [OF refl refl])
qed

lemma spans_append: "even (length D) \<Longrightarrow> spans E (D @ D') \<longleftrightarrow> spans E D \<and> spans E D'"
  by (induction E D rule: spans.induct) auto

text \<open>One pair of descriptors, of the key or of the value of a pair, when it has any.\<close>

lemma validate_one_fine:
  assumes "env_ok E" "place_in E off width" and "b \<Longrightarrow> is_bytes kind" and "unat descriptor = length pre" "length pre < 2 ^ 30"
    and "length D = (if b then 2 else 0)"
  shows "fine (if b then ValidateScalar E kind off width descriptor (pre @ D @ suf) else Inr (pre @ D @ suf))
    (\<lambda>t. \<exists>D'. t = pre @ D' @ suf \<and> length D' = length D \<and> spans E D')"
proof (cases b)
  case True
  then obtain x y where D: "D = [x, y]" using assms(6) by (cases D; cases "tl D") auto
  have "fine (ValidateScalar E kind off width descriptor (pre @ x # y # suf)) (\<lambda>t. \<exists>a b. t = pre @ a # b # suf \<and> span_in E a b)"
    using ValidateScalar_fine [OF assms(1,2,4,5), of kind x y suf] assms(3) True by simp
  then have "fine (ValidateScalar E kind off width descriptor (pre @ D @ suf)) (\<lambda>t. \<exists>D'. t = pre @ D' @ suf \<and> length D' = length D \<and> spans E D')"
    unfolding D append.simps
  proof (rule fine_mono)
    fix t assume "\<exists>a b. t = pre @ a # b # suf \<and> span_in E a b"
    then obtain a b where "t = pre @ [a, b] @ suf" "length [a, b] = length [x, y]" "spans E [a, b]" by auto
    then show "\<exists>D'. t = pre @ D' @ suf \<and> length D' = length [x, y] \<and> spans E D'" by blast
  qed
  then show ?thesis using True by simp
qed (use assms(6) in simp)

lemma validate_pairs_fine:
  fixes plan
  defines "sk \<equiv> tp_key_kind plan = kString" and "bv \<equiv> is_bytes (tp_value_kind plan)"
  assumes "env_ok E" and N: "unat body + unat (kw + vw) * N \<le> words E" "unat (kw + vw) = unat kw + unat vw" "unat descriptors + unat stride * N < 2 ^ 30"
      "unat descriptors = length pre" "N < 2 ^ 30" and stride: "unat stride = (if sk then 2 else 0) + (if bv then 2 else 0)"
  shows "unat index + n = N \<Longrightarrow> length X = unat stride * unat index \<Longrightarrow> length D = unat stride * n \<Longrightarrow>
    fine (validate_pairs E plan body kw vw stride descriptors n index (pre @ X @ D)) (\<lambda>t. \<exists>D'. t = pre @ X @ D' \<and> length D' = unat stride * n \<and> spans E D')"
proof (induction n arbitrary: index X D)
  case (Suc n)
  let ?key = "body + index * (kw + vw)" and ?d = "descriptors + index * stride"
  let ?a = "if sk then 2 else 0 :: nat" and ?b = "if bv then 2 else 0 :: nat"
  have len: "?a + ?b + unat stride * n = length D" using Suc.prems(3) stride by simp
  obtain D1 D2 D3 where D: "D = D1 @ D2 @ D3" "length D1 = ?a" "length D2 = ?b" "length D3 = unat stride * n"
  proof (rule that [of "take ?a D" "take ?b (drop ?a D)" "drop (?b + ?a) D"])
    show "D = take ?a D @ take ?b (drop ?a D) @ drop (?b + ?a) D" by (metis append_take_drop_id drop_drop)
  qed (use len in simp_all)
  have i: "unat index < N" "unat (index + 1) = unat index + 1" using Suc.prems(1) N(5) by (simp_all add: unat_step)
  note c = cell_place [OF N(1) words_bound i(1)]
  have val: "unat (?key + kw) = unat ?key + unat kw"
    using c N(2) words_bound [of E] by (simp add: unat_word_ariths(1) [of ?key])
  have p: "place_in E ?key kw" "place_in E (?key + kw) vw" using c N(2) val by (simp_all add: place_in_def)
  have d: "unat ?d = length (pre @ X)" "length (pre @ X) + unat stride < 2 ^ 30"
    using descriptor_place [OF N(3), of index] cell_place(2) [of descriptors stride N "2 ^ 30 - 1" index] N(3,4) i(1) Suc.prems(2) by (simp_all add: mult.commute)
  have d2: "unat (if sk then ?d + 2 else ?d) = length (pre @ X) + ?a" using d unat_add_small [of ?d 2] by simp
  have more: "fine (validate_pairs E plan body kw vw stride descriptors n (index + 1) (pre @ (X @ D1' @ D2') @ D3))
      (\<lambda>t. \<exists>D'. t = pre @ X @ D' \<and> length D' = unat stride * Suc n \<and> spans E D')"
    if s: "length D1' = length D1" "spans E D1'" "length D2' = length D2" "spans E D2'" for D1' D2'
  proof -
    have "fine (validate_pairs E plan body kw vw stride descriptors n (index + 1) (pre @ (X @ D1' @ D2') @ D3))
        (\<lambda>t. \<exists>D'. t = pre @ (X @ D1' @ D2') @ D' \<and> length D' = unat stride * n \<and> spans E D')"
      by (rule Suc.IH) (use Suc.prems i s D stride in simp_all)
    then show ?thesis
    proof (rule fine_mono)
      fix t assume "\<exists>D'. t = pre @ (X @ D1' @ D2') @ D' \<and> length D' = unat stride * n \<and> spans E D'"
      then obtain D' where "t = pre @ X @ (D1' @ D2' @ D')" "length D' = unat stride * n" "spans E D'" by auto
      moreover from this have "length (D1' @ D2' @ D') = unat stride * Suc n" "spans E (D1' @ D2' @ D')"
        using s D stride by (simp_all add: spans_append)
      ultimately show "\<exists>D'. t = pre @ X @ D' \<and> length D' = unat stride * Suc n \<and> spans E D'" by blast
    qed
  qed
  have split: "pre @ X @ D = (pre @ X) @ D1 @ (D2 @ D3)" by (simp add: D(1))
  have key: "fine (if sk then ValidateScalar E kString ?key kw ?d (pre @ X @ D) else Inr (pre @ X @ D))
      (\<lambda>t. \<exists>D'. t = (pre @ X) @ D' @ (D2 @ D3) \<and> length D' = length D1 \<and> spans E D')"
    unfolding split by (rule validate_one_fine [OF assms(3) p(1) _ d(1)]) (use d(2) D(2) in \<open>auto simp: is_bytes_def\<close>)
  have val2: "fine (if bv then ValidateScalar E (tp_value_kind plan) (?key + kw) vw (if sk then ?d + 2 else ?d) t else Inr t)
      (\<lambda>t. \<exists>D'. t = (pre @ X @ D1') @ D' @ D3 \<and> length D' = length D2 \<and> spans E D')"
    if "t = (pre @ X @ D1') @ D2 @ D3" "length D1' = length D1" for t D1'
    unfolding that(1) by (rule validate_one_fine [OF assms(3) p(2)]) (use d d2 D(2,3) that stride in \<open>auto simp: bv_def\<close>)
  show ?case unfolding validate_pairs.simps Let_def sk_def [symmetric] is_bytes_def [symmetric] bv_def [symmetric]
  proof (rule fine_andThen [OF key])
    fix t assume "\<exists>D'. t = (pre @ X) @ D' @ (D2 @ D3) \<and> length D' = length D1 \<and> spans E D'"
    then obtain D1' where t: "t = (pre @ X @ D1') @ D2 @ D3" "length D1' = length D1" "spans E D1'" by auto
    show "fine (andThen (if bv then ValidateScalar E (tp_value_kind plan) (?key + kw) vw (if sk then ?d + 2 else ?d) t else Inr t)
        (validate_pairs E plan body kw vw stride descriptors n (index + 1))) (\<lambda>t. \<exists>D'. t = pre @ X @ D' \<and> length D' = unat stride * Suc n \<and> spans E D')"
      by (rule fine_andThen [OF val2 [OF t(1,2)]]) (use more t(2,3) in auto)
  qed
qed simp

lemma VisitMap_fine:
  assumes "env_ok E" "small alloc" and t: "type_at E t plan" "tp_kind plan = kMap" and "loc_ok E loc"
    and v: "depth < kMaximumDepth \<Longrightarrow> visitor_ok E visit depth"
  shows "fine (VisitMap alloc E visit t plan loc depth tape) (\<lambda>tape'. \<exists>ws. tape' = tape @ ws \<and> tape_of E t ws)" (is "fine _ ?Q")
proof -
  define sk where "sk \<longleftrightarrow> tp_key_kind plan = kString"
  define bv where "bv \<longleftrightarrow> is_bytes (tp_value_kind plan)"
  define ds where "ds = (if sk then 2 else 0) + (if bv then 2 else 0 :: u32)"
  have ds: "unat ds = (if sk then 2 else 0) + (if bv then 2 else 0)" by (simp add: ds_def)
  have lim: "unat (limit_word_offset loc) \<le> words E" using assms(5) by (simp add: loc_ok_def)
  have children: "fine (if \<not> IsComplex (tp_value_kind plan) then Inr tape'
      else if depth \<ge> kMaximumDepth \<or> tp_child plan = kNoType then Inl Refused
      else visit_children E visit (tp_child plan) depth body (kw + vw) kw vw (unat count) 0 tape') ?Q"
    if N: "unat body + unat (kw + vw) * unat count \<le> words E" "unat (kw + vw) = unat kw + unat vw" "unat count < 2 ^ 28"
      and k: "sk \<or> kw = ScalarWidthWords (tp_key_kind plan)" "IsComplex (tp_value_kind plan) \<or> bv \<or> vw = ScalarWidthWords (tp_value_kind plan)"
      and D: "tape' = (tape @ [kMap, t, count, body, kw OR push_bit 16 vw]) @ D" "length D = unat ds * unat count" "spans E D" for tape' D body kw vw count
  proof -
    note rule = tape_of.pairs [OF t N(1) [unfolded N(2)] k [unfolded sk_def bv_def] D(2) [unfolded ds sk_def bv_def] D(3)]
    have "fine (visit_children E visit (tp_child plan) depth body (kw + vw) kw vw (unat count) 0 tape') ?Q"
      if c: "IsComplex (tp_value_kind plan)" "\<not> (depth \<ge> kMaximumDepth \<or> tp_child plan = kNoType)"
    proof (rule fine_mono [OF visit_children_fine [OF assms(1) v N(1)]])
      fix x assume "\<exists>cs. x = tape' @ concat cs \<and> length cs = unat count \<and> (\<forall>c\<in>set cs. tape_of E (tp_child plan) c)"
      then show "\<exists>ws. x = tape @ ws \<and> tape_of E t ws" using rule c(1) D(1) by auto
    qed (use c N in auto)
    moreover have "\<not> IsComplex (tp_value_kind plan) \<Longrightarrow> \<exists>ws. tape' = tape @ ws \<and> tape_of E t ws" using rule [of "[]"] D(1) by simp
    ultimately show ?thesis by simp
  qed
  have pairs: "fine (andThen (if ds \<noteq> 0 then resize_tape alloc (length pre + unat ds * unat count) pre else Inr pre) (\<lambda>tape.
      if \<not> sk \<and> kw \<noteq> ScalarWidthWords (tp_key_kind plan) then Inl Refused
      else if \<not> IsComplex (tp_value_kind plan) \<and> \<not> bv \<and> vw \<noteq> ScalarWidthWords (tp_value_kind plan) then Inl Refused
      else
        andThen (validate_pairs E plan body kw vw ds (of_nat (length pre)) (unat count) 0 tape) (\<lambda>tape.
        if \<not> IsComplex (tp_value_kind plan) then Inr tape
        else if depth \<ge> kMaximumDepth \<or> tp_child plan = kNoType then Inl Refused
        else visit_children E visit (tp_child plan) depth body (kw + vw) kw vw (unat count) 0 tape))) ?Q"
    if N: "unat body + unat (kw + vw) * unat count \<le> words E" "unat (kw + vw) = unat kw + unat vw" "unat count < 2 ^ 28"
      and pre: "pre = tape @ [kMap, t, count, body, kw OR push_bit 16 vw]" "alloc (length pre)" for pre body kw vw count
  proof (rule fine_andThen)
    have "length pre < 2 ^ 30" using pre(2) assms(2) by (simp add: small_def)
    then show "fine (if ds \<noteq> 0 then resize_tape alloc (length pre + unat ds * unat count) pre else Inr pre)
        (\<lambda>x. x = pre @ [] @ replicate (unat ds * unat count) 0 \<and> length pre + unat ds * unat count < 2 ^ 30)"
      using resize_tape_fine [OF assms(2), of pre "unat ds * unat count"] by auto
    fix x assume x: "x = pre @ [] @ replicate (unat ds * unat count) 0 \<and> length pre + unat ds * unat count < 2 ^ 30"
    then have u: "unat (of_nat (length pre) :: u32) = length pre" by (simp add: unat_of_nat)
    have "fine (validate_pairs E plan body kw vw ds (of_nat (length pre)) (unat count) 0 x)
        (\<lambda>y. \<exists>D. y = pre @ [] @ D \<and> length D = unat ds * unat count \<and> spans E D)"
      unfolding conjunct1 [OF x] by (rule validate_pairs_fine [OF assms(1) N(1,2) _ u]) (use x u N(3) ds in \<open>simp_all add: sk_def bv_def\<close>)
    then show "fine (if \<not> sk \<and> kw \<noteq> ScalarWidthWords (tp_key_kind plan) then Inl Refused
      else if \<not> IsComplex (tp_value_kind plan) \<and> \<not> bv \<and> vw \<noteq> ScalarWidthWords (tp_value_kind plan) then Inl Refused
      else
        andThen (validate_pairs E plan body kw vw ds (of_nat (length pre)) (unat count) 0 x) (\<lambda>tape.
        if \<not> IsComplex (tp_value_kind plan) then Inr tape
        else if depth \<ge> kMaximumDepth \<or> tp_child plan = kNoType then Inl Refused
        else visit_children E visit (tp_child plan) depth body (kw + vw) kw vw (unat count) 0 tape)) ?Q"
      by (intro fine_if [OF fine_simps(1)] fine_andThen, assumption) (use children [OF N] pre(1) in auto)
  qed
  have body: "fine (if kw = 0 \<or> vw = 0 \<or> body64 > 0xffffffff then Inl Refused
      else if \<not> RequireWords (ucast body64) (ucast (kw + vw) * ucast count) (limit_word_offset loc) then Inl Refused
      else andThen (AppendHeader alloc kMap t count (ucast body64) (kw OR push_bit 16 vw) tape) (\<lambda>tape.
        andThen (if ds \<noteq> 0 then resize_tape alloc (length tape + unat ds * unat count) tape else Inr tape) (\<lambda>tape'.
        if \<not> sk \<and> kw \<noteq> ScalarWidthWords (tp_key_kind plan) then Inl Refused
        else if \<not> IsComplex (tp_value_kind plan) \<and> \<not> bv \<and> vw \<noteq> ScalarWidthWords (tp_value_kind plan) then Inl Refused
        else
          andThen (validate_pairs E plan (ucast body64) kw vw ds (of_nat (length tape)) (unat count) 0 tape') (\<lambda>tape.
          if \<not> IsComplex (tp_value_kind plan) then Inr tape
          else if depth \<ge> kMaximumDepth \<or> tp_child plan = kNoType then Inl Refused
          else visit_children E visit (tp_child plan) depth (ucast body64) (kw + vw) kw vw (unat count) 0 tape)))) ?Q"
    if w: "kw = drop_bit 30 header AND 3" "vw = drop_bit 28 header AND 3" "count = header AND 0x0fffffff" for header kw vw count and body64 :: u64
  proof (intro fine_if [OF fine_simps(1)], rule fine_andThen [OF AppendHeader_fine])
    have kv: "unat (kw + vw) = unat kw + unat vw" "unat (kw + vw) \<le> 6"
      using and_3_le [of "drop_bit 30 header"] and_3_le [of "drop_bit 28 header"] by (simp_all add: w unat_add_small)
    have c: "unat count < 2 ^ 28" using word_and_le1 [of header "0x0fffffff"] by (simp add: w(3) word_le_nat_alt)
    assume "\<not> \<not> RequireWords (ucast body64) (ucast (kw + vw) * ucast count) (limit_word_offset loc)"
    then have "unat (ucast body64 :: u32) + unat (ucast (kw + vw) * ucast count :: u64) \<le> words E" using lim by (simp add: RequireWords_iff)
    then have N: "unat (ucast body64 :: u32) + unat (kw + vw) * unat count \<le> words E" using product_64 [OF kv(2), of count] by simp
    fix pre assume "AppendHeader alloc kMap t count (ucast body64) (kw OR push_bit 16 vw) tape = Inr pre"
    then have "alloc (length pre)" by (rule AppendHeader_alloc)
    moreover assume "pre = tape @ [kMap, t, count, ucast body64, kw OR push_bit 16 vw]"
    ultimately show "fine (andThen (if ds \<noteq> 0 then resize_tape alloc (length pre + unat ds * unat count) pre else Inr pre) (\<lambda>tape'.
        if \<not> sk \<and> kw \<noteq> ScalarWidthWords (tp_key_kind plan) then Inl Refused
        else if \<not> IsComplex (tp_value_kind plan) \<and> \<not> bv \<and> vw \<noteq> ScalarWidthWords (tp_value_kind plan) then Inl Refused
        else
          andThen (validate_pairs E plan (ucast body64) kw vw ds (of_nat (length pre)) (unat count) 0 tape') (\<lambda>tape.
          if \<not> IsComplex (tp_value_kind plan) then Inr tape
          else if depth \<ge> kMaximumDepth \<or> tp_child plan = kNoType then Inl Refused
          else visit_children E visit (tp_child plan) depth (ucast body64) (kw + vw) kw vw (unat count) 0 tape))) ?Q"
      by (intro pairs [OF N kv(1) c])
  qed
  show ?thesis unfolding VisitMap_def Let_def is_bytes_def [symmetric] sk_def [symmetric] bv_def [symmetric] ds_def [symmetric]
    by (rule fine_if [OF fine_simps(1)], rule fine_andThen [OF ReadWord_fine [OF assms(1)]], rule body [OF refl refl refl])
qed

subsection \<open>The walk\<close>

lemma Visit_fine:
  assumes "env_ok E" "types_ok E" "small alloc"
  shows "unat depth \<le> 256 \<Longrightarrow> 257 \<le> unat depth + n \<Longrightarrow> loc_ok E loc \<Longrightarrow>
    fine (Visit alloc E n t loc depth tape) (\<lambda>tape'. \<exists>ws. tape' = tape @ ws \<and> tape_of E t ws)"
proof (induction n arbitrary: t loc depth tape)
  case (Suc n)
  have v: "visitor_ok E (Visit alloc E n) depth" if "depth < kMaximumDepth"
  proof -
    have "unat depth < 256" using that by (simp add: kMaximumDepth_def word_less_nat_alt)
    then have "unat (depth + 1) = unat depth + 1" by (simp add: unat_step)
    then show ?thesis using Suc.IH \<open>unat depth < 256\<close> Suc.prems(2) by (simp add: visitor_ok_def)
  qed
  show ?case
  proof (cases "t = 0 \<or> unat t > length (g_types E)")
    case False
    then have "0 < unat t" by (simp add: unat_gt_0)
    then have t: "unat (t - 1) = unat t - 1" "unat t - 1 < length (g_types E)" using False by (auto simp: unat_minus_one)
    let ?plan = "g_types E ! (unat t - 1)"
    have plan: "type_at E t ?plan" "plan_ok ?plan" if "tp_committed ?plan"
      using that False assms(2) t(2) by (simp_all add: type_at_def types_ok_def)
    have f: "fetch (g_types E) (unat (t - 1)) = Inr ?plan" using t by (simp add: fetch_def)
    show ?thesis unfolding Visit.simps if_not_P [OF False] f andThen_simps
      by (intro fine_if fine_simps(1) VisitMessage_fine VisitArray_fine VisitMap_fine plan assms Suc.prems(3) v; simp)
  qed auto
qed simp

end
