(* ===== verification/DecodeState.thy ===== *)
theory DecodeState
  imports DecodeApi DecodeSafe
begin

text \<open>
  The state machine of the decoder: whatever the host calls and writes, in any order, all registered
  schemas are complete and closed under their children, no call leaves a vector, every walk ends, and
  a tape that is returned follows the grammar of its schema.
\<close>

subsection \<open>Schemas\<close>

definition child_ok :: "TypePlan list \<Rightarrow> u32 \<Rightarrow> u32 \<Rightarrow> bool" where
  "child_ok types kind child \<longleftrightarrow> (IsComplex kind \<longleftrightarrow> child \<noteq> kNoType) \<and>
    (IsComplex kind \<longrightarrow> child \<noteq> 0 \<and> unat child \<le> length types \<and> tp_kind (types ! (unat child - 1)) = kind)"

text \<open>The table finds the place of every field by its number, and nothing else.\<close>

definition table_ok :: "FieldPlan list \<Rightarrow> 16 word list \<Rightarrow> bool" where
  "table_ok fs table \<longleftrightarrow> (\<forall>i<length fs. unat (fp_id (fs ! i)) < length table \<and> table ! unat (fp_id (fs ! i)) = of_nat i) \<and>
    (\<forall>v\<in>set table. v = - 1 \<or> (\<exists>i<length fs. v = of_nat i))"

definition field_ok :: "FieldPlan \<Rightarrow> bool" where
  "field_ok f \<longleftrightarrow> unat (fp_id f) < 6387 \<and> ValidValueKind (fp_kind f) \<and> (IsComplex (fp_kind f) \<longleftrightarrow> fp_child f \<noteq> kNoType)"

definition schema_ok :: "TypePlan list \<Rightarrow> TypePlan \<Rightarrow> bool" where
  "schema_ok types plan \<longleftrightarrow>
    (if tp_kind plan = kMessage then length (tp_fields plan) \<le> 6387 \<and> table_ok (tp_fields plan) (tp_field_index_by_id plan) \<and>
       (\<forall>f\<in>set (tp_fields plan). field_ok f \<and> child_ok types (fp_kind f) (fp_child f))
     else tp_fields plan = [] \<and> tp_field_index_by_id plan = [] \<and> ValidValueKind (tp_value_kind plan) \<and>
       child_ok types (tp_value_kind plan) (tp_child plan) \<and>
       (tp_kind plan = kArray \<or> tp_kind plan = kMap \<and> ValidKeyKind (tp_key_kind plan)))"

definition schemas_ok :: "TypePlan list \<Rightarrow> bool" where
  "schemas_ok types \<longleftrightarrow> (\<forall>plan\<in>set types. tp_committed plan \<longrightarrow> schema_ok types plan)"

lemma index_plan_ok:
  assumes "table_ok (tp_fields plan) (tp_field_index_by_id plan)" "length (tp_fields plan) \<le> 6387"
  shows "plan_ok plan"
proof -
  have "sint (of_nat i :: 16 word) = int i" if "i < 6387" for i
    using that by (simp add: sint_uint uint_nat unat_of_nat signed_take_bit_int_eq_self)
  then have "sint v < 0 \<or> nat (sint v) < length (tp_fields plan)" if "v \<in> set (tp_field_index_by_id plan)" for v
    using that assms by (fastforce simp: table_ok_def)
  then show ?thesis using assms(2) by (simp add: plan_ok_def)
qed

lemma schemas_types_ok: "schemas_ok (g_types E) \<Longrightarrow> types_ok E"
proof -
  assume s: "schemas_ok (g_types E)"
  have "plan_ok plan" if "plan \<in> set (g_types E)" "tp_committed plan" for plan
  proof -
    have "schema_ok (g_types E) plan" using s that by (simp add: schemas_ok_def)
    then have "table_ok (tp_fields plan) (tp_field_index_by_id plan)" "length (tp_fields plan) \<le> 6387"
      by (auto simp: schema_ok_def table_ok_def split: if_splits)
    then show ?thesis by (rule index_plan_ok)
  qed
  then show ?thesis by (simp add: types_ok_def)
qed

lemma child_ok_change:
  assumes "child_ok types kind child" and "length types \<le> length types'" and "\<And>i. i < length types \<Longrightarrow> tp_kind (types' ! i) = tp_kind (types ! i)"
  shows "child_ok types' kind child"
proof (cases "IsComplex kind")
  case True
  then have c: "child \<noteq> 0" "unat child \<le> length types" using assms(1) by (simp_all add: child_ok_def)
  then have "unat child - 1 < length types" by (metis diff_less le_eq_less_or_eq less_imp_diff_less unat_gt_0 zero_less_one)
  then show ?thesis using assms True c by (simp add: child_ok_def)
qed (use assms(1) in \<open>simp add: child_ok_def\<close>)

lemma schema_ok_change:
  assumes "schema_ok types plan" and "length types \<le> length types'" and "\<And>i. i < length types \<Longrightarrow> tp_kind (types' ! i) = tp_kind (types ! i)"
  shows "schema_ok types' plan"
  using assms(1) child_ok_change [OF _ assms(2,3)] by (auto simp: schema_ok_def split: if_splits)

lemma schemas_ok_append: "schemas_ok types \<Longrightarrow> schemas_ok (types @ [type_plan kind])"
  by (auto simp: schemas_ok_def type_plan_def nth_append intro: schema_ok_change)

lemma schemas_ok_update:
  assumes "schemas_ok types" and "i < length types" and "tp_kind plan = tp_kind (types ! i)" and "schema_ok types plan"
  shows "schemas_ok (types[i := plan])"
proof -
  have k: "tp_kind (types[i := plan] ! j) = tp_kind (types ! j)" if "j < length types" for j
    using that assms(2,3) by (simp add: nth_list_update)
  have "schema_ok types p" if "p \<in> set (types[i := plan])" "tp_committed p" for p
    using that assms(1,4) set_update_subset_insert [of types i plan] by (auto simp: schemas_ok_def)
  then show ?thesis using schema_ok_change [where types = types and types' = "types[i := plan]"] k by (auto simp: schemas_ok_def)
qed

subsection \<open>Committing a plan\<close>

lemma plan_word_fine: "unat index * 4 + 4 \<le> length plan \<Longrightarrow> fine (plan_word plan index) (\<lambda>_. True)"
  by (simp add: plan_word_def Load32_def load32_def)

lemma field_word:
  assumes "unat (index :: u32) + n \<le> 6387" "0 < n" "k \<le> 6"
  shows "unat (of_nat k + index * 3 :: u32) = k + 3 * unat index"
  using assms by (simp add: unat_word_ariths unat_of_nat)

lemma read_fields_fine:
  "unat index + n \<le> 6387 \<Longrightarrow> (4 + 3 * (unat index + n)) * 4 \<le> length plan \<Longrightarrow>
    fine (read_fields plan n index) (\<lambda>fs. length fs = n \<and> (\<forall>f\<in>set fs. field_ok f))"
proof (induction n arbitrary: index)
  case (Suc n)
  have w: "unat (4 + index * 3) = 4 + 3 * unat index" "unat (5 + index * 3) = 5 + 3 * unat index" "unat (6 + index * 3) = 6 + 3 * unat index"
    using field_word [OF Suc.prems(1), of 4] field_word [OF Suc.prems(1), of 5] field_word [OF Suc.prems(1), of 6] by simp_all
  have "unat (index + 1) = unat index + 1" using Suc.prems(1) by (simp add: unat_step)
  then have ih: "fine (read_fields plan n (index + 1)) (\<lambda>fs. length fs = n \<and> (\<forall>f\<in>set fs. field_ok f))" using Suc by simp
  show ?case unfolding read_fields.simps
    by (intro fine_andThen [OF plan_word_fine] fine_if [OF fine_simps(1)] fine_andThen [OF ih])
      (use w Suc.prems in \<open>auto simp: field_ok_def word_less_nat_alt not_le\<close>)
qed simp

lemma index_fields_fine:
  "table_ok pre table \<Longrightarrow> length pre + length fs \<le> 6387 \<Longrightarrow> (\<forall>f\<in>set fs. unat (fp_id f) < length table) \<Longrightarrow>
    fine (index_fields fs (of_nat (length pre)) table) (\<lambda>table. table_ok (pre @ fs) table)"
proof (induction fs arbitrary: pre table)
  case (Cons f fs)
  let ?j = "unat (fp_id f)" and ?v = "of_nat (length pre) :: 16 word"
  have j: "?j < length table" using Cons.prems(3) by simp
  have c: "ucast (of_nat (length pre) :: u32) = ?v" using Cons.prems(2) by (intro word_eq_unatI) (simp add: unat_ucast unat_of_nat)
  have n1: "of_nat i \<noteq> (- 1 :: 16 word)" if "i < 6387" for i
    using that by (simp add: word_unat_eq_iff unat_of_nat unat_minus_1)
  have step: "table_ok (pre @ [f]) (table[?j := ?v])" if old: "table ! ?j = - 1"
  proof -
    have ne: "unat (fp_id (pre ! i)) \<noteq> ?j" if "i < length pre" for i
      using that Cons.prems(1,2) old n1 [of i] by (auto simp: table_ok_def)
    have "unat (fp_id ((pre @ [f]) ! i)) < length (table[?j := ?v]) \<and> table[?j := ?v] ! unat (fp_id ((pre @ [f]) ! i)) = of_nat i"
      if "i < length (pre @ [f])" for i
    proof (cases "i < length pre")
      case True
      then show ?thesis using ne [OF True] Cons.prems(1) by (simp add: table_ok_def nth_append nth_list_update)
    qed (use that j in \<open>simp add: nth_append less_Suc_eq\<close>)
    moreover have "v = - 1 \<or> (\<exists>i<length (pre @ [f]). v = of_nat i)" if "v \<in> set (table[?j := ?v])" for v
    proof -
      have "v = ?v \<or> v \<in> set table" using that set_update_subset_insert [of table ?j ?v] by blast
      then show ?thesis using Cons.prems(1) by (auto simp: table_ok_def intro: less_SucI)
    qed
    ultimately show ?thesis by (simp add: table_ok_def)
  qed
  show ?case unfolding index_fields.simps
  proof (rule fine_andThen [OF fetch_fine [OF j]], rule fine_if [OF fine_simps(1)])
    fix x assume "x = table ! ?j" "\<not> x \<noteq> - 1"
    then have "fine (index_fields fs (of_nat (length (pre @ [f]))) (table[?j := ?v])) (table_ok ((pre @ [f]) @ fs))"
      using Cons.prems(2,3) by (intro Cons.IH step) simp_all
    then show "fine (index_fields fs (of_nat (length pre) + 1) (table[?j := ucast (of_nat (length pre) :: u32)])) (table_ok (pre @ f # fs))"
      by (simp add: c add.commute)
  qed
qed simp

lemma fold_max: "x \<in> set xs \<Longrightarrow> x \<le> fold max xs (a :: u32)" "fold max xs a \<in> insert a (set xs)"
proof -
  have "a \<le> fold max xs a" for xs and a :: u32 by (induction xs arbitrary: a) (auto intro: max.coboundedI2 order_trans [OF max.cobounded2])
  then show "x \<in> set xs \<Longrightarrow> x \<le> fold max xs a" by (induction xs arbitrary: a) (auto intro: order_trans [OF max.cobounded1])
  show "fold max xs a \<in> insert a (set xs)" by (induction xs arbitrary: a) (auto simp: max_def split: if_splits)
qed

lemma commit_message_fine:
  assumes "unat record_words * 4 \<le> length plan" and "tp_fields type = []" "tp_field_index_by_id type = []"
  shows "fine (commit_message alloc plan record_words field_count type) (\<lambda>type'. \<exists>fs table. type' = type\<lparr>tp_fields := fs, tp_field_index_by_id := table\<rparr> \<and>
    length fs \<le> 6387 \<and> table_ok fs table \<and> (\<forall>f\<in>set fs. field_ok f))"
proof (cases "record_words \<noteq> 4 + field_count * 3 \<or> field_count > 6387")
  case False
  then have n: "unat field_count \<le> 6387" by (simp add: word_le_nat_alt not_less)
  then have "unat record_words = 4 + 3 * unat field_count" using False by (simp add: unat_word_ariths)
  then have fs: "fine (read_fields plan (unat field_count) 0) (\<lambda>fs. length fs = unat field_count \<and> (\<forall>f\<in>set fs. field_ok f))"
    using read_fields_fine [of 0 "unat field_count" plan] n assms(1) by simp
  have table: "fine (index_fields fs 0 (replicate (unat (fold max (map fp_id fs) 0 + 1)) (- 1))) (table_ok fs)"
    if f: "length fs = unat field_count" "\<forall>f\<in>set fs. field_ok f" for fs
  proof -
    let ?m = "fold max (map fp_id fs) 0"
    have "unat ?m < 6387" using fold_max(2) [of "map fp_id fs" 0] f(2) by (auto simp: field_ok_def)
    then have m: "unat (?m + 1) = unat ?m + 1" by (simp add: unat_step)
    have "\<forall>f\<in>set fs. unat (fp_id f) < unat (?m + 1)"
      using fold_max(1) [of _ "map fp_id fs" 0] m by (auto simp: word_le_nat_alt less_Suc_eq_le)
    moreover have "table_ok [] (replicate (unat (?m + 1)) (- 1))" by (simp add: table_ok_def)
    ultimately show ?thesis using index_fields_fine [of "[]" "replicate (unat (?m + 1)) (- 1)" fs] f(1) n by simp
  qed
  have "type\<lparr>tp_fields := fs\<rparr> = type\<lparr>tp_fields := fs, tp_field_index_by_id := []\<rparr>" for fs using assms(3) by simp
  moreover have "table_ok [] []" by (simp add: table_ok_def)
  ultimately show ?thesis unfolding commit_message_def if_not_P [OF False] Let_def
    by (intro fine_if [OF fine_simps(2)] fine_andThen [OF fs] fine_if) (use table n in \<open>auto intro!: fine_andThen [OF table] exI\<close>)
qed (simp add: commit_message_def)

lemma handle_index: "handle \<noteq> 0 \<Longrightarrow> unat (handle :: u32) \<le> n \<Longrightarrow> unat (handle - 1) = unat handle - 1 \<and> unat handle - 1 < n"
  using unat_gt_0 [of handle] by (simp add: unat_minus_one)

lemma validate_child_fine:
  "fine (validate_child types kind child) (\<lambda>ok. ok \<longrightarrow> (IsComplex kind \<longleftrightarrow> child \<noteq> kNoType) \<longrightarrow> child_ok types kind child)"
proof (cases "IsComplex kind \<and> child \<noteq> 0 \<and> unat child \<le> length types")
  case True
  then have "unat (child - 1) = unat child - 1 \<and> unat child - 1 < length types" by (intro handle_index) simp_all
  then show ?thesis using True by (simp add: validate_child_def fetch_def child_ok_def)
qed (auto simp: validate_child_def child_ok_def)

lemma validate_fields_fine:
  "\<forall>f\<in>set fs. field_ok f \<Longrightarrow> fine (validate_fields types fs) (\<lambda>ok. ok \<longrightarrow> (\<forall>f\<in>set fs. child_ok types (fp_kind f) (fp_child f)))"
proof (induction fs)
  case (Cons f fs)
  show ?case unfolding validate_fields.simps
    by (intro fine_andThen [OF validate_child_fine] fine_if fine_mono [OF Cons.IH]) (use Cons.prems in \<open>auto simp: field_ok_def\<close>)
qed simp

definition decoder_ok :: "Decoder \<Rightarrow> bool" where
  "decoder_ok d \<longleftrightarrow> 0 < length (g_input d) \<and> length (g_input d) \<le> 2 ^ 30 \<and> 0 < length (g_plan d) \<and> length (g_plan d) \<le> 2 ^ 30 \<and>
    schemas_ok (g_types d) \<and> length (g_types d) < 2 ^ 30"

text \<open>The type that a plan describes, before its children are validated.\<close>

definition draft_ok :: "u32 \<Rightarrow> TypePlan \<Rightarrow> bool" where
  "draft_ok kind type \<longleftrightarrow> tp_kind type = kind \<and>
    (if kind = kMessage then length (tp_fields type) \<le> 6387 \<and> table_ok (tp_fields type) (tp_field_index_by_id type) \<and> (\<forall>f\<in>set (tp_fields type). field_ok f)
     else tp_fields type = [] \<and> tp_field_index_by_id type = [] \<and> ValidValueKind (tp_value_kind type) \<and>
       (IsComplex (tp_value_kind type) \<longleftrightarrow> tp_child type \<noteq> kNoType) \<and> (kind = kArray \<or> kind = kMap \<and> ValidKeyKind (tp_key_kind type)))"

lemma draft_children_fine:
  assumes "draft_ok kind type"
  shows "fine (if tp_kind type = kMessage then validate_fields types (tp_fields type) else validate_child types (tp_value_kind type) (tp_child type))
    (\<lambda>ok. ok \<longrightarrow> schema_ok types (type\<lparr>tp_committed := True\<rparr>))"
proof (cases "kind = kMessage")
  case True
  then show ?thesis using assms by (auto simp: draft_ok_def schema_ok_def intro!: fine_mono [OF validate_fields_fine])
next
  case False
  then show ?thesis using assms by (auto simp: draft_ok_def schema_ok_def intro!: fine_mono [OF validate_child_fine])
qed

lemma CommitPlan_fine:
  assumes "decoder_ok d"
  shows "fine (CommitPlan alloc handle len d) (\<lambda>d'. decoder_ok d' \<and> g_input d' = g_input d \<and> (\<exists>types. d' = d\<lparr>g_types := types\<rparr>))"
proof (cases "len < 16 \<or> len AND 3 \<noteq> 0 \<or> unat len > length (g_plan d) \<or> handle = 0 \<or> unat handle > length (g_types d)")
  case False
  then have len: "16 \<le> unat len" "unat len \<le> length (g_plan d)" by (simp_all add: word_le_nat_alt not_less)
  let ?i = "unat handle - 1"
  have i: "unat (handle - 1) = ?i" "?i < length (g_types d)" using False handle_index [of handle "length (g_types d)"] by auto
  have words: "fine (plan_word (g_plan d) k) (\<lambda>_. True)" if "unat k \<le> 3" for k using that len by (intro plan_word_fine) simp
  have draft: "fine (if kind = kMessage then commit_message alloc (g_plan d) record_words auxiliary ((type_plan kind)\<lparr>tp_child := child\<rparr>)
      else if kind = kArray then
        if record_words \<noteq> 4 \<or> \<not> ValidValueKind auxiliary then Inl Refused
        else if IsComplex auxiliary \<noteq> (child \<noteq> kNoType) then Inl Refused
        else Inr ((type_plan kind)\<lparr>tp_child := child, tp_value_kind := auxiliary\<rparr>)
      else if kind = kMap then
        if record_words \<noteq> 4 \<or> \<not> ValidKeyKind (auxiliary AND 0xff) \<or> \<not> ValidValueKind (drop_bit 8 auxiliary AND 0xff) then Inl Refused
        else if IsComplex (drop_bit 8 auxiliary AND 0xff) \<noteq> (child \<noteq> kNoType) then Inl Refused
        else Inr ((type_plan kind)\<lparr>tp_child := child, tp_key_kind := auxiliary AND 0xff, tp_value_kind := drop_bit 8 auxiliary AND 0xff\<rparr>)
      else Inl Refused) (draft_ok kind)" if "record_words = len div 4" for kind record_words auxiliary child
    by (intro fine_if fine_mono [OF commit_message_fine])
      (use len(2) that in \<open>auto simp: draft_ok_def type_plan_def kinds unat_div\<close>)
  have finish: "decoder_ok (d\<lparr>g_types := (g_types d)[unat (handle - 1) := type\<lparr>tp_committed := True\<rparr>]\<rparr>)"
    if "draft_ok kind type" "schema_ok (g_types d) (type\<lparr>tp_committed := True\<rparr>)" "tp_kind (g_types d ! ?i) = kind" for kind type
    using that assms i schemas_ok_update [of "g_types d" ?i "type\<lparr>tp_committed := True\<rparr>"] by (simp add: decoder_ok_def draft_ok_def)
  show ?thesis unfolding CommitPlan_def Let_def
    by (intro fine_if [OF fine_simps(1)] fine_andThen [OF words] fine_andThen [OF fetch_fine] fine_andThen [OF draft] fine_andThen [OF draft_children_fine])
      (use i finish in auto)
qed (auto simp: CommitPlan_def)

subsection \<open>The calls\<close>

lemma reserve_loop_some:
  "0 < unat c \<Longrightarrow> unat c \<le> 2 ^ 30 \<Longrightarrow> unat m \<le> 2 ^ 30 \<Longrightarrow> 2 ^ 30 < unat c * 2 ^ n \<Longrightarrow>
    \<exists>cap. reserve_loop n m c = Some cap \<and> unat m \<le> unat cap \<and> unat c \<le> unat cap \<and> unat cap \<le> 2 ^ 30"
proof (induction n arbitrary: c)
  case (Suc n)
  have k: "unat kMaximumBufferSize = 2 ^ 30" "unat (kMaximumBufferSize div 2) = 2 ^ 29"
    by (simp_all add: kMaximumBufferSize_def unat_push_bit unat_div)
  show ?case
  proof (cases "c < m \<and> \<not> c > kMaximumBufferSize div 2")
    case True
    then have "unat c \<le> 2 ^ 29" using k by (simp add: word_less_nat_alt)
    then have c: "unat (c * 2) = 2 * unat c" by (simp add: unat_word_ariths)
    have "\<exists>cap. reserve_loop n m (c * 2) = Some cap \<and> unat m \<le> unat cap \<and> unat (c * 2) \<le> unat cap \<and> unat cap \<le> 2 ^ 30"
      using Suc.prems \<open>unat c \<le> 2 ^ 29\<close> by (intro Suc.IH) (simp_all add: c)
    then show ?thesis using True c by auto
  next
    case False
    then show ?thesis using Suc.prems k by (auto simp: word_less_nat_alt)
  qed
qed simp

lemma Decode_Reserve_some:
  assumes "0 < length buf" "length buf \<le> 2 ^ 30"
  shows "\<exists>ok buf'. Decode_Reserve alloc buf m = Some (ok, buf') \<and> length buf \<le> length buf' \<and> length buf' \<le> 2 ^ 30 \<and> take (length buf) buf' = buf \<and>
    (ok \<longrightarrow> 0 < unat m \<and> unat m \<le> length buf')"
proof (cases "m = 0 \<or> m > kMaximumBufferSize \<or> length buf \<ge> unat m")
  case False
  have "unat m \<le> 2 ^ 30" using False by (simp add: word_less_nat_alt kMaximumBufferSize_def unat_push_bit)
  moreover have l: "unat (of_nat (length buf) :: u32) = length buf" using assms(2) by (simp add: unat_of_nat)
  ultimately obtain cap where c: "reserve_loop 33 m (of_nat (length buf)) = Some cap" "unat m \<le> unat cap" "length buf \<le> unat cap" "unat cap \<le> 2 ^ 30"
    using reserve_loop_some [of "of_nat (length buf)" m 33] assms unfolding l by auto
  then show ?thesis using False assms by (auto simp: Decode_Reserve_def unat_gt_0)
qed (use assms in \<open>auto simp: Decode_Reserve_def unat_gt_0\<close>)

lemma plan_commit_some:
  assumes "decoder_ok d"
  shows "\<exists>r d'. pc_decode_plan_commit alloc handle len d = Some (r, d') \<and> decoder_ok d'"
  using CommitPlan_fine [OF assms, of alloc handle len] assms
  by (auto simp: pc_decode_plan_commit_def decoder_ok_def fine_def split: sum.splits stop.splits)

lemma decode_tape_some:
  assumes "decoder_ok d" "small alloc"
  shows "\<exists>r d'. pc_decode_tape alloc handle n d = Some (r, d') \<and> decoder_ok d' \<and>
    (r \<noteq> 0 \<longrightarrow> unat r = 4 * length (g_tape d') \<and> g_decode_error d' = PC_WASM_OK \<and> tape_of (DecodeEnv.truncate d') handle (g_tape d'))"
proof (cases "n = 0 \<or> n AND 3 \<noteq> 0 \<or> unat n > length (g_input d) \<or> handle = 0 \<or> unat handle > length (g_types d)")
  case False
  let ?d = "d\<lparr>g_input_length := n, g_tape := []\<rparr>"
  let ?E = "DecodeEnv.truncate ?d" and ?loc = "\<lparr>word_offset = 0, limit_word_offset = n div 4\<rparr>"
  have E: "env_ok ?E" "types_ok ?E" "loc_ok ?E ?loc"
    using False assms(1) schemas_types_ok [of ?E] by (simp_all add: env_ok_def loc_ok_def DecodeEnv.truncate_def decoder_ok_def unat_div)
  have v: "fine (Visit alloc ?E walk_fuel handle ?loc 0 []) (\<lambda>tape. tape_of ?E handle tape)"
    using Visit_fine [OF E(1,2) assms(2), of 0 walk_fuel ?loc handle "[]"] E(3) by (simp add: walk_fuel_def)
  have i: "rd (g_types d) (unat (handle - 1)) \<noteq> None" using False handle_index [of handle "length (g_types d)"] by simp
  have ok: "decoder_ok ?d" "decoder_ok (d\<lparr>g_decode_error := e\<rparr>)" "decoder_ok (?d\<lparr>g_tape := tp, g_decode_error := e\<rparr>)" for tp e
    using assms(1) by (simp_all add: decoder_ok_def)
  have u: "unat (of_nat (length tape * 4) :: u32) = 4 * length tape" if "\<not> length tape > 0xffffffff div 4" for tape :: "u32 list"
    using that by (simp only: unat_of_nat) simp
  have t: "DecodeEnv.truncate (?d\<lparr>g_tape := tape, g_decode_error := e\<rparr>) = ?E" for tape e by (simp add: DecodeEnv.truncate_def)
  show ?thesis unfolding pc_decode_tape_def if_not_P [OF False] Let_def
    using i v ok u t by (auto simp: fine_def split: sum.splits stop.splits if_splits)
qed (use assms(1) in \<open>auto simp: pc_decode_tape_def decoder_ok_def\<close>)

lemma decoder_step_ok:
  assumes "small alloc" "decoder_step alloc d d'" "decoder_ok d"
  shows "decoder_ok d'"
  using assms(2,3)
proof cases
  case (input_reserve n r)
  then show ?thesis using assms(3) Decode_Reserve_some [of "g_input d" alloc n]
    by (auto simp: pc_decode_input_reserve_def decoder_ok_def bind_eq_Some_conv split: if_splits)
next
  case (plan_reserve n r)
  then show ?thesis using assms(3) Decode_Reserve_some [of "g_plan d" alloc n]
    by (auto simp: pc_decode_plan_reserve_def decoder_ok_def bind_eq_Some_conv split: if_splits)
next
  case (schema_reserve kind h)
  then show ?thesis using assms(1,3) schemas_ok_append [of "g_types d" kind]
    by (auto simp: pc_decode_schema_reserve_def decoder_ok_def small_def split: if_splits)
next
  case (plan_commit h n r)
  then show ?thesis using plan_commit_some [OF assms(3), of alloc h n] by auto
next
  case (decode h n r)
  then show ?thesis using decode_tape_some [OF assms(3,1), of h n] by auto
qed (use assms(3) in \<open>simp_all add: decoder_ok_def\<close>)

lemma decoder_reachable_ok:
  assumes "small alloc" "decoder_reachable alloc d"
  shows "decoder_ok d"
  using assms(2)
proof induction
  case start
  then show ?case by (simp add: decoder_ok_def initial_decoder_def schemas_ok_def)
next
  case (step d d')
  then show ?case using decoder_step_ok [OF assms(1)] by blast
qed

subsection \<open>The fuel of the walk\<close>

lemma visit_fields_cong:
  assumes "\<And>t loc. depth < kMaximumDepth \<Longrightarrow> visit t loc (depth + 1) = visit' t loc (depth + 1)"
  shows "visit_fields E visit depth fs = visit_fields E visit' depth fs"
proof (induction fs)
  case (Cons f fs)
  then show ?case using assms by (cases "depth < kMaximumDepth") (auto simp: fun_eq_iff not_less intro!: arg_cong2 [where f = andThen])
qed (simp add: fun_eq_iff)

lemma visit_children_cong:
  assumes "\<And>t loc. visit t loc (depth + 1) = visit' t loc (depth + 1)"
  shows "visit_children E visit child depth base stride skip width n = visit_children E visit' child depth base stride skip width n"
  using assms by (induction n) (simp_all add: fun_eq_iff)

lemma Visit_fuel:
  "unat depth \<le> 256 \<Longrightarrow> 257 \<le> unat depth + n \<Longrightarrow> Visit alloc E (n + k) t loc depth = Visit alloc E n t loc depth"
proof (induction n arbitrary: t loc depth)
  case (Suc n)
  have v: "Visit alloc E (n + k) t loc (depth + 1) = Visit alloc E n t loc (depth + 1)" if "depth < kMaximumDepth" for t loc
  proof -
    have "unat depth < 256" using that by (simp add: kMaximumDepth_def word_less_nat_alt)
    then have "unat (depth + 1) = unat depth + 1" by (simp add: unat_step)
    then show ?thesis using \<open>unat depth < 256\<close> Suc.prems(2) by (intro Suc.IH) simp_all
  qed
  have f: "visit_fields E (Visit alloc E (n + k)) depth = visit_fields E (Visit alloc E n) depth"
    using visit_fields_cong [of depth "Visit alloc E (n + k)" "Visit alloc E n"] v by blast
  have c: "visit_children E (Visit alloc E (n + k)) child depth = visit_children E (Visit alloc E n) child depth" if "depth < kMaximumDepth" for child
    using visit_children_cong [of "Visit alloc E (n + k)" depth "Visit alloc E n"] v [OF that] by (simp add: fun_eq_iff)
  have m: "VisitMessage alloc E (Visit alloc E (n + k)) t plan loc depth = VisitMessage alloc E (Visit alloc E n) t plan loc depth" for plan
    by (rule ext) (simp only: VisitMessage_def f)
  have a: "VisitArray alloc E (Visit alloc E (n + k)) t plan loc depth = VisitArray alloc E (Visit alloc E n) t plan loc depth"
      "VisitMap alloc E (Visit alloc E (n + k)) t plan loc depth = VisitMap alloc E (Visit alloc E n) t plan loc depth" for plan
  proof -
    show "VisitArray alloc E (Visit alloc E (n + k)) t plan loc depth = VisitArray alloc E (Visit alloc E n) t plan loc depth"
    proof (cases "depth < kMaximumDepth")
      case False
      then have "kMaximumDepth \<le> depth \<or> P \<longleftrightarrow> True" for P by (simp add: not_less)
      then show ?thesis by (intro ext) (simp only: VisitArray_def if_True)
    qed (intro ext, simp only: VisitArray_def c)
    show "VisitMap alloc E (Visit alloc E (n + k)) t plan loc depth = VisitMap alloc E (Visit alloc E n) t plan loc depth"
    proof (cases "depth < kMaximumDepth")
      case False
      then have "kMaximumDepth \<le> depth \<or> P \<longleftrightarrow> True" for P by (simp add: not_less)
      then show ?thesis by (intro ext) (simp only: VisitMap_def if_True)
    qed (intro ext, simp only: VisitMap_def c)
  qed
  show ?case by (rule ext) (simp only: add_Suc Visit.simps m a)
qed simp

subsection \<open>Properties\<close>

text \<open>
  Claim C9: when memory for vectors of \<open>2 ^ 30\<close> elements or more is never given out, then after any
  sequence of calls and of writes of the host, every further call with any arguments returns: no
  access leaves the input, the plan, the table of types, the fields of a type or the tape.
\<close>

theorem decoder_calls_safe:
  assumes "small alloc" and "decoder_reachable alloc d"
  shows "pc_decode_tape alloc handle n d \<noteq> None \<and> pc_decode_plan_commit alloc handle n d \<noteq> None \<and> pc_decode_schema_kind d handle \<noteq> None \<and>
    pc_decode_input_reserve alloc n d \<noteq> None \<and> pc_decode_plan_reserve alloc n d \<noteq> None"
proof -
  have d: "decoder_ok d" using decoder_reachable_ok [OF assms] .
  have "pc_decode_schema_kind d handle \<noteq> None" using handle_index [of handle "length (g_types d)"] by (auto simp: pc_decode_schema_kind_def not_less)
  moreover have "pc_decode_input_reserve alloc n d \<noteq> None" "pc_decode_plan_reserve alloc n d \<noteq> None"
    using Decode_Reserve_some [of "g_input d" alloc n] Decode_Reserve_some [of "g_plan d" alloc n] d
    by (auto simp: pc_decode_input_reserve_def pc_decode_plan_reserve_def decoder_ok_def)
  ultimately show ?thesis using decode_tape_some [OF d assms(1), of handle n] plan_commit_some [OF d, of alloc handle n] by auto
qed

theorem decoder_calls_safe_witness: "pc_decode_tape (\<lambda>n. n < 2 ^ 29) 1 4 initial_decoder \<noteq> None"
  using decoder_calls_safe [of "\<lambda>n. n < 2 ^ 29" initial_decoder 1 4] decoder_reachable.start by (auto simp: small_def)

text \<open>
  Claim C10: a tape that \<open>pc_decode_tape\<close> returns is the tape of a value of the requested type: its
  records follow the plans of the types, the descriptors of strings and of \<open>bool\<close> arrays are spans of
  bytes inside of the input, all other places are spans of words inside of it with the width that the
  kind of the value demands, and the result is the number of bytes of the tape.
\<close>

theorem decode_tape_typed:
  assumes "small alloc" and "decoder_reachable alloc d" and "pc_decode_tape alloc handle n d = Some (r, d')" and "r \<noteq> 0"
  shows "unat r = 4 * length (g_tape d') \<and> tape_of (DecodeEnv.truncate d') handle (g_tape d')"
  using decode_tape_some [OF decoder_reachable_ok [OF assms(1,2)] assms(1), of handle n] assms(3,4) by auto


text \<open>
  Claim C30: the walk ends, whatever cycles the types and the offsets of the input have: more fuel than
  one more than \<open>kMaximumDepth\<close> changes nothing, and with that fuel the walk never runs out of it.
\<close>

theorem decode_walk_terminates:
  assumes "env_ok E" "types_ok E" "small alloc" "loc_ok E loc"
  shows "Visit alloc E (walk_fuel + k) t loc 0 tape = Visit alloc E walk_fuel t loc 0 tape \<and> Visit alloc E walk_fuel t loc 0 tape \<noteq> Inl Unfinished"
  using Visit_fine [OF assms(1-3), of 0 walk_fuel loc t tape] assms(4) Visit_fuel [of 0 walk_fuel alloc E k t loc]
  by (auto simp: walk_fuel_def)

theorem decode_walk_terminates_witness:
  "Visit (\<lambda>n. n < 2 ^ 29) \<lparr>g_input = [0, 0, 0, 0], g_input_length = 4, g_types = []\<rparr> (walk_fuel + 5) 1 \<lparr>word_offset = 0, limit_word_offset = 1\<rparr> 0 [] \<noteq> Inl Unfinished"
proof -
  let ?E = "\<lparr>g_input = [0, 0, 0, 0], g_input_length = 4, g_types = []\<rparr>" and ?loc = "\<lparr>word_offset = 0, limit_word_offset = 1\<rparr>"
  have "env_ok ?E" "types_ok ?E" "small (\<lambda>n. n < 2 ^ 29)" "loc_ok ?E ?loc" by (simp_all add: env_ok_def types_ok_def small_def loc_ok_def)
  from decode_walk_terminates [OF this, of 5 1 "[]"] show ?thesis by simp
qed

text \<open>
  Growing a buffer ends, and when it succeeds the buffer has at least the wanted size, at most
  \<open>2 ^ 30\<close> bytes and its old contents.
\<close>

theorem decode_reserve_terminates:
  assumes "0 < length buf" "length buf \<le> 2 ^ 30"
  shows "\<exists>ok buf'. Decode_Reserve alloc buf m = Some (ok, buf') \<and> length buf' \<le> 2 ^ 30 \<and> take (length buf) buf' = buf \<and>
    (ok \<longrightarrow> unat m \<le> length buf')"
  using Decode_Reserve_some [OF assms] by blast

theorem decode_reserve_terminates_witness: "\<exists>ok buf'. Decode_Reserve (\<lambda>n. n < 2 ^ 29) [7, 8] 100 = Some (ok, buf') \<and> take (length [7 :: u8, 8]) buf' = [7, 8]"
proof -
  have "0 < length [7 :: u8, 8]" "length [7 :: u8, 8] \<le> 2 ^ 30" by simp_all
  from decode_reserve_terminates [OF this, of "\<lambda>n. n < 2 ^ 29" 100] show ?thesis by blast
qed

text \<open>
  \<open>pc_decode_tape\<close> does not reset the error: after a call that failed with another error, data
  that the walk refuses is never reported as \<open>PC_WASM_INVALID_DATA\<close>.
\<close>

theorem stale_decode_error:
  assumes "g_decode_error d \<notin> {PC_WASM_OK, PC_WASM_INVALID_DATA}" and "pc_decode_tape alloc handle n d = Some (r, d')"
  shows "g_decode_error d' \<noteq> PC_WASM_INVALID_DATA"
proof -
  have s: "PC_WASM_INVALID_ARGUMENT \<noteq> PC_WASM_INVALID_DATA" "PC_WASM_OUT_OF_MEMORY \<noteq> PC_WASM_INVALID_DATA" "PC_WASM_OK \<noteq> PC_WASM_INVALID_DATA"
    by (simp_all add: status)
  let ?d = "d\<lparr>g_input_length := n, g_tape := []\<rparr>"
  define v where "v = Visit alloc (DecodeEnv.truncate ?d) walk_fuel handle \<lparr>word_offset = 0, limit_word_offset = n div 4\<rparr> 0 []"
  show ?thesis using assms s unfolding pc_decode_tape_def Let_def v_def [symmetric]
    by (cases v) (auto simp: bind_eq_Some_conv split: if_splits stop.splits)
qed

subsection \<open>An empty message\<close>

text \<open>The state after the type of a message without fields was registered and an input was written.\<close>

definition empty_message_type :: TypePlan where
  "empty_message_type = \<lparr>tp_kind = 1, tp_value_kind = 0, tp_key_kind = 0, tp_child = - 1, tp_committed = True, tp_fields = [], tp_field_index_by_id = []\<rparr>"

definition empty_message_state :: "u8 list \<Rightarrow> u32 \<Rightarrow> Decoder" where
  "empty_message_state bs e = \<lparr>g_input = bs @ replicate (65536 - length bs) 0, g_input_length = 0, g_types = [empty_message_type],
    g_plan = [1, 0, 0, 0, 0, 0, 0, 0, 4, 0, 0, 0, 255, 255, 255, 255] @ replicate 8176 0, g_tape = [], g_decode_error = e\<rparr>"

lemma empty_message_reachable:
  assumes "length bs \<le> 65536"
  shows "decoder_reachable (\<lambda>n. n < 2 ^ 29) (empty_message_state bs 0)"
proof -
  define alloc :: "nat \<Rightarrow> bool" where "alloc = (\<lambda>n. n < 2 ^ 29)"
  define plan :: "u8 list" where "plan = [1, 0, 0, 0, 0, 0, 0, 0, 4, 0, 0, 0, 255, 255, 255, 255] @ replicate 8176 0"
  have al: "alloc (Suc 0)" "alloc 0" by (simp_all add: alloc_def)
  have pl: "length plan = 8192" "plan_word plan 0 = Inr 1" "plan_word plan 1 = Inr 0" "plan_word plan 2 = Inr 4" "plan_word plan 3 = Inr (- 1)"
    by (simp_all add: plan_def plan_word_def Load32_def load32_def rd_range_def)
  let ?d1 = "initial_decoder\<lparr>g_types := [type_plan kMessage], g_decode_error := PC_WASM_OK\<rparr>"
  let ?d2 = "?d1\<lparr>g_plan := plan\<rparr>" and ?d3 = "?d1\<lparr>g_plan := plan, g_types := [empty_message_type]\<rparr>"
  have "pc_decode_schema_reserve alloc kMessage initial_decoder = (1, ?d1)"
    using al by (simp add: pc_decode_schema_reserve_def initial_decoder_def)
  then have 1: "decoder_reachable alloc ?d1" using decoder_reachable.start decoder_reachable.step decoder_step.schema_reserve by blast
  have "decoder_step alloc ?d1 ?d2" by (rule decoder_step.host_plan) (simp add: initial_decoder_def pl(1))
  with 1 have 2: "decoder_reachable alloc ?d2" by (rule decoder_reachable.step)
  have "CommitPlan alloc 1 16 ?d2 = Inr ?d3"
    using al by (simp add: CommitPlan_def pl fetch_def type_plan_def commit_message_def kinds empty_message_type_def Let_def kNoType_def)
  then have "pc_decode_plan_commit alloc 1 16 ?d2 = Some (PC_WASM_OK, ?d3)"
    by (simp add: pc_decode_plan_commit_def initial_decoder_def)
  then have 3: "decoder_reachable alloc ?d3" using 2 decoder_step.plan_commit decoder_reachable.step by blast
  have "decoder_step alloc ?d3 (?d3\<lparr>g_input := bs @ replicate (65536 - length bs) 0\<rparr>)"
    by (rule decoder_step.host_input) (use assms in \<open>simp add: initial_decoder_def\<close>)
  with 3 have "decoder_reachable alloc (?d3\<lparr>g_input := bs @ replicate (65536 - length bs) 0\<rparr>)" by (rule decoder_reachable.step)
  moreover have "?d3\<lparr>g_input := bs @ replicate (65536 - length bs) 0\<rparr> = empty_message_state bs 0"
    unfolding empty_message_state_def plan_def [symmetric] by (simp add: initial_decoder_def status)
  ultimately show ?thesis by (simp add: alloc_def)
qed

lemma head_fields_zero: "head_fields plan descriptors body limit n fid 0 off tape = Inr tape"
  by (induction n arbitrary: fid) simp_all

lemma walk_fuel_Suc: "walk_fuel = Suc 256"
  by (simp add: walk_fuel_def)

lemma zero_word: "word_of_bytes (replicate n 0) = 0"
  by (induction n) simp_all

lemma SumWidths_zero: "SumWidths n 0 = 0"
  by (induction n) simp_all

lemma decode_empty_message:
  assumes "\<And>n. n \<le> 2048 \<Longrightarrow> alloc n"
  shows "pc_decode_tape alloc 1 4 (empty_message_state [] e) =
    Some (20, (empty_message_state [] e)\<lparr>g_input_length := 4, g_tape := [1, 1, 0, 0, 0], g_decode_error := 0\<rparr>)"
proof -
  let ?s = "empty_message_state [] e"
  define E where "E = DecodeEnv.truncate (?s\<lparr>g_input_length := 4, g_tape := []\<rparr>)"
  have E: "g_types E = [empty_message_type]" "ReadWord E 0 = Inr 0"
    by (simp_all add: E_def empty_message_state_def DecodeEnv.truncate_def ReadWord_def RequireInputWords_iff Load32_def load32_def rd_range_def zero_word)
  have "Visit alloc E walk_fuel 1 \<lparr>word_offset = 0, limit_word_offset = 1\<rparr> 0 [] = Inr [1, 1, 0, 0, 0]"
    unfolding walk_fuel_Suc Visit.simps(2) using E assms
    by (simp add: fetch_def empty_message_type_def kinds VisitMessage_def RequireWords_iff body_width_def SumWidths_zero AppendHeader_def
        Append_def resize_tape_def head_fields_zero)
  then show ?thesis using assms
    by (simp add: pc_decode_tape_def Let_def E_def [symmetric] kInitialTapeWords_def)
      (simp add: empty_message_state_def empty_message_type_def status)
qed

theorem decode_tape_typed_witness:
  "\<exists>r d'. pc_decode_tape (\<lambda>n. n < 2 ^ 29) 1 4 (empty_message_state [] 0) = Some (r, d') \<and> r \<noteq> 0 \<and> tape_of (DecodeEnv.truncate d') 1 (g_tape d')"
  using decode_tape_typed [OF _ empty_message_reachable [of "[]"] decode_empty_message] decode_empty_message [of "\<lambda>n. n < 2 ^ 29" 0]
  by (auto simp: small_def)


theorem stale_decode_error_witness:
  "\<exists>d'. pc_decode_tape (\<lambda>n. n < 2 ^ 29) 1 4 (empty_message_state [1, 0, 0, 0] 1) = Some (0, d') \<and> g_decode_error d' = PC_WASM_INVALID_ARGUMENT \<and>
    g_decode_error d' \<noteq> PC_WASM_INVALID_DATA"
proof -
  let ?s = "empty_message_state [1, 0, 0, 0] 1" and ?alloc = "\<lambda>n :: nat. n < 2 ^ 29"
  define E where "E = DecodeEnv.truncate (?s\<lparr>g_input_length := 4, g_tape := []\<rparr>)"
  have E: "g_types E = [empty_message_type]" "ReadWord E 0 = Inr 1"
    by (simp_all add: E_def empty_message_state_def DecodeEnv.truncate_def ReadWord_def RequireInputWords_iff Load32_def load32_def rd_range_def)
  have "Visit ?alloc E walk_fuel 1 \<lparr>word_offset = 0, limit_word_offset = 1\<rparr> 0 [] = Inl Refused"
    unfolding walk_fuel_Suc Visit.simps(2) using E by (simp add: fetch_def empty_message_type_def kinds VisitMessage_def RequireWords_iff)
  then have r: "pc_decode_tape ?alloc 1 4 ?s = Some (0, ?s\<lparr>g_input_length := 4, g_tape := []\<rparr>)"
    by (simp add: pc_decode_tape_def Let_def E_def [symmetric] kInitialTapeWords_def)
      (simp add: empty_message_state_def empty_message_type_def status)
  have "g_decode_error (?s\<lparr>g_input_length := 4, g_tape := []\<rparr>) \<noteq> PC_WASM_INVALID_DATA"
    by (rule stale_decode_error [OF _ r]) (simp add: empty_message_state_def status)
  then show ?thesis using r by (simp add: empty_message_state_def status)
qed

end
