(* ===== verification/DecodeAgree.thy ===== *)
theory DecodeAgree
  imports DecodeState AccessSafe
begin

text \<open>
  The decoder of the WebAssembly module reads the format like the views of access.h: the length of an
  index is that of the perfect hash, and a string is accepted under the same conditions and with the
  same bytes.
\<close>

subsection \<open>The length of an index\<close>

lemma unat_max: "unat (max a b) = max (unat a) (unat b)"
  by (simp add: max_def word_le_nat_alt)

lemma SectionForSize_eq:
  assumes "unat count < 2 ^ 28"
  shows "SectionForSize count = Section count"
proof (rule word_eq_unatI)
  have "unat (ucast count * 105 + 255 :: u64) = unat count * 105 + 255" using assms by (simp add: unat_word_ariths)
  then have "unat ((ucast count * 105 + 255 :: u64) div 256) = (unat count * 105 + 255) div 256" by (simp add: unat_div)
  then have "unat (SectionForSize count) = sect (unat count)"
    using assms by (simp add: SectionForSize_def unat_max unat_ucast sect_def)
  then show "unat (SectionForSize count) = unat (Section count)" using Section_eq [OF assms] by simp
qed

lemma IndexByteLength_eq:
  assumes "unat count < 2 ^ 28" "1 < count"
  shows "unat (IndexByteLength count) = unat (index_size count)"
proof -
  let ?b = "BitmapSize (Section count)"
  have b: "BitmapSizeForSection (SectionForSize count) = ?b"
    using SectionForSize_eq [OF assms(1)] by (simp add: BitmapSizeForSection_def BitmapSize_def)
  have "unat ?b \<le> 2 ^ 28" using BitmapSize_eq [OF assms(1)] bmsize_bounds(3) [OF assms(1)] by simp
  then show ?thesis using assms(2) unfolding IndexByteLength_def b index_size_def Let_def
    by (simp add: not_le unat_word_ariths unat_div)
qed

text \<open>
  The decoder and the perfect hash agree on the number of bytes of an index, for every head
  word: the decoder looks for the cells of a map where the map view does.
\<close>

theorem index_length_agrees:
  assumes "PerfectHash_init data 0 = Some ph" and "load32 data 0 = Some header"
  shows "unat (IndexByteLength (header AND 0x0fffffff)) = unat (ph_data_size ph)"
proof -
  let ?n = "RealSize header"
  have "unat ?n < 2 ^ 28" using word_and_le1 [of header "0xfffffff"] by (simp add: RealSize_def word_le_nat_alt)
  then have "?n > 1 \<Longrightarrow> unat (IndexByteLength ?n) = unat (index_size ?n)" using IndexByteLength_eq by blast
  moreover have "\<not> ?n > 1 \<Longrightarrow> IndexByteLength ?n = 4" by (simp add: IndexByteLength_def not_less)
  ultimately show ?thesis using assms by (auto simp: PerfectHash_init_eq RealSize_def [symmetric] split: if_splits)
qed

theorem index_length_agrees_witness:
  "unat (IndexByteLength (30 AND 0x0fffffff)) = unat (index_size 30)"
proof -
  have "load32 [30, 0, 0, 0] 0 = Some 30" by (simp add: load32_def rd_range_def)
  moreover from this have "PerfectHash_init [30, 0, 0, 0] 0 = Some \<lparr>ph_section = Section 30, ph_data_size = index_size 30, ph_data = Some [30, 0, 0, 0]\<rparr>"
    by (simp add: PerfectHash_init_eq RealSize_def)
  ultimately show ?thesis using index_length_agrees by fastforce
qed

subsection \<open>Strings\<close>

text \<open>The input of the decoder holds the words of a block.\<close>

definition holds_block :: "DecodeEnv \<Rightarrow> mem \<Rightarrow> bool" where
  "holds_block E mem \<longleftrightarrow> g_input E = mem_bytes mem \<and> unat (g_input_length E) = 4 * length mem"

definition same_string :: "Slice \<Rightarrow> ByteSpan res \<Rightarrow> bool" where
  "same_string s r \<longleftrightarrow> (case s_ptr s of None \<Rightarrow> r = Inl Refused | Some off \<Rightarrow> r = Inr \<lparr>span_offset = of_nat off, span_length = of_nat (s_len s)\<rparr>)"

lemma same_string_simps [simp]: "same_string null_slice r \<longleftrightarrow> r = Inl Refused"
  "same_string (slice p n) r \<longleftrightarrow> r = Inr \<lparr>span_offset = of_nat p, span_length = of_nat n\<rparr>"
  by (simp_all add: same_string_def null_slice_def slice_def)

lemma or_shifted_byte:
  fixes mark :: u64
  assumes "unat mark < 2 ^ sft" "sft \<le> 28"
  shows "mark OR push_bit sft (ucast (x :: u8)) = mark + push_bit sft (ucast x)"
proof -
  have "\<not> bit mark n \<or> \<not> bit (push_bit sft (ucast x) :: u64) n" for n
  proof (cases "n < sft")
    case False
    have "unat (take_bit sft mark) = take_bit sft (unat mark)" by (rule unsigned_take_bit_eq)
    then have "mark = take_bit sft mark" using assms(1) by (intro word_eq_unatI) (simp only: take_bit_nat_eq_self)
    then have "\<not> bit mark n" using False by (metis bit_take_bit_iff)
    then show ?thesis by simp
  qed (simp add: bit_push_bit_iff)
  then show ?thesis by (rule disjunctive_add [symmetric])
qed

lemma unat_shifted_byte:
  fixes x :: u8
  assumes "unat (mark :: u64) < 2 ^ sft" "sft \<le> 28" "unat x < 2 ^ 7"
  shows "unat (mark + push_bit sft (ucast x)) = unat mark + 2 ^ sft * unat x" "unat mark + 2 ^ sft * unat x < 2 ^ (sft + 7)"
proof -
  have "unat mark + 2 ^ sft * unat x < 2 ^ sft * (unat x + 1)" using assms(1) by simp
  also have "\<dots> \<le> 2 ^ sft * 2 ^ 7" using assms(3) by (intro mult_le_mono2) simp
  finally show lt: "unat mark + 2 ^ sft * unat x < 2 ^ (sft + 7)" by (simp only: power_add)
  moreover have "(2 :: nat) ^ (sft + 7) \<le> 2 ^ 35" using assms(2) by (intro power_increasing) simp_all
  ultimately have "unat mark + 2 ^ sft * unat x < 2 ^ 64" by simp
  then show "unat (mark + push_bit sft (ucast x)) = unat mark + 2 ^ sft * unat x"
    by (simp add: unat_word_ariths unat_push_bit mult.commute)
qed

lemma mark_and_3:
  fixes mark :: u64
  assumes "2 \<le> sft"
  shows "(mark + push_bit sft x) AND 3 = mark AND 3"
proof -
  obtain k where k: "sft = 2 + k" using assms le_Suc_ex by blast
  have "unat (mark + push_bit sft x) mod 4 = (unat mark + unat x * 2 ^ sft) mod 4"
    by (simp add: unat_word_ariths unat_push_bit mod_add_right_eq mod_mod_cancel)
  also have "\<dots> = (unat mark + 4 * (unat x * 2 ^ k)) mod 4" by (simp add: k power_add ac_simps)
  finally show ?thesis by (intro word_eq_unatI) (simp only: unat_and_3 mod_mult_self2)
qed

lemma byte_low: "unat (b AND 0x7f :: u8) < 2 ^ 7" "b AND 0x80 = 0 \<Longrightarrow> b AND 0x7f = (b :: u8)"
proof -
  show "unat (b AND 0x7f) < 2 ^ 7" using word_and_le1 [of b "0x7f"] by (simp add: word_le_nat_alt)
  assume z: "b AND 0x80 = 0"
  have "(0x7f OR 0x80 :: u8) = - 1" by (rule word_eq_unatI) (simp add: unat_minus_1)
  then have "b = b AND (0x7f OR 0x80)" by (simp only: and.right_neutral)
  also have "\<dots> = (b AND 0x7f) OR (b AND 0x80)" by (simp only: bit.conj_disj_distrib)
  finally show "b AND 0x7f = b" using z by simp
qed

lemma string_loop_agrees:
  assumes E: "holds_block E mem" "limit \<le> length mem" "unat bl = 4 * limit"
  shows "sft + 7 * k = 35 \<Longrightarrow> 7 \<le> sft \<Longrightarrow> unat mark < 2 ^ sft \<Longrightarrow> mark AND 3 = 0 \<Longrightarrow> unat bo = p \<Longrightarrow>
    \<exists>s. string_loop (mem_bytes mem) (Some (4 * limit)) sft mark p = Some s \<and> same_string s (parse_mark E bl k sft bo mark)"
proof (induction k arbitrary: sft mark bo p)
  case 0
  then show ?case by (simp add: string_loop.simps)
next
  case (Suc k)
  let ?n = "ucast (g_input_length E) :: u64"
  have n: "unat ?n = 4 * length mem" "unat ?n < 2 ^ 32" using E(1) unat_u32 [of "g_input_length E"] by (simp_all add: holds_block_def)
  have sft: "sft \<le> 28" "sft < 32" using Suc.prems(1) by simp_all
  show ?case
  proof (cases "p \<ge> 4 * limit")
    case True
    then show ?thesis using Suc.prems(5) E(3) sft by (simp add: string_loop.simps at_end_def word_le_nat_alt)
  next
    case False
    then have lt: "\<not> (bo \<ge> bl \<or> bo \<ge> ?n)" using Suc.prems(5) E n by (simp add: word_le_nat_alt)
    define b where "b = mem_bytes mem ! p"
    have p: "p < length (mem_bytes mem)" using False E(2) by simp
    have f: "fetch (g_input E) (unat bo) = Inr b" using p E(1) Suc.prems(5) by (simp add: holds_block_def fetch_def b_def)
    have bo: "unat (bo + 1) = p + 1" using False E(2) n Suc.prems(5) by (simp add: unat_word_ariths)
    let ?m = "mark + push_bit sft (ucast (b AND 0x7f))"
    note m = unat_shifted_byte [OF Suc.prems(3) sft(1) byte_low(1), of b]
    have m3: "?m AND 3 = 0" using mark_and_3 [of sft mark] Suc.prems(2,4) by simp
    have or: "mark OR push_bit sft (ucast (b AND 0x7f)) = ?m" using or_shifted_byte [OF Suc.prems(3) sft(1)] by blast
    show ?thesis
    proof (cases "b AND 0x80 = 0")
      case True
      have len: "unat (?m div 4) = unat (drop_bit 2 ?m)" by (simp add: unat_div unat_drop_bit)
      have lim: "unat (bl - (bo + 1)) = 4 * limit - (p + 1)" "unat (?n - (bo + 1)) = 4 * length mem - (p + 1)" "\<not> bo + 1 > bl" "\<not> bo + 1 > ?n"
        using bo False E n by (simp_all add: unat_sub word_le_nat_alt not_less)
      have "(?m div 4 > 0xffffffff \<or> bo + 1 > bl \<or> ?m div 4 > bl - (bo + 1) \<or> bo + 1 > ?n \<or> ?m div 4 > ?n - (bo + 1)) \<longleftrightarrow>
          p + 1 + unat (drop_bit 2 ?m) > 4 * limit"
        using lim len E(2) n False by (simp add: word_less_nat_alt) linarith
      moreover have "ucast (bo + 1) = (of_nat (p + 1) :: u32)" "ucast (?m div 4) = (of_nat (unat (drop_bit 2 ?m)) :: u32)"
        by (rule word_eq_unatI, simp only: unat_ucast bo len unat_of_nat)+
      ultimately show ?thesis using True False lt f sft p m3 or byte_low(2) [OF True]
        by (simp add: string_loop.simps [of _ _ sft] at_end_def past_def b_def [symmetric] Let_def)
    next
      case False
      have "\<exists>s. string_loop (mem_bytes mem) (Some (4 * limit)) (sft + 7) ?m (p + 1) = Some s \<and> same_string s (parse_mark E bl k (sft + 7) (bo + 1) ?m)"
        using Suc.prems m m3 bo by (intro Suc.IH) simp_all
      then show ?thesis using False \<open>\<not> p \<ge> 4 * limit\<close> lt f sft p
        by (simp add: string_loop.simps [of _ _ sft] at_end_def b_def [symmetric] or Let_def)
    qed
  qed
qed

lemma low_bits_byte: "(ucast (b AND 0x7f :: u8) :: u64) AND 3 = 0 \<longleftrightarrow> b AND 3 = 0"
proof -
  have z: "x AND 3 = 0 \<longleftrightarrow> unat x mod 4 = 0" for x :: "'a::len word" by (simp only: unat_and_3 [symmetric] unat_eq_0)
  have "unat (b AND 0x7f) = unat b mod 128" using nat_and_mask [of "unat b" 7] by (simp add: unsigned_and_eq)
  then have "unat (ucast (b AND 0x7f) :: u64) mod 4 = unat b mod 4" by (simp add: mod_mod_cancel)
  then show ?thesis by (simp only: z)
qed

text \<open>A mark that is not a multiple of 4 is refused, however many bytes it has.\<close>

lemma parse_mark_refused:
  assumes "holds_block E mem" "limit \<le> length mem" "unat bl = 4 * limit"
  shows "2 \<le> sft \<Longrightarrow> mark AND 3 \<noteq> 0 \<Longrightarrow> parse_mark E bl k sft bo mark = Inl Refused"
proof (induction k arbitrary: sft mark bo)
  case (Suc k)
  have "unat bo < 4 * length mem" if "\<not> (bo \<ge> bl \<or> bo \<ge> ucast (g_input_length E))" using that assms(2,3) by (simp add: word_le_nat_alt)
  then have f: "\<exists>b. fetch (g_input E) (unat bo) = Inr b" if "\<not> (bo \<ge> bl \<or> bo \<ge> ucast (g_input_length E))"
    using that assms(1) by (simp add: holds_block_def fetch_def)
  have "(mark + push_bit sft x) AND 3 \<noteq> 0" for x using mark_and_3 Suc.prems by simp
  then show ?case using f Suc.IH [of "sft + 7"] Suc.prems(1) by (auto simp: Let_def)
qed simp

text \<open>
  On the same words, the decoder accepts the head and the bytes of a string exactly when the
  string view of access.h does with the same limit, and then finds the same bytes.
\<close>

theorem parse_bytes_agrees:
  assumes "holds_block E mem" and "p < limit" "limit \<le> length mem" "word_offset loc = of_nat p" "limit_word_offset loc = of_nat limit"
  shows "\<exists>s. String_init mem (Some p) (Some limit) = Some s \<and> same_string s (ParseBytes E loc)"
proof -
  have mem: "4 * length mem < 2 ^ 32" using assms(1) unat_u32 [of "g_input_length E"] by (simp add: holds_block_def)
  let ?bo = "ucast (word_offset loc) * 4 :: u64" and ?bl = "ucast (limit_word_offset loc) * 4 :: u64" and ?n = "ucast (g_input_length E) :: u64"
  have u: "unat (word_offset loc) = p" "unat (limit_word_offset loc) = limit" using assms(2-5) mem by (simp_all add: unat_of_nat)
  have w: "unat ?bo = 4 * p" "unat ?bl = 4 * limit" using u assms(2,3) mem by (simp_all add: unat_word_ariths)
  have n: "unat ?n = 4 * length mem" using assms(1) by (simp add: holds_block_def)
  have req: "RequireWords (word_offset loc) 1 (limit_word_offset loc)" using u assms(2) by (simp add: RequireWords_iff)
  define b where "b = mem_bytes mem ! (4 * p)"
  have p: "4 * p < length (mem_bytes mem)" using assms(2,3) by simp
  have f: "fetch (g_input E) (unat ?bo) = Inr b" using p assms(1) w by (simp add: holds_block_def fetch_def b_def)
  have lt: "\<not> (?bo \<ge> ?bl \<or> ?bo \<ge> ?n)" using w n assms(2,3) by (simp add: word_le_nat_alt)
  have bo: "unat (?bo + 1) = 4 * p + 1" using w assms(2,3) mem by (simp add: unat_word_ariths)
  have k: "(5 :: nat) = Suc 4" by simp
  have parse: "ParseBytes E loc = parse_mark E ?bl (Suc 4) 0 ?bo 0" using req by (simp only: ParseBytes_def k) simp
  let ?m = "ucast (b AND 0x7f) :: u64"
  have m: "unat ?m < 2 ^ 7" "?m AND 3 = 0 \<longleftrightarrow> b AND 3 = 0" using byte_low(1) [of b] low_bits_byte by simp_all
  have init: "String_init mem (Some p) (Some limit) = (if b AND 3 \<noteq> 0 then Some null_slice
      else if b AND 0x80 = 0 then
        if 4 * p + 1 + unat (drop_bit 2 b) > 4 * limit then Some null_slice else Some (slice (4 * p + 1) (unat (drop_bit 2 b)))
      else string_loop (mem_bytes mem) (Some (4 * limit)) 7 ?m (4 * p + 1))"
    using p assms(2) by (simp add: String_init_def Let_def at_end_def past_def b_def [symmetric])
  have step: "ParseBytes E loc = (if b AND 0x80 = 0 then
        if ?m AND 3 \<noteq> 0 then Inl Refused
        else if ?m div 4 > 0xffffffff \<or> ?bo + 1 > ?bl \<or> ?m div 4 > ?bl - (?bo + 1) \<or> ?bo + 1 > ?n \<or> ?m div 4 > ?n - (?bo + 1) then Inl Refused
        else Inr \<lparr>span_offset = ucast (?bo + 1), span_length = ucast (?m div 4)\<rparr>
      else parse_mark E ?bl 4 7 (?bo + 1) ?m)"
    unfolding parse parse_mark.simps if_not_P [OF lt] f andThen_simps Let_def by simp
  consider "b AND 3 \<noteq> 0" | "b AND 3 = 0" "b AND 0x80 = 0" | "b AND 3 = 0" "b AND 0x80 \<noteq> 0" by blast
  then show ?thesis
  proof cases
    case 1
    then show ?thesis using parse_mark_refused [OF assms(1,3) w(2), of 7 ?m 4 "?bo + 1"] m(2) by (simp only: init step) simp
  next
    case 2
    have len: "unat (?m div 4) = unat (drop_bit 2 b)" using byte_low(2) [OF 2(2)] by (simp add: unat_div unat_drop_bit)
    have lim: "unat (?bl - (?bo + 1)) = 4 * limit - (4 * p + 1)" "unat (?n - (?bo + 1)) = 4 * length mem - (4 * p + 1)" "\<not> ?bo + 1 > ?bl" "\<not> ?bo + 1 > ?n"
      using bo w n assms(2,3) by (simp_all add: unat_sub word_le_nat_alt not_less)
    have "(?m div 4 > 0xffffffff \<or> ?bo + 1 > ?bl \<or> ?m div 4 > ?bl - (?bo + 1) \<or> ?bo + 1 > ?n \<or> ?m div 4 > ?n - (?bo + 1)) \<longleftrightarrow>
        4 * p + 1 + unat (drop_bit 2 b) > 4 * limit"
      using lim len assms(2,3) mem by (simp add: word_less_nat_alt) linarith
    moreover have "ucast (?bo + 1) = (of_nat (4 * p + 1) :: u32)" "ucast (?m div 4) = (of_nat (unat (drop_bit 2 b)) :: u32)"
      by (rule word_eq_unatI, simp only: unat_ucast bo len unat_of_nat)+
    ultimately show ?thesis using 2 m(2) by (simp only: init step) simp
  next
    case 3
    have "\<exists>s. string_loop (mem_bytes mem) (Some (4 * limit)) 7 ?m (4 * p + 1) = Some s \<and> same_string s (parse_mark E ?bl 4 7 (?bo + 1) ?m)"
      using m 3(1) bo by (intro string_loop_agrees [OF assms(1,3) w(2)]) simp_all
    then show ?thesis using 3 by (simp only: init step) simp
  qed
qed

theorem parse_bytes_agrees_witness:
  "\<exists>s. String_init [0x6104] (Some 0) (Some 1) = Some s \<and>
    same_string s (ParseBytes \<lparr>g_input = mem_bytes [0x6104], g_input_length = 4, g_types = []\<rparr> \<lparr>word_offset = 0, limit_word_offset = 1\<rparr>)"
  by (rule parse_bytes_agrees) (simp_all add: holds_block_def)

end
