(* ===== verification/Arena.thy ===== *)
theory Arena
  imports DecodeApi Serialize PerfectHash
begin

text \<open>
  The serializer of typescript/wasm/serialize_arena.cc: the host writes a tree of nodes into the bytes
  of the arena, and \<open>pc_arena_serialize\<close> turns it into serialized words.  Pointers into the arena are
  positions in its bytes.  As in the decoder, a stop is \<open>Refused\<close> (the result \<open>false\<close>), \<open>NoMemory\<close> (the
  exception of a vector), \<open>Fault\<close> (an access outside of the arena, of a vector or of the buffer), or
  \<open>Unfinished\<close> when the fuel of the model is too small; a nested node is smaller than its parent by at
  least 16 bytes.
\<close>

subsection \<open>Model: nodes\<close>

definition IsScalar :: "u32 \<Rightarrow> bool" where
  "IsScalar kind \<longleftrightarrow> kind \<ge> kF64 \<and> kind \<le> kEnum"

definition ScalarWidth :: "u32 \<Rightarrow> u32" where
  "ScalarWidth kind =
    (if kind = kBool then 1
     else if kind = kF32 \<or> kind = kU32 \<or> kind = kI32 \<or> kind = kEnum then 4
     else if kind = kF64 \<or> kind = kU64 \<or> kind = kI64 then 8
     else 0)"

record NodeView =
  n_start :: nat
  n_end :: nat
  n_kind :: u32
  n_auxiliary :: u32
  n_count :: u32

text \<open>The size of the payload of a node, \<open>node.end - node.start - 16\<close>.\<close>

definition payload_size :: "NodeView \<Rightarrow> nat" where
  "payload_size node = n_end node - n_start node - 16"

text \<open>A node at the cursor and the cursor behind it.\<close>

definition ParseNode :: "u8 list \<Rightarrow> nat \<Rightarrow> nat \<Rightarrow> (NodeView \<times> nat) res" where
  "ParseNode arena limit cursor =
    (if cursor > limit \<or> limit - cursor < 16 then Inl Refused
     else
       andThen (Load32 arena cursor) (\<lambda>kind.
       andThen (Load32 arena (cursor + 4)) (\<lambda>auxiliary.
       andThen (Load32 arena (cursor + 8)) (\<lambda>count.
       andThen
         (if kind \<noteq> kNone \<and> \<not> IsScalar kind then
            andThen (Load32 arena (cursor + 12)) (\<lambda>sz.
            if sz < 16 \<or> sz AND 3 \<noteq> 0 \<or> limit - cursor < unat sz then Inl Refused else Inr sz)
          else if kind \<noteq> kNone \<and> ScalarWidth kind = 0 then Inl Refused
          else Inr 16) (\<lambda>sz.
       Inr (\<lparr>n_start = cursor, n_end = cursor + unat sz, n_kind = kind, n_auxiliary = auxiliary, n_count = count\<rparr>, cursor + unat sz))))))"

text \<open>\<open>count\<close> nodes from the cursor on; they have to end at the end of the parent.\<close>

primrec parse_nodes :: "u8 list \<Rightarrow> nat \<Rightarrow> nat \<Rightarrow> nat \<Rightarrow> NodeView list res" where
  "parse_nodes arena limit 0 cursor = (if cursor \<noteq> limit then Inl Refused else Inr [])"
| "parse_nodes arena limit (Suc n) cursor =
    andThen (ParseNode arena limit cursor) (\<lambda>(node, cursor).
    andThen (parse_nodes arena limit n cursor) (\<lambda>ns. Inr (node # ns)))"

definition arena_bytes :: "u8 list \<Rightarrow> nat \<Rightarrow> nat \<Rightarrow> u8 list res" where
  "arena_bytes arena p n = (case rd_range arena p n of None \<Rightarrow> Inl Fault | Some bs \<Rightarrow> Inr bs)"

text \<open>The bytes of a key; the source returns a null slice for a key that is not of the expected kind.\<close>

definition KeyBytes :: "u8 list \<Rightarrow> NodeView \<Rightarrow> u32 \<Rightarrow> u8 list option res" where
  "KeyBytes arena node expected_kind =
    (if n_kind node \<noteq> expected_kind then Inr None
     else if n_kind node = kString then
       if unat (n_count node) > payload_size node then Inr None
       else andThen (arena_bytes arena (n_start node + 16) (unat (n_count node))) (\<lambda>bs. Inr (Some bs))
     else if ScalarWidth (n_kind node) \<noteq> 4 \<and> ScalarWidth (n_kind node) \<noteq> 8 then Inr None
     else andThen (arena_bytes arena (n_start node + 8) (unat (ScalarWidth (n_kind node)))) (\<lambda>bs. Inr (Some bs)))"

text \<open>\<open>ArenaKeyReader\<close> has the members and the methods of \<open>VectorReader\<close>.\<close>

definition arena_key_reader :: "VectorReader KeyReader" where
  "arena_key_reader = \<lparr>kr_reset = vr_reset, kr_total = vr_total, kr_read = vr_read\<rparr>"

subsection \<open>Model: results of the serializer\<close>

definition serialized :: "(bool \<times> Buffer \<times> Unit) option \<Rightarrow> (Buffer \<times> Unit) res" where
  "serialized r = (case r of None \<Rightarrow> Inl Fault | Some (ok, buf, u) \<Rightarrow> if ok then Inr (buf, u) else Inl Refused)"

definition checked :: "'a option \<Rightarrow> 'a res" where
  "checked r = (case r of None \<Rightarrow> Inl Fault | Some x \<Rightarrow> Inr x)"

definition with_vector :: "(nat \<Rightarrow> bool) \<Rightarrow> u32 \<Rightarrow> 'a res \<Rightarrow> 'a res" where
  "with_vector alloc n r = (if alloc (unat n) then r else Inl NoMemory)"

subsection \<open>Model: arrays of scalars\<close>

primrec copy_scalars :: "u8 list \<Rightarrow> nat \<Rightarrow> nat \<Rightarrow> nat \<Rightarrow> Buffer \<Rightarrow> Buffer res" where
  "copy_scalars arena payload width 0 buf = Inr buf"
| "copy_scalars arena payload width (Suc n) buf =
    (let buf = Expand (width div 4) buf in
     andThen (arena_bytes arena (payload + n * width) width) (\<lambda>bs.
     andThen (checked (store (Head buf) (words_of bs) buf)) (\<lambda>buf.
     copy_scalars arena payload width n buf)))"

definition SerializeScalarArray :: "u8 list \<Rightarrow> NodeView \<Rightarrow> Buffer \<Rightarrow> Unit \<Rightarrow> (Buffer \<times> Unit) res" where
  "SerializeScalarArray arena node buf u =
    (let width = ScalarWidth (n_auxiliary node) in
     if width = 0 then Inl Refused
     else
       let byte_length = ucast width * ucast (n_count node) :: u64;
           padded_length = (byte_length + 3) AND NOT 3 in
       if unat padded_length \<noteq> payload_size node then Inl Refused
       else
         let payload = n_start node + 16 in
         if n_auxiliary node = kBool then
           andThen (arena_bytes arena payload (unat (n_count node))) (\<lambda>bs. serialized (Serialize_str bs buf u))
         else
           let width_words = width div 4 in
           if n_count node = 0 then andThen (checked (set_data [width_words] u)) (\<lambda>u. Inr (buf, u))
           else
             let lst = Size buf in
             andThen (copy_scalars arena payload (unat width) (unat (n_count node)) buf) (\<lambda>buf.
             andThen (checked (Put (push_bit 2 (n_count node) OR width_words) buf)) (\<lambda>buf.
             Inr (buf, Segment lst (Size buf)))))"

subsection \<open>Model: nested nodes\<close>

type_synonym node_serializer = "NodeView \<Rightarrow> Buffer \<Rightarrow> Unit \<Rightarrow> (Buffer \<times> Unit) res"

text \<open>The elements from the last to the first; the units are collected in the order of the elements.\<close>

fun serialize_elements :: "node_serializer \<Rightarrow> NodeView list \<Rightarrow> Unit list \<Rightarrow> Buffer \<Rightarrow> (Buffer \<times> Unit list) res" where
  "serialize_elements ser [] units buf = Inr (buf, units)"
| "serialize_elements ser (node # ns) units buf =
    andThen (ser node buf unit_init) (\<lambda>(buf, u). serialize_elements ser ns (u # units) buf)"

definition SerializeArrayNode :: "(nat \<Rightarrow> bool) \<Rightarrow> u8 list \<Rightarrow> node_serializer \<Rightarrow> node_serializer" where
  "SerializeArrayNode alloc arena ser node buf u =
    (if ScalarWidth (n_auxiliary node) \<noteq> 0 then SerializeScalarArray arena node buf u
     else with_vector alloc (n_count node)
       (andThen (parse_nodes arena (n_end node) (unat (n_count node)) (n_start node + 16)) (\<lambda>elements.
        let lst = Size buf in
        andThen (serialize_elements ser (rev elements) [] buf) (\<lambda>(buf, units).
        serialized (SerializeArray units buf lst u)))))"

primrec parse_fields :: "u8 list \<Rightarrow> nat \<Rightarrow> nat \<Rightarrow> nat \<Rightarrow> bool list \<Rightarrow> (u32 \<times> NodeView) list res" where
  "parse_fields arena limit 0 cursor occupied = (if cursor \<noteq> limit then Inl Refused else Inr [])"
| "parse_fields arena limit (Suc n) cursor occupied =
    (if cursor > limit \<or> limit - cursor < 4 then Inl Refused
     else andThen (Load32 arena cursor) (\<lambda>field_id.
       if unat field_id \<ge> length occupied \<or> occupied ! unat field_id then Inl Refused
       else andThen (ParseNode arena limit (cursor + 4)) (\<lambda>(node, cursor).
         andThen (parse_fields arena limit n cursor (occupied[unat field_id := True])) (\<lambda>flds.
         Inr ((field_id, node) # flds)))))"

fun serialize_fields :: "node_serializer \<Rightarrow> (u32 \<times> NodeView) list \<Rightarrow> Unit list \<Rightarrow> Buffer \<Rightarrow> (Buffer \<times> Unit list) res" where
  "serialize_fields ser [] units buf = Inr (buf, units)"
| "serialize_fields ser ((field_id, node) # flds) units buf =
    andThen (fetch units (unat field_id)) (\<lambda>u.
    andThen (ser node buf u) (\<lambda>(buf, u).
    andThen (checked (FoldField buf u)) (\<lambda>(buf, u).
    serialize_fields ser flds (units[unat field_id := u]) buf)))"

definition SerializeMessageNode :: "(nat \<Rightarrow> bool) \<Rightarrow> u8 list \<Rightarrow> node_serializer \<Rightarrow> node_serializer" where
  "SerializeMessageNode alloc arena ser node buf u =
    (if n_auxiliary node = 0 \<or> n_auxiliary node > 12 + 25 * 255 then Inl Refused
     else with_vector alloc (n_count node) (with_vector alloc (n_auxiliary node)
       (andThen (parse_fields arena (n_end node) (unat (n_count node)) (n_start node + 16) (replicate (unat (n_auxiliary node)) False)) (\<lambda>flds.
        let lst = Size buf in
        andThen (serialize_fields ser (rev flds) (replicate (unat (n_auxiliary node)) unit_init) buf) (\<lambda>(buf, units).
        serialized (SerializeMessage units buf lst u))))))"

subsection \<open>Model: maps\<close>

primrec parse_entries :: "u8 list \<Rightarrow> u32 \<Rightarrow> u32 \<Rightarrow> nat \<Rightarrow> nat \<Rightarrow> nat \<Rightarrow> (NodeView \<times> NodeView \<times> u8 list) list res" where
  "parse_entries arena key_kind value_kind limit 0 cursor = (if cursor \<noteq> limit then Inl Refused else Inr [])"
| "parse_entries arena key_kind value_kind limit (Suc n) cursor =
    andThen (ParseNode arena limit cursor) (\<lambda>(k, cursor).
    andThen (ParseNode arena limit cursor) (\<lambda>(v, cursor).
    if n_kind v \<noteq> value_kind then Inl Refused
    else andThen (KeyBytes arena k key_kind) (\<lambda>key.
      case key of
        None \<Rightarrow> Inl Refused
      | Some bs \<Rightarrow>
          andThen (parse_entries arena key_kind value_kind limit n cursor) (\<lambda>entries. Inr ((k, v, bs) # entries)))))"

text \<open>The slots of the keys; \<open>None\<close> marks a slot that is not occupied yet.\<close>

fun place_entries :: "PerfectHashObject \<Rightarrow> (NodeView \<times> NodeView \<times> u8 list) list \<Rightarrow> (NodeView \<times> NodeView) option list \<Rightarrow> (NodeView \<times> NodeView) option list res" where
  "place_entries po [] slots = Inr slots"
| "place_entries po ((k, v, bs) # entries) slots =
    andThen (checked (PerfectHashObject_Locate po bs)) (\<lambda>slot.
    if unat slot \<ge> length slots \<or> slots ! unat slot \<noteq> None then Inl Refused
    else place_entries po entries (slots[unat slot := Some (k, v)]))"

text \<open>
  The pairs from the last slot to the first.  A slot that no key has would hold the input 0; there is
  none, as there are as many keys as slots and each key has a slot of its own.
\<close>

fun serialize_pairs :: "node_serializer \<Rightarrow> (NodeView \<times> NodeView) option list \<Rightarrow> (Unit \<times> Unit) list \<Rightarrow> Buffer \<Rightarrow> (Buffer \<times> (Unit \<times> Unit) list) res" where
  "serialize_pairs ser [] units buf = Inr (buf, units)"
| "serialize_pairs ser (None # slots) units buf = Inl Fault"
| "serialize_pairs ser (Some (k, v) # slots) units buf =
    andThen (ser v buf unit_init) (\<lambda>(buf, uv).
    andThen (ser k buf unit_init) (\<lambda>(buf, uk).
    serialize_pairs ser slots ((uk, uv) # units) buf))"

definition SerializeMapNode :: "(nat \<Rightarrow> bool) \<Rightarrow> u8 list \<Rightarrow> u32 \<Rightarrow> (nat \<Rightarrow> nat \<Rightarrow> u32) \<Rightarrow> node_serializer \<Rightarrow> node_serializer" where
  "SerializeMapNode alloc arena gseed junk ser node buf u =
    with_vector alloc (n_count node)
      (andThen (parse_entries arena (n_auxiliary node AND 0xff) (drop_bit 8 (n_auxiliary node) AND 0xff) (n_end node)
          (unat (n_count node)) (n_start node + 16)) (\<lambda>entries.
       if entries = [] then serialized (SerializeMap [] [] buf (Size buf) u)
       else
         andThen (checked (PerfectHashObject_Build arena_key_reader gseed junk True \<lparr>vr_keys = map (\<lambda>(k, v, bs). bs) entries, vr_idx = 0\<rparr>)) (\<lambda>(po, r).
         case ph_data po of
           None \<Rightarrow> Inl Refused
         | Some index \<Rightarrow>
             andThen (place_entries po entries (replicate (unat (n_count node)) None)) (\<lambda>slots.
             let lst = Size buf in
             andThen (serialize_pairs ser (rev slots) [] buf) (\<lambda>(buf, units).
             serialized (SerializeMap index units buf lst u))))))"

subsection \<open>Model: all nodes\<close>

definition padded :: "u32 \<Rightarrow> u64" where
  "padded count = (ucast count + 3) AND NOT 3"

text \<open>\<open>NodeScalar\<close> of a type of 4 or 8 bytes, as its words.\<close>

definition NodeScalar :: "u8 list \<Rightarrow> NodeView \<Rightarrow> nat \<Rightarrow> u32 list res" where
  "NodeScalar arena node width = andThen (arena_bytes arena (n_start node + 8) width) (\<lambda>bs. Inr (words_of bs))"

primrec SerializeNode :: "(nat \<Rightarrow> bool) \<Rightarrow> u8 list \<Rightarrow> u32 \<Rightarrow> (nat \<Rightarrow> nat \<Rightarrow> u32) \<Rightarrow> nat \<Rightarrow> node_serializer" where
  "SerializeNode alloc arena gseed junk 0 = (\<lambda>node buf u. Inl Unfinished)"
| "SerializeNode alloc arena gseed junk (Suc n) = (\<lambda>node buf u.
    let kind = n_kind node in
    if kind = kNone then Inr (buf, unit_init)
    else if kind = kMessage then SerializeMessageNode alloc arena (SerializeNode alloc arena gseed junk n) node buf u
    else if kind = kArray then SerializeArrayNode alloc arena (SerializeNode alloc arena gseed junk n) node buf u
    else if kind = kMap then SerializeMapNode alloc arena gseed junk (SerializeNode alloc arena gseed junk n) node buf u
    else if kind = kBytes \<or> kind = kString then
      if unat (padded (n_count node)) \<noteq> payload_size node then Inl Refused
      else andThen (arena_bytes arena (n_start node + 16) (unat (n_count node))) (\<lambda>bs. serialized (Serialize_str bs buf u))
    else if kind = kF64 \<or> kind = kU64 \<or> kind = kI64 then
      andThen (NodeScalar arena node 8) (\<lambda>ws. andThen (checked (Serialize_scalar ws u)) (\<lambda>u. Inr (buf, u)))
    else if kind = kF32 \<or> kind = kU32 \<or> kind = kI32 \<or> kind = kEnum then
      andThen (NodeScalar arena node 4) (\<lambda>ws. andThen (checked (Serialize_scalar ws u)) (\<lambda>u. Inr (buf, u)))
    else if kind = kBool then
      andThen (Load32 arena (n_start node + 8)) (\<lambda>w. andThen (checked (Serialize_bool (w \<noteq> 0) u)) (\<lambda>u. Inr (buf, u)))
    else Inl Refused)"

subsection \<open>Model: exported functions\<close>

record ArenaState =
  g_arena :: "u8 list"
  g_output :: Buffer

definition kInitialArenaCapacity :: u32 where "kInitialArenaCapacity = 64 * 1024"

definition kMaximumArenaCapacity :: u32 where "kMaximumArenaCapacity = push_bit 30 1"

definition initial_arena :: "Buffer \<Rightarrow> ArenaState" where
  "initial_arena b = \<lparr>g_arena = replicate (unat kInitialArenaCapacity) 0, g_output = b\<rparr>"

definition pc_arena_capacity :: "ArenaState \<Rightarrow> u32" where
  "pc_arena_capacity s = of_nat (length (g_arena s))"

primrec arena_capacity_loop :: "nat \<Rightarrow> u32 \<Rightarrow> u32 \<Rightarrow> u32 option" where
  "arena_capacity_loop 0 minimum capacity = None"
| "arena_capacity_loop (Suc n) minimum capacity =
    (if capacity < minimum then
       if capacity \<ge> kMaximumArenaCapacity div 2 then Some minimum
       else arena_capacity_loop n minimum (capacity * 2)
     else Some capacity)"

definition pc_arena_reserve :: "(nat \<Rightarrow> bool) \<Rightarrow> u32 \<Rightarrow> ArenaState \<Rightarrow> (bool \<times> ArenaState) option" where
  "pc_arena_reserve alloc minimum s =
    (if minimum = 0 \<or> minimum \<ge> kMaximumArenaCapacity then Some (False, s)
     else if unat minimum \<le> length (g_arena s) then Some (True, s)
     else do {
       capacity \<leftarrow> arena_capacity_loop 33 minimum (of_nat (length (g_arena s)));
       Some (if alloc (unat capacity)
         then (True, s\<lparr>g_arena := take (unat capacity) (g_arena s) @ replicate (unat capacity - length (g_arena s)) 0\<rparr>)
         else (False, s))
     })"

text \<open>
  The fuel is more than the depth of any tree of nodes in \<open>len\<close> bytes.  After a refused call the output
  is left as the serializer had it when it stopped: the argument \<open>stopped\<close> is that buffer, on which
  nothing is assumed, as the next call clears it.
\<close>

definition arena_fuel :: "u32 \<Rightarrow> nat" where
  "arena_fuel len = unat len div 16 + 1"

definition pc_arena_serialize :: "(nat \<Rightarrow> bool) \<Rightarrow> u32 \<Rightarrow> (nat \<Rightarrow> nat \<Rightarrow> u32) \<Rightarrow> Buffer \<Rightarrow> Decoder \<Rightarrow> u32 \<Rightarrow> bool \<Rightarrow> u32 \<Rightarrow> ArenaState \<Rightarrow> (u32 \<times> ArenaState) option" where
  "pc_arena_serialize alloc gseed junk stopped d handle is_arena len s =
    (if \<not> is_arena \<or> len = 0 \<or> unat len > length (g_arena s) then Some (0, s)
     else
       case ParseNode (g_arena s) (unat len) 0 of
         Inr (root, cursor) \<Rightarrow> do {
           kind \<leftarrow> pc_decode_schema_kind d handle;
           if cursor \<noteq> unat len \<or> n_kind root \<noteq> kind then Some (0, s)
           else
             let out = Clear (g_output s) in
             case SerializeNode alloc (g_arena s) gseed junk (arena_fuel len) root out unit_init of
               Inr (out, u) \<Rightarrow>
                 if u_len u \<noteq> 0 \<and> Size out \<noteq> 0 then Some (0, s\<lparr>g_output := out\<rparr>)
                 else do {
                   out \<leftarrow> (if u_len u \<noteq> 0 then do { ws \<leftarrow> rd_range (u_data u) 0 (u_len u); Put_slice ws out } else Some out);
                   Some (if Size out > 0xffffffff div 4 then 0 else of_nat (Size out * 4), s\<lparr>g_output := out\<rparr>)
                 }
             | Inl Fault \<Rightarrow> None
             | Inl Unfinished \<Rightarrow> None
             | Inl _ \<Rightarrow> Some (0, s\<lparr>g_output := stopped\<rparr>)
         }
       | Inl Fault \<Rightarrow> None
       | Inl Unfinished \<Rightarrow> None
       | Inl _ \<Rightarrow> Some (0, s))"

definition pc_arena_output :: "ArenaState \<Rightarrow> u32 list" where
  "pc_arena_output s = View (g_output s)"

end
