(* ===== verification/ArenaSafe.thy ===== *)
theory ArenaSafe
  imports Arena SerialMap DecodeSafe
begin

text \<open>
  The arena serializer on arbitrary bytes: parsing stays inside of the arena, and the walk over the
  nodes always ends, as a nested node lies inside of its parent.  The keys of a map get slots of their
  own, in which the pairs are in the order that the map view expects.
\<close>

subsection \<open>Parsing\<close>

definition node_in :: "nat \<Rightarrow> nat \<Rightarrow> NodeView \<Rightarrow> bool" where
  "node_in lo hi node \<longleftrightarrow> lo \<le> n_start node \<and> n_start node + 16 \<le> n_end node \<and> n_end node \<le> hi"

lemma node_in_mono: "node_in lo hi node \<Longrightarrow> lo' \<le> lo \<Longrightarrow> hi \<le> hi' \<Longrightarrow> node_in lo' hi' node"
  by (simp add: node_in_def)

lemma Load32_fine: "p + 4 \<le> length bs \<Longrightarrow> fine (Load32 bs p) (\<lambda>_. True)"
  by (simp add: Load32_def load32_def)

lemma ParseNode_fine:
  assumes "limit \<le> length arena"
  shows "fine (ParseNode arena limit cursor) (\<lambda>(node, c). node_in cursor limit node \<and> n_end node = c)"
proof (cases "cursor > limit \<or> limit - cursor < 16")
  case False
  then have r: "cursor + 16 \<le> length arena" "cursor + 16 \<le> limit" using assms by auto
  have sz: "fine (if kind \<noteq> kNone \<and> \<not> IsScalar kind then
            andThen (Load32 arena (cursor + 12)) (\<lambda>sz.
            if sz < 16 \<or> sz AND 3 \<noteq> 0 \<or> limit - cursor < unat sz then Inl Refused else Inr sz)
          else if kind \<noteq> kNone \<and> ScalarWidth kind = 0 then Inl Refused
          else Inr 16) (\<lambda>sz. 16 \<le> unat sz \<and> cursor + unat sz \<le> limit)" for kind
    by (intro fine_if fine_andThen [OF Load32_fine]) (use r in \<open>auto simp: word_less_nat_alt\<close>)
  show ?thesis unfolding ParseNode_def if_not_P [OF False]
    by (intro fine_andThen [OF Load32_fine] fine_andThen [OF sz]) (use r in \<open>auto simp: node_in_def\<close>)
qed (simp add: ParseNode_def)

lemma parse_nodes_fine:
  assumes "limit \<le> length arena"
  shows "fine (parse_nodes arena limit n cursor) (\<lambda>ns. length ns = n \<and> (\<forall>node\<in>set ns. node_in cursor limit node))"
proof (induction n arbitrary: cursor)
  case (Suc n)
  have "fine (andThen (parse_nodes arena limit n c) (\<lambda>ns. Inr (node # ns)))
      (\<lambda>ns. length ns = Suc n \<and> (\<forall>node\<in>set ns. node_in cursor limit node))" if "node_in cursor limit node \<and> n_end node = c" for node c
    by (rule fine_andThen [OF Suc]) (use that in \<open>auto simp: node_in_def\<close>)
  then show ?case unfolding parse_nodes.simps by (intro fine_andThen [OF ParseNode_fine [OF assms]]) auto
qed simp

lemma parse_fields_fine:
  assumes "limit \<le> length arena"
  shows "fine (parse_fields arena limit n cursor occupied)
    (\<lambda>fs. length fs = n \<and> distinct (map fst fs) \<and> (\<forall>(fid, node)\<in>set fs. node_in cursor limit node \<and> unat fid < length occupied \<and> \<not> occupied ! unat fid))"
proof (induction n arbitrary: cursor occupied)
  case (Suc n)
  have step: "fine (andThen (parse_fields arena limit n c (occupied[unat fid := True])) (\<lambda>fs. Inr ((fid, node) # fs)))
      (\<lambda>fs. length fs = Suc n \<and> distinct (map fst fs) \<and> (\<forall>(fid, node)\<in>set fs. node_in cursor limit node \<and> unat fid < length occupied \<and> \<not> occupied ! unat fid))"
    if "node_in (cursor + 4) limit node \<and> n_end node = c" "\<not> (unat fid \<ge> length occupied \<or> occupied ! unat fid)" for node c fid
    by (rule fine_andThen [OF Suc]) (use that in \<open>fastforce simp: node_in_def nth_list_update split: if_splits\<close>)
  show ?case unfolding parse_fields.simps
    by (intro fine_if [OF fine_simps(1)] fine_andThen [OF Load32_fine] fine_andThen [OF ParseNode_fine [OF assms]])
      (use assms step in auto)
qed simp

lemma arena_bytes_fine: "p + n \<le> length arena \<Longrightarrow> fine (arena_bytes arena p n) (\<lambda>bs. bs = take n (drop p arena))"
  by (simp add: arena_bytes_def)

lemma ScalarWidth_values: "ScalarWidth kind \<in> {0, 1, 4, 8}"
  by (simp add: ScalarWidth_def)

lemma KeyBytes_fine:
  assumes "node_in lo (length arena) node"
  shows "fine (KeyBytes arena node kind) (\<lambda>_. True)"
proof -
  have w: "unat (ScalarWidth (n_kind node)) \<le> 8" using ScalarWidth_values [of "n_kind node"] by auto
  show ?thesis unfolding KeyBytes_def
    by (intro fine_if fine_andThen [OF arena_bytes_fine]) (use assms w in \<open>auto simp: node_in_def payload_size_def\<close>)
qed

lemma parse_entries_fine:
  assumes "limit \<le> length arena"
  shows "fine (parse_entries arena kk vk limit n cursor)
    (\<lambda>es. length es = n \<and> (\<forall>(k, v, bs)\<in>set es. node_in cursor limit k \<and> node_in cursor limit v \<and> n_kind v = vk))"
proof (induction n arbitrary: cursor)
  case (Suc n)
  let ?Q = "\<lambda>es. length es = Suc n \<and> (\<forall>(k, v, bs)\<in>set es. node_in cursor limit k \<and> node_in cursor limit v \<and> n_kind v = vk)"
  have rest: "fine (andThen (KeyBytes arena k kk) (\<lambda>key. case key of None \<Rightarrow> Inl Refused | Some bs \<Rightarrow>
      andThen (parse_entries arena kk vk limit n c) (\<lambda>es. Inr ((k, v, bs) # es)))) ?Q"
    if k: "node_in cursor limit k" "node_in cursor limit v" "cursor \<le> c" "n_kind v = vk" for k v c
  proof -
    have "fine (andThen (parse_entries arena kk vk limit n c) (\<lambda>es. Inr ((k, v, bs) # es))) ?Q" for bs
      by (rule fine_andThen [OF Suc]) (use k in \<open>fastforce simp: node_in_def\<close>)
    moreover have "node_in cursor (length arena) k" using k(1) assms by (auto intro: node_in_mono)
    ultimately show ?thesis by (intro fine_andThen [OF KeyBytes_fine]) (auto split: option.splits)
  qed
  have snd: "fine (if n_kind v \<noteq> vk then Inl Refused else andThen (KeyBytes arena k kk) (\<lambda>key. case key of None \<Rightarrow> Inl Refused | Some bs \<Rightarrow>
      andThen (parse_entries arena kk vk limit n c2) (\<lambda>es. Inr ((k, v, bs) # es)))) ?Q"
    if "node_in cursor limit k \<and> n_end k = c1" "node_in c1 limit v \<and> n_end v = c2" for k v c1 c2
    by (intro fine_if [OF fine_simps(1)] rest) (use that in \<open>auto simp: node_in_def\<close>)
  have fst: "fine (andThen (ParseNode arena limit c1) (\<lambda>(v, cursor). if n_kind v \<noteq> vk then Inl Refused else andThen (KeyBytes arena k kk) (\<lambda>key. case key of None \<Rightarrow> Inl Refused | Some bs \<Rightarrow>
      andThen (parse_entries arena kk vk limit n cursor) (\<lambda>es. Inr ((k, v, bs) # es))))) ?Q"
    if "node_in cursor limit k \<and> n_end k = c1" for k c1
    by (rule fine_andThen [OF ParseNode_fine [OF assms]]) (use snd [OF that] in auto)
  show ?case unfolding parse_entries.simps
    by (rule fine_andThen [OF ParseNode_fine [OF assms]]) (use fst in auto)
qed simp

subsection \<open>The walk ends\<close>

definition ends :: "'a res \<Rightarrow> ('a \<Rightarrow> bool) \<Rightarrow> bool" where
  "ends m Q = (case m of Inl e \<Rightarrow> e \<noteq> Unfinished | Inr x \<Rightarrow> Q x)"

lemma ends_simps [simp]: "ends (Inl e) Q \<longleftrightarrow> e \<noteq> Unfinished" "ends (Inr x) Q \<longleftrightarrow> Q x"
  by (simp_all add: ends_def)

lemma fine_ends: "fine m Q \<Longrightarrow> ends m Q"
  by (auto simp: fine_def ends_def split: sum.splits)

lemma ends_andThen: "ends m P \<Longrightarrow> (\<And>x. P x \<Longrightarrow> ends (f x) Q) \<Longrightarrow> ends (andThen m f) Q"
  by (cases m) (auto simp: ends_def)

lemma ends_if: "(b \<Longrightarrow> ends m Q) \<Longrightarrow> (\<not> b \<Longrightarrow> ends n Q) \<Longrightarrow> ends (if b then m else n) Q"
  by simp

lemma ends_results [simp]: "ends (serialized r) (\<lambda>_. True)" "ends (checked x) (\<lambda>_. True)" "ends (fetch xs i) (\<lambda>_. True)"
    "ends (arena_bytes arena p n) (\<lambda>_. True)" "ends (Load32 arena p) (\<lambda>_. True)"
  by (auto simp: serialized_def checked_def fetch_def arena_bytes_def Load32_def split: option.splits)

lemma ends_with_vector: "ends r Q \<Longrightarrow> ends (with_vector alloc n r) Q"
  by (simp add: with_vector_def)

lemma copy_scalars_ends: "ends (copy_scalars arena pay w n buf) (\<lambda>_. True)"
  by (induction n arbitrary: buf) (auto simp: Let_def intro!: ends_andThen [OF ends_results(4)] ends_andThen [OF ends_results(2)])

lemma SerializeScalarArray_ends: "ends (SerializeScalarArray arena node buf u) (\<lambda>_. True)"
  unfolding SerializeScalarArray_def Let_def
  by (intro ends_if ends_andThen [OF ends_results(4)] ends_andThen [OF ends_results(2)] ends_andThen [OF copy_scalars_ends]) simp_all

definition node_ends :: "node_serializer \<Rightarrow> NodeView \<Rightarrow> bool" where
  "node_ends ser node \<longleftrightarrow> (\<forall>buf u. ends (ser node buf u) (\<lambda>_. True))"

lemma node_endsD: "node_ends ser node \<Longrightarrow> ends (ser node buf u) (\<lambda>_. True)"
  by (simp add: node_ends_def)

lemma serialize_elements_ends: "\<forall>node\<in>set ns. node_ends ser node \<Longrightarrow> ends (serialize_elements ser ns units buf) (\<lambda>_. True)"
  by (induction ns arbitrary: units buf) (auto intro!: ends_andThen [OF node_endsD])

lemma serialize_fields_ends: "\<forall>(fid, node)\<in>set fs. node_ends ser node \<Longrightarrow> ends (serialize_fields ser fs units buf) (\<lambda>_. True)"
  by (induction ser fs units buf rule: serialize_fields.induct)
    (auto intro!: ends_andThen [OF ends_results(3)] ends_andThen [OF node_endsD] ends_andThen [OF ends_results(2)])

definition slots_in :: "(NodeView \<Rightarrow> bool) \<Rightarrow> (NodeView \<times> NodeView) option list \<Rightarrow> bool" where
  "slots_in P slots \<longleftrightarrow> (\<forall>k v. Some (k, v) \<in> set slots \<longrightarrow> P k \<and> P v)"

lemma place_entries_ends:
  "slots_in P slots \<Longrightarrow> \<forall>(k, v, bs)\<in>set es. P k \<and> P v \<Longrightarrow> ends (place_entries po es slots) (slots_in P)"
proof (induction po es slots rule: place_entries.induct)
  case (2 po k v bs es slots)
  show ?case unfolding place_entries.simps
  proof (rule ends_andThen [OF ends_results(2)], rule ends_if)
    fix slot :: u32 assume s: "\<not> (unat slot \<ge> length slots \<or> slots ! unat slot \<noteq> None)"
    have "slots_in P (slots[unat slot := Some (k, v)])" using 2(2,3) set_update_subset_insert [of slots "unat slot" "Some (k, v)"]
      by (fastforce simp: slots_in_def)
    then show "ends (place_entries po es (slots[unat slot := Some (k, v)])) (slots_in P)" using 2(1) [OF s] 2(3) by simp
  qed simp
qed simp

lemma serialize_pairs_ends: "slots_in (node_ends ser) slots \<Longrightarrow> ends (serialize_pairs ser slots units buf) (\<lambda>_. True)"
proof (induction ser slots units buf rule: serialize_pairs.induct)
  case (3 ser k v slots units buf)
  then have "node_ends ser k" "node_ends ser v" "slots_in (node_ends ser) slots" by (auto simp: slots_in_def)
  then show ?case using 3(1) by (auto intro!: ends_andThen [OF node_endsD])
qed simp_all

text \<open>A node below a node that ends at a given place of the arena.\<close>

lemma SerializeMapNode_ends:
  assumes "n_end node \<le> length arena" and "\<And>x. node_in (n_start node + 16) (n_end node) x \<Longrightarrow> node_ends ser x"
  shows "ends (SerializeMapNode alloc arena gseed junk ser node buf u) (\<lambda>_. True)"
proof -
  have pairs: "ends (andThen (place_entries po es (replicate m None)) (\<lambda>slots. let lst = Size buf in
      andThen (serialize_pairs ser (rev slots) [] buf) (\<lambda>(buf, units). serialized (SerializeMap index units buf lst u)))) (\<lambda>_. True)"
    if "\<forall>(k, v, bs)\<in>set es. node_in (n_start node + 16) (n_end node) k \<and> node_in (n_start node + 16) (n_end node) v \<and> n_kind v = vk" for po es m index vk
  proof (rule ends_andThen [OF place_entries_ends [where P = "node_ends ser"]])
    fix slots assume "slots_in (node_ends ser) slots"
    then have "slots_in (node_ends ser) (rev slots)" by (simp add: slots_in_def)
    then show "ends (let lst = Size buf in andThen (serialize_pairs ser (rev slots) [] buf)
        (\<lambda>(buf, units). serialized (SerializeMap index units buf lst u))) (\<lambda>_. True)"
      unfolding Let_def by (intro ends_andThen [OF serialize_pairs_ends]) auto
  qed (use that assms(2) in \<open>auto simp: slots_in_def\<close>)
  show ?thesis unfolding SerializeMapNode_def
    by (intro ends_with_vector ends_andThen [OF fine_ends [OF parse_entries_fine [OF assms(1)]]] ends_if ends_andThen [OF ends_results(2)])
      (use pairs in \<open>auto split: option.splits\<close>)
qed

lemma SerializeArrayNode_ends:
  assumes "n_end node \<le> length arena" and "\<And>x. node_in (n_start node + 16) (n_end node) x \<Longrightarrow> node_ends ser x"
  shows "ends (SerializeArrayNode alloc arena ser node buf u) (\<lambda>_. True)"
  unfolding SerializeArrayNode_def Let_def
  by (intro ends_if SerializeScalarArray_ends ends_with_vector ends_andThen [OF fine_ends [OF parse_nodes_fine [OF assms(1)]]]
      ends_andThen [OF serialize_elements_ends]) (use assms(2) in auto)

lemma SerializeMessageNode_ends:
  assumes "n_end node \<le> length arena" and "\<And>x. node_in (n_start node + 16) (n_end node) x \<Longrightarrow> node_ends ser x"
  shows "ends (SerializeMessageNode alloc arena ser node buf u) (\<lambda>_. True)"
  unfolding SerializeMessageNode_def Let_def
  by (intro ends_if ends_with_vector ends_andThen [OF fine_ends [OF parse_fields_fine [OF assms(1)]]]
      ends_andThen [OF serialize_fields_ends]) (use assms(2) in auto)

lemma SerializeNode_ends:
  "n_end node \<le> length arena \<Longrightarrow> n_end node - n_start node < 16 * n \<Longrightarrow> node_ends (SerializeNode alloc arena gseed junk n) node"
proof (induction n arbitrary: node)
  case (Suc n)
  have c: "node_ends (SerializeNode alloc arena gseed junk n) x" if "node_in (n_start node + 16) (n_end node) x" for x
    using that Suc.prems by (intro Suc.IH) (auto simp: node_in_def)
  show ?case unfolding node_ends_def SerializeNode.simps Let_def NodeScalar_def
    by (intro allI ends_if SerializeMessageNode_ends SerializeArrayNode_ends SerializeMapNode_ends Suc.prems(1) c
        ends_andThen [OF ends_andThen [OF ends_results(4)]] ends_andThen [OF ends_results(4)] ends_andThen [OF ends_results(5)] ends_andThen [OF ends_results(2)])
      auto
qed simp

subsection \<open>The capacity of the arena\<close>

definition arena_ok :: "ArenaState \<Rightarrow> bool" where
  "arena_ok s \<longleftrightarrow> unat kInitialArenaCapacity \<le> length (g_arena s) \<and> length (g_arena s) < unat kMaximumArenaCapacity"

lemma maximum: "kMaximumArenaCapacity = 2 ^ 30" "kMaximumArenaCapacity div 2 = 2 ^ 29"
  by (simp_all add: kMaximumArenaCapacity_def)

lemma arena_capacity_loop_ends:
  assumes "unat c < 2 ^ 30" "unat m < 2 ^ 30" "2 ^ 29 \<le> unat c * 2 ^ n"
  shows "\<exists>r. arena_capacity_loop (Suc n) m c = Some r \<and> m \<le> r \<and> c \<le> r \<and> unat r < 2 ^ 30"
  using assms
proof (induction n arbitrary: c)
  case (Suc n)
  show ?case
  proof (cases "c < m \<and> c < kMaximumArenaCapacity div 2")
    case True
    then have "unat c < 2 ^ 29" by (simp add: maximum word_less_nat_alt)
    then have d: "unat (c * 2) = unat c * 2" by (simp add: unat_word_ariths)
    have "\<exists>r. arena_capacity_loop (Suc n) m (c * 2) = Some r \<and> m \<le> r \<and> c * 2 \<le> r \<and> unat r < 2 ^ 30"
      by (rule Suc.IH) (use d Suc.prems \<open>unat c < 2 ^ 29\<close> in auto)
    then obtain r where "arena_capacity_loop (Suc n) m (c * 2) = Some r" "m \<le> r" "c * 2 \<le> r" "unat r < 2 ^ 30" by blast
    moreover have "c \<le> r" using \<open>c * 2 \<le> r\<close> d by (simp add: word_le_nat_alt)
    ultimately show ?thesis using True by (intro exI [of _ r]) (simp only: arena_capacity_loop.simps(2) [of "Suc n"] not_le [symmetric] if_True, simp)
  next
    case False
    then show ?thesis using Suc.prems by (auto simp: not_less)
  qed
qed (simp add: maximum word_le_nat_alt word_less_nat_alt not_less)

subsection \<open>An array whose elements are not of its kind\<close>

text \<open>
  The array node of kind \<open>string\<close> with three empty strings and a \<open>double\<close>, and its first 16 bytes.
\<close>

definition string_node :: "u8 list" where
  "string_node = [3, 0, 0, 0,  0, 0, 0, 0,  0, 0, 0, 0,  16, 0, 0, 0]"

definition mixed_array :: "u8 list" where
  "mixed_array = [20, 0, 0, 0,  3, 0, 0, 0,  4, 0, 0, 0,  80, 0, 0, 0] @ string_node @ string_node @ string_node @
    [4, 0, 0, 0,  0, 0, 0, 0,  0, 0, 0, 0,  0, 0, 240, 63]"

definition view_at :: "nat \<Rightarrow> nat \<Rightarrow> u32 \<Rightarrow> u32 \<Rightarrow> u32 \<Rightarrow> NodeView" where
  "view_at a b kind auxiliary count = \<lparr>n_start = a, n_end = b, n_kind = kind, n_auxiliary = auxiliary, n_count = count\<rparr>"

lemma length_mixed: "length mixed_array = 80"
  by (simp add: mixed_array_def string_node_def)

lemma mixed_nodes:
  "ParseNode mixed_array 80 0 = Inr (view_at 0 80 20 3 4, 80)"
  "parse_nodes mixed_array 80 4 16 = Inr [view_at 16 32 3 0 0, view_at 32 48 3 0 0, view_at 48 64 3 0 0, view_at 64 80 4 0 0]"
  by code_simp+

lemma empty_string_node: "SerializeNode alloc mixed_array gseed junk (Suc n) (view_at a (a + 16) 3 0 0) buf unit_init = Inr (buf, unit_word 0)"
  if "a + 16 \<le> 80"
proof -
  have h: "WriteVarInt 0 = [0]" by code_simp
  show ?thesis using that
    by (simp add: view_at_def Let_def kNone_def kMessage_def kArray_def kMap_def kString_def kBytes_def padded_def payload_size_def
      arena_bytes_def length_mixed Serialize_str_def serialized_def h WordSize_def unit_init_def fill_bytes_def mem_bytes_def set_data_def unit_word_def)
qed

lemma string_nodes:
  "SerializeNode alloc mixed_array gseed junk (Suc n) (view_at 16 32 3 0 0) buf unit_init = Inr (buf, unit_word 0)"
  "SerializeNode alloc mixed_array gseed junk (Suc n) (view_at 32 48 3 0 0) buf unit_init = Inr (buf, unit_word 0)"
  "SerializeNode alloc mixed_array gseed junk (Suc n) (view_at 48 64 3 0 0) buf unit_init = Inr (buf, unit_word 0)"
  using empty_string_node [of 16] empty_string_node [of 32] empty_string_node [of 48] by (simp_all del: SerializeNode.simps)

lemma double_node: "SerializeNode alloc mixed_array gseed junk (Suc n) (view_at 64 80 4 0 0) buf unit_init = Inr (buf, \<lparr>u_len = 2, u_data = [0, 0x3ff00000, 0]\<rparr>)"
proof -
  have "words_of (take 8 (drop 72 mixed_array)) = [0, 0x3ff00000]" by code_simp
  then show ?thesis
    by (simp add: view_at_def Let_def kNone_def kMessage_def kArray_def kMap_def kString_def kBytes_def kF64_def NodeScalar_def
      arena_bytes_def length_mixed checked_def Serialize_scalar_def unit_init_def set_data_def)
qed

lemma wide_mark: "Mark \<lparr>u_len = 2, u_data = [0, 0x3ff00000, 0]\<rparr> (Shrink 0 (empty_buffer j)) 1 = None"
  by (simp add: Mark_def Shrink_def empty_buffer_def Expand_def DoExpand_def Head_def store_def wr_range_def cells_def Let_def)

lemma mixed_overflow: "SerializeArray [unit_word 0, unit_word 0, unit_word 0, \<lparr>u_len = 2, u_data = [0, 0x3ff00000, 0]\<rparr>] (empty_buffer j) 0 u = None"
proof -
  let ?us = "[unit_word 0, unit_word 0, unit_word 0, \<lparr>u_len = 2, u_data = [0, 0x3ff00000, 0]\<rparr>]"
  have b: "BestArraySize ?us = (6, 1)" by (simp add: BestArraySize_def Let_def)
  have p: "pick_loop 1 (rev ?us) (empty_buffer j) t = Some (rev ?us, empty_buffer j, t)" for t by (simp add: Pick_def)
  have h: "buf_at (empty_buffer j) 0 = Some 0" "Head (empty_buffer j) = 0" by (simp_all add: buf_at_def At_def Head_def empty_buffer_def)
  show ?thesis unfolding SerializeArray_def b prod.case p h Let_def by (simp add: h wide_mark [simplified])
qed

subsection \<open>Properties\<close>

lemma fuel_enough: "n \<le> unat len \<Longrightarrow> n < 16 * arena_fuel len"
  using div_mult_mod_eq [of "unat len" 16] mod_less_divisor [of 16 "unat len"] by (simp add: arena_fuel_def)

text \<open>
  Claim C31: the recursive walk over the nodes always ends: a root node that was parsed from the first
  \<open>len\<close> bytes of the arena is never left unfinished with the fuel of \<open>pc_arena_serialize\<close>, whatever the
  bytes say about kinds, counts and sizes.
\<close>

theorem arena_walk_terminates:
  assumes "ParseNode arena (unat len) 0 = Inr (root, cursor)" "unat len \<le> length arena"
  shows "SerializeNode alloc arena gseed junk (arena_fuel len) root buf u \<noteq> Inl Unfinished"
proof -
  have "node_in 0 (unat len) root" using ParseNode_fine [OF assms(2), of 0] assms(1) by simp
  then have "node_ends (SerializeNode alloc arena gseed junk (arena_fuel len)) root"
    by (intro SerializeNode_ends fuel_enough) (use assms(2) in \<open>auto simp: node_in_def\<close>)
  from node_endsD [OF this, of buf u] show ?thesis by (auto simp: ends_def split: sum.splits)
qed

text \<open>
  Parsing arbitrary bytes never reads outside of the arena, for each of the loops that parse
  the children of a node; and the children that it accepts lie between the cursor and the end of their
  parent.  The fields of a message have different numbers below the declared bound, and the values of a
  map have the declared kind.
\<close>

theorem arena_parse_safe:
  assumes "limit \<le> length arena"
  shows "fine (ParseNode arena limit cursor) (\<lambda>(node, c). node_in cursor limit node \<and> n_end node = c) \<and>
    fine (parse_nodes arena limit n cursor) (\<lambda>ns. length ns = n \<and> (\<forall>node\<in>set ns. node_in cursor limit node)) \<and>
    fine (parse_fields arena limit n cursor (replicate m False))
      (\<lambda>fs. length fs = n \<and> distinct (map fst fs) \<and> (\<forall>(fid, node)\<in>set fs. node_in cursor limit node \<and> unat fid < m)) \<and>
    fine (parse_entries arena kk vk limit n cursor)
      (\<lambda>es. length es = n \<and> (\<forall>(k, v, bs)\<in>set es. node_in cursor limit k \<and> node_in cursor limit v \<and> n_kind v = vk))"
proof (intro conjI)
  show "fine (parse_fields arena limit n cursor (replicate m False))
      (\<lambda>fs. length fs = n \<and> distinct (map fst fs) \<and> (\<forall>(fid, node)\<in>set fs. node_in cursor limit node \<and> unat fid < m))"
    by (rule fine_mono [OF parse_fields_fine [OF assms]]) auto
qed (rule ParseNode_fine parse_nodes_fine parse_entries_fine, fact assms)+

lemma filter_fill:
  "i < length xs \<Longrightarrow> xs ! i = None \<Longrightarrow> length (filter (\<lambda>s. s = None) xs) = Suc (length (filter (\<lambda>s. s = None) (xs[i := Some x])))"
  by (induction xs arbitrary: i) (auto simp: nth_Cons split: nat.splits)

lemma place_entries_slots:
  "place_entries po es slots = Inr slots' \<Longrightarrow> length slots' = length slots \<and>
    (\<forall>i x. i < length slots \<longrightarrow> slots ! i = Some x \<longrightarrow> slots' ! i = Some x) \<and>
    (\<forall>(k, v, bs)\<in>set es. \<exists>slot. PerfectHashObject_Locate po bs = Some slot \<and> unat slot < length slots \<and> slots' ! unat slot = Some (k, v)) \<and>
    length (filter (\<lambda>s. s = None) slots) = length (filter (\<lambda>s. s = None) slots') + length es"
proof (induction po es slots rule: place_entries.induct)
  case (2 po k v bs es slots)
  obtain slot where l: "PerfectHashObject_Locate po bs = Some slot" and s: "\<not> (unat slot \<ge> length slots \<or> slots ! unat slot \<noteq> None)"
    and r: "place_entries po es (slots[unat slot := Some (k, v)]) = Inr slots'"
    using 2(2) by (auto simp: checked_def split: option.splits if_splits)
  note IH = 2(1) [OF s r]
  have n: "length (filter (\<lambda>s. s = None) slots) = Suc (length (filter (\<lambda>s. s = None) (slots[unat slot := Some (k, v)])))"
    by (rule filter_fill) (use s not_le in blast)+
  have "slots' ! unat slot = Some (k, v)" using IH s by simp
  moreover have "slots' ! i = Some x" if "i < length slots" "slots ! i = Some x" for i x
    using IH s that by (cases x, cases "i = unat slot") auto
  ultimately show ?case using IH l s n by auto
qed simp

text \<open>
  When the entries of a map are placed, every entry is in the slot at which the perfect hash
  locates its key, and with as many slots as entries none is left empty: the pairs are serialized in the
  order in which the view of the map expects them, and each of them once.
\<close>

theorem arena_map_order:
  assumes "place_entries po es (replicate (length es) None) = Inr slots"
  shows "length slots = length es \<and> None \<notin> set slots \<and>
    (\<forall>(k, v, bs)\<in>set es. \<exists>slot. PerfectHashObject_Locate po bs = Some slot \<and> unat slot < length es \<and> slots ! unat slot = Some (k, v))"
proof -
  note p = place_entries_slots [OF assms]
  then have "filter (\<lambda>s. s = None) slots = []" by simp
  then show ?thesis using p by (auto simp: filter_empty_conv)
qed

text \<open>
  Claim C32: an arena of at least the initial capacity can be reserved for any size: the loop that
  doubles the capacity ends, the bytes written so far stay, and the capacity is at least the wanted one
  when the call succeeds and always below the maximum of \<open>2 ^ 30\<close>.
\<close>

theorem arena_reserve_terminates:
  assumes "arena_ok s"
  shows "\<exists>ok s'. pc_arena_reserve alloc minimum s = Some (ok, s') \<and> arena_ok s' \<and> g_output s' = g_output s \<and>
    take (length (g_arena s)) (g_arena s') = g_arena s \<and> (ok \<longrightarrow> minimum \<le> pc_arena_capacity s') \<and> (\<not> ok \<longrightarrow> s' = s)"
proof (cases "minimum = 0 \<or> minimum \<ge> kMaximumArenaCapacity \<or> unat minimum \<le> length (g_arena s)")
  case True
  have "length (g_arena s) < 2 ^ 30" using assms by (simp add: arena_ok_def maximum)
  then have "unat (of_nat (length (g_arena s)) :: u32) = length (g_arena s)" by (simp add: unat_of_nat)
  then show ?thesis using True assms by (auto simp: pc_arena_reserve_def pc_arena_capacity_def word_le_nat_alt)
next
  case False
  let ?c = "of_nat (length (g_arena s)) :: u32"
  have l: "length (g_arena s) < 2 ^ 30" "2 ^ 16 \<le> length (g_arena s)" using assms by (simp_all add: arena_ok_def maximum kInitialArenaCapacity_def)
  then have c: "unat ?c = length (g_arena s)" by (simp add: unat_of_nat)
  have m: "unat minimum < 2 ^ 30" using False by (simp add: maximum word_le_nat_alt)
  have "\<exists>r. arena_capacity_loop (Suc 32) minimum ?c = Some r \<and> minimum \<le> r \<and> ?c \<le> r \<and> unat r < 2 ^ 30"
    by (rule arena_capacity_loop_ends) (use l m c in auto)
  then obtain r where r: "arena_capacity_loop 33 minimum ?c = Some r" "minimum \<le> r" "?c \<le> r" "unat r < 2 ^ 30"
    by (auto simp only: eval_nat_numeral)
  let ?s = "s\<lparr>g_arena := take (unat r) (g_arena s) @ replicate (unat r - length (g_arena s)) 0\<rparr>"
  have "length (g_arena s) \<le> unat r" using r(3) c by (simp add: word_le_nat_alt)
  then have "arena_ok ?s \<and> take (length (g_arena s)) (g_arena ?s) = g_arena s \<and> minimum \<le> pc_arena_capacity ?s"
    using r(2,4) l by (simp add: arena_ok_def maximum kInitialArenaCapacity_def pc_arena_capacity_def)
  moreover have "pc_arena_reserve alloc minimum s = Some (if alloc (unat r) then (True, ?s) else (False, s))"
    using False r(1) by (simp only: pc_arena_reserve_def) simp
  ultimately show ?thesis using assms by (cases "alloc (unat r)") auto
qed



text \<open>Witnesses.\<close>

theorem arena_walk_terminates_witness:
  "ParseNode mixed_array (unat (80 :: u32)) 0 = Inr (view_at 0 80 20 3 4, 80) \<and> unat (80 :: u32) \<le> length mixed_array \<and>
    SerializeNode (\<lambda>_. True) mixed_array 7 (\<lambda>_ _. 0) (arena_fuel 80) (view_at 0 80 20 3 4) (empty_buffer (\<lambda>_. 0)) unit_init \<noteq> Inl Unfinished"
proof -
  have "ParseNode mixed_array (unat (80 :: u32)) 0 = Inr (view_at 0 80 20 3 4, 80)" "unat (80 :: u32) \<le> length mixed_array"
    by (simp_all add: mixed_nodes length_mixed)
  with arena_walk_terminates [OF this] show ?thesis by blast
qed

theorem arena_parse_safe_witness:
  "80 \<le> length mixed_array \<and> fine (ParseNode mixed_array 80 0) (\<lambda>(node, c). node_in 0 80 node \<and> n_end node = c) \<and>
    fine (parse_nodes mixed_array 80 4 16) (\<lambda>ns. length ns = 4)"
proof -
  have l: "80 \<le> length mixed_array" by (simp add: length_mixed)
  note a = arena_parse_safe [OF l, of 0 0 0 0 0] and b = arena_parse_safe [OF l, of 16 4 0 0 0]
  have "fine (parse_nodes mixed_array 80 4 16) (\<lambda>ns. length ns = 4)" by (rule fine_mono [OF conjunct1 [OF conjunct2 [OF b]]]) simp
  with a l show ?thesis by blast
qed

theorem arena_map_order_witness:
  "\<exists>po slots. place_entries po [(view_at 16 32 3 0 0, view_at 32 48 4 0 0, [5, 0, 0, 0])] [None] = Inr slots \<and>
    length slots = 1 \<and> None \<notin> set slots"
proof -
  let ?es = "[(view_at 16 32 3 0 0, view_at 32 48 4 0 0, [5, 0, 0, 0])]"
  obtain po where "PerfectHashObject_Locate po [5, 0, 0, 0] = Some 0" using one_key_index by blast
  then have "place_entries po ?es [None] = Inr [Some (view_at 16 32 3 0 0, view_at 32 48 4 0 0)]" by (simp add: checked_def)
  then have p: "place_entries po ?es (replicate (length ?es) None) = Inr [Some (view_at 16 32 3 0 0, view_at 32 48 4 0 0)]" by simp
  from arena_map_order [OF p] show ?thesis using p by (intro exI [of _ po] exI [of _ "[Some (view_at 16 32 3 0 0, view_at 32 48 4 0 0)]"]) simp
qed

theorem arena_reserve_terminates_witness:
  "\<exists>ok s'. pc_arena_reserve (\<lambda>_. True) 100000 (initial_arena (empty_buffer (\<lambda>_. 0))) = Some (ok, s') \<and> arena_ok s'"
proof -
  have "arena_ok (initial_arena (empty_buffer (\<lambda>_. 0)))" by (simp add: arena_ok_def initial_arena_def maximum kInitialArenaCapacity_def)
  from arena_reserve_terminates [OF this, of "\<lambda>_. True" 100000] show ?thesis by blast
qed

end
