(* ===== verification/WasmApi.thy ===== *)
theory WasmApi
  imports Compress PH_Build DecodeApi
begin

text \<open>
  The functions that typescript/wasm/protocache_wasm.cc exports to the host: compression, decompression
  and perfect hash construction on ranges of the linear memory, for 32-bit addresses.  The memory is a
  list of bytes whose length is the size of the heap, and a call that would access memory outside of it
  is \<open>None\<close>.  The host passes arbitrary numbers, so every range is validated first, and the structure
  for the result is cleared before the input is read: the two may overlap.

  The C++ heap is the parameter \<open>new\<close>: it places blocks with given contents into memory (which may
  grow) and gives the memory after that, the address of the object that owns them and those of the
  blocks, or \<open>None\<close> for \<open>std::bad_alloc\<close>.
\<close>

subsection \<open>Model: status and ranges\<close>

definition PC_WASM_OUT_OF_BOUNDS :: u32 where "PC_WASM_OUT_OF_BOUNDS = 2"
definition PC_WASM_UNALIGNED :: u32 where "PC_WASM_UNALIGNED = 3"
definition PC_WASM_BUILD_FAILED :: u32 where "PC_WASM_BUILD_FAILED = 4"

lemmas all_status = status PC_WASM_OUT_OF_BOUNDS_def PC_WASM_UNALIGNED_def PC_WASM_BUILD_FAILED_def

record Wasm =
  memory :: "u8 list"
  g_last_error :: u32

definition Fail :: "u32 \<Rightarrow> Wasm \<Rightarrow> u32 \<times> Wasm" where
  "Fail status s = (status, s\<lparr>g_last_error := status\<rparr>)"

definition ValidateRange :: "u8 list \<Rightarrow> u32 \<Rightarrow> u64 \<Rightarrow> u32 \<Rightarrow> u32" where
  "ValidateRange mem address len alignment =
    (if address = 0 then PC_WASM_INVALID_ARGUMENT
     else if address mod alignment \<noteq> 0 then PC_WASM_UNALIGNED
     else
       let end = ucast address + len in
       if end < ucast address then PC_WASM_OUT_OF_BOUNDS
       else if unat end \<le> length mem then PC_WASM_OK else PC_WASM_OUT_OF_BOUNDS)"

type_synonym allocator = "u8 list \<Rightarrow> u8 list list \<Rightarrow> (u8 list \<times> u32 \<times> u32 list) option"

subsection \<open>Model: compression\<close>

text \<open>The loop over the bytes of the size, with the 64-bit accumulator.\<close>

fun size_header :: "u8 list \<Rightarrow> nat \<Rightarrow> u64 \<Rightarrow> bool" where
  "size_header [] shift sz = False"
| "size_header (byte # input) shift sz =
    (if shift \<ge> 32 then False
     else
       let sz = sz OR push_bit shift (ucast (byte AND 0x7f)) in
       if byte AND 0x80 = 0 then sz \<le> 0xffffffff - 7
       else size_header input (shift + 7) sz)"

definition ValidDecompressedSizeHeader :: "u8 list \<Rightarrow> bool" where
  "ValidDecompressedSizeHeader input = (if input = [] then True else size_header input 0 0)"

text \<open>\<open>PcBytesResult\<close>: data, length, handle.\<close>

definition bytes_result :: "u32 \<Rightarrow> u32 \<Rightarrow> u32 \<Rightarrow> u8 list" where
  "bytes_result data_ptr data_len handle = bytes_of_word 4 data_ptr @ bytes_of_word 4 data_len @ bytes_of_word 4 handle"

text \<open>
  The result: the data is placed in memory and described in the structure.  An exception of the heap
  is noticed before the decompressed data is refused: the string is resized
  before it is filled.
\<close>

definition deliver :: "allocator \<Rightarrow> u32 \<Rightarrow> bool \<Rightarrow> u8 list \<Rightarrow> Wasm \<Rightarrow> (u32 \<times> Wasm) option" where
  "deliver new result_ptr ok data s =
    (case new (memory s) [data] of
       None \<Rightarrow> Some (Fail PC_WASM_OUT_OF_MEMORY s)
     | Some (mem, handle, ptrs) \<Rightarrow>
         let s = s\<lparr>memory := mem\<rparr> in
         if \<not> ok then Some (Fail PC_WASM_INVALID_DATA s)
         else if length data > 0xffffffff then Some (Fail PC_WASM_OUT_OF_MEMORY s)
         else do {
           ptr \<leftarrow> rd ptrs 0;
           mem \<leftarrow> wr_range mem (unat result_ptr) (bytes_result (if data = [] then 0 else ptr) (of_nat (length data)) handle);
           Some (PC_WASM_OK, s\<lparr>memory := mem, g_last_error := PC_WASM_OK\<rparr>)
         })"

definition TransformBytes :: "allocator \<Rightarrow> u32 \<Rightarrow> u32 \<Rightarrow> u32 \<Rightarrow> bool \<Rightarrow> Wasm \<Rightarrow> (u32 \<times> Wasm) option" where
  "TransformBytes new input_ptr input_len result_ptr decompress s =
    (let result_validation = ValidateRange (memory s) result_ptr 12 4 in
     if result_validation \<noteq> PC_WASM_OK then Some (Fail result_validation s)
     else do {
       mem \<leftarrow> wr_range (memory s) (unat result_ptr) (bytes_result 0 0 0);
       let s = s\<lparr>memory := mem\<rparr>;
       let input_validation = (if input_len \<noteq> 0 then ValidateRange mem input_ptr (ucast input_len) 1 else PC_WASM_OK);
       if input_validation \<noteq> PC_WASM_OK then Some (Fail input_validation s)
       else do {
         input \<leftarrow> (if input_len = 0 then Some [] else rd_range mem (unat input_ptr) (unat input_len));
         if decompress \<and> \<not> ValidDecompressedSizeHeader input then Some (Fail PC_WASM_INVALID_DATA s)
         else do {
           (ok, data) \<leftarrow> (if decompress then Decompress input else map_option (Pair True) (Compress input));
           deliver new result_ptr ok data s
         }
       }
     })"

definition pc_compress :: "allocator \<Rightarrow> u32 \<Rightarrow> u32 \<Rightarrow> u32 \<Rightarrow> Wasm \<Rightarrow> (u32 \<times> Wasm) option" where
  "pc_compress new input_ptr input_len result_ptr s = TransformBytes new input_ptr input_len result_ptr False s"

definition pc_decompress :: "allocator \<Rightarrow> u32 \<Rightarrow> u32 \<Rightarrow> u32 \<Rightarrow> Wasm \<Rightarrow> (u32 \<times> Wasm) option" where
  "pc_decompress new input_ptr input_len result_ptr s = TransformBytes new input_ptr input_len result_ptr True s"

definition pc_last_error :: "Wasm \<Rightarrow> u32" where
  "pc_last_error s = g_last_error s"

subsection \<open>Model: perfect hash construction\<close>

text \<open>\<open>PcKeySpan\<close> number \<open>index\<close> of an array at \<open>spans\<close>: offset and length.\<close>

definition span_at :: "u8 list \<Rightarrow> u32 \<Rightarrow> nat \<Rightarrow> (u32 \<times> u32) option" where
  "span_at mem spans index = do {
     off \<leftarrow> load32 mem (unat spans + 8 * index);
     len \<leftarrow> load32 mem (unat spans + 8 * index + 4);
     Some (off, len)
   }"

primrec validate_spans :: "u8 list \<Rightarrow> u32 \<Rightarrow> u32 \<Rightarrow> nat \<Rightarrow> nat \<Rightarrow> u32 option" where
  "validate_spans mem keys_len spans index 0 = Some PC_WASM_OK"
| "validate_spans mem keys_len spans index (Suc n) = do {
     (off, len) \<leftarrow> span_at mem spans index;
     if off AND 7 \<noteq> 0 then Some PC_WASM_UNALIGNED
     else if off > keys_len \<or> len > keys_len - off then Some PC_WASM_OUT_OF_BOUNDS
     else validate_spans mem keys_len spans (index + 1) n
   }"

definition ValidateInput :: "u8 list \<Rightarrow> u32 \<Rightarrow> u32 \<Rightarrow> u32 \<Rightarrow> u32 \<Rightarrow> u32 \<Rightarrow> u32 option" where
  "ValidateInput mem keys keys_len spans key_count flags =
    (if flags AND NOT 1 \<noteq> 0 then Some PC_WASM_INVALID_ARGUMENT
     else if key_count \<ge> push_bit 28 1 then Some PC_WASM_INVALID_ARGUMENT
     else if key_count = 0 then Some PC_WASM_OK
     else if keys = 0 \<or> spans = 0 \<or> keys_len = 0 then Some PC_WASM_INVALID_ARGUMENT
     else if keys mod 8 \<noteq> 0 \<or> spans mod 4 \<noteq> 0 then Some PC_WASM_UNALIGNED
     else validate_spans mem keys_len spans 0 (unat key_count))"

record PackedKeyReader =
  pk_memory :: "u8 list"
  pk_keys :: u32
  pk_spans :: u32
  pk_count :: u32
  pk_position :: u32

definition key_at :: "u8 list \<Rightarrow> u32 \<Rightarrow> u32 \<Rightarrow> nat \<Rightarrow> u8 list option" where
  "key_at mem keys spans index = do {
     (off, len) \<leftarrow> span_at mem spans index;
     rd_range mem (unat keys + unat off) (unat len)
   }"

definition pk_reset :: "PackedKeyReader \<Rightarrow> PackedKeyReader" where
  "pk_reset r = r\<lparr>pk_position := 0\<rparr>"

definition pk_total :: "PackedKeyReader \<Rightarrow> nat" where
  "pk_total r = unat (pk_count r)"

definition pk_read :: "PackedKeyReader \<Rightarrow> u8 list option \<times> PackedKeyReader" where
  "pk_read r =
    (if pk_position r \<ge> pk_count r then (None, r)
     else (key_at (pk_memory r) (pk_keys r) (pk_spans r) (unat (pk_position r)), r\<lparr>pk_position := pk_position r + 1\<rparr>))"

definition packed_reader :: "PackedKeyReader KeyReader" where
  "packed_reader = \<lparr>kr_reset = pk_reset, kr_total = pk_total, kr_read = pk_read\<rparr>"

text \<open>
  The loop that fills \<open>slot_to_input\<close>: \<open>Some (False, _)\<close> when a slot is out of range or occupied.  A key
  outside of memory is \<open>None\<close>.
\<close>

primrec fill_slots :: "PerfectHashObject \<Rightarrow> (nat \<Rightarrow> u8 list option) \<Rightarrow> nat \<Rightarrow> nat \<Rightarrow> u32 list \<Rightarrow> bool list \<Rightarrow> (bool \<times> u32 list) option" where
  "fill_slots po key input 0 slots occupied = Some (True, slots)"
| "fill_slots po key input (Suc n) slots occupied = do {
     k \<leftarrow> key input;
     slot \<leftarrow> PerfectHashObject_Locate po k;
     if unat slot \<ge> length slots \<or> occupied ! unat slot then Some (False, slots)
     else fill_slots po key (input + 1) n (slots[unat slot := of_nat input]) (occupied[unat slot := True])
   }"

text \<open>\<open>PcPhBuildResult\<close>: index, its length, slots, their count, handle.\<close>

definition build_result :: "u32 \<Rightarrow> u32 \<Rightarrow> u32 \<Rightarrow> u32 \<Rightarrow> u32 \<Rightarrow> u8 list" where
  "build_result index_ptr index_len slot_to_input_ptr slot_count handle =
    concat (map (bytes_of_word 4) [index_ptr, index_len, slot_to_input_ptr, slot_count, handle])"

definition slots_bytes :: "u32 list \<Rightarrow> u8 list" where
  "slots_bytes slots = concat (map (bytes_of_word 4) slots)"

text \<open>The part of \<open>pc_ph_build\<close> after the validation.\<close>

definition build_index :: "allocator \<Rightarrow> u32 \<Rightarrow> (nat \<Rightarrow> nat \<Rightarrow> u32) \<Rightarrow> u32 \<Rightarrow> u32 \<Rightarrow> u32 \<Rightarrow> bool \<Rightarrow> u32 \<Rightarrow> Wasm \<Rightarrow> (u32 \<times> Wasm) option" where
  "build_index new gseed junk keys spans key_count trust result_ptr s = do {
     (po, reader) \<leftarrow> PerfectHashObject_Build packed_reader gseed junk trust
       \<lparr>pk_memory = memory s, pk_keys = keys, pk_spans = spans, pk_count = key_count, pk_position = 0\<rparr>;
     case ph_data po of
       None \<Rightarrow> Some (Fail PC_WASM_BUILD_FAILED s)
     | Some index \<Rightarrow> do {
         (ok, slots) \<leftarrow> fill_slots po (key_at (memory s) keys spans) 0 (unat key_count) (replicate (unat key_count) 0) (replicate (unat key_count) False);
         (case new (memory s) [index, slots_bytes slots] of
            None \<Rightarrow> Some (Fail PC_WASM_OUT_OF_MEMORY s)
          | Some (mem, handle, ptrs) \<Rightarrow>
              let s = s\<lparr>memory := mem\<rparr> in
              if \<not> ok then Some (Fail PC_WASM_INTERNAL_ERROR s)
              else do {
                index_ptr \<leftarrow> rd ptrs 0;
                slots_ptr \<leftarrow> rd ptrs 1;
                mem \<leftarrow> wr_range mem (unat result_ptr) (build_result index_ptr (of_nat (length index)) slots_ptr key_count handle);
                Some (PC_WASM_OK, s\<lparr>memory := mem, g_last_error := PC_WASM_OK\<rparr>)
              })
       }
   }"

definition pc_ph_build :: "allocator \<Rightarrow> u32 \<Rightarrow> (nat \<Rightarrow> nat \<Rightarrow> u32) \<Rightarrow> u32 \<Rightarrow> u32 \<Rightarrow> u32 \<Rightarrow> u32 \<Rightarrow> u32 \<Rightarrow> u32 \<Rightarrow> Wasm \<Rightarrow> (u32 \<times> Wasm) option" where
  "pc_ph_build new gseed junk keys keys_len spans key_count flags result_ptr s =
    (let result_validation = ValidateRange (memory s) result_ptr 20 4 in
     if result_validation \<noteq> PC_WASM_OK then Some (Fail result_validation s)
     else do {
       mem \<leftarrow> wr_range (memory s) (unat result_ptr) (build_result 0 0 0 0 0);
       let s = s\<lparr>memory := mem\<rparr>;
       let keys_validation = (if key_count \<noteq> 0 then ValidateRange mem keys (ucast keys_len) 8 else PC_WASM_OK);
       let spans_validation = (if key_count \<noteq> 0 then ValidateRange mem spans (ucast key_count * 8) 4 else PC_WASM_OK);
       if keys_validation \<noteq> PC_WASM_OK then Some (Fail keys_validation s)
       else if spans_validation \<noteq> PC_WASM_OK then Some (Fail spans_validation s)
       else do {
         validation \<leftarrow> ValidateInput mem keys keys_len spans key_count flags;
         if validation \<noteq> PC_WASM_OK then Some (Fail validation s)
         else build_index new gseed junk keys spans key_count (flags AND 1 \<noteq> 0) result_ptr s
       }
     })"

end
