(* ===== verification/WasmSafe.thy ===== *)
theory WasmSafe
  imports WasmApi
begin

text \<open>
  The exported byte and index functions on arguments that nobody has checked: every access is inside of
  the memory, the returned status is what \<open>pc_last_error\<close> says, and the composition of the validation
  with the library functions keeps the promises of both.
\<close>

subsection \<open>The heap\<close>

text \<open>
  What the code relies on of the heap: memory does not shrink, and the blocks have the wanted contents,
  are in memory, and a block that is not empty is not at address 0.
\<close>

definition heap_ok :: "allocator \<Rightarrow> bool" where
  "heap_ok new \<longleftrightarrow> (\<forall>mem blocks mem' handle ptrs. new mem blocks = Some (mem', handle, ptrs) \<longrightarrow>
    length mem \<le> length mem' \<and> length ptrs = length blocks \<and>
    (\<forall>i<length blocks. (blocks ! i \<noteq> [] \<longrightarrow> ptrs ! i \<noteq> 0) \<and> rd_range mem' (unat (ptrs ! i)) (length (blocks ! i)) = Some (blocks ! i)))"

text \<open>Two ranges of memory without a common byte, and a heap that does not use a range of the host.\<close>

definition apart :: "nat \<Rightarrow> nat \<Rightarrow> nat \<Rightarrow> nat \<Rightarrow> bool" where
  "apart a m b n \<longleftrightarrow> a + m \<le> b \<or> b + n \<le> a"

definition heap_avoids :: "allocator \<Rightarrow> nat \<Rightarrow> nat \<Rightarrow> bool" where
  "heap_avoids new a m \<longleftrightarrow> (\<forall>mem blocks mem' handle ptrs. new mem blocks = Some (mem', handle, ptrs) \<longrightarrow>
    (\<forall>i<length blocks. apart a m (unat (ptrs ! i)) (length (blocks ! i))))"

lemma heap_okD:
  assumes "heap_ok new" "new mem blocks = Some (mem', handle, ptrs)"
  shows "length mem \<le> length mem'" "length ptrs = length blocks"
    "i < length blocks \<Longrightarrow> blocks ! i \<noteq> [] \<Longrightarrow> ptrs ! i \<noteq> 0" "i < length blocks \<Longrightarrow> rd_range mem' (unat (ptrs ! i)) (length (blocks ! i)) = Some (blocks ! i)"
  using assms unfolding heap_ok_def by blast+

lemma heap_avoidsD:
  "heap_avoids new a m \<Longrightarrow> new mem blocks = Some (mem', handle, ptrs) \<Longrightarrow> i < length blocks \<Longrightarrow> apart a m (unat (ptrs ! i)) (length (blocks ! i))"
  unfolding heap_avoids_def by blast

lemma rd_after_wr:
  assumes "wr_range xs a ys = Some zs" "apart a (length ys) b n"
  shows "rd_range zs b n = rd_range xs b n"
proof -
  have z: "zs = take a xs @ ys @ drop (a + length ys) xs" "a + length ys \<le> length xs" using assms(1) by (simp_all add: wr_range_eq_Some_iff)
  then have len: "length zs = length xs" by simp
  have "take n (drop b zs) = take n (drop b xs)" if "b + n \<le> length xs"
  proof (rule nth_equalityI)
    fix i assume "i < length (take n (drop b zs))"
    then show "take n (drop b zs) ! i = take n (drop b xs) ! i" using that z assms(2) by (auto simp: nth_append apart_def)
  qed (use that len in simp)
  then show ?thesis by (simp add: rd_range_def len)
qed

lemma rd_written:
  "wr_range xs a ys = Some zs \<Longrightarrow> rd_range zs a (length ys) = Some ys"
  by (auto simp: wr_range_eq_Some_iff rd_range_def)

subsection \<open>Ranges\<close>

lemma unat_u32_u64: "unat (ucast (a :: u32) :: u64) = unat a"
  by (rule unat_ucast_up) simp

lemma ValidateRange_OK:
  assumes "ValidateRange mem a len al = PC_WASM_OK"
  shows "a \<noteq> 0" "unat a + unat len \<le> length mem" "a mod al = 0"
proof -
  let ?a = "ucast a :: u64"
  have *: "a \<noteq> 0" "a mod al = 0" "\<not> ?a + len < ?a" "unat (?a + len) \<le> length mem"
    using assms by (auto simp: ValidateRange_def Let_def all_status split: if_splits)
  then show "a \<noteq> 0" "a mod al = 0" by blast+
  have "unat (?a + len) = unat ?a + unat len" using *(3) by (intro unat_plus_simple [THEN iffD1]) (simp add: not_less)
  then show "unat a + unat len \<le> length mem" using *(4) by (simp add: unat_u32_u64)
qed

subsection \<open>The size header\<close>

lemma seven_bits: "byte AND 0x80 = 0 \<Longrightarrow> byte AND 0x7f = (byte :: u8)"
proof -
  have "byte = byte AND mask 8" by (rule bit_word_eqI) (simp add: bit_simps)
  then have "byte = (byte AND 0x7f) OR (byte AND 0x80)" by (simp flip: bit.conj_disj_distrib add: mask_eq_exp_minus_1)
  then show "byte AND 0x80 = 0 \<Longrightarrow> byte AND 0x7f = byte" by simp
qed

lemma size_header_parse:
  "size_header input shift acc \<Longrightarrow> \<exists>sz rest. parse_size shift (ucast acc) input = Some (sz, rest) \<and> unat sz < 2 ^ 32 - 7"
proof (induction input shift acc rule: size_header.induct)
  case (2 byte input shift sz)
  let ?sz = "sz OR push_bit shift (ucast (byte AND 0x7f))"
  have s: "shift < 32" using 2(2) by (simp split: if_splits)
  have u: "ucast ?sz = (ucast sz OR push_bit shift (ucast (byte AND 0x7f)) :: u32)"
    by (rule bit_word_eqI) (auto simp: bit_simps)
  show ?case
  proof (cases "byte AND 0x80 = 0")
    case True
    have "?sz \<le> 0xffffffff - 7" using 2(2) True s by simp
    then have "unat (ucast ?sz :: u32) < 2 ^ 32 - 7" by (simp add: unat_ucast word_le_nat_alt)
    moreover have "byte AND 0x7f = byte" using True by (rule seven_bits)
    ultimately show ?thesis using s True u by (simp add: parse_size.simps)
  next
    case False
    then show ?thesis using 2 s u by (simp add: parse_size.simps [of shift])
  qed
qed simp

lemma split_at_7_long: "push_bit s (ucast (take_bit 7 (ucast n :: u8))) OR push_bit (s + 7) (drop_bit 7 n) = push_bit s n" for n :: u64
proof (rule bit_word_eqI)
  fix i assume "i < LENGTH(64)"
  then show "bit (push_bit s (ucast (take_bit 7 (ucast n :: u8))) OR push_bit (s + 7) (drop_bit 7 n)) i = bit (push_bit s n) i"
    by (cases "i < s + 7") (auto simp: bit_simps)
qed

lemma size_header_write_size:
  assumes "unat n < 2 ^ (32 - sft)" "sft < 32"
  shows "size_header (write_size n @ rest) sft sz \<longleftrightarrow> sz OR push_bit sft n \<le> 0xffffffff - 7"
  using assms
proof (induction n arbitrary: sft sz rule: write_size.induct)
  case (1 n)
  have n32: "unat n < 2 ^ 32"
    using "1.prems"(1) by (meson diff_le_self order_less_le_trans power_increasing one_le_numeral)
  show ?case
  proof (cases "n AND 0xffffff80 \<noteq> 0")
    case True
    then have big: "128 \<le> unat n" using and_low_mask [OF n32] by simp
    have sft: "sft + 7 < 32"
    proof (rule ccontr)
      assume "\<not> sft + 7 < 32"
      then have "(2::nat) ^ (32 - sft) \<le> 2 ^ 7" by (intro power_increasing) auto
      then show False using "1.prems"(1) big by simp
    qed
    then have "32 - sft = (32 - (sft + 7)) + 7" by simp
    then have "(2::nat) ^ (32 - sft) = 2 ^ (32 - (sft + 7)) * 2 ^ 7" by (metis power_add)
    then have d: "unat (drop_bit 7 n) < 2 ^ (32 - (sft + 7))" using "1.prems"(1) by (simp add: unat_drop_bit less_mult_imp_div_less)
    let ?b = "0x80 OR ucast (n AND 0x7f) :: u8"
    have b: "?b AND 0x80 \<noteq> 0" "?b AND 0x7f = take_bit 7 (ucast n)"
      using continuation_byte [of "take_bit 7 (ucast n)"] by (simp_all add: low_bits_64)
    have "(sz OR push_bit sft (ucast (?b AND 0x7f))) OR push_bit (sft + 7) (drop_bit 7 n) = sz OR push_bit sft n"
      by (simp only: b or.assoc split_at_7_long)
    then show ?thesis using "1.IH" [OF True d sft] True b "1.prems"(2) by (simp add: write_size.simps [of n])
  next
    case False
    then have "unat n < 128" using and_low_mask [OF n32] by simp
    then have "unat (ucast n :: u8) < 128" "ucast (ucast n :: u8) = n"
      by (auto intro: word_eq_unatI simp: unat_ucast)
    note final_byte [OF this(1)] this(2)
    then show ?thesis using False "1.prems" seven_bits [of "ucast n"] by (simp add: write_size.simps [of n])
  qed
qed

lemma compressed_header:
  assumes "length src < 2 ^ 32 - 7" "Compress src = Some out"
  shows "ValidDecompressedSizeHeader out"
proof (cases "src = []")
  case False
  let ?n = "of_nat (length src) :: u64"
  have n: "unat ?n = length src" using assms(1) by (simp add: unat_of_nat)
  have out: "out = write_size ?n @ enc src" using Compress_eq [OF False] assms(2) by simp
  have "size_header out 0 0 \<longleftrightarrow> ?n \<le> 0xffffffff - 7"
    unfolding out using size_header_write_size [of ?n 0 "enc src" 0] assms(1) n by simp
  moreover have "?n \<le> 0xffffffff - 7" using n assms(1) by (simp add: word_le_nat_alt)
  ultimately show ?thesis by (simp add: ValidDecompressedSizeHeader_def)
qed (use assms(2) in \<open>simp add: Compress_def ValidDecompressedSizeHeader_def\<close>)

lemma Decompress_valid: "ValidDecompressedSizeHeader input \<Longrightarrow> \<exists>ok out. Decompress input = Some (ok, out)"
  using size_header_parse [of input 0 0] Decompress_in_bounds
  by (fastforce simp: ValidDecompressedSizeHeader_def Decompress_def [of "[]"] split: if_splits)

lemma Compress_total: "\<exists>out. Compress input = Some out"
  using Compress_eq by (cases "input = []") (auto simp: Compress_def)

subsection \<open>Compression and decompression\<close>

lemma length_results [simp]: "length (bytes_result a b c) = 12" "length (build_result a b c d e) = 20"
  by (simp_all add: bytes_result_def build_result_def del: bytes_of_word_numeral)

text \<open>How \<open>TransformBytes\<close> ends when the ranges are valid and the input is accepted.\<close>

lemma TransformBytes_eq:
  assumes "ValidateRange (memory s) r 12 4 = PC_WASM_OK" "wr_range (memory s) (unat r) (bytes_result 0 0 0) = Some mem"
    and "n \<noteq> 0 \<Longrightarrow> ValidateRange mem p (ucast n) 1 = PC_WASM_OK" "(if n = 0 then Some [] else rd_range mem (unat p) (unat n)) = Some input"
    and "dec \<Longrightarrow> ValidDecompressedSizeHeader input"
    and "(if dec then Decompress input else map_option (Pair True) (Compress input)) = Some (ok, data)"
  shows "TransformBytes new p n r dec s = deliver new r ok data (s\<lparr>memory := mem\<rparr>)"
  using assms by (cases dec; cases "n = 0") (simp_all add: TransformBytes_def Let_def)

lemma deliver_cases:
  assumes "heap_ok new" "unat r + 12 \<le> length (memory s)"
  shows "\<exists>st s'. deliver new r ok data s = Some (st, s') \<and> g_last_error s' = st \<and> length (memory s) \<le> length (memory s')"
proof (cases "new (memory s) [data]")
  case None
  then show ?thesis by (simp add: deliver_def Fail_def)
next
  case (Some b)
  then obtain mem handle ptrs where b: "new (memory s) [data] = Some (mem, handle, ptrs)" by (cases b) auto
  note h = heap_okD [OF assms(1) b]
  then obtain ptr where ptr: "rd ptrs 0 = Some ptr" by (cases ptrs) (auto simp: rd_def)
  have len: "length (memory s) \<le> length mem" "unat r + 12 \<le> length mem" using h(1) assms(2) by simp_all
  then obtain mem' where "wr_range mem (unat r) (bytes_result (if data = [] then 0 else ptr) (of_nat (length data)) handle) = Some mem'"
    "length mem' = length mem" by simp
  then show ?thesis using b ptr len by (simp add: deliver_def Fail_def Let_def)
qed

lemma clear_result:
  assumes "ValidateRange (memory s) r 12 4 = PC_WASM_OK"
  obtains mem where "wr_range (memory s) (unat r) (bytes_result 0 0 0) = Some mem" "length mem = length (memory s)" "unat r + 12 \<le> length mem"
proof -
  have "unat r + 12 \<le> length (memory s)" using ValidateRange_OK(2) [OF assms] by simp
  then show ?thesis using that by simp
qed

lemma TransformBytes_cases:
  assumes "heap_ok new"
  shows "\<exists>st s'. TransformBytes new p n r dec s = Some (st, s') \<and> g_last_error s' = st \<and> length (memory s) \<le> length (memory s')"
proof (cases "ValidateRange (memory s) r 12 4 = PC_WASM_OK")
  case True
  then obtain mem where mem: "wr_range (memory s) (unat r) (bytes_result 0 0 0) = Some mem" "length mem = length (memory s)" "unat r + 12 \<le> length mem"
    by (rule clear_result)
  show ?thesis
  proof (cases "n \<noteq> 0 \<longrightarrow> ValidateRange mem p (ucast n) 1 = PC_WASM_OK")
    case v: True
    obtain input where i: "(if n = 0 then Some [] else rd_range mem (unat p) (unat n)) = Some input" 
      using v ValidateRange_OK(2) [of mem p "ucast n" 1] by (cases "n = 0") (auto simp: unat_u32_u64)
    show ?thesis
    proof (cases "dec \<and> \<not> ValidDecompressedSizeHeader input")
      case False
      then obtain ok data where d: "(if dec then Decompress input else map_option (Pair True) (Compress input)) = Some (ok, data)"
        using Decompress_valid [of input] Compress_total [of input] by (cases dec) auto
      show ?thesis using TransformBytes_eq [OF True mem(1) _ i _ d, of new] deliver_cases [OF assms, of r "s\<lparr>memory := mem\<rparr>" ok data] mem v False by simp
    next
      case bad: True
      then show ?thesis using True mem v i by (cases "n = 0") (simp_all add: TransformBytes_def Fail_def Let_def)
    qed
  qed (use True mem in \<open>simp add: TransformBytes_def Fail_def Let_def\<close>)
qed (simp add: TransformBytes_def Fail_def Let_def)

text \<open>What the host finds in the result structure at \<open>r\<close>: a block of memory with given contents.\<close>

definition result_holds :: "u8 list \<Rightarrow> u32 \<Rightarrow> u32 \<Rightarrow> u8 list \<Rightarrow> bool" where
  "result_holds mem r ptr data \<longleftrightarrow> load32 mem (unat r) = Some ptr \<and> load32 mem (unat r + 4) = Some (of_nat (length data)) \<and>
    length data < 2 ^ 32 \<and> (data \<noteq> [] \<longrightarrow> ptr \<noteq> 0 \<and> rd_range mem (unat ptr) (length data) = Some data)"

lemma bytes_result_fields:
  assumes "wr_range xs a (bytes_result x y z) = Some zs"
  shows "load32 zs a = Some x" "load32 zs (a + 4) = Some y"
proof -
  have z: "a + 12 \<le> length xs" "zs = take a xs @ (bytes_of_word 4 x @ bytes_of_word 4 y @ bytes_of_word 4 z) @ drop (a + 12) xs"
    using assms by (simp_all add: wr_range_eq_Some_iff bytes_result_def del: bytes_of_word_numeral)
  then have "take 4 (drop a zs) = bytes_of_word 4 x" "take 4 (drop (a + 4) zs) = bytes_of_word 4 y" "a + 8 \<le> length zs"
    by (simp_all del: bytes_of_word_numeral)
  then show "load32 zs a = Some x" "load32 zs (a + 4) = Some y"
    by (simp_all add: load32_def byte_simps del: bytes_of_word_numeral)
qed

lemma deliver_OK:
  assumes "heap_ok new" "heap_avoids new (unat r) 12" "unat r + 12 \<le> length (memory s)" "deliver new r True data s = Some (st, s')"
  shows "st = PC_WASM_OUT_OF_MEMORY \<or> st = PC_WASM_OK \<and> (\<exists>ptr. result_holds (memory s') r ptr data)"
proof (cases "new (memory s) [data] = None \<or> length data > 0xffffffff")
  case True
  then show ?thesis using assms(4) by (auto simp: deliver_def Fail_def Let_def split: option.splits prod.splits)
next
  case False
  then obtain mem handle ptrs where b: "new (memory s) [data] = Some (mem, handle, ptrs)" by auto
  note h = heap_okD [OF assms(1) b]
  then obtain ptr where ptr: "rd ptrs 0 = Some ptr" "ptrs ! 0 = ptr" by (cases ptrs) (auto simp: rd_def)
  have block: "data \<noteq> [] \<Longrightarrow> ptr \<noteq> 0" "rd_range mem (unat ptr) (length data) = Some data" "apart (unat r) 12 (unat ptr) (length data)"
    using h(3,4) [of 0] heap_avoidsD [OF assms(2) b, of 0] ptr(2) by simp_all
  let ?p = "if data = [] then 0 else ptr"
  obtain mem' where w: "wr_range mem (unat r) (bytes_result ?p (of_nat (length data)) handle) = Some mem'"
    using h(1) assms(3) by simp
  have "rd_range mem' (unat ptr) (length data) = Some data"
    using rd_after_wr [OF w, of "unat ptr" "length data"] block by simp
  then have "result_holds mem' r ?p data" using bytes_result_fields [OF w] block False by (simp add: result_holds_def)
  moreover have "st = PC_WASM_OK" "memory s' = mem'" using assms(4) b ptr w False by (auto simp: deliver_def Let_def)
  ultimately show ?thesis by blast
qed

subsection \<open>Key readers over memory\<close>

definition packed_ok :: "PackedKeyReader \<Rightarrow> bool" where
  "packed_ok r \<longleftrightarrow> (\<forall>i<unat (pk_count r). key_at (pk_memory r) (pk_keys r) (pk_spans r) i \<noteq> None)"

definition packed_keys :: "PackedKeyReader \<Rightarrow> u8 list list" where
  "packed_keys r = map (\<lambda>i. the (key_at (pk_memory r) (pk_keys r) (pk_spans r) i)) [0..<unat (pk_count r)]"

interpretation packed: key_reader packed_reader packed_ok packed_keys "\<lambda>r. unat (pk_position r)"
proof unfold_locales
  fix s s' :: PackedKeyReader and k
  assume s: "packed_ok s" "kr_read packed_reader s = (k, s')"
  show "k = Some (packed_keys s ! unat (pk_position s)) \<and> packed_ok s' \<and> packed_keys s' = packed_keys s \<and>
      unat (pk_position s') = Suc (unat (pk_position s))" if "unat (pk_position s) < length (packed_keys s)"
  proof -
    have c: "unat (pk_position s) < unat (pk_count s)" using that by (simp add: packed_keys_def)
    then have "unat (pk_position s + 1) = Suc (unat (pk_position s))" using unat_lt_exp [of "pk_count s"] by (simp add: unat_word_ariths)
    then show ?thesis using s c by (auto simp: packed_reader_def pk_read_def packed_ok_def packed_keys_def word_le_nat_alt)
  qed
  show "k = None \<and> packed_ok s' \<and> packed_keys s' = packed_keys s" if "length (packed_keys s) \<le> unat (pk_position s)"
    using that s by (auto simp: packed_reader_def pk_read_def packed_keys_def word_le_nat_alt)
qed (auto simp: packed_reader_def pk_total_def pk_reset_def packed_ok_def packed_keys_def)

subsection \<open>Perfect hash construction\<close>

lemma span_at_Some: "unat spans + 8 * i + 8 \<le> length mem \<Longrightarrow> \<exists>off len. span_at mem spans i = Some (off, len)"
  by (simp add: span_at_def load32_def)

lemma validate_spans_total:
  "unat spans + 8 * (i + n) \<le> length mem \<Longrightarrow> \<exists>v. validate_spans mem keys_len spans i n = Some v"
proof (induction n arbitrary: i)
  case (Suc n)
  obtain off len where "span_at mem spans i = Some (off, len)" using span_at_Some [of spans i mem] Suc.prems by auto
  then show ?case using Suc.IH [of "i + 1"] Suc.prems by simp
qed simp

lemma validate_spans_OK:
  "validate_spans mem keys_len spans i n = Some PC_WASM_OK \<Longrightarrow> i \<le> j \<Longrightarrow> j < i + n \<Longrightarrow>
    \<exists>off len. span_at mem spans j = Some (off, len) \<and> unat off + unat len \<le> unat keys_len"
proof (induction n arbitrary: i)
  case (Suc n)
  obtain off len where sp: "span_at mem spans i = Some (off, len)" and v: "\<not> (off > keys_len \<or> len > keys_len - off)" "validate_spans mem keys_len spans (i + 1) n = Some PC_WASM_OK"
    using Suc.prems(1) by (auto simp: bind_eq_Some_conv all_status split: if_splits)
  have "unat off + unat len \<le> unat keys_len" using v(1) by (auto simp: word_le_nat_alt not_less unat_sub)
  then show ?case using Suc.IH [OF v(2)] Suc.prems sp by (cases "j = i") auto
qed simp

lemma fill_slots_spec:
  assumes f: "bij_betw f {..<n} {..<n}" "\<forall>i<n. key i = Some (ks ! i) \<and> PerfectHashObject_Locate po (ks ! i) = Some (of_nat (f i))" and n: "n < 2 ^ 32"
  shows "input + m = n \<Longrightarrow> length slots = n \<Longrightarrow> length occupied = n \<Longrightarrow> (\<forall>i<n. occupied ! f i \<longleftrightarrow> i < input) \<Longrightarrow>
    (\<forall>i<input. slots ! f i = of_nat i) \<Longrightarrow> \<exists>slots'. fill_slots po key input m slots occupied = Some (True, slots') \<and>
      length slots' = n \<and> (\<forall>i<n. slots' ! f i = of_nat i)"
proof (induction m arbitrary: input slots occupied)
  case (Suc m)
  have i: "input < n" using Suc.prems(1) by simp
  have fn: "f x < n" if "x < n" for x using f(1) that by (auto simp: bij_betw_def)
  have inj: "f x = f y \<longleftrightarrow> x = y" if "x < n" "y < n" for x y using f(1) that by (auto simp: bij_betw_def inj_on_def)
  have u: "unat (of_nat (f input) :: u32) = f input" using fn [OF i] n by (simp add: unat_of_nat)
  have "\<exists>slots'. fill_slots po key (Suc input) m (slots[f input := of_nat input]) (occupied[f input := True]) = Some (True, slots') \<and>
      length slots' = n \<and> (\<forall>i<n. slots' ! f i = of_nat i)"
    by (rule Suc.IH) (use Suc.prems fn i inj in \<open>auto simp: nth_list_update less_Suc_eq\<close>)
  then show ?case using f(2) i u fn [OF i] Suc.prems by simp
qed simp

text \<open>
  The keys that the host describes, and what it finds in the result structure at \<open>r\<close>: the bytes of an
  index and the inputs in the order of their slots.
\<close>

definition host_keys :: "u8 list \<Rightarrow> u32 \<Rightarrow> u32 \<Rightarrow> u32 \<Rightarrow> u8 list list" where
  "host_keys mem keys spans count = map (\<lambda>i. the (key_at mem keys spans i)) [0..<unat count]"

definition index_holds :: "u8 list \<Rightarrow> u32 \<Rightarrow> u8 list list \<Rightarrow> bool" where
  "index_holds mem r ks \<longleftrightarrow> (\<exists>ip il sp index slots ph. load32 mem (unat r) = Some ip \<and> load32 mem (unat r + 4) = Some il \<and>
    load32 mem (unat r + 8) = Some sp \<and> load32 mem (unat r + 12) = Some (of_nat (length ks)) \<and>
    il = of_nat (length index) \<and> rd_range mem (unat ip) (length index) = Some index \<and>
    length slots = length ks \<and> rd_range mem (unat sp) (4 * length ks) = Some (slots_bytes slots) \<and>
    PerfectHash_init index il = Some ph \<and>
    (\<forall>i<length ks. \<exists>slot. PerfectHash_Locate ph (ks ! i) = Some slot \<and> unat slot < length ks \<and> slots ! unat slot = of_nat i))"

lemma build_result_fields:
  assumes "wr_range xs a (build_result x y z n h) = Some zs"
  shows "load32 zs a = Some x" "load32 zs (a + 4) = Some y" "load32 zs (a + 8) = Some z" "load32 zs (a + 12) = Some n"
proof -
  have z: "a + 20 \<le> length xs" "zs = take a xs @ (bytes_of_word 4 x @ bytes_of_word 4 y @ bytes_of_word 4 z @ bytes_of_word 4 n @ bytes_of_word 4 h) @ drop (a + 20) xs"
    using assms by (simp_all add: wr_range_eq_Some_iff build_result_def del: bytes_of_word_numeral)
  then have "take 4 (drop a zs) = bytes_of_word 4 x" "take 4 (drop (a + 4) zs) = bytes_of_word 4 y"
     "take 4 (drop (a + 8) zs) = bytes_of_word 4 z" "take 4 (drop (a + 12) zs) = bytes_of_word 4 n" "a + 16 \<le> length zs"
    by (simp_all del: bytes_of_word_numeral)
  then show "load32 zs a = Some x" "load32 zs (a + 4) = Some y" "load32 zs (a + 8) = Some z" "load32 zs (a + 12) = Some n"
    by (simp_all add: load32_def byte_simps del: bytes_of_word_numeral)
qed

lemma length_slots_bytes [simp]: "length (slots_bytes slots) = 4 * length slots"
  by (induction slots) (simp_all add: slots_bytes_def del: bytes_of_word_numeral)

lemma rereads_self:
  assumes "rereads po n" "ph_data po = Some index"
  shows "\<exists>ph. PerfectHash_init index (of_nat (length index)) = Some ph \<and> (\<forall>key. PerfectHash_Locate ph key = PerfectHashObject_Locate po key)"
proof -
  have "length index = unat (ph_data_size po)" using assms unfolding rereads_def by blast
  then have "length index \<le> unat (of_nat (length index) :: u32)" by simp
  then show ?thesis using assms unfolding rereads_def by blast
qed

lemma slots_built:
  assumes "indexes po ks" "n = length ks" "n < 2 ^ 28" "\<forall>i<n. key i = Some (ks ! i)"
  obtains slots where "fill_slots po key 0 n (replicate n 0) (replicate n False) = Some (True, slots)" "length slots = n"
    "\<forall>i<n. \<exists>slot. PerfectHashObject_Locate po (ks ! i) = Some slot \<and> unat slot < n \<and> slots ! unat slot = of_nat i"
proof -
  obtain f where f: "bij_betw f {..<n} {..<n}" "\<forall>i<n. PerfectHashObject_Locate po (ks ! i) = Some (of_nat (f i))"
    using assms(1,2) unfolding indexes_def by blast
  have fn: "f i < n" if "i < n" for i using f(1) that by (auto simp: bij_betw_def)
  have "\<exists>slots. fill_slots po key 0 n (replicate n 0) (replicate n False) = Some (True, slots) \<and> length slots = n \<and> (\<forall>i<n. slots ! f i = of_nat i)"
    by (rule fill_slots_spec [OF f(1)]) (use f(2) fn assms(3,4) in auto)
  then obtain slots where s: "fill_slots po key 0 n (replicate n 0) (replicate n False) = Some (True, slots)" "length slots = n" "\<forall>i<n. slots ! f i = of_nat i"
    by blast
  have "unat (of_nat (f i) :: u32) = f i" if "i < n" for i using fn [OF that] assms(3) by (simp add: unat_of_nat)
  then show thesis using that [OF s(1,2)] f(2) s(3) fn by auto
qed

lemma build_index_spec:
  assumes "heap_ok new" "heap_avoids new (unat r) 20" "unat r + 20 \<le> length (memory s)" "unat count < 2 ^ 28"
    and keys: "\<forall>i<unat count. key_at (memory s) keys spans i \<noteq> None"
  shows "\<exists>st s'. build_index new gseed junk keys spans count trust r s = Some (st, s') \<and> g_last_error s' = st \<and> length (memory s) \<le> length (memory s') \<and>
    (st = PC_WASM_OK \<and> index_holds (memory s') r (host_keys (memory s) keys spans count) \<or> st = PC_WASM_OUT_OF_MEMORY \<or> st = PC_WASM_BUILD_FAILED \<and> unat count > 1)"
proof -
  let ?rd = "\<lparr>pk_memory = memory s, pk_keys = keys, pk_spans = spans, pk_count = count, pk_position = 0\<rparr>"
    and ?ks = "host_keys (memory s) keys spans count" and ?n = "unat count"
  have ok: "packed_ok ?rd" "packed_keys ?rd = ?ks" and n: "length ?ks = ?n"
    using keys by (simp_all add: packed_ok_def packed_keys_def host_keys_def)
  have key: "\<forall>i<?n. key_at (memory s) keys spans i = Some (?ks ! i)" using keys by (simp add: host_keys_def)
  obtain po r' where b: "PerfectHashObject_Build packed_reader gseed junk trust ?rd = Some (po, r')"
      "po_buffer po \<noteq> None \<Longrightarrow> indexes po ?ks \<and> rereads po ?n" "?n \<le> 1 \<Longrightarrow> po_buffer po \<noteq> None" "ph_data po = None \<longleftrightarrow> po_buffer po = None"
    using packed.PerfectHashObject_Build_spec [OF ok(1), of gseed junk trust] unfolding ok(2) n by metis
  show ?thesis
  proof (cases "ph_data po")
    case None
    then show ?thesis using b by (fastforce simp: build_index_def Fail_def)
  next
    case (Some index)
    then have ix: "indexes po ?ks" "rereads po ?n" using b by auto
    obtain slots where sl: "fill_slots po (key_at (memory s) keys spans) 0 ?n (replicate ?n 0) (replicate ?n False) = Some (True, slots)" "length slots = ?n"
      "\<forall>i<?n. \<exists>slot. PerfectHashObject_Locate po (?ks ! i) = Some slot \<and> unat slot < ?n \<and> slots ! unat slot = of_nat i"
      using slots_built [OF ix(1) n [symmetric] assms(4) key] by blast
    show ?thesis
    proof (cases "new (memory s) [index, slots_bytes slots]")
      case None
      then show ?thesis using b(1) Some sl(1) by (simp add: build_index_def Fail_def)
    next
      case new: (Some res)
      then obtain mem handle ptrs where new: "new (memory s) [index, slots_bytes slots] = Some (mem, handle, ptrs)" by (cases res) auto
      note h = heap_okD [OF assms(1) new] and a = heap_avoidsD [OF assms(2) new]
      obtain ip sp where p: "ptrs = [ip, sp]" using h(2) by (auto simp: length_Suc_conv)
      have blk: "rd_range mem (unat ip) (length index) = Some index" "apart (unat r) 20 (unat ip) (length index)"
        "rd_range mem (unat sp) (4 * ?n) = Some (slots_bytes slots)" "apart (unat r) 20 (unat sp) (4 * ?n)"
        using h(4) [of 0] h(4) [of 1] a [of 0] a [of 1] p sl(2) by simp_all
      obtain mem' where w: "wr_range mem (unat r) (build_result ip (of_nat (length index)) sp count handle) = Some mem'" "length mem' = length mem"
        using h(1) assms(3) by simp
      obtain ph where ph: "PerfectHash_init index (of_nat (length index)) = Some ph" "\<forall>key. PerfectHash_Locate ph key = PerfectHashObject_Locate po key"
        using rereads_self [OF ix(2) Some] by blast
      have "index_holds mem' r ?ks" unfolding index_holds_def n
        using build_result_fields [OF w(1)] rd_after_wr [OF w(1)] blk ph sl(2,3)
        by (intro exI [of _ ip] exI [of _ "of_nat (length index)"] exI [of _ sp] exI [of _ index] exI [of _ slots] exI [of _ ph]) simp
      then show ?thesis using b(1) Some sl(1) new p w h(1) by (simp add: build_index_def rd_def Let_def)
    qed
  qed
qed

lemma pc_ph_build_eq:
  assumes "ValidateRange (memory s) r 20 4 = PC_WASM_OK" "wr_range (memory s) (unat r) (build_result 0 0 0 0 0) = Some mem"
    and "count \<noteq> 0 \<Longrightarrow> ValidateRange mem keys (ucast keys_len) 8 = PC_WASM_OK" "count \<noteq> 0 \<Longrightarrow> ValidateRange mem spans (ucast count * 8) 4 = PC_WASM_OK"
    and "ValidateInput mem keys keys_len spans count flags = Some PC_WASM_OK"
  shows "pc_ph_build new gseed junk keys keys_len spans count flags r s = build_index new gseed junk keys spans count (flags AND 1 \<noteq> 0) r (s\<lparr>memory := mem\<rparr>)"
  using assms by (cases "count = 0") (simp_all add: pc_ph_build_def Let_def)

lemma ValidateInput_total:
  assumes "count \<noteq> 0 \<Longrightarrow> unat spans + 8 * unat count \<le> length mem"
  shows "\<exists>v. ValidateInput mem keys keys_len spans count flags = Some v"
  using validate_spans_total [of spans 0 "unat count" mem keys_len] assms by (simp add: ValidateInput_def)

lemma ValidateInput_OK:
  assumes "ValidateInput mem keys keys_len spans count flags = Some PC_WASM_OK" "count \<noteq> 0 \<Longrightarrow> unat keys + unat keys_len \<le> length mem"
  shows "unat count < 2 ^ 28" "\<forall>i<unat count. key_at mem keys spans i \<noteq> None"
proof -
  show "unat count < 2 ^ 28" using assms(1) by (simp add: ValidateInput_def all_status word_le_nat_alt split: if_splits)
  show "\<forall>i<unat count. key_at mem keys spans i \<noteq> None"
  proof (intro allI impI)
    fix i assume i: "i < unat count"
    then have "validate_spans mem keys_len spans 0 (unat count) = Some PC_WASM_OK" using assms(1) by (auto simp: ValidateInput_def all_status split: if_splits)
    then obtain off len where sp: "span_at mem spans i = Some (off, len)" "unat off + unat len \<le> unat keys_len"
      using validate_spans_OK [of mem keys_len spans 0 "unat count" i] i by auto
    moreover have "count \<noteq> 0" using i by auto
    ultimately show "key_at mem keys spans i \<noteq> None" using assms(2) by (simp add: key_at_def)
  qed
qed

lemma ValidateRange_values: "ValidateRange mem a len al \<in> {PC_WASM_OK, PC_WASM_INVALID_ARGUMENT, PC_WASM_UNALIGNED, PC_WASM_OUT_OF_BOUNDS}"
  by (simp add: ValidateRange_def Let_def)

lemma validate_spans_values: "validate_spans mem keys_len spans i n = Some v \<Longrightarrow> v \<in> {PC_WASM_OK, PC_WASM_UNALIGNED, PC_WASM_OUT_OF_BOUNDS}"
  by (induction n arbitrary: i) (auto simp: bind_eq_Some_conv split: if_splits)

lemma ValidateInput_values:
  "ValidateInput mem keys keys_len spans count flags = Some v \<Longrightarrow> v \<in> {PC_WASM_OK, PC_WASM_INVALID_ARGUMENT, PC_WASM_UNALIGNED, PC_WASM_OUT_OF_BOUNDS}"
  by (auto simp: ValidateInput_def dest: validate_spans_values split: if_splits)

lemma pc_ph_build_cases:
  assumes "heap_ok new" "heap_avoids new (unat r) 20"
  shows "\<exists>st s'. pc_ph_build new gseed junk keys keys_len spans count flags r s = Some (st, s') \<and> g_last_error s' = st \<and> st \<noteq> PC_WASM_INTERNAL_ERROR \<and>
    (st = PC_WASM_OK \<longrightarrow> (\<exists>mem. wr_range (memory s) (unat r) (build_result 0 0 0 0 0) = Some mem \<and> index_holds (memory s') r (host_keys mem keys spans count)))"
proof (cases "ValidateRange (memory s) r 20 4 = PC_WASM_OK")
  case True
  then have r: "unat r + 20 \<le> length (memory s)" using ValidateRange_OK(2) [OF True] by simp
  then obtain mem where mem: "wr_range (memory s) (unat r) (build_result 0 0 0 0 0) = Some mem" "length mem = length (memory s)" by simp
  let ?vk = "ValidateRange mem keys (ucast keys_len) 8" and ?vs = "ValidateRange mem spans (ucast count * 8) 4"
  show ?thesis
  proof (cases "count \<noteq> 0 \<longrightarrow> ?vk = PC_WASM_OK \<and> ?vs = PC_WASM_OK")
    case v: True
    have c8: "unat (ucast count * 8 :: u64) = 8 * unat count" using unat_lt_exp [of count] by (simp add: unat_word_ariths)
    have in_mem: "count \<noteq> 0 \<Longrightarrow> unat keys + unat keys_len \<le> length mem" "count \<noteq> 0 \<Longrightarrow> unat spans + 8 * unat count \<le> length mem"
      using v ValidateRange_OK(2) [of mem keys "ucast keys_len" 8] ValidateRange_OK(2) [of mem spans "ucast count * 8" 4] by (auto simp: unat_u32_u64 c8)
    obtain w where w: "ValidateInput mem keys keys_len spans count flags = Some w" using ValidateInput_total in_mem(2) by blast
    show ?thesis
    proof (cases "w = PC_WASM_OK")
      case wok: True
      note ok = ValidateInput_OK [OF w [unfolded wok] in_mem(1)]
      have "unat r + 20 \<le> length (memory (s\<lparr>memory := mem\<rparr>))" "\<forall>i<unat count. key_at (memory (s\<lparr>memory := mem\<rparr>)) keys spans i \<noteq> None"
        using r mem(2) ok(2) by simp_all
      from build_index_spec [OF assms this(1) ok(1) this(2), of gseed junk "flags AND 1 \<noteq> 0"] show ?thesis
        using pc_ph_build_eq [OF True mem(1) _ _ w [unfolded wok], of new gseed junk] v mem(1) by (auto simp: all_status)
    next
      case False
      have "w \<noteq> PC_WASM_INTERNAL_ERROR" using ValidateInput_values [OF w] by (auto simp: all_status)
      then show ?thesis using False True mem v w by (cases "count = 0") (simp_all add: pc_ph_build_def Let_def Fail_def)
    qed
  next
    case False
    then show ?thesis using True mem ValidateRange_values [of mem keys "ucast keys_len" 8] ValidateRange_values [of mem spans "ucast count * 8" 4]
      by (auto simp: pc_ph_build_def Let_def Fail_def all_status)
  qed
next
  case False
  then show ?thesis using ValidateRange_values [of "memory s" r 20 4] by (auto simp: pc_ph_build_def Let_def Fail_def all_status)
qed

subsection \<open>A heap\<close>

text \<open>A heap that grows at the end of memory, behind the first 64 bytes, which are left to the host.\<close>

definition bump :: allocator where
  "bump mem blocks =
    (if length mem < 64 \<or> length mem + length (concat blocks) \<ge> 2 ^ 32 then None
     else Some (mem @ concat blocks, of_nat (length mem), map (\<lambda>i. of_nat (length mem + length (concat (take i blocks)))) [0..<length blocks]))"

lemma bump_block:
  assumes "bump mem blocks = Some (mem', handle, ptrs)" "i < length blocks"
  shows "64 \<le> unat (ptrs ! i)" "rd_range mem' (unat (ptrs ! i)) (length (blocks ! i)) = Some (blocks ! i)"
proof -
  let ?o = "length mem + length (concat (take i blocks))"
  have c: "concat blocks = concat (take i blocks) @ blocks ! i @ concat (drop (Suc i) blocks)"
    using id_take_nth_drop [OF assms(2)] by (metis concat_append concat.simps(2))
  have "?o < 2 ^ 32" "64 \<le> ?o" using assms c by (auto simp: bump_def split: if_splits)
  then have u: "unat (of_nat ?o :: u32) = ?o" by (simp only: unat_of_nat) simp
  moreover have p: "ptrs ! i = of_nat ?o" "mem' = mem @ concat blocks" using assms by (auto simp: bump_def split: if_splits)
  ultimately show "64 \<le> unat (ptrs ! i)" "rd_range mem' (unat (ptrs ! i)) (length (blocks ! i)) = Some (blocks ! i)"
    using \<open>64 \<le> ?o\<close> by (simp_all only: p u) (simp add: c)
qed

lemma bump_ok: "heap_ok bump" "a + m \<le> 64 \<Longrightarrow> heap_avoids bump a m"
proof -
  have "length mem \<le> length mem' \<and> length ptrs = length blocks" if "bump mem blocks = Some (mem', handle, ptrs)" for mem blocks mem' handle ptrs
    using that by (auto simp: bump_def split: if_splits)
  then show "heap_ok bump" using bump_block unfolding heap_ok_def by fastforce
  show "heap_avoids bump a m" if "a + m \<le> 64" using bump_block(1) that unfolding heap_avoids_def apart_def by (meson order_trans)
qed

subsection \<open>Properties\<close>

text \<open>
  \<open>pc_compress\<close> and \<open>pc_decompress\<close> are safe for any numbers that the host passes and for any
  contents of memory: they access only memory that exists, and they return with a status, which
  \<open>pc_last_error\<close> repeats.  In particular the validation of the size header excludes the inputs on which
  \<open>Decompress\<close> alone would write outside of its output.
\<close>

theorem wasm_bytes_safe:
  assumes "heap_ok new"
  shows "(\<exists>st s'. pc_compress new p n r s = Some (st, s') \<and> pc_last_error s' = st) \<and>
    (\<exists>st s'. pc_decompress new p n r s = Some (st, s') \<and> pc_last_error s' = st)"
  using TransformBytes_cases [OF assms, of p n r False s] TransformBytes_cases [OF assms, of p n r True s]
  by (auto simp: pc_compress_def pc_decompress_def pc_last_error_def)

text \<open>
  Claim C18: the host can compress a range of memory and decompress the result again.  When
  \<open>pc_compress\<close> has returned OK, decompressing the block that its result describes returns OK as well,
  unless the heap is exhausted, and the second result describes a block with the bytes of the first
  input; provided that the structures of the host do not overlap the blocks.
\<close>

theorem wasm_roundtrip:
  assumes "heap_ok new" "heap_avoids new (unat r) 12" "heap_avoids new (unat r') 12"
    and "rd_range (memory s) (unat p) (unat n) = Some input" "unat n < 2 ^ 32 - 7" "apart (unat r) 12 (unat p) (unat n)"
    and "pc_compress new p n r s = Some (PC_WASM_OK, s1)"
    and "load32 (memory s1) (unat r) = Some q" "load32 (memory s1) (unat r + 4) = Some m"
    and "ValidateRange (memory s1) r' 12 4 = PC_WASM_OK" "apart (unat r') 12 (unat q) (unat m)"
    and "pc_decompress new q m r' s1 = Some (st, s2)"
  shows "st = PC_WASM_OUT_OF_MEMORY \<or> st = PC_WASM_OK \<and> (\<exists>ptr. result_holds (memory s2) r' ptr input)"
proof -
  have v: "ValidateRange (memory s) r 12 4 = PC_WASM_OK" using assms(7) by (auto simp: pc_compress_def TransformBytes_def Fail_def Let_def split: if_splits)
  then obtain mem where mem: "wr_range (memory s) (unat r) (bytes_result 0 0 0) = Some mem" "length mem = length (memory s)" "unat r + 12 \<le> length mem"
    by (rule clear_result)
  have vi: "n \<noteq> 0 \<Longrightarrow> ValidateRange mem p (ucast n) 1 = PC_WASM_OK"
    using assms(7) v mem(1) by (auto simp: pc_compress_def TransformBytes_def Fail_def Let_def split: if_splits)
  have i: "(if n = 0 then Some [] else rd_range mem (unat p) (unat n)) = Some input"
    using rd_after_wr [OF mem(1)] assms(4,6) by (auto simp: rd_range_def split: if_splits)
  have len: "length input < 2 ^ 32 - 7" using assms(4,5) by (auto simp: rd_range_eq_Some_iff)
  obtain data where c: "Compress input = Some data" "Decompress data = Some (True, input)" using restored [OF len] by blast
  have "TransformBytes new p n r False s = deliver new r True data (s\<lparr>memory := mem\<rparr>)"
    by (rule TransformBytes_eq [OF v mem(1) vi i]) (use c in auto)
  then obtain q' where "result_holds (memory s1) r q' data"
    using deliver_OK [OF assms(1,2), of "s\<lparr>memory := mem\<rparr>" data PC_WASM_OK s1] mem(3) assms(7) by (auto simp: pc_compress_def all_status)
  then have q: "m = of_nat (length data)" "length data < 2 ^ 32" "unat m = length data" "data \<noteq> [] \<Longrightarrow> q \<noteq> 0 \<and> rd_range (memory s1) (unat q) (length data) = Some data"
    using assms(8,9) by (auto simp: result_holds_def unat_of_nat)
  obtain mem' where mem': "wr_range (memory s1) (unat r') (bytes_result 0 0 0) = Some mem'" "length mem' = length (memory s1)" "unat r' + 12 \<le> length mem'"
    using assms(10) by (rule clear_result)
  have d: "(if m = 0 then Some [] else rd_range mem' (unat q) (unat m)) = Some data"
    using rd_after_wr [OF mem'(1), of "unat q" "unat m"] assms(11) q by (cases "data = []") (auto simp: unat_eq_0)
  have vq: "ValidateRange mem' q (ucast m) 1 = PC_WASM_OK" if "m \<noteq> 0"
  proof -
    have "data \<noteq> []" using that q(1) by auto
    then have "q \<noteq> 0" "unat q + unat m \<le> length mem'" using q(3,4) mem'(2) by (auto simp: rd_range_eq_Some_iff)
    moreover have "unat (ucast q + ucast m :: u64) = unat q + unat m" using unat_lt_exp [of q] unat_lt_exp [of m] by (simp add: unat_word_ariths)
    ultimately show ?thesis by (simp add: ValidateRange_def word_less_nat_alt)
  qed
  have "TransformBytes new q m r' True s1 = deliver new r' True input (s1\<lparr>memory := mem'\<rparr>)"
    by (rule TransformBytes_eq [OF assms(10) mem'(1) vq d]) (use c compressed_header [OF len] in auto)
  then show ?thesis using deliver_OK [OF assms(1,3), of "s1\<lparr>memory := mem'\<rparr>" input st s2] mem'(3) assms(12) by (simp add: pc_decompress_def)
qed


text \<open>Witnesses: memory of 72 bytes, results at 16 and 32, the three bytes of the input at 64.\<close>

definition host :: Wasm where
  "host = \<lparr>memory = replicate 64 0 @ [5, 0, 0, 0, 0, 0, 0, 0], g_last_error = 0\<rparr>"

theorem wasm_bytes_safe_witness:
  "heap_ok bump \<and> (\<exists>st s'. pc_compress bump 64 3 16 host = Some (st, s') \<and> pc_last_error s' = st)"
  using wasm_bytes_safe [OF bump_ok(1), of 64 3 16 host] bump_ok(1) by blast


definition compressed_host :: Wasm where
  "compressed_host = \<lparr>memory = replicate 16 0 @ [72, 0, 0, 0, 3, 0, 0, 0, 72, 0, 0, 0] @ replicate 36 0 @ [5, 0, 0, 0, 0, 0, 0, 0, 3, 0x91, 5], g_last_error = 0\<rparr>"

lemma host_compresses: "pc_compress bump 64 3 16 host = Some (PC_WASM_OK, compressed_host)"
proof -
  have b: "bump (memory host) [[3, 0x91, 5]] = Some (memory host @ [3, 0x91, 5], 72, [72])" by (simp add: host_def bump_def)
  have d: "deliver bump 16 True [3, 0x91, 5] host = Some (PC_WASM_OK, compressed_host)"
    by (simp add: deliver_def b all_status bytes_result_def) (simp add: host_def compressed_host_def numeral_eq_Suc)
  have c: "Compress [5, 0, 0] = Some [3, 0x91, 5]" by code_simp
  have "TransformBytes bump 64 3 16 False host = deliver bump 16 True [3, 0x91, 5] (host\<lparr>memory := memory host\<rparr>)"
  proof (rule TransformBytes_eq [where input = "[5, 0, 0]"])
    show "wr_range (memory host) (unat (16 :: u32)) (bytes_result 0 0 0) = Some (memory host)"
      by (simp add: host_def wr_range_def bytes_result_def) (simp add: numeral_eq_Suc)
  qed (simp_all add: c host_def ValidateRange_def)
  then show ?thesis using d by (simp add: pc_compress_def)
qed

theorem wasm_roundtrip_witness:
  "\<exists>st s2. pc_compress bump 64 3 16 host = Some (PC_WASM_OK, compressed_host) \<and> pc_decompress bump 72 3 32 compressed_host = Some (st, s2) \<and>
    (st = PC_WASM_OUT_OF_MEMORY \<or> st = PC_WASM_OK \<and> (\<exists>ptr. result_holds (memory s2) 32 ptr [5, 0, 0]))"
proof -
  obtain st s2 where d: "pc_decompress bump 72 3 32 compressed_host = Some (st, s2)"
    using TransformBytes_cases [OF bump_ok(1), of 72 3 32 True compressed_host] by (auto simp: pc_decompress_def)
  have "st = PC_WASM_OUT_OF_MEMORY \<or> st = PC_WASM_OK \<and> (\<exists>ptr. result_holds (memory s2) 32 ptr [5, 0, 0])"
  proof (rule wasm_roundtrip [OF bump_ok(1) _ _ _ _ _ host_compresses _ _ _ _ d])
    show "heap_avoids bump (unat (16 :: u32)) 12" "heap_avoids bump (unat (32 :: u32)) 12" by (rule bump_ok(2), simp)+
    show "rd_range (memory host) (unat (64 :: u32)) (unat (3 :: u32)) = Some [5, 0, 0]" by (simp add: host_def)
    show "load32 (memory compressed_host) (unat (16 :: u32)) = Some 72" "load32 (memory compressed_host) (unat (16 :: u32) + 4) = Some 3"
      by (simp_all add: compressed_host_def load32_def)
  qed (simp_all add: apart_def compressed_host_def ValidateRange_def)
  then show ?thesis using host_compresses d by blast
qed

end
