(* ===== verification/Schema.thy ===== *)
theory Schema
  imports Main
begin

text \<open>
  The data of protobuf schemas, as far as the sources read it: the messages of descriptor.proto with the
  fields that src/extension/reflection.cc and tools/proto-gen-utils.h use.  An optional field that may be
  unset is an option; what a getter returns then is the default of descriptor.proto.
\<close>

datatype ptype = TYPE_DOUBLE | TYPE_FLOAT | TYPE_INT64 | TYPE_UINT64 | TYPE_INT32 | TYPE_FIXED64 | TYPE_FIXED32 | TYPE_BOOL
  | TYPE_STRING | TYPE_GROUP | TYPE_MESSAGE | TYPE_BYTES | TYPE_UINT32 | TYPE_ENUM | TYPE_SFIXED32 | TYPE_SFIXED64 | TYPE_SINT32 | TYPE_SINT64

text \<open>An uninterpreted option: the parts of its name, and its value when that is a string.\<close>

record UninterpretedOption =
  o_name :: "string list"
  o_string :: "string option"

record FieldDescriptorProto =
  f_name :: string
  f_number :: int
  f_repeated :: bool
  f_type :: "ptype option"
  f_type_name :: string
  f_deprecated :: bool
  f_options :: "UninterpretedOption list"

text \<open>\<open>type()\<close> of a field without a type is the first value of the enumeration.\<close>

definition type_of :: "FieldDescriptorProto \<Rightarrow> ptype" where
  "type_of f = (case f_type f of None \<Rightarrow> TYPE_DOUBLE | Some t \<Rightarrow> t)"

record EnumDescriptorProto =
  e_name :: string
  e_deprecated :: bool

datatype DescriptorProto = DescriptorProto
  (d_name: string) (d_field: "FieldDescriptorProto list") (d_nested: "DescriptorProto list") (d_enum: "EnumDescriptorProto list")
  (d_map_entry: bool) (d_deprecated: bool) (d_options: "UninterpretedOption list")

record FileDescriptorProto =
  fd_name :: string
  fd_package :: string
  fd_enum :: "EnumDescriptorProto list"
  fd_message :: "DescriptorProto list"

end
