(* ===== verification/Reflection.thy ===== *)
theory Reflection
  imports Schema "HOL-Library.Monad_Syntax" "HOL-Library.Word"
begin

text \<open>
  The descriptor pool of include/protocache/extension/reflection.h and src/extension/reflection.cc: it
  collects the messages of parsed schema files and binds the type names of their fields.  The
  \<open>unordered_map\<close>s are lists of pairs with distinct keys, in the order in which the program happens to
  iterate over them; a pointer to a descriptor of the pool is the name of that descriptor.  \<open>None\<close> is an
  access to a field that a message does not have.
\<close>

subsection \<open>Data\<close>

datatype Type = RTYPE_NONE | RTYPE_MESSAGE | RTYPE_BYTES | RTYPE_STRING | RTYPE_DOUBLE | RTYPE_FLOAT | RTYPE_UINT64 | RTYPE_UINT32
  | RTYPE_INT64 | RTYPE_INT32 | RTYPE_BOOL | RTYPE_ENUM | RTYPE_UNKNOWN

record RField =
  r_id :: "32 word"
  r_repeated :: bool
  r_key :: Type
  r_value :: Type
  r_value_type :: string
  r_value_descriptor :: "string option"
  r_tags :: "string \<rightharpoonup> string"

definition UINT_MAX :: "32 word" where
  "UINT_MAX = - 1"

definition field_init :: RField where
  "field_init = \<lparr>r_id = UINT_MAX, r_repeated = False, r_key = RTYPE_NONE, r_value = RTYPE_NONE, r_value_type = [],
    r_value_descriptor = None, r_tags = Map.empty\<rparr>"

definition IsMap :: "RField \<Rightarrow> bool" where
  "IsMap f \<longleftrightarrow> r_key f \<noteq> RTYPE_NONE"

record RDescriptor =
  x_alias :: RField
  x_fields :: "(string \<times> RField) list"
  x_tags :: "string \<rightharpoonup> string"

definition IsAlias :: "RDescriptor \<Rightarrow> bool" where
  "IsAlias d \<longleftrightarrow> r_value (x_alias d) \<noteq> RTYPE_NONE"

record DescriptorPool =
  p_enum :: "string list"
  p_pool :: "(string \<times> RDescriptor) list"

definition empty_pool :: DescriptorPool where
  "empty_pool = \<lparr>p_enum = [], p_pool = []\<rparr>"

subsection \<open>Conversions\<close>

definition Fullname :: "string \<Rightarrow> string \<Rightarrow> string" where
  "Fullname ns name = (if ns = [] then name else ns @ ''.'' @ name)"

fun CollectTags :: "UninterpretedOption list \<Rightarrow> (string \<rightharpoonup> string) \<Rightarrow> (string \<rightharpoonup> string)" where
  "CollectTags [] tags = tags"
| "CollectTags (one # options) tags =
    CollectTags options
      (case (o_name one, o_string one) of
         ([n], Some v) \<Rightarrow> if tags n = None then tags(n \<mapsto> v) else tags
       | _ \<Rightarrow> tags)"

definition ConvertType :: "FieldDescriptorProto \<Rightarrow> Type" where
  "ConvertType f =
    (case f_type f of
       None \<Rightarrow> RTYPE_UNKNOWN
     | Some t \<Rightarrow>
         (case t of
            TYPE_MESSAGE \<Rightarrow> RTYPE_MESSAGE
          | TYPE_BYTES \<Rightarrow> RTYPE_BYTES
          | TYPE_STRING \<Rightarrow> RTYPE_STRING
          | TYPE_DOUBLE \<Rightarrow> RTYPE_DOUBLE
          | TYPE_FLOAT \<Rightarrow> RTYPE_FLOAT
          | TYPE_FIXED64 \<Rightarrow> RTYPE_UINT64
          | TYPE_UINT64 \<Rightarrow> RTYPE_UINT64
          | TYPE_FIXED32 \<Rightarrow> RTYPE_UINT32
          | TYPE_UINT32 \<Rightarrow> RTYPE_UINT32
          | TYPE_SFIXED64 \<Rightarrow> RTYPE_INT64
          | TYPE_SINT64 \<Rightarrow> RTYPE_INT64
          | TYPE_INT64 \<Rightarrow> RTYPE_INT64
          | TYPE_SFIXED32 \<Rightarrow> RTYPE_INT32
          | TYPE_SINT32 \<Rightarrow> RTYPE_INT32
          | TYPE_INT32 \<Rightarrow> RTYPE_INT32
          | TYPE_BOOL \<Rightarrow> RTYPE_BOOL
          | TYPE_ENUM \<Rightarrow> RTYPE_ENUM
          | TYPE_GROUP \<Rightarrow> RTYPE_NONE))"

definition CanBeKey :: "Type \<Rightarrow> bool" where
  "CanBeKey t \<longleftrightarrow> t \<in> {RTYPE_STRING, RTYPE_UINT64, RTYPE_UINT32, RTYPE_INT64, RTYPE_INT32}"

subsection \<open>Binding of type names\<close>

definition bind_type :: "DescriptorPool \<Rightarrow> string \<Rightarrow> RField \<Rightarrow> RField option" where
  "bind_type P name field =
    (if name \<in> set (p_enum P) then Some (field\<lparr>r_value := RTYPE_ENUM, r_value_type := []\<rparr>)
     else if map_of (p_pool P) name \<noteq> None then Some (field\<lparr>r_value := RTYPE_MESSAGE, r_value_type := name, r_value_descriptor := Some name\<rparr>)
     else None)"

text \<open>\<open>rfind('.')\<close>: the position of the last dot.\<close>

fun rfind_dot :: "string \<Rightarrow> nat option" where
  "rfind_dot [] = None"
| "rfind_dot (c # s) =
    (case rfind_dot s of Some p \<Rightarrow> Some (Suc p) | None \<Rightarrow> if c = CHR ''.'' then Some 0 else None)"

lemma rfind_dot_less: "rfind_dot s = Some p \<Longrightarrow> p < length s"
  by (induction s arbitrary: p) (auto split: option.splits if_splits)

text \<open>The loop over the enclosing scopes, from the inner to the outer ones.\<close>

function scope_loop :: "DescriptorPool \<Rightarrow> string \<Rightarrow> RField \<Rightarrow> RField option" where
  "scope_loop P name field =
    (case rfind_dot name of
       None \<Rightarrow> None
     | Some pos \<Rightarrow>
         (case bind_type P (take (pos + 1) name @ r_value_type field) field of
            Some f \<Rightarrow> Some f
          | None \<Rightarrow> scope_loop P (take pos name) field))"
  by pat_completeness auto
termination
  by (relation "measure (\<lambda>(P, name, field). length name)") (auto dest: rfind_dot_less)

declare scope_loop.simps [simp del]

text \<open>\<open>check_type\<close>: the field with its type bound, or \<open>None\<close> where the source returns false.\<close>

definition check_type :: "DescriptorPool \<Rightarrow> string \<Rightarrow> RField \<Rightarrow> RField option" where
  "check_type P fullname field =
    (if r_value field \<noteq> RTYPE_UNKNOWN then Some field
     else if r_value_type field = [] then None
     else
       (case bind_type P (r_value_type field) field of
          Some f \<Rightarrow> Some f
        | None \<Rightarrow>
            let name = Fullname fullname (r_value_type field) in
            (case bind_type P name field of
               Some f \<Rightarrow> Some f
             | None \<Rightarrow> scope_loop P (take (length fullname) name) field)))"

text \<open>The fields before the first one that cannot be bound stay bound when the loop gives up.\<close>

fun check_fields :: "DescriptorPool \<Rightarrow> string \<Rightarrow> (string \<times> RField) list \<Rightarrow> bool \<times> (string \<times> RField) list" where
  "check_fields P fullname [] = (True, [])"
| "check_fields P fullname ((n, field) # flds) =
    (case check_type P fullname field of
       None \<Rightarrow> (False, (n, field) # flds)
     | Some f \<Rightarrow> (let (ok, fs) = check_fields P fullname flds in (ok, (n, f) # fs)))"

definition FixUnknownType :: "DescriptorPool \<Rightarrow> string \<Rightarrow> RDescriptor \<Rightarrow> bool \<times> RDescriptor" where
  "FixUnknownType P fullname descriptor =
    (if IsAlias descriptor then
       (case check_type P fullname (x_alias descriptor) of
          None \<Rightarrow> (False, descriptor)
        | Some f \<Rightarrow> (True, descriptor\<lparr>x_alias := f\<rparr>))
     else (let (ok, fs) = check_fields P fullname (x_fields descriptor) in (ok, descriptor\<lparr>x_fields := fs\<rparr>)))"

subsection \<open>Lookup\<close>

definition set_id :: "32 word \<Rightarrow> RDescriptor \<Rightarrow> RDescriptor" where
  "set_id i d = d\<lparr>x_alias := (x_alias d)\<lparr>r_id := i\<rparr>\<rparr>"

fun put :: "string \<Rightarrow> RDescriptor \<Rightarrow> (string \<times> RDescriptor) list \<Rightarrow> (string \<times> RDescriptor) list" where
  "put n d [] = []"
| "put n d ((m, e) # ps) = (if m = n then (m, d) # ps else (m, e) # put n d ps)"

text \<open>\<open>Find\<close>: the name of the descriptor it returns, and the pool it leaves.\<close>

definition Find :: "string \<Rightarrow> DescriptorPool \<Rightarrow> RDescriptor option \<times> DescriptorPool" where
  "Find fullname P =
    (case map_of (p_pool P) fullname of
       None \<Rightarrow> (None, P)
     | Some d \<Rightarrow>
         if r_id (x_alias d) = 0 then (Some d, P)
         else if r_id (x_alias d) \<noteq> UINT_MAX then (None, P)
         else
           let d = set_id (UINT_MAX - 1) d;
               (ok, d) = FixUnknownType P fullname d;
               d = (if ok then set_id 0 d else d)
           in (if ok then Some d else None, P\<lparr>p_pool := put fullname d (p_pool P)\<rparr>))"

subsection \<open>Registration\<close>

definition add_enums :: "string \<Rightarrow> EnumDescriptorProto list \<Rightarrow> string list \<Rightarrow> string list" where
  "add_enums ns es enums = fold (\<lambda>one enums. if e_deprecated one then enums else List.insert (Fullname ns (e_name one)) enums) es enums"

text \<open>\<open>convert_field\<close> with the map entries of the message; the flag is its result.\<close>

definition convert_field :: "(string \<rightharpoonup> DescriptorProto) \<Rightarrow> FieldDescriptorProto \<Rightarrow> RField \<Rightarrow> (bool \<times> RField) option" where
  "convert_field map_entries src out = do {
     let out = out\<lparr>r_repeated := f_repeated src, r_value := ConvertType src\<rparr>;
     if r_value out = RTYPE_NONE then Some (False, out)
     else if r_value out = RTYPE_MESSAGE \<or> r_value out = RTYPE_UNKNOWN then
       (case map_entries (f_type_name src) of
          Some e \<Rightarrow>
            (case d_field e of
               k # v # _ \<Rightarrow>
                 let out = out\<lparr>r_key := ConvertType k, r_value := ConvertType v\<rparr> in
                 if \<not> CanBeKey (r_key out) \<or> r_value out = RTYPE_NONE then Some (False, out)
                 else Some (True, out\<lparr>r_value_type := f_type_name v, r_tags := CollectTags (f_options src) Map.empty\<rparr>)
             | _ \<Rightarrow> None)
        | None \<Rightarrow> Some (True, out\<lparr>r_value_type := f_type_name src, r_tags := CollectTags (f_options src) Map.empty\<rparr>))
     else Some (True, out\<lparr>r_tags := CollectTags (f_options src) Map.empty\<rparr>)
   }"

text \<open>\<open>descriptor.fields[name]\<close> creates a field that is not there yet.\<close>

fun convert_fields :: "(string \<rightharpoonup> DescriptorProto) \<Rightarrow> FieldDescriptorProto list \<Rightarrow> (string \<times> RField) list \<Rightarrow> (string \<times> RField) list option option" where
  "convert_fields map_entries [] flds = Some (Some flds)"
| "convert_fields map_entries (one # rest) flds =
    (if f_deprecated one then convert_fields map_entries rest flds
     else
       let old = (case map_of flds (f_name one) of None \<Rightarrow> field_init | Some f \<Rightarrow> f) in
       if f_number one \<le> 0 then Some None
       else do {
         (ok, f) \<leftarrow> convert_field map_entries one (old\<lparr>r_id := of_int (f_number one - 1)\<rparr>);
         if \<not> ok then Some None
         else convert_fields map_entries rest
           (if map_of flds (f_name one) = None then flds @ [(f_name one, f)]
            else map (\<lambda>(n, g). (n, if n = f_name one then f else g)) flds)
       })"

definition make_descriptor :: "(string \<rightharpoonup> DescriptorProto) \<Rightarrow> DescriptorProto \<Rightarrow> RDescriptor option option" where
  "make_descriptor map_entries proto =
    (let tags = CollectTags (d_options proto) Map.empty in
     case d_field proto of
       [f] \<Rightarrow>
         if f_name f = ''_'' then do {
           (ok, a) \<leftarrow> convert_field map_entries f field_init;
           Some (if ok then Some \<lparr>x_alias = a, x_fields = [], x_tags = tags\<rparr> else None)
         }
         else do {
           r \<leftarrow> convert_fields map_entries [f] [];
           Some (map_option (\<lambda>fs. \<lparr>x_alias = field_init, x_fields = fs, x_tags = tags\<rparr>) r)
         }
     | fs \<Rightarrow> do {
         r \<leftarrow> convert_fields map_entries fs [];
         Some (map_option (\<lambda>fs. \<lparr>x_alias = field_init, x_fields = fs, x_tags = tags\<rparr>) r)
       })"

text \<open>
  \<open>Register\<close> for a message: its enumerations, its nested messages, and the message itself unless the name is
  taken.  The flag is the result of the source; what was registered before a failure stays.
\<close>

fun Register_message :: "string \<Rightarrow> DescriptorProto \<Rightarrow> DescriptorPool \<Rightarrow> (bool \<times> DescriptorPool) option"
  and register_nested :: "string \<Rightarrow> DescriptorProto list \<Rightarrow> (string \<rightharpoonup> DescriptorProto) \<Rightarrow> DescriptorPool \<Rightarrow>
    ((string \<rightharpoonup> DescriptorProto) option \<times> DescriptorPool) option" where
  "Register_message ns (DescriptorProto name flds nested enums entry depr options) P = do {
     let fullname = Fullname ns name;
     let P = P\<lparr>p_enum := add_enums fullname enums (p_enum P)\<rparr>;
     (r, P) \<leftarrow> register_nested fullname nested Map.empty P;
     (case r of
        None \<Rightarrow> Some (False, P)
      | Some map_entries \<Rightarrow> do {
          d \<leftarrow> make_descriptor map_entries (DescriptorProto name flds nested enums entry depr options);
          (case d of
             None \<Rightarrow> Some (False, P)
           | Some d \<Rightarrow>
               if map_of (p_pool P) fullname = None then Some (True, P\<lparr>p_pool := p_pool P @ [(fullname, d)]\<rparr>)
               else Some (False, P))
        })
   }"
| "register_nested fullname [] map_entries P = Some (Some map_entries, P)"
| "register_nested fullname (one # rest) map_entries P =
    (if d_deprecated one then register_nested fullname rest map_entries P
     else if d_map_entry one then
       register_nested fullname rest (if map_entries (d_name one) = None then map_entries(d_name one \<mapsto> one) else map_entries) P
     else do {
       (ok, P) \<leftarrow> Register_message fullname one P;
       if \<not> ok then Some (None, P) else register_nested fullname rest map_entries P
     })"

fun register_messages :: "string \<Rightarrow> DescriptorProto list \<Rightarrow> DescriptorPool \<Rightarrow> (bool \<times> DescriptorPool) option" where
  "register_messages ns [] P = Some (True, P)"
| "register_messages ns (one # rest) P =
    (if d_deprecated one then register_messages ns rest P
     else do {
       (ok, P) \<leftarrow> Register_message ns one P;
       if \<not> ok then Some (False, P) else register_messages ns rest P
     })"

text \<open>The descriptors that are not resolved yet are tried again.\<close>

definition resolve_one :: "DescriptorPool \<Rightarrow> string \<times> RDescriptor \<Rightarrow> string \<times> RDescriptor" where
  "resolve_one P = (\<lambda>(name, d).
    if r_id (x_alias d) = 0 then (name, d)
    else (let (ok, d) = FixUnknownType P name d in (name, if ok then set_id 0 d else d)))"

definition resolve_all :: "DescriptorPool \<Rightarrow> DescriptorPool" where
  "resolve_all P = P\<lparr>p_pool := map (resolve_one P) (p_pool P)\<rparr>"

definition Register :: "FileDescriptorProto \<Rightarrow> DescriptorPool \<Rightarrow> (bool \<times> DescriptorPool) option" where
  "Register proto P = do {
     let P = P\<lparr>p_enum := add_enums (fd_package proto) (fd_enum proto) (p_enum P)\<rparr>;
     (ok, P) \<leftarrow> register_messages (fd_package proto) (fd_message proto) P;
     if \<not> ok then Some (False, P) else Some (True, resolve_all P)
   }"

end
