(* ===== verification/ReflectionSafe.thy ===== *)
theory ReflectionSafe
  imports Reflection
begin

text \<open>
  The descriptor pool: the order in which a type name is looked up, the invariant of the pool over any
  sequence of calls, and that a successful registration resolves all that can be resolved.
\<close>

subsection \<open>The order of the scopes\<close>

definition known :: "DescriptorPool \<Rightarrow> string \<Rightarrow> bool" where
  "known P name \<longleftrightarrow> name \<in> set (p_enum P) \<or> map_of (p_pool P) name \<noteq> None"

text \<open>The scopes around a name: its prefixes before a dot, from the longest to the shortest.\<close>

definition outer_scopes :: "string \<Rightarrow> string list" where
  "outer_scopes s = map (\<lambda>i. take i s) (filter (\<lambda>i. s ! i = CHR ''.'') (rev [0..<length s]))"

definition candidates :: "string \<Rightarrow> string \<Rightarrow> string list" where
  "candidates fullname T = T # Fullname fullname T # map (\<lambda>scope. scope @ ''.'' @ T) (outer_scopes fullname)"

lemma bind_type_known: "bind_type P n f = None \<longleftrightarrow> \<not> known P n"
  by (auto simp: bind_type_def known_def)

lemma rfind_dot_None: "rfind_dot s = None \<longleftrightarrow> CHR ''.'' \<notin> set s"
  by (induction s) (auto split: option.splits)

lemma rfind_dot_Some: "rfind_dot s = Some p \<Longrightarrow> p < length s \<and> s ! p = CHR ''.'' \<and> (\<forall>i. p < i \<and> i < length s \<longrightarrow> s ! i \<noteq> CHR ''.'')"
proof (induction s arbitrary: p)
  case (Cons c s)
  show ?case
  proof (cases "rfind_dot s")
    case None
    then have "CHR ''.'' \<notin> set s" by (simp add: rfind_dot_None)
    then show ?thesis using Cons.prems None by (auto simp: nth_Cons' in_set_conv_nth split: if_splits)
  next
    case (Some q)
    note q = Cons.IH [OF Some]
    have "s ! (i - 1) \<noteq> CHR ''.''" if "Suc q < i" "i < Suc (length s)" for i
    proof -
      have "q < i - 1" "i - 1 < length s" using that by simp_all
      then show ?thesis using q by blast
    qed
    then show ?thesis using q Cons.prems Some by (auto simp: nth_Cons')
  qed
qed simp

lemma outer_scopes_rfind:
  "outer_scopes s = (case rfind_dot s of None \<Rightarrow> [] | Some p \<Rightarrow> take p s # outer_scopes (take p s))"
proof (cases "rfind_dot s")
  case None
  then have "\<forall>i<length s. s ! i \<noteq> CHR ''.''" by (metis nth_mem rfind_dot_None)
  then show ?thesis using None by (simp add: outer_scopes_def filter_empty_conv)
next
  case (Some p)
  note p = rfind_dot_Some [OF Some]
  have "[0..<length s] = [0..<p] @ p # [Suc p..<length s]" using p upt_add_eq_append [of 0 p "length s - p"] by (simp add: upt_conv_Cons)
  moreover have "filter (\<lambda>i. s ! i = CHR ''.'') [Suc p..<length s] = []" using p by (auto simp: filter_empty_conv)
  ultimately have "filter (\<lambda>i. s ! i = CHR ''.'') (rev [0..<length s]) = p # filter (\<lambda>i. s ! i = CHR ''.'') (rev [0..<p])"
    using p by (simp flip: rev_filter)
  moreover have "filter (\<lambda>i. s ! i = CHR ''.'') (rev [0..<p]) = filter (\<lambda>i. take p s ! i = CHR ''.'') (rev [0..<p])" by (intro filter_cong) auto
  moreover have "map (\<lambda>i. take i s) (filter q (rev [0..<p])) = map (\<lambda>i. take i (take p s)) (filter q (rev [0..<p]))" for q by (intro map_cong) auto
  ultimately show ?thesis using Some p by (simp add: outer_scopes_def min_absorb2)
qed

lemma scope_loop_find:
  "scope_loop P name f = (case find (known P) (map (\<lambda>scope. scope @ ''.'' @ r_value_type f) (outer_scopes name)) of None \<Rightarrow> None | Some c \<Rightarrow> bind_type P c f)"
proof (induction P name f rule: scope_loop.induct)
  case (1 P name f)
  show ?case
  proof (cases "rfind_dot name")
    case None
    then show ?thesis by (simp add: scope_loop.simps [of P name] outer_scopes_rfind [of name])
  next
    case (Some p)
    note q = rfind_dot_Some [OF Some]
    have c: "take (p + 1) name @ r_value_type f = take p name @ ''.'' @ r_value_type f" using q by (simp add: take_Suc_conv_app_nth)
    show ?thesis
    proof (cases "known P (take p name @ ''.'' @ r_value_type f)")
      case True
      then obtain g where "bind_type P (take p name @ ''.'' @ r_value_type f) f = Some g" using bind_type_known by (metis not_None_eq)
      then show ?thesis using Some c True by (simp add: scope_loop.simps [of P name] outer_scopes_rfind [of name])
    next
      case False
      then have n: "bind_type P (take p name @ ''.'' @ r_value_type f) f = None" by (simp add: bind_type_known)
      then show ?thesis using 1 [OF Some] Some c False by (simp add: scope_loop.simps [of P name] outer_scopes_rfind [of name])
    qed
  qed
qed

lemma check_type_find:
  assumes "r_value f = RTYPE_UNKNOWN" "r_value_type f \<noteq> []"
  shows "check_type P fullname f = (case find (known P) (candidates fullname (r_value_type f)) of None \<Rightarrow> None | Some c \<Rightarrow> bind_type P c f)"
proof -
  have "take (length fullname) (Fullname fullname (r_value_type f)) = fullname" by (simp add: Fullname_def)
  moreover have "known P n \<Longrightarrow> \<exists>g. bind_type P n f = Some g" for n using bind_type_known by (metis not_None_eq)
  moreover have "\<not> known P n \<Longrightarrow> bind_type P n f = None" for n by (simp add: bind_type_known)
  ultimately show ?thesis using assms scope_loop_find [of P fullname f]
    by (cases "known P (r_value_type f)"; cases "known P (Fullname fullname (r_value_type f))") (force simp: check_type_def candidates_def Let_def)+
qed

lemma check_type_cases:
  assumes "check_type P n f = Some g"
  obtains "r_value f \<noteq> RTYPE_UNKNOWN" "g = f" | c where "r_value f = RTYPE_UNKNOWN" "bind_type P c f = Some g"
proof (cases "r_value f = RTYPE_UNKNOWN \<and> r_value_type f \<noteq> []")
  case True
  then show thesis using assms check_type_find [of f P n] that(2) by (auto split: option.splits)
next
  case False
  then show thesis using assms that(1) by (auto simp: check_type_def split: if_splits)
qed

text \<open>
  Claim C21: the lookup of a type name.  A field whose type is not known yet is bound by the first name of
  the list that the schema and the pool know: the type name as it is written, the type name in the scope
  of the message itself, and in the scopes around the message from the inner to the outer ones; as an
  enumeration if the name is one, as a message otherwise; and it stays unbound if none of them is known.
\<close>

theorem type_lookup_order:
  "check_type P fullname f =
    (if r_value f \<noteq> RTYPE_UNKNOWN then Some f
     else if r_value_type f = [] then None
     else
       (case find (known P) (candidates fullname (r_value_type f)) of
          None \<Rightarrow> None
        | Some c \<Rightarrow>
            Some (if c \<in> set (p_enum P) then f\<lparr>r_value := RTYPE_ENUM, r_value_type := []\<rparr>
                  else f\<lparr>r_value := RTYPE_MESSAGE, r_value_type := c, r_value_descriptor := Some c\<rparr>)))"
proof -
  have b: "bind_type P c f = Some (if c \<in> set (p_enum P) then f\<lparr>r_value := RTYPE_ENUM, r_value_type := []\<rparr>
      else f\<lparr>r_value := RTYPE_MESSAGE, r_value_type := c, r_value_descriptor := Some c\<rparr>)" if "find (known P) xs = Some c" for c xs
    using that by (auto simp: find_Some_iff bind_type_def known_def)
  show ?thesis
  proof (cases "r_value f = RTYPE_UNKNOWN \<and> r_value_type f \<noteq> []")
    case True
    then show ?thesis using check_type_find [of f P fullname] b by (auto split: option.splits)
  qed (auto simp: check_type_def)
qed

subsection \<open>The invariant of the pool\<close>

text \<open>A pointer to a descriptor points into the pool, at the message the field names.\<close>

definition field_ok :: "DescriptorPool \<Rightarrow> RField \<Rightarrow> bool" where
  "field_ok P f \<longleftrightarrow> r_value f \<noteq> RTYPE_NONE \<and>
    (\<forall>n. r_value_descriptor f = Some n \<longrightarrow> r_value f = RTYPE_MESSAGE \<and> r_value_type f = n \<and> map_of (p_pool P) n \<noteq> None)"

text \<open>The fields of a descriptor, the alias included when it is one.\<close>

definition fields_of :: "RDescriptor \<Rightarrow> RField list" where
  "fields_of d = (if IsAlias d then [x_alias d] else map snd (x_fields d))"

definition bound :: "RDescriptor \<Rightarrow> bool" where
  "bound d \<longleftrightarrow> (\<forall>f\<in>set (fields_of d). r_value f \<noteq> RTYPE_UNKNOWN)"

definition desc_ok :: "DescriptorPool \<Rightarrow> RDescriptor \<Rightarrow> bool" where
  "desc_ok P d \<longleftrightarrow> (\<forall>f\<in>set (fields_of d). field_ok P f) \<and> (r_id (x_alias d) = 0 \<longrightarrow> bound d)"

definition pool_ok :: "DescriptorPool \<Rightarrow> bool" where
  "pool_ok P \<longleftrightarrow> distinct (map fst (p_pool P)) \<and> (\<forall>(n, d)\<in>set (p_pool P). desc_ok P d)"

text \<open>Only the names of the pool matter for the fields of a descriptor.\<close>

definition grows :: "DescriptorPool \<Rightarrow> DescriptorPool \<Rightarrow> bool" where
  "grows P Q \<longleftrightarrow> (\<forall>n. map_of (p_pool P) n \<noteq> None \<longrightarrow> map_of (p_pool Q) n \<noteq> None)"

lemma grows_refl [simp]: "grows P P"
  by (simp add: grows_def)

lemma grows_trans: "grows P Q \<Longrightarrow> grows Q R \<Longrightarrow> grows P R"
  by (simp add: grows_def)

lemma field_ok_grows: "field_ok P f \<Longrightarrow> grows P Q \<Longrightarrow> field_ok Q f"
  by (auto simp: field_ok_def grows_def)

lemma desc_ok_grows: "desc_ok P d \<Longrightarrow> grows P Q \<Longrightarrow> desc_ok Q d"
  using field_ok_grows by (auto simp: desc_ok_def)

lemma bind_type_ok: "field_ok P f \<Longrightarrow> r_value f = RTYPE_UNKNOWN \<Longrightarrow> bind_type P n f = Some g \<Longrightarrow> field_ok P g \<and> r_value g \<noteq> RTYPE_UNKNOWN"
  by (auto simp: bind_type_def field_ok_def split: if_splits)

lemma check_type_ok:
  assumes "check_type P n f = Some g" "field_ok P f"
  shows "field_ok P g" "r_value g \<noteq> RTYPE_UNKNOWN" "r_value g \<noteq> RTYPE_NONE"
proof -
  have "field_ok P g \<and> r_value g \<noteq> RTYPE_UNKNOWN"
    using assms(1) by (rule check_type_cases) (use bind_type_ok [OF assms(2)] assms(2) in auto)
  then show "field_ok P g" "r_value g \<noteq> RTYPE_UNKNOWN" "r_value g \<noteq> RTYPE_NONE" by (auto simp: field_ok_def)
qed

lemma check_type_id: "check_type P n f = Some g \<Longrightarrow> r_id g = r_id f"
  by (erule check_type_cases) (auto simp: bind_type_def split: if_splits)

lemma check_fields_ok:
  "check_fields P n fs = (ok, gs) \<Longrightarrow> \<forall>f\<in>set (map snd fs). field_ok P f \<Longrightarrow>
    (\<forall>g\<in>set (map snd gs). field_ok P g) \<and> (ok \<longrightarrow> (\<forall>g\<in>set (map snd gs). r_value g \<noteq> RTYPE_UNKNOWN))"
proof (induction fs arbitrary: ok gs)
  case (Cons x fs)
  obtain k f where x: "x = (k, f)" by fastforce
  show ?case
  proof (cases "check_type P n f")
    case None
    then show ?thesis using Cons.prems x by auto
  next
    case (Some g)
    obtain ok' gs' where c: "check_fields P n fs = (ok', gs')" by fastforce
    have "field_ok P f" using Cons.prems(2) x by simp
    then show ?thesis using Cons.IH [OF c] check_type_ok [OF Some] Cons.prems x Some c by auto
  qed
qed simp

lemma FixUnknownType_ok:
  assumes "FixUnknownType P n d = (ok, e)" "\<forall>f\<in>set (fields_of d). field_ok P f"
  shows "(\<forall>f\<in>set (fields_of e). field_ok P f) \<and> (ok \<longrightarrow> bound e) \<and> r_id (x_alias e) = r_id (x_alias d) \<and> IsAlias e = IsAlias d"
proof (cases "IsAlias d")
  case True
  then have a: "field_ok P (x_alias d)" using assms(2) by (simp add: fields_of_def)
  show ?thesis
  proof (cases "check_type P n (x_alias d)")
    case None
    then show ?thesis using assms True by (auto simp: FixUnknownType_def)
  next
    case (Some f)
    show ?thesis using assms(1) True Some check_type_ok [OF Some a] check_type_id [OF Some] by (auto simp: FixUnknownType_def IsAlias_def fields_of_def bound_def)
  qed
next
  case False
  obtain gs where c: "check_fields P n (x_fields d) = (ok, gs)" "e = d\<lparr>x_fields := gs\<rparr>"
    using assms(1) False by (auto simp: FixUnknownType_def split: prod.splits)
  then show ?thesis using check_fields_ok [OF c(1)] False assms(2) by (auto simp: fields_of_def IsAlias_def bound_def)
qed

subsection \<open>Calls of the pool\<close>

lemma map_of_put: "map_of (put n d ps) m = (if m = n \<and> map_of ps n \<noteq> None then Some d else map_of ps m)"
  by (induction ps) auto

lemma put_names [simp]: "map fst (put n d ps) = map fst ps"
  by (induction ps) auto

lemma set_put: "x \<in> set (put n d ps) \<Longrightarrow> x = (n, d) \<or> x \<in> set ps"
  by (induction ps) (auto split: if_splits)

lemma set_id_simps [simp]: "fields_of (set_id i d) = (if IsAlias d then [(x_alias d)\<lparr>r_id := i\<rparr>] else map snd (x_fields d))"
  "IsAlias (set_id i d) = IsAlias d" "r_id (x_alias (set_id i d)) = i" "bound (set_id i d) = bound d"
  by (auto simp: set_id_def fields_of_def IsAlias_def bound_def)

lemma field_ok_id [simp]: "field_ok P (f\<lparr>r_id := i\<rparr>) = field_ok P f"
  by (simp add: field_ok_def)

lemma desc_ok_id: "(\<forall>f\<in>set (fields_of d). field_ok P f) \<Longrightarrow> i = 0 \<longrightarrow> bound d \<Longrightarrow> desc_ok P (set_id i d)"
  by (auto simp: desc_ok_def fields_of_def [of d] split: if_splits)

lemma Find_cases:
  assumes "pool_ok P" "Find n P = (r, Q)"
  obtains "r = None" "Q = P" | d where "r = Some d" "Q = P" "map_of (p_pool P) n = Some d" "r_id (x_alias d) = 0"
  | d where "map_of (p_pool P) n \<noteq> None" "Q = P\<lparr>p_pool := put n d (p_pool P)\<rparr>" "desc_ok P d" "r = (if r_id (x_alias d) = 0 then Some d else None)"
proof (cases "map_of (p_pool P) n")
  case None
  then show thesis using assms(2) that(1) by (simp add: Find_def)
next
  case (Some d)
  then have d: "desc_ok P d" using assms(1) map_of_SomeD by (fastforce simp: pool_ok_def)
  show thesis
  proof (cases "r_id (x_alias d) = 0 \<or> r_id (x_alias d) \<noteq> UINT_MAX")
    case True
    then have "Q = P" "r = (if r_id (x_alias d) = 0 then Some d else None)" using assms(2) Some by (cases "r_id (x_alias d) = 0"; simp add: Find_def)+
    then show ?thesis using that(1,2) Some by (cases "r_id (x_alias d) = 0") simp_all
  next
    case False
    obtain ok e where f: "FixUnknownType P n (set_id (UINT_MAX - 1) d) = (ok, e)" by fastforce
    have "\<forall>f\<in>set (fields_of (set_id (UINT_MAX - 1) d)). field_ok P f" using d by (auto simp: desc_ok_def fields_of_def [of d] split: if_splits)
    note e = FixUnknownType_ok [OF f this]
    have "UINT_MAX - 1 \<noteq> 0" by (simp add: UINT_MAX_def)
    then have "desc_ok P (if ok then set_id 0 e else e)" using e desc_ok_id [of e P 0] by (auto simp: desc_ok_def)
    moreover have "r = (if r_id (x_alias (if ok then set_id 0 e else e)) = 0 then Some (if ok then set_id 0 e else e) else None)"
      "Q = P\<lparr>p_pool := put n (if ok then set_id 0 e else e) (p_pool P)\<rparr>"
      using assms(2) Some False f e \<open>UINT_MAX - 1 \<noteq> 0\<close> by (auto simp: Find_def Let_def)
    ultimately show ?thesis using that(3) Some by blast
  qed
qed

lemma Find_ok:
  assumes "pool_ok P" "Find n P = (r, Q)"
  shows "pool_ok Q" "grows P Q" "r = Some d \<Longrightarrow> map_of (p_pool Q) n = Some d \<and> r_id (x_alias d) = 0"
proof -
  from assms have "pool_ok Q \<and> grows P Q \<and> (r = Some d \<longrightarrow> map_of (p_pool Q) n = Some d \<and> r_id (x_alias d) = 0)"
  proof (cases rule: Find_cases)
    case (3 e)
    have g: "grows P Q" using 3(2) by (auto simp: grows_def map_of_put)
    moreover have "desc_ok Q e'" if "(m, e') \<in> set (p_pool Q)" for m e'
      using that 3(2,3) assms(1) desc_ok_grows [OF _ g] by (auto simp: pool_ok_def dest!: set_put)
    then have "pool_ok Q" using 3(2) assms(1) by (auto simp: pool_ok_def)
    ultimately show ?thesis using 3 by (auto simp: map_of_put split: if_splits)
  qed (use assms(1) in auto)
  then show "pool_ok Q" "grows P Q" "r = Some d \<Longrightarrow> map_of (p_pool Q) n = Some d \<and> r_id (x_alias d) = 0" by auto
qed

lemma convert_field_ok:
  assumes "convert_field es src out = Some (True, f)" "r_value_descriptor out = None"
  shows "r_value f \<noteq> RTYPE_NONE" "r_value_descriptor f = None" "r_id f = r_id out"
proof -
  have "r_value f \<noteq> RTYPE_NONE \<and> r_value_descriptor f = None \<and> r_id f = r_id out"
    using assms by (auto simp: convert_field_def Let_def split: if_splits option.splits list.splits)
  then show "r_value f \<noteq> RTYPE_NONE" "r_value_descriptor f = None" "r_id f = r_id out" by auto
qed

lemma convert_fields_ok:
  "convert_fields es fs gs = Some (Some hs) \<Longrightarrow> \<forall>g\<in>set (map snd gs). r_value g \<noteq> RTYPE_NONE \<and> r_value_descriptor g = None \<Longrightarrow>
    \<forall>g\<in>set (map snd hs). r_value g \<noteq> RTYPE_NONE \<and> r_value_descriptor g = None"
proof (induction es fs gs rule: convert_fields.induct)
  case (2 es one rest gs)
  let ?old = "case map_of gs (f_name one) of None \<Rightarrow> field_init | Some f \<Rightarrow> f"
  have old: "r_value_descriptor ?old = None" using "2.prems"(2) by (auto simp: field_init_def split: option.splits dest!: map_of_SomeD)
  show ?case
  proof (cases "f_deprecated one")
    case True
    then have "convert_fields es rest gs = Some (Some hs)" using "2.prems"(1) by simp
    then show ?thesis using "2.IH"(1) [OF True] "2.prems"(2) by blast
  next
    case False
    then have n: "\<not> f_number one \<le> 0" using "2.prems"(1) by (auto simp: Let_def)
    let ?in = "?old\<lparr>r_id := of_int (f_number one - 1)\<rparr>"
    let ?gs = "\<lambda>f. if map_of gs (f_name one) = None then gs @ [(f_name one, f)] else map (\<lambda>(n, g). (n, if n = f_name one then f else g)) gs"
    have eq: "convert_fields es (one # rest) gs = convert_field es one ?in \<bind> (\<lambda>(ok, f). if \<not> ok then Some None else convert_fields es rest (?gs f))"
      by (simp only: convert_fields.simps Let_def False n if_False)
    obtain ok f where c: "convert_field es one ?in = Some (ok, f)" "ok" "convert_fields es rest (?gs f) = Some (Some hs)"
      using "2.prems"(1) unfolding eq by (cases "convert_field es one ?in") (auto split: if_splits)
    have "convert_field es one ?in = Some (True, f)" using c(1,2) by simp
    then have f: "r_value f \<noteq> RTYPE_NONE" "r_value_descriptor f = None" by (rule convert_field_ok(1,2), use old in simp)+
    have "\<forall>g\<in>set (map snd (?gs f)). r_value g \<noteq> RTYPE_NONE \<and> r_value_descriptor g = None" using "2.prems"(2) f by (auto split: if_splits)
    then show ?thesis using "2.IH"(2) [OF False refl n c(1) refl] c(2,3) by blast
  qed
qed simp

lemma make_descriptor_ok:
  assumes "make_descriptor es proto = Some (Some d)"
  shows "desc_ok P d"
proof -
  have init: "r_value_descriptor field_init = None" "r_id field_init = UINT_MAX" "r_value field_init = RTYPE_NONE" by (simp_all add: field_init_def)
  have ne: "UINT_MAX \<noteq> 0" by (simp add: UINT_MAX_def)
  have "(\<exists>f a. convert_field es f field_init = Some (True, a) \<and> x_alias d = a) \<or>
      (\<exists>fs hs. convert_fields es fs [] = Some (Some hs) \<and> x_alias d = field_init \<and> x_fields d = hs)"
  proof -
    define fs where "fs = d_field proto"
    have *: ?thesis if "convert_fields es fs [] \<bind> (\<lambda>r. Some (map_option (\<lambda>fs. \<lparr>x_alias = field_init, x_fields = fs, x_tags = t\<rparr>) r)) = Some (Some d)" for t
      using that by (cases "convert_fields es fs []") auto
    show ?thesis
    proof (cases "\<exists>f. fs = [f] \<and> f_name f = ''_''")
      case True
      then obtain f where f: "fs = [f]" "f_name f = ''_''" by blast
      then show ?thesis using assms by (cases "convert_field es f field_init") (auto simp: make_descriptor_def Let_def fs_def [symmetric] split: if_splits)
    next
      case False
      then show ?thesis using assms * by (auto simp: make_descriptor_def Let_def fs_def [symmetric] split: list.splits)
    qed
  qed
  then show ?thesis
  proof (elim disjE exE conjE)
    fix f a assume a: "convert_field es f field_init = Some (True, a)" "x_alias d = a"
    then show ?thesis using convert_field_ok [OF a(1) init(1)] ne init by (auto simp: desc_ok_def fields_of_def IsAlias_def field_ok_def)
  next
    fix fs hs assume h: "convert_fields es fs [] = Some (Some hs)" "x_alias d = field_init" "x_fields d = hs"
    then show ?thesis using convert_fields_ok [OF h(1)] ne init by (auto simp: desc_ok_def fields_of_def IsAlias_def field_ok_def)
  qed
qed

lemma pool_ok_add:
  assumes "pool_ok P" "desc_ok P d" "map_of (p_pool P) n = None"
  shows "pool_ok (P\<lparr>p_pool := p_pool P @ [(n, d)]\<rparr>)" "grows P (P\<lparr>p_pool := p_pool P @ [(n, d)]\<rparr>)"
proof -
  show g: "grows P (P\<lparr>p_pool := p_pool P @ [(n, d)]\<rparr>)" by (auto simp: grows_def map_add_def split: option.splits)
  have "n \<notin> fst ` set (p_pool P)" using assms(3) by (simp add: map_of_eq_None_iff)
  then show "pool_ok (P\<lparr>p_pool := p_pool P @ [(n, d)]\<rparr>)"
    using assms(1,2) desc_ok_grows [OF _ g] by (auto simp: pool_ok_def)
qed

lemma pool_ok_enum [simp]: "pool_ok (P\<lparr>p_enum := es\<rparr>) = pool_ok P" "grows (P\<lparr>p_enum := es\<rparr>) Q = grows P Q"
  by (simp_all add: pool_ok_def desc_ok_def field_ok_def grows_def)

lemma Register_message_ok:
  "Register_message ns proto P = Some (ok, Q) \<Longrightarrow> pool_ok P \<Longrightarrow> pool_ok Q \<and> grows P Q"
  "register_nested full ps es P = Some (r, Q) \<Longrightarrow> pool_ok P \<Longrightarrow> pool_ok Q \<and> grows P Q"
proof (induction ns proto P and full ps es P arbitrary: ok Q and r Q rule: Register_message_register_nested.induct)
  case (1 ns name flds nested enums entry depr options P)
  let ?full = "Fullname ns name" and ?proto = "DescriptorProto name flds nested enums entry depr options"
  let ?P = "P\<lparr>p_enum := add_enums ?full enums (p_enum P)\<rparr>"
  obtain r R where n: "register_nested ?full nested Map.empty ?P = Some (r, R)"
    using "1.prems"(1) by (cases "register_nested ?full nested Map.empty ?P") (auto simp: Let_def)
  have R: "pool_ok R" "grows P R" using "1.IH" [OF refl refl n] "1.prems"(2) by simp_all
  have "Q = R \<or> (\<exists>es d. make_descriptor es ?proto = Some (Some d) \<and> map_of (p_pool R) ?full = None \<and> Q = R\<lparr>p_pool := p_pool R @ [(?full, d)]\<rparr>)"
  proof (cases r)
    case None
    then show ?thesis using "1.prems"(1) n by (simp add: Let_def)
  next
    case (Some es)
    then show ?thesis using "1.prems"(1) n
      by (cases "make_descriptor es ?proto") (auto simp: Let_def split: option.splits if_splits)
  qed
  then show ?case using R make_descriptor_ok pool_ok_add grows_trans by blast
next
  case (2 full es P)
  then show ?case by simp
next
  case (3 full one rest es P)
  show ?case
  proof (cases "d_deprecated one \<or> d_map_entry one")
    case True
    then show ?thesis using "3.IH"(1,2) "3.prems" by (cases "d_deprecated one") simp_all
  next
    case False
    then have F: "\<not> d_deprecated one" "\<not> d_map_entry one" by simp_all
    obtain ok R where m: "Register_message full one P = Some (ok, R)"
      using "3.prems"(1) F by (cases "Register_message full one P") auto
    have R: "pool_ok R" "grows P R" using "3.IH"(3) [OF F m] "3.prems"(2) by simp_all
    show ?thesis
    proof (cases ok)
      case True
      then have "register_nested full rest es R = Some (r, Q)" using "3.prems"(1) F m by simp
      then show ?thesis using "3.IH"(4) [OF F m refl] True R grows_trans by blast
    next
      case False
      then show ?thesis using "3.prems"(1) F m R by simp
    qed
  qed
qed

lemma register_messages_ok: "register_messages ns ps P = Some (ok, Q) \<Longrightarrow> pool_ok P \<Longrightarrow> pool_ok Q \<and> grows P Q"
proof (induction ns ps P arbitrary: ok Q rule: register_messages.induct)
  case (2 ns one rest P)
  show ?case
  proof (cases "d_deprecated one")
    case True
    then show ?thesis using 2 by simp
  next
    case False
    obtain b R where m: "Register_message ns one P = Some (b, R)"
      using "2.prems"(1) False by (cases "Register_message ns one P") auto
    have R: "pool_ok R" "grows P R" using Register_message_ok(1) [OF m "2.prems"(2)] by simp_all
    show ?thesis
    proof (cases b)
      case True
      then have "register_messages ns rest R = Some (ok, Q)" using "2.prems"(1) False m by simp
      then show ?thesis using "2.IH"(2) [OF False m refl] True R grows_trans by blast
    next
      case nb: False
      then show ?thesis using "2.prems"(1) False m R by simp
    qed
  qed
qed simp

lemma resolve_one_ok:
  assumes "desc_ok P d" "resolve_one P (n, d) = (m, e)"
  shows "m = n" "desc_ok P e"
proof -
  obtain ok e' where f: "FixUnknownType P n d = (ok, e')" by fastforce
  have e': "(\<forall>f\<in>set (fields_of e'). field_ok P f) \<and> (ok \<longrightarrow> bound e') \<and> r_id (x_alias e') = r_id (x_alias d)"
    using FixUnknownType_ok [OF f] assms(1) by (auto simp: desc_ok_def)
  show "m = n" using assms(2) f by (auto simp: resolve_one_def split: if_splits)
  show "desc_ok P e"
  proof (cases "r_id (x_alias d) = 0")
    case True
    then show ?thesis using assms by (simp add: resolve_one_def)
  next
    case False
    then have "e = (if ok then set_id 0 e' else e')" using assms(2) f by (auto simp: resolve_one_def)
    then show ?thesis using e' False desc_ok_id [of e' P 0] by (auto simp: desc_ok_def)
  qed
qed

lemma resolve_one_fst [simp]: "fst (resolve_one P x) = fst x"
  by (auto simp: resolve_one_def split: prod.splits)

lemma map_of_resolve: "map_of (map (resolve_one P) ps) n = map_option (\<lambda>d. snd (resolve_one P (n, d))) (map_of ps n)"
proof (induction ps)
  case (Cons x ps)
  then show ?case by (cases x; cases "resolve_one P x") (auto simp: map_of_Cons_code dest: arg_cong [of _ _ fst])
qed simp

lemma resolve_all_ok:
  assumes "pool_ok P"
  shows "pool_ok (resolve_all P)" "grows P (resolve_all P)"
proof -
  show g: "grows P (resolve_all P)" by (simp add: grows_def resolve_all_def map_of_resolve)
  have "desc_ok (resolve_all P) e" if me: "(m, e) \<in> set (p_pool (resolve_all P))" for m e
  proof -
    obtain n d where d: "(n, d) \<in> set (p_pool P)" "resolve_one P (n, d) = (m, e)" using me by (auto simp: resolve_all_def)
    then have "desc_ok P d" using assms by (auto simp: pool_ok_def)
    from resolve_one_ok(2) [OF this d(2)] show ?thesis using desc_ok_grows g by blast
  qed
  moreover have "map fst (p_pool (resolve_all P)) = map fst (p_pool P)" by (simp add: resolve_all_def)
  ultimately show "pool_ok (resolve_all P)" using assms by (auto simp: pool_ok_def)
qed

lemma Register_ok:
  assumes "Register proto P = Some (ok, Q)" "pool_ok P"
  shows "pool_ok Q" "grows P Q"
proof -
  let ?P = "P\<lparr>p_enum := add_enums (fd_package proto) (fd_enum proto) (p_enum P)\<rparr>"
  obtain b R where m: "register_messages (fd_package proto) (fd_message proto) ?P = Some (b, R)"
    using assms(1) by (cases "register_messages (fd_package proto) (fd_message proto) ?P") (auto simp: Register_def Let_def)
  then have R: "pool_ok R" "grows P R" using register_messages_ok [OF m] assms(2) by simp_all
  have "Q = (if b then resolve_all R else R)" using assms(1) m by (auto simp: Register_def Let_def split: if_splits)
  then show "pool_ok Q" "grows P Q" using R resolve_all_ok [OF R(1)] grows_trans by (auto split: if_splits)
qed

subsection \<open>Any sequence of calls\<close>

inductive reach :: "DescriptorPool \<Rightarrow> bool" where
  reach_init: "reach empty_pool"
| reach_register: "reach P \<Longrightarrow> Register proto P = Some (ok, Q) \<Longrightarrow> reach Q"
| reach_find: "reach P \<Longrightarrow> Find n P = (r, Q) \<Longrightarrow> reach Q"

lemma reach_ok: "reach P \<Longrightarrow> pool_ok P"
proof (induction rule: reach.induct)
  case reach_init
  then show ?case by (simp add: pool_ok_def empty_pool_def)
qed (blast intro: Register_ok(1) Find_ok(1))+

text \<open>
  Claim C14: in every pool that calls of \<open>Register\<close> and \<open>Find\<close> reach from the empty one, failed calls included,
  each name has one descriptor, a pointer to a descriptor that a field holds points to the descriptor of
  the message type the field names, and \<open>Find\<close> returns only descriptors of the pool in which the types
  of all fields are known.
\<close>

theorem pool_invariant:
  assumes "reach P"
  shows "distinct (map fst (p_pool P)) \<and>
    (\<forall>n d f m. map_of (p_pool P) n = Some d \<and> f \<in> set (fields_of d) \<and> r_value_descriptor f = Some m \<longrightarrow>
      r_value f = RTYPE_MESSAGE \<and> r_value_type f = m \<and> map_of (p_pool P) m \<noteq> None) \<and>
    (\<forall>n d Q. Find n P = (Some d, Q) \<longrightarrow> map_of (p_pool Q) n = Some d \<and> (\<forall>f\<in>set (fields_of d). r_value f \<notin> {RTYPE_UNKNOWN, RTYPE_NONE}))"
proof -
  have ok: "pool_ok P" by (rule reach_ok [OF assms])
  have d: "desc_ok P d" if "pool_ok P" "map_of (p_pool P) n = Some d" for P n d using that map_of_SomeD by (fastforce simp: pool_ok_def)
  have "distinct (map fst (p_pool P))" using ok by (simp add: pool_ok_def)
  moreover have "r_value f = RTYPE_MESSAGE \<and> r_value_type f = m \<and> map_of (p_pool P) m \<noteq> None"
    if "map_of (p_pool P) n = Some d" "f \<in> set (fields_of d)" "r_value_descriptor f = Some m" for n d f m
    using d [OF ok that(1)] that(2,3) by (auto simp: desc_ok_def field_ok_def)
  moreover have "map_of (p_pool Q) n = Some d \<and> (\<forall>f\<in>set (fields_of d). r_value f \<notin> {RTYPE_UNKNOWN, RTYPE_NONE})" if "Find n P = (Some d, Q)" for n d Q
    using Find_ok [OF ok that] d [of Q n d] by (auto simp: desc_ok_def field_ok_def bound_def)
  ultimately show ?thesis by blast
qed

subsection \<open>Resolution\<close>

lemma check_type_None:
  assumes "check_type P n f = None"
  shows "r_value f = RTYPE_UNKNOWN" "r_value_type f = [] \<or> (\<forall>c\<in>set (candidates n (r_value_type f)). \<not> known P c)"
proof -
  show u: "r_value f = RTYPE_UNKNOWN" using assms by (auto simp: check_type_def split: if_splits)
  have "find (known P) (candidates n (r_value_type f)) = None" if "r_value_type f \<noteq> []"
    using assms u that check_type_find [of f P n] bind_type_known [of P _ f] by (auto simp: find_Some_iff split: option.splits)
  then show "r_value_type f = [] \<or> (\<forall>c\<in>set (candidates n (r_value_type f)). \<not> known P c)" by (auto simp: find_None_iff)
qed

lemma check_fields_fail: "check_fields P n fs = (False, gs) \<Longrightarrow> \<exists>g\<in>set (map snd gs). check_type P n g = None"
proof (induction fs arbitrary: gs)
  case (Cons x fs)
  then show ?case by (cases x; cases "check_type P n (snd x)"; cases "check_fields P n fs") auto
qed simp

lemma FixUnknownType_fail:
  assumes "FixUnknownType P n d = (False, e)"
  shows "\<exists>f\<in>set (fields_of e). check_type P n f = None"
proof (cases "IsAlias d")
  case True
  then show ?thesis using assms by (auto simp: FixUnknownType_def fields_of_def split: option.splits)
next
  case False
  obtain gs where "check_fields P n (x_fields d) = (False, gs)" "e = d\<lparr>x_fields := gs\<rparr>"
    using assms False by (auto simp: FixUnknownType_def split: prod.splits)
  then show ?thesis using check_fields_fail [of P n "x_fields d" gs] False by (auto simp: fields_of_def IsAlias_def)
qed

lemma known_resolve [simp]: "known (resolve_all P) c = known P c"
  by (simp add: known_def resolve_all_def map_of_resolve)

text \<open>
  Claim C22: a successful registration resolves everything that can be resolved by then, whatever earlier
  calls of \<open>Find\<close> or \<open>Register\<close> failed on: afterwards \<open>Find\<close> returns every descriptor of the pool, except
  those with a field whose type name is known in none of the scopes around it.
\<close>

theorem register_resolves:
  assumes "Register proto P = Some (True, Q)" "map_of (p_pool Q) n = Some d"
  shows "Find n Q = (Some d, Q) \<or>
    (\<exists>f\<in>set (fields_of d). r_value f = RTYPE_UNKNOWN \<and> (r_value_type f = [] \<or> (\<forall>c\<in>set (candidates n (r_value_type f)). \<not> known Q c)))"
proof -
  let ?P = "P\<lparr>p_enum := add_enums (fd_package proto) (fd_enum proto) (p_enum P)\<rparr>"
  obtain R where R: "Q = resolve_all R"
    using assms(1) by (cases "register_messages (fd_package proto) (fd_message proto) ?P") (auto simp: Register_def Let_def split: if_splits)
  then obtain d0 where d: "d = snd (resolve_one R (n, d0))" using assms(2) by (auto simp: resolve_all_def map_of_resolve)
  show ?thesis
  proof (cases "r_id (x_alias d) = 0")
    case True
    then show ?thesis using assms(2) by (simp add: Find_def)
  next
    case False
    obtain ok e where f: "FixUnknownType R n d0 = (ok, e)" by fastforce
    have "\<not> ok" "d = e" using False d f by (auto simp: resolve_one_def split: if_splits)
    then obtain g where "g \<in> set (fields_of d)" "check_type R n g = None" using FixUnknownType_fail f by metis
    then show ?thesis using check_type_None [of R n g] unfolding R by auto
  qed
qed

subsection \<open>Schemas\<close>

text \<open>A field as the parser leaves it: a type name that is not resolved, or a scalar type.\<close>

definition named_field :: "string \<Rightarrow> string \<Rightarrow> FieldDescriptorProto" where
  "named_field n t = \<lparr>f_name = n, f_number = 1, f_repeated = False, f_type = None, f_type_name = t, f_deprecated = False, f_options = []\<rparr>"

definition scalar_field :: "string \<Rightarrow> ptype \<Rightarrow> FieldDescriptorProto" where
  "scalar_field n t = \<lparr>f_name = n, f_number = 1, f_repeated = False, f_type = Some t, f_type_name = [], f_deprecated = False, f_options = []\<rparr>"

definition message :: "string \<Rightarrow> FieldDescriptorProto list \<Rightarrow> DescriptorProto list \<Rightarrow> DescriptorProto" where
  "message n fs ns = DescriptorProto n fs ns [] False False []"

definition schema_file :: "string \<Rightarrow> DescriptorProto list \<Rightarrow> FileDescriptorProto" where
  "schema_file pkg ms = \<lparr>fd_name = ''f.proto'', fd_package = pkg, fd_enum = [], fd_message = ms\<rparr>"

text \<open>What the first field of a message is bound to after a file was registered in an empty pool.\<close>

definition bound_to :: "FileDescriptorProto \<Rightarrow> string \<Rightarrow> string option option" where
  "bound_to proto n = do {
     (ok, P) \<leftarrow> Register proto empty_pool;
     d \<leftarrow> map_of (p_pool P) n;
     case x_fields d of [] \<Rightarrow> None | (k, f) # _ \<Rightarrow> Some (r_value_descriptor f)
   }"


theorem pool_invariant_witness:
  "\<exists>P. Register (schema_file ''p'' [message ''T'' [scalar_field ''a'' TYPE_INT32] []]) empty_pool = Some (True, P) \<and> distinct (map fst (p_pool P))"
proof -
  have "map_option fst (Register (schema_file ''p'' [message ''T'' [scalar_field ''a'' TYPE_INT32] []]) empty_pool) = Some True" by code_simp
  then obtain P where P: "Register (schema_file ''p'' [message ''T'' [scalar_field ''a'' TYPE_INT32] []]) empty_pool = Some (True, P)" by auto
  then show ?thesis using pool_invariant [OF reach_register [OF reach_init P]] by blast
qed

theorem register_resolves_witness:
  "\<exists>P d. Register (schema_file ''p'' [message ''M'' [named_field ''t'' ''T''] [message ''T'' [scalar_field ''b'' TYPE_STRING] []]]) empty_pool = Some (True, P) \<and>
    map_of (p_pool P) ''p.M'' = Some d \<and> (Find ''p.M'' P = (Some d, P) \<or> \<not> bound d)"
proof -
  let ?f = "schema_file ''p'' [message ''M'' [named_field ''t'' ''T''] [message ''T'' [scalar_field ''b'' TYPE_STRING] []]]"
  have "map_option (\<lambda>(ok, P). ok \<and> map_option (\<lambda>d. True) (map_of (p_pool P) ''p.M'') = Some True) (Register ?f empty_pool) = Some True" by code_simp
  then obtain P d where P: "Register ?f empty_pool = Some (True, P)" "map_of (p_pool P) ''p.M'' = Some d" by auto
  from register_resolves [OF this] have "Find ''p.M'' P = (Some d, P) \<or> \<not> bound d" by (auto simp: bound_def)
  then show ?thesis using P by blast
qed

end
