(* ===== verification/GenUtils.thy ===== *)
theory GenUtils
  imports Schema
begin

text \<open>
  The helpers of the code generators, tools/proto-gen-utils.h: splitting and indenting of text, names, and
  the check of a schema before code is generated for it.  An error is the text that the source writes
  to its error argument.
\<close>

subsection \<open>Text\<close>

definition NaiveJoinName :: "string \<Rightarrow> string \<Rightarrow> string" where
  "NaiveJoinName ns name = ns @ ''.'' @ name"

text \<open>\<open>cur\<close> is the part of the input from \<open>begin\<close> to the current position.\<close>

fun split_loop :: "char \<Rightarrow> string \<Rightarrow> string \<Rightarrow> string list" where
  "split_loop delim cur [] = [cur]"
| "split_loop delim cur (c # raw) = (if c = delim then cur # split_loop delim [] raw else split_loop delim (cur @ [c]) raw)"

definition Split :: "string \<Rightarrow> char \<Rightarrow> string list" where
  "Split raw delim = split_loop delim [] raw"

text \<open>The loop of \<open>AddIndent\<close> over a C string: it stops at the first zero character.\<close>

fun indent_loop :: "string \<Rightarrow> string" where
  "indent_loop [] = []"
| "indent_loop (c # str) =
    (if c = CHR 0x00 then []
     else
       let next = (case str of [] \<Rightarrow> CHR 0x00 | d # _ \<Rightarrow> d) in
       c # (if c = CHR 0x0A \<and> next \<noteq> CHR 0x0A \<and> next \<noteq> CHR 0x00 then CHR 0x09 # indent_loop str else indent_loop str))"

definition AddIndent :: "string \<Rightarrow> string" where
  "AddIndent raw = (if raw \<noteq> [] \<and> hd raw \<noteq> CHR 0x0A then CHR 0x09 # indent_loop raw else indent_loop raw)"

definition isalpha :: "char \<Rightarrow> bool" where
  "isalpha c \<longleftrightarrow> (65 \<le> (of_char c :: nat) \<and> (of_char c :: nat) \<le> 90) \<or> (97 \<le> (of_char c :: nat) \<and> (of_char c :: nat) \<le> 122)"

definition toupper :: "char \<Rightarrow> char" where
  "toupper c = (if 97 \<le> (of_char c :: nat) \<and> (of_char c :: nat) \<le> 122 then char_of ((of_char c :: nat) - 32) else c)"

fun pascal_loop :: "bool \<Rightarrow> string \<Rightarrow> string" where
  "pascal_loop word_end [] = []"
| "pascal_loop word_end (c # name) =
    (if c = CHR ''_'' then pascal_loop True name
     else if isalpha c then (if word_end then toupper c else c) # pascal_loop False name
     else c # pascal_loop True name)"

definition ToPascal :: "string \<Rightarrow> string" where
  "ToPascal name = pascal_loop True name"

subsection \<open>Fields\<close>

definition CanBeKey_gen :: "ptype \<Rightarrow> bool" where
  "CanBeKey_gen t \<longleftrightarrow> t \<in> {TYPE_STRING, TYPE_FIXED64, TYPE_UINT64, TYPE_FIXED32, TYPE_UINT32, TYPE_SFIXED64, TYPE_SINT64, TYPE_INT64,
    TYPE_SFIXED32, TYPE_SINT32, TYPE_INT32}"

text \<open>The order of fields with the same number, which \<open>std::sort\<close> leaves open, is that of the schema.\<close>

definition FieldsInOrder :: "DescriptorProto \<Rightarrow> FieldDescriptorProto list" where
  "FieldsInOrder proto = sort_key f_number (filter (\<lambda>one. \<not> f_deprecated one) (d_field proto))"

definition IsRepeated :: "FieldDescriptorProto \<Rightarrow> bool" where
  "IsRepeated f = f_repeated f"

definition IsAlias_gen :: "DescriptorProto \<Rightarrow> bool \<Rightarrow> bool" where
  "IsAlias_gen proto extended =
    (case d_field proto of [f] \<Rightarrow> f_name f = ''_'' \<or> (extended \<and> f_name f = ''_x_'') | _ \<Rightarrow> False)"

definition IsSupportedProtoCacheFieldType :: "ptype \<Rightarrow> bool" where
  "IsSupportedProtoCacheFieldType t \<longleftrightarrow> t \<in> {TYPE_DOUBLE, TYPE_FLOAT, TYPE_INT64, TYPE_UINT64, TYPE_INT32, TYPE_FIXED64, TYPE_FIXED32, TYPE_BOOL,
    TYPE_STRING, TYPE_MESSAGE, TYPE_BYTES, TYPE_UINT32, TYPE_ENUM, TYPE_SFIXED32, TYPE_SFIXED64, TYPE_SINT32, TYPE_SINT64}"

subsection \<open>The check of a schema\<close>

text \<open>The loop over the fields with the numbers and the names seen so far.\<close>

fun check_numbers :: "string \<Rightarrow> FieldDescriptorProto list \<Rightarrow> int list \<Rightarrow> string list \<Rightarrow> string option" where
  "check_numbers fullname [] numbers names = None"
| "check_numbers fullname (f # fs) numbers names =
    (if f_number f \<le> 0 \<or> f_number f > 6387 then Some (''field number is outside the ProtoCache range: '' @ fullname @ ''.'' @ f_name f)
     else if f_number f \<in> set numbers \<or> f_name f \<in> set names then Some (''duplicate field name or number: '' @ fullname @ ''.'' @ f_name f)
     else check_numbers fullname fs (f_number f # numbers) (f_name f # names))"

definition validate_type :: "(string \<rightharpoonup> DescriptorProto) \<Rightarrow> string \<Rightarrow> FieldDescriptorProto \<Rightarrow> string option" where
  "validate_type map_entries fullname f =
    (if f_type f = None \<or> \<not> IsSupportedProtoCacheFieldType (type_of f) then Some (''unsupported field type: '' @ fullname @ ''.'' @ f_name f)
     else if type_of f \<noteq> TYPE_MESSAGE then None
     else
       (case map_entries (f_type_name f) of
          None \<Rightarrow> None
        | Some entry \<Rightarrow>
            (case d_field entry of
               [k, v] \<Rightarrow>
                 if \<not> CanBeKey_gen (type_of k) then Some (''unsupported map key type: '' @ fullname @ ''.'' @ f_name f)
                 else if f_type v = None \<or> \<not> IsSupportedProtoCacheFieldType (type_of v) then Some (''unsupported map value type: '' @ fullname @ ''.'' @ f_name f)
                 else None
             | _ \<Rightarrow> Some (''unsupported map key type: '' @ fullname @ ''.'' @ f_name f))))"

fun validate_fields_gen :: "(string \<rightharpoonup> DescriptorProto) \<Rightarrow> string \<Rightarrow> FieldDescriptorProto list \<Rightarrow> string option" where
  "validate_fields_gen map_entries fullname [] = None"
| "validate_fields_gen map_entries fullname (f # fs) =
    (if f_name f = ''_'' then Some (''non-alias message contains reserved alias field: '' @ fullname @ ''.'' @ f_name f)
     else case validate_type map_entries fullname f of Some e \<Rightarrow> Some e | None \<Rightarrow> validate_fields_gen map_entries fullname fs)"

definition validate_body :: "string \<Rightarrow> bool \<Rightarrow> (string \<rightharpoonup> DescriptorProto) \<Rightarrow> DescriptorProto \<Rightarrow> string option" where
  "validate_body fullname extended_alias map_entries proto =
    (let alias = IsAlias_gen proto extended_alias in
     case (if alias then None else check_numbers fullname (FieldsInOrder proto) [] []) of
       Some e \<Rightarrow> Some e
     | None \<Rightarrow>
         if alias then
           (let f = hd (d_field proto) in
            if \<not> IsRepeated f then Some (''alias field cannot be represented as a container: '' @ fullname)
            else validate_type map_entries fullname f)
         else validate_fields_gen map_entries fullname (FieldsInOrder proto))"

fun ValidateGeneratorMessage :: "bool \<Rightarrow> string \<Rightarrow> DescriptorProto \<Rightarrow> string option"
  and validate_nested :: "bool \<Rightarrow> string \<Rightarrow> DescriptorProto list \<Rightarrow> (string \<rightharpoonup> DescriptorProto) \<Rightarrow> string + (string \<rightharpoonup> DescriptorProto)" where
  "ValidateGeneratorMessage ext ns (DescriptorProto name flds nested enums entry depr options) =
    (if entry \<or> depr then None
     else
       let fullname = NaiveJoinName ns name in
       (case validate_nested ext fullname nested Map.empty of
          Inl e \<Rightarrow> Some e
        | Inr map_entries \<Rightarrow> validate_body fullname ext map_entries (DescriptorProto name flds nested enums entry depr options)))"
| "validate_nested ext fullname [] map_entries = Inr map_entries"
| "validate_nested ext fullname (one # rest) map_entries =
    (if d_deprecated one then validate_nested ext fullname rest map_entries
     else if d_map_entry one then
       (let k = NaiveJoinName fullname (d_name one) in
        validate_nested ext fullname rest (if map_entries k = None then map_entries(k \<mapsto> one) else map_entries))
     else
       (case ValidateGeneratorMessage ext fullname one of
          Some e \<Rightarrow> Inl e
        | None \<Rightarrow> validate_nested ext fullname rest map_entries))"

fun validate_messages :: "bool \<Rightarrow> string \<Rightarrow> DescriptorProto list \<Rightarrow> string option" where
  "validate_messages ext ns [] = None"
| "validate_messages ext ns (m # ms) =
    (case ValidateGeneratorMessage ext ns m of Some e \<Rightarrow> Some e | None \<Rightarrow> validate_messages ext ns ms)"

fun ValidateGeneratorInput :: "bool \<Rightarrow> string list \<Rightarrow> FileDescriptorProto list \<Rightarrow> string option" where
  "ValidateGeneratorInput ext to_generate [] = None"
| "ValidateGeneratorInput ext to_generate (one # rest) =
    (if fd_name one \<notin> set to_generate then ValidateGeneratorInput ext to_generate rest
     else
       let ns = (if fd_package one = [] then [] else ''.'' @ fd_package one) in
       (case validate_messages ext ns (fd_message one) of
          Some e \<Rightarrow> Some e
        | None \<Rightarrow> ValidateGeneratorInput ext to_generate rest))"

end
