(* ===== verification/GenUtilsSpec.thy ===== *)
theory GenUtilsSpec
  imports GenUtils "HOL-Library.Multiset"
begin

text \<open>
  What the helpers of the code generators compute: pieces and lines of text, and an exact description of
  the schemas that are accepted.
\<close>

subsection \<open>Pieces and lines\<close>

fun join :: "char \<Rightarrow> string list \<Rightarrow> string" where
  "join d [] = []"
| "join d [x] = x"
| "join d (x # y # xs) = x @ d # join d (y # xs)"

lemma split_loop_nonempty [simp]: "split_loop d cur raw \<noteq> []"
  by (induction d cur raw rule: split_loop.induct) auto

lemma join_Cons: "xs \<noteq> [] \<Longrightarrow> join d (x # xs) = x @ d # join d xs"
  by (cases xs) auto

lemma split_loop_join: "join d (split_loop d cur raw) = cur @ raw"
  by (induction d cur raw rule: split_loop.induct) (auto simp: join_Cons)

lemma split_loop_pieces: "d \<notin> set cur \<Longrightarrow> x \<in> set (split_loop d cur raw) \<Longrightarrow> d \<notin> set x"
  by (induction d cur raw rule: split_loop.induct) (auto split: if_splits)

text \<open>A line that is not empty gets a tab.\<close>

definition indent :: "string \<Rightarrow> string" where
  "indent l = (if l = [] then [] else CHR 0x09 # l)"

lemma split_loop_acc: "d \<notin> set cur \<Longrightarrow> split_loop d cur raw = (cur @ hd (split_loop d [] raw)) # tl (split_loop d [] raw)"
proof (induction raw arbitrary: cur)
  case (Cons c raw)
  show ?case
  proof (cases "c = d")
    case False
    then show ?thesis using Cons.IH [of "cur @ [c]"] Cons.IH [of "[c]"] Cons.prems by simp
  qed simp
qed simp

lemma indent_loop_lines:
  assumes "CHR 0x00 \<notin> set raw"
  shows "indent_loop raw = join (CHR 0x0A) (hd (Split raw (CHR 0x0A)) # map indent (tl (Split raw (CHR 0x0A))))"
  using assms
proof (induction raw)
  case Nil
  then show ?case by (simp add: Split_def)
next
  case (Cons c raw)
  let ?n = "CHR 0x0A" and ?s = "Split raw (CHR 0x0A)"
  have IH: "indent_loop raw = join ?n (hd ?s # map indent (tl ?s))" using Cons by simp
  have s: "?s = hd ?s # tl ?s" by (simp add: Split_def)
  show ?case
  proof (cases "c = ?n")
    case True
    have "Split (c # raw) ?n = [] # ?s" using True by (simp add: Split_def)
    then have r: "join ?n (hd (Split (c # raw) ?n) # map indent (tl (Split (c # raw) ?n))) = ?n # join ?n (map indent ?s)"
      using s by (cases ?s) (simp_all add: join_Cons)
    have "hd ?s = [] \<longleftrightarrow> raw = [] \<or> hd raw = ?n"
      by (cases raw) (auto simp: Split_def split_loop_acc [of ?n "[x]" for x])
    moreover have "join ?n (map indent ?s) = (if hd ?s = [] then indent_loop raw else CHR 0x09 # indent_loop raw)"
      unfolding IH using s by (cases ?s; cases "tl ?s") (auto simp: indent_def)
    ultimately show ?thesis unfolding r using True Cons.prems by (cases raw) (auto simp: Let_def)
  next
    case False
    have "Split (c # raw) ?n = (c # hd ?s) # tl ?s" using False split_loop_acc [of ?n "[c]" raw] by (simp add: Split_def)
    then have "join ?n (hd (Split (c # raw) ?n) # map indent (tl (Split (c # raw) ?n))) = c # join ?n (hd ?s # map indent (tl ?s))"
      by (cases "tl ?s") simp_all
    then show ?thesis using False Cons.prems IH by (auto simp: Let_def)
  qed
qed

text \<open>
  \<open>Split\<close> cuts a text at the delimiter: the pieces do not contain it and joined with it they are
  the text.  \<open>AddIndent\<close> puts one tab in front of every line of a text that is not empty and changes nothing
  else, as long as the text has no zero character, at which it would stop.
\<close>

theorem split_and_indent:
  "join d (Split raw d) = raw \<and> (\<forall>x\<in>set (Split raw d). d \<notin> set x) \<and>
    (CHR 0x00 \<notin> set raw \<longrightarrow> AddIndent raw = join (CHR 0x0A) (map indent (Split raw (CHR 0x0A))))"
proof (intro conjI impI ballI)
  show "join d (Split raw d) = raw" by (simp add: Split_def split_loop_join)
  show "d \<notin> set x" if "x \<in> set (Split raw d)" for x using that split_loop_pieces [of d "[]" x raw] by (simp add: Split_def)
  assume z: "CHR 0x00 \<notin> set raw"
  let ?n = "CHR 0x0A" and ?s = "Split raw (CHR 0x0A)"
  have s: "?s = hd ?s # tl ?s" by (simp add: Split_def)
  have "hd ?s = [] \<longleftrightarrow> raw = [] \<or> hd raw = ?n"
    by (cases raw) (auto simp: Split_def split_loop_acc [of ?n "[x]" for x])
  moreover have "join ?n (map indent ?s) = (if hd ?s = [] then indent_loop raw else CHR 0x09 # indent_loop raw)"
    unfolding indent_loop_lines [OF z] using s by (cases ?s; cases "tl ?s") (auto simp: indent_def)
  ultimately show "AddIndent raw = join ?n (map indent ?s)" by (auto simp: AddIndent_def)
qed

theorem split_and_indent_witness:
  "AddIndent (''ab'' @ [CHR 0x0A, CHR 0x0A] @ ''c'') = [CHR 0x09] @ ''ab'' @ [CHR 0x0A, CHR 0x0A, CHR 0x09] @ ''c'' \<and>
    Split ''a.b'' (CHR ''.'') = [''a'', ''b'']"
proof -
  have "AddIndent (''ab'' @ [CHR 0x0A, CHR 0x0A] @ ''c'') = join (CHR 0x0A) (map indent (Split (''ab'' @ [CHR 0x0A, CHR 0x0A] @ ''c'') (CHR 0x0A)))"
    using split_and_indent [of "CHR ''.''" "''ab'' @ [CHR 0x0A, CHR 0x0A] @ ''c''"] by simp
  moreover have "join (CHR 0x0A) (map indent (Split (''ab'' @ [CHR 0x0A, CHR 0x0A] @ ''c'') (CHR 0x0A))) = [CHR 0x09] @ ''ab'' @ [CHR 0x0A, CHR 0x0A, CHR 0x09] @ ''c''"
    by code_simp
  moreover have "Split ''a.b'' (CHR ''.'') = [''a'', ''b'']" by code_simp
  ultimately show ?thesis by simp
qed

subsection \<open>Accepted schemas\<close>

lemma check_numbers_iff:
  "check_numbers full fs numbers names = None \<longleftrightarrow>
    (\<forall>f\<in>set fs. 1 \<le> f_number f \<and> f_number f \<le> 6387) \<and> distinct (map f_number fs) \<and> distinct (map f_name fs) \<and>
    set (map f_number fs) \<inter> set numbers = {} \<and> set (map f_name fs) \<inter> set names = {}"
  by (induction full fs numbers names rule: check_numbers.induct) auto

lemma validate_fields_iff:
  "validate_fields_gen es full fs = None \<longleftrightarrow> (\<forall>f\<in>set fs. f_name f \<noteq> ''_'' \<and> validate_type es full f = None)"
  by (induction es full fs rule: validate_fields_gen.induct) (auto split: option.splits)

text \<open>A type that the generators support: no group, and for a map a key and a value that are supported.\<close>

definition supported :: "FieldDescriptorProto \<Rightarrow> bool" where
  "supported f \<longleftrightarrow> f_type f \<noteq> None \<and> f_type f \<noteq> Some TYPE_GROUP"

definition type_ok :: "(string \<rightharpoonup> DescriptorProto) \<Rightarrow> FieldDescriptorProto \<Rightarrow> bool" where
  "type_ok es f \<longleftrightarrow> supported f \<and>
    (\<forall>e. f_type f = Some TYPE_MESSAGE \<and> es (f_type_name f) = Some e \<longrightarrow>
      (\<exists>k v. d_field e = [k, v] \<and> CanBeKey_gen (type_of k) \<and> supported v))"

lemma supported_iff: "f_type f = None \<or> \<not> IsSupportedProtoCacheFieldType (type_of f) \<longleftrightarrow> \<not> supported f"
  by (cases "f_type f") (auto simp: supported_def IsSupportedProtoCacheFieldType_def type_of_def intro: ptype.exhaust)

lemma validate_type_iff: "validate_type es full f = None \<longleftrightarrow> type_ok es f"
proof (cases "supported f")
  case True
  then obtain t where t: "f_type f = Some t" "type_of f = t" by (auto simp: supported_def type_of_def)
  show ?thesis
  proof (cases "t = TYPE_MESSAGE \<and> es (f_type_name f) \<noteq> None")
    case m: True
    then obtain e where e: "es (f_type_name f) = Some e" by blast
    have "validate_type es full f = None \<longleftrightarrow> (\<exists>k v. d_field e = [k, v] \<and> CanBeKey_gen (type_of k) \<and> supported v)"
      using m e t True unfolding validate_type_def supported_iff by (auto split: list.splits)
    then show ?thesis using m e t True by (auto simp: type_ok_def)
  next
    case False
    then show ?thesis using t True unfolding validate_type_def supported_iff by (auto simp: type_ok_def)
  qed
qed (simp only: validate_type_def supported_iff, simp add: type_ok_def)

text \<open>What is asked of one message with the given map entries.\<close>

definition message_ok :: "bool \<Rightarrow> (string \<rightharpoonup> DescriptorProto) \<Rightarrow> DescriptorProto \<Rightarrow> bool" where
  "message_ok ext es m \<longleftrightarrow>
    (let fs = filter (\<lambda>f. \<not> f_deprecated f) (d_field m) in
     if IsAlias_gen m ext then f_repeated (hd (d_field m)) \<and> type_ok es (hd (d_field m))
     else (\<forall>f\<in>set fs. 1 \<le> f_number f \<and> f_number f \<le> 6387 \<and> f_name f \<noteq> ''_'' \<and> type_ok es f) \<and>
       distinct (map f_number fs) \<and> distinct (map f_name fs))"

lemma distinct_sort_key: "distinct (map g (sort_key k xs)) = distinct (map g xs)"
proof -
  have "mset (map g (sort_key k xs)) = mset (map g xs)" by (simp only: mset_map mset_sort)
  then show ?thesis using mset_eq_imp_distinct_iff by blast
qed

lemma validate_body_iff: "validate_body full ext es m = None \<longleftrightarrow> message_ok ext es m"
proof (cases "IsAlias_gen m ext")
  case True
  then show ?thesis by (auto simp: validate_body_def message_ok_def Let_def IsRepeated_def validate_type_iff)
next
  case False
  then have "validate_body full ext es m = None \<longleftrightarrow>
      check_numbers full (FieldsInOrder m) [] [] = None \<and> validate_fields_gen es full (FieldsInOrder m) = None"
    by (auto simp: validate_body_def Let_def split: option.splits)
  then show ?thesis
    using False by (auto simp: message_ok_def Let_def check_numbers_iff validate_fields_iff validate_type_iff FieldsInOrder_def distinct_sort_key)
qed

text \<open>The messages of a schema that code is generated for, with the map entries they see.\<close>

definition entries_of :: "string \<Rightarrow> DescriptorProto list \<Rightarrow> string \<rightharpoonup> DescriptorProto" where
  "entries_of full ns = map_of (map (\<lambda>e. (NaiveJoinName full (d_name e), e)) (filter (\<lambda>e. \<not> d_deprecated e \<and> d_map_entry e) ns))"

fun submessages :: "string \<Rightarrow> DescriptorProto \<Rightarrow> ((string \<rightharpoonup> DescriptorProto) \<times> DescriptorProto) list"
  and nested_messages :: "string \<Rightarrow> DescriptorProto list \<Rightarrow> ((string \<rightharpoonup> DescriptorProto) \<times> DescriptorProto) list" where
  "submessages ns (DescriptorProto name fs nested enums entry depr options) =
    (if entry \<or> depr then []
     else (entries_of (NaiveJoinName ns name) nested, DescriptorProto name fs nested enums entry depr options) # nested_messages (NaiveJoinName ns name) nested)"
| "nested_messages full [] = []"
| "nested_messages full (m # ms) = submessages full m @ nested_messages full ms"

lemma entry_no_messages: "d_deprecated m \<or> d_map_entry m \<Longrightarrow> submessages full m = []"
  by (cases m) auto

lemma entries_of_Cons:
  "d_deprecated m \<or> \<not> d_map_entry m \<Longrightarrow> entries_of full (m # ms) = entries_of full ms"
  "\<not> d_deprecated m \<Longrightarrow> d_map_entry m \<Longrightarrow> entries_of full (m # ms) = (entries_of full ms)(NaiveJoinName full (d_name m) \<mapsto> m)"
  by (auto simp: entries_of_def)

lemma validate_iff:
  "ValidateGeneratorMessage ext ns m = None \<longleftrightarrow> (\<forall>(es, m')\<in>set (submessages ns m). message_ok ext es m')"
  "if \<forall>(es, m')\<in>set (nested_messages full ms). message_ok ext es m' then validate_nested ext full ms es = Inr (entries_of full ms ++ es)
    else \<exists>e. validate_nested ext full ms es = Inl e"
proof (induction ext ns m and ext full ms es rule: ValidateGeneratorMessage_validate_nested.induct)
  case (1 ext ns name flds nested enums entry depr options)
  then show ?case by (auto simp: Let_def validate_body_iff split: if_splits)
next
  case (2 ext full es)
  then show ?case by (simp add: entries_of_def)
next
  case (3 ext full one rest es)
  let ?k = "NaiveJoinName full (d_name one)"
  consider (a) "d_deprecated one" | (b) "\<not> d_deprecated one" "d_map_entry one" | (c) "\<not> d_deprecated one" "\<not> d_map_entry one" by blast
  then show ?case
  proof cases
    case a
    then show ?thesis using "3.IH"(1) by (simp add: entry_no_messages entries_of_Cons)
  next
    case b
    have "entries_of full (one # rest) ++ es = entries_of full rest ++ (if es ?k = None then es(?k \<mapsto> one) else es)"
      using b by (auto simp: entries_of_Cons map_add_def fun_eq_iff split: option.splits)
    then show ?thesis using "3.IH"(2) [OF b refl] b by (simp add: entry_no_messages Let_def)
  next
    case c
    show ?thesis
    proof (cases "ValidateGeneratorMessage ext full one")
      case None
      then show ?thesis using "3.IH"(3,4) [OF c] c by (auto simp: entries_of_Cons split: if_splits)
    next
      case (Some e)
      then have "\<not> (\<forall>(es, m')\<in>set (submessages full one). message_ok ext es m')" using "3.IH"(3) [OF c] by simp
      then show ?thesis using Some c by auto
    qed
  qed
qed



end
