(* ===== verification/AccessT.thy ===== *)
theory AccessT
  imports AccessSafe
begin

text \<open>
  The typed views of include/protocache/access.h: \<open>FieldT\<close>, \<open>ArrayT\<close>, \<open>PairT\<close>, \<open>MapT\<close>, and the
  functions \<open>GetField\<close> and \<open>DetectField\<close>.  The template argument is a value of the datatype \<open>ty\<close>, and a
  template with its specializations is one function by cases on it.  The message classes are generated
  code: a message type is a number, and the \<open>Detect\<close> of each class is the parameter \<open>md\<close>.
\<close>

subsection \<open>Types and values\<close>

text \<open>
  Scalars by the size of the type in bytes (1 for \<open>bool\<close>), \<open>Slice<char>\<close>, \<open>Slice<uint8_t>\<close> and
  \<open>Slice<bool>\<close>, pointers to messages, \<open>ArrayT\<close> and \<open>MapT\<close>.
\<close>

datatype ty = TScalar nat | TStr | TMsg nat | TArr ty | TMap ty ty

definition is_scalar :: "ty \<Rightarrow> bool" where
  "is_scalar T = (case T of TScalar n \<Rightarrow> True | _ \<Rightarrow> False)"

text \<open>What \<open>Get\<close> returns: the bytes of a scalar, a slice of bytes, a message, a view, or numbers.\<close>

datatype val = VScalar "u8 list" | VStr Slice | VMsg ptr | VArr Array | VNums Slice | VMap Map

type_synonym detector = "mem \<Rightarrow> ptr \<Rightarrow> ptr \<Rightarrow> Slice option"

subsection \<open>Fields\<close>

definition ScalarField_Get :: "nat \<Rightarrow> mem \<Rightarrow> Field \<Rightarrow> ptr \<Rightarrow> u8 list option" where
  "ScalarField_Get sz mem f end =
    (let view = GetValue f end in
     if s_len view \<noteq> WordSize sz then Some (replicate sz 0)
     else
       (case s_ptr view of
          None \<Rightarrow> None
        | Some p \<Rightarrow> rd_range (mem_bytes mem) (4 * p) sz))"

definition ScalarField_Detect :: "Field \<Rightarrow> ptr \<Rightarrow> Slice" where
  "ScalarField_Detect f end = GetValue f end"

definition StringField_Get :: "mem \<Rightarrow> Field \<Rightarrow> ptr \<Rightarrow> Slice option" where
  "StringField_Get mem f end = do { obj \<leftarrow> GetObject mem f end; String_init mem obj end }"

definition StringField_Detect :: "mem \<Rightarrow> Field \<Rightarrow> ptr \<Rightarrow> Slice option" where
  "StringField_Detect mem f end = do { obj \<leftarrow> GetObject mem f end; String_Detect mem obj end }"

text \<open>The constructors of \<open>ArrayT<T>\<close>: an array view, numbers, or the bytes of a string for \<open>bool\<close>.\<close>

definition ArrayT_init :: "ty \<Rightarrow> mem \<Rightarrow> ptr \<Rightarrow> ptr \<Rightarrow> val option" where
  "ArrayT_init T mem ptr end =
    (case T of
       TScalar sz \<Rightarrow>
         if sz = 1 then map_option VStr (String_init mem ptr end)
         else map_option (\<lambda>a. VNums (Array_Numbers sz a)) (Array_init mem ptr end)
     | _ \<Rightarrow> map_option VArr (Array_init mem ptr end))"

definition FieldT_Get :: "ty \<Rightarrow> mem \<Rightarrow> Field \<Rightarrow> ptr \<Rightarrow> val option" where
  "FieldT_Get T mem f end =
    (case T of
       TScalar sz \<Rightarrow> map_option VScalar (ScalarField_Get sz mem f end)
     | TStr \<Rightarrow> map_option VStr (StringField_Get mem f end)
     | TMsg k \<Rightarrow> do { obj \<leftarrow> GetObject mem f end; map_option VMsg (Message_init mem obj end) }
     | TArr U \<Rightarrow> do { obj \<leftarrow> GetObject mem f end; ArrayT_init U mem obj end }
     | TMap K V \<Rightarrow> do { obj \<leftarrow> GetObject mem f end; map_option VMap (Map_init mem obj end) })"

subsection \<open>Extents\<close>

text \<open>\<open>FieldT<T>::Detect\<close>, with \<open>T::Detect\<close> for a type that has one.\<close>

definition FieldT_Detect :: "detector \<Rightarrow> ty \<Rightarrow> mem \<Rightarrow> Field \<Rightarrow> ptr \<Rightarrow> Slice option" where
  "FieldT_Detect det T mem f end =
    (case T of
       TScalar sz \<Rightarrow> Some (ScalarField_Detect f end)
     | TStr \<Rightarrow> StringField_Detect mem f end
     | _ \<Rightarrow> do { obj \<leftarrow> GetObject mem f end; det mem obj end })"

text \<open>The end of a slice; that of a null slice is null, which is not behind the end of any view.\<close>

definition slice_end :: "Slice \<Rightarrow> nat" where
  "slice_end t = (case s_ptr t of None \<Rightarrow> 0 | Some p \<Rightarrow> p + s_len t)"

text \<open>\<open>{view.data(), t.end() - view.data()}\<close> when \<open>t\<close> ends behind \<open>view\<close>.\<close>

definition extend :: "Slice \<Rightarrow> Slice \<Rightarrow> Slice option" where
  "extend view t =
    (if slice_end t > slice_end view then
       (case s_ptr view of None \<Rightarrow> None | Some p \<Rightarrow> Some (slice p (slice_end t - p)))
     else None)"

text \<open>
  The loop over the elements from the last to the first, for the number \<open>n\<close> of elements between
  \<open>begin()\<close> and the iterator.
\<close>

primrec elements_loop :: "(Field \<Rightarrow> Slice option) \<Rightarrow> Array \<Rightarrow> Slice \<Rightarrow> nat \<Rightarrow> ptr \<Rightarrow> Slice option" where
  "elements_loop det a view 0 it = Some view"
| "elements_loop det a view (Suc n) it = do {
     it \<leftarrow> Array_prev a it;
     t \<leftarrow> det (Array_deref a it);
     (case extend view t of Some s \<Rightarrow> Some s | None \<Rightarrow> elements_loop det a view n it)
   }"

definition ArrayT_Detect :: "detector \<Rightarrow> ty \<Rightarrow> detector" where
  "ArrayT_Detect det T mem ptr end =
    (case T of
       TScalar sz \<Rightarrow> if sz = 1 then String_Detect mem ptr end else Array_Detect mem ptr end
     | _ \<Rightarrow> do {
         view \<leftarrow> Array_Detect mem ptr end;
         if s_ptr view = None then Some null_slice
         else do {
           core \<leftarrow> Array_init mem ptr None;
           it \<leftarrow> Array_end core;
           elements_loop (\<lambda>f. FieldT_Detect det T mem f end) core view (unat (a_size core)) it
         }
       })"

text \<open>The loop over the pairs, of which the value comes first; scalars are skipped.\<close>

definition pair_extent :: "detector \<Rightarrow> detector \<Rightarrow> ty \<Rightarrow> ty \<Rightarrow> mem \<Rightarrow> ptr \<Rightarrow> Slice \<Rightarrow> Pair \<Rightarrow> Slice option option" where
  "pair_extent detk detv K V mem end view pair = do {
     v \<leftarrow> (if is_scalar V then Some None
           else do { f \<leftarrow> Pair_Value pair; t \<leftarrow> FieldT_Detect detv V mem f end; Some (extend view t) });
     if v \<noteq> None then Some v
     else if is_scalar K then Some None
     else do { t \<leftarrow> FieldT_Detect detk K mem (Pair_Key pair) end; Some (extend view t) }
   }"

primrec pairs_loop :: "(Pair \<Rightarrow> Slice option option) \<Rightarrow> Map \<Rightarrow> Slice \<Rightarrow> nat \<Rightarrow> ptr \<Rightarrow> Slice option" where
  "pairs_loop ext m view 0 it = Some view"
| "pairs_loop ext m view (Suc n) it = do {
     it \<leftarrow> Map_prev m it;
     r \<leftarrow> ext (Map_deref m it);
     (case r of Some s \<Rightarrow> Some s | None \<Rightarrow> pairs_loop ext m view n it)
   }"

definition MapT_Detect :: "detector \<Rightarrow> detector \<Rightarrow> ty \<Rightarrow> ty \<Rightarrow> detector" where
  "MapT_Detect detk detv K V mem ptr end = do {
     view \<leftarrow> Map_Detect mem ptr end;
     if s_ptr view = None then Some null_slice
     else if is_scalar K \<and> is_scalar V then Some view
     else do {
       core \<leftarrow> Map_init mem ptr None;
       n \<leftarrow> Map_Size core;
       it \<leftarrow> Map_end core;
       pairs_loop (pair_extent detk detv K V mem end view) core view (unat n) it
     }
   }"

text \<open>\<open>T::Detect\<close> of every type; scalars have none, their fields are detected by value.\<close>

primrec T_Detect :: "(nat \<Rightarrow> detector) \<Rightarrow> ty \<Rightarrow> detector" where
  "T_Detect md (TScalar sz) = (\<lambda>mem ptr end. Some null_slice)"
| "T_Detect md TStr = String_Detect"
| "T_Detect md (TMsg k) = md k"
| "T_Detect md (TArr T) = ArrayT_Detect (T_Detect md T) T"
| "T_Detect md (TMap K V) = MapT_Detect (T_Detect md K) (T_Detect md V) K V"

subsection \<open>Elements, pairs and messages\<close>

definition ArrayT_At :: "ty \<Rightarrow> mem \<Rightarrow> Array \<Rightarrow> u32 \<Rightarrow> ptr \<Rightarrow> val option" where
  "ArrayT_At T mem a pos end = do { f \<leftarrow> Array_at a pos; FieldT_Get T mem f end }"

definition ArrayT_Iterator_Get :: "ty \<Rightarrow> mem \<Rightarrow> Array \<Rightarrow> ptr \<Rightarrow> ptr \<Rightarrow> val option" where
  "ArrayT_Iterator_Get T mem a it end = FieldT_Get T mem (Array_deref a it) end"

definition PairT_Key :: "ty \<Rightarrow> mem \<Rightarrow> Pair \<Rightarrow> ptr \<Rightarrow> val option" where
  "PairT_Key K mem pair end = FieldT_Get K mem (Pair_Key pair) end"

definition PairT_Value :: "ty \<Rightarrow> mem \<Rightarrow> Pair \<Rightarrow> ptr \<Rightarrow> val option" where
  "PairT_Value V mem pair end = do { f \<leftarrow> Pair_Value pair; FieldT_Get V mem f end }"

text \<open>\<open>MapT::Find\<close> for a key given by its bytes.\<close>

definition MapT_Find :: "ty \<Rightarrow> mem \<Rightarrow> Map \<Rightarrow> u8 list \<Rightarrow> ptr \<Rightarrow> ptr option" where
  "MapT_Find K mem m key end = (if is_scalar K then Map_Find_scalar mem m key end else Map_Find mem m key end)"

definition GetFieldT :: "ty \<Rightarrow> mem \<Rightarrow> ptr \<Rightarrow> nat \<Rightarrow> ptr \<Rightarrow> val option" where
  "GetFieldT T mem message fid end = do { f \<leftarrow> GetField mem message fid end; FieldT_Get T mem f end }"

definition DetectField :: "(nat \<Rightarrow> detector) \<Rightarrow> ty \<Rightarrow> mem \<Rightarrow> ptr \<Rightarrow> nat \<Rightarrow> ptr \<Rightarrow> Slice option" where
  "DetectField md T mem message fid end = do {
     f \<leftarrow> GetField mem message fid end;
     FieldT_Detect (T_Detect md T) T mem f end
   }"

end
