(* ===== verification/AccessEx.thy ===== *)
theory AccessEx
  imports AccessT Serialize
begin

text \<open>
  The mutable objects of include/protocache/access-ex.h: arrays, maps and messages that are extracted
  from serialized data, changed, and serialized again.  An \<open>ArrayEX\<close> is the list of its elements, a
  \<open>MapEX\<close> the list of its pairs in the order in which the \<open>unordered_map\<close> iterates over them, and a
  \<open>MessageEX\<close> its pointer with the bitset of the accessed fields; the fields themselves belong to the
  generated class.  What the generated classes do for an element (their constructor and their
  \<open>Serialize\<close>) are the parameters \<open>extract\<close> and \<open>ser\<close>.  As in the serializer, \<open>None\<close> is an access outside
  of memory, and the flag of a result is False where the source returns false.
\<close>

type_synonym 'e extractor = "mem \<Rightarrow> ptr \<Rightarrow> ptr \<Rightarrow> 'e option"
type_synonym 'e serializer = "'e \<Rightarrow> Buffer \<Rightarrow> Unit \<Rightarrow> (bool \<times> Buffer \<times> Unit) option"

subsection \<open>The containers\<close>

text \<open>
  The operations that \<open>BaseArrayEX\<close> and \<open>MapEX\<close> forward to their \<open>vector\<close> and \<open>unordered_map\<close>.  An index
  or an iterator outside of the container is undefined behaviour: \<open>None\<close>.  \<open>dflt\<close> is the value that
  \<open>resize\<close> constructs.  \<open>emplace\<close> does not overwrite, and says whether the pair was new.
\<close>

definition ArrayEX_resize :: "'e \<Rightarrow> nat \<Rightarrow> 'e list \<Rightarrow> 'e list" where
  "ArrayEX_resize dflt n vec = take n vec @ replicate (n - length vec) dflt"

definition ArrayEX_clear :: "'e list \<Rightarrow> 'e list" where
  "ArrayEX_clear vec = []"

definition ArrayEX_set :: "nat \<Rightarrow> 'e \<Rightarrow> 'e list \<Rightarrow> 'e list option" where
  "ArrayEX_set pos e vec = (if pos < length vec then Some (vec[pos := e]) else None)"

definition ArrayEX_pop_back :: "'e list \<Rightarrow> 'e list option" where
  "ArrayEX_pop_back vec = (if vec = [] then None else Some (butlast vec))"

definition ArrayEX_emplace_back :: "'e \<Rightarrow> 'e list \<Rightarrow> 'e list" where
  "ArrayEX_emplace_back e vec = vec @ [e]"

definition MapEX_find :: "'k \<Rightarrow> ('k \<times> 'v) list \<Rightarrow> 'v option" where
  "MapEX_find k memo = map_of memo k"

definition MapEX_clear :: "('k \<times> 'v) list \<Rightarrow> ('k \<times> 'v) list" where
  "MapEX_clear memo = []"

definition MapEX_erase :: "'k \<Rightarrow> ('k \<times> 'v) list \<Rightarrow> ('k \<times> 'v) list \<times> bool" where
  "MapEX_erase k memo = (filter (\<lambda>p. fst p \<noteq> k) memo, k \<in> fst ` set memo)"

definition MapEX_emplace :: "'k \<Rightarrow> 'v \<Rightarrow> ('k \<times> 'v) list \<Rightarrow> ('k \<times> 'v) list \<times> bool" where
  "MapEX_emplace k v memo = (if k \<in> fst ` set memo then (memo, False) else (memo @ [(k, v)], True))"

subsection \<open>Arrays of objects\<close>

text \<open>The elements from number \<open>i\<close> on.\<close>

primrec extract_elements :: "'e extractor \<Rightarrow> mem \<Rightarrow> Array \<Rightarrow> ptr \<Rightarrow> nat \<Rightarrow> nat \<Rightarrow> 'e list option" where
  "extract_elements extract mem view end i 0 = Some []"
| "extract_elements extract mem view end i (Suc n) = do {
     f \<leftarrow> Array_at view (of_nat i);
     obj \<leftarrow> GetObject mem f end;
     e \<leftarrow> extract mem obj end;
     es \<leftarrow> extract_elements extract mem view end (i + 1) n;
     Some (e # es)
   }"

definition ArrayEX_init :: "'e extractor \<Rightarrow> mem \<Rightarrow> ptr \<Rightarrow> ptr \<Rightarrow> 'e list option" where
  "ArrayEX_init extract mem data end = do {
     view \<leftarrow> Array_init mem data end;
     extract_elements extract mem view end 0 (unat (a_size view))
   }"

text \<open>The elements from the last to the first; the units are collected in the order of the elements.\<close>

fun serialize_all :: "'e serializer \<Rightarrow> 'e list \<Rightarrow> Unit list \<Rightarrow> Buffer \<Rightarrow> (Unit list option \<times> Buffer) option" where
  "serialize_all ser [] units buf = Some (Some units, buf)"
| "serialize_all ser (e # es) units buf = do {
     (ok, buf, u) \<leftarrow> ser e buf unit_init;
     if \<not> ok then Some (None, buf) else serialize_all ser es (u # units) buf
   }"

definition ArrayEX_Serialize :: "'e serializer \<Rightarrow> 'e list serializer" where
  "ArrayEX_Serialize ser vec buf u = do {
     let lst = Size buf;
     (r, buf) \<leftarrow> serialize_all ser (rev vec) [] buf;
     (case r of None \<Rightarrow> Some (False, buf, u) | Some elements \<Rightarrow> SerializeArray elements buf lst u)
   }"

subsection \<open>Arrays of scalars, of booleans and of strings\<close>

text \<open>\<open>n\<close> numbers of \<open>m\<close> words each, from the index \<open>p\<close> on.\<close>

primrec read_numbers :: "mem \<Rightarrow> nat \<Rightarrow> nat \<Rightarrow> nat \<Rightarrow> u32 list list option" where
  "read_numbers mem m p 0 = Some []"
| "read_numbers mem m p (Suc n) = do {
     ws \<leftarrow> rd_range mem p m;
     rest \<leftarrow> read_numbers mem m (p + m) n;
     Some (ws # rest)
   }"

definition ScalarArrayEX_init :: "nat \<Rightarrow> mem \<Rightarrow> ptr \<Rightarrow> ptr \<Rightarrow> u32 list list option" where
  "ScalarArrayEX_init sz mem data end = do {
     a \<leftarrow> Array_init mem data end;
     let view = Array_Numbers sz a;
     (case s_ptr view of
        None \<Rightarrow> if s_len view = 0 then Some [] else None
      | Some p \<Rightarrow> read_numbers mem (sz div 4) p (s_len view))
   }"

fun put_numbers :: "nat \<Rightarrow> u32 list list \<Rightarrow> Buffer \<Rightarrow> Buffer option" where
  "put_numbers m [] buf = Some buf"
| "put_numbers m (ws # wss) buf = do {
     let buf = Expand m buf;
     buf \<leftarrow> store (Head buf) ws buf;
     put_numbers m wss buf
   }"

definition ScalarArrayEX_Serialize :: "nat \<Rightarrow> u32 list list serializer" where
  "ScalarArrayEX_Serialize sz vec buf u =
    (let m = sz div 4 in
     if vec = [] then do { u \<leftarrow> set_data [of_nat m] u; Some (True, buf, u) }
     else if m * length vec \<ge> 2 ^ 30 then Some (False, buf, u)
     else do {
       let lst = Size buf;
       buf \<leftarrow> put_numbers m (rev vec) buf;
       buf \<leftarrow> Put (push_bit 2 (of_nat (length vec)) OR of_nat m) buf;
       Some (True, buf, Segment lst (Size buf))
     })"

definition BoolArrayEX_init :: "mem \<Rightarrow> ptr \<Rightarrow> ptr \<Rightarrow> u8 list option" where
  "BoolArrayEX_init mem data end = do { view \<leftarrow> String_init mem data end; slice_bytes mem view }"

definition BoolArrayEX_Serialize :: "u8 list serializer" where
  "BoolArrayEX_Serialize vec buf u = Serialize_str vec buf u"

text \<open>The number of iterations of a loop from \<open>begin()\<close> to \<open>end()\<close>: none when they are the same pointer.\<close>

definition Array_count :: "Array \<Rightarrow> nat option" where
  "Array_count view = do { tail \<leftarrow> Array_end view; Some (if tail = Array_begin view then 0 else unat (a_size view)) }"

text \<open>The strings of an array, through iterators that are not given the end.\<close>

primrec read_strings :: "mem \<Rightarrow> Array \<Rightarrow> nat \<Rightarrow> ptr \<Rightarrow> u8 list list option" where
  "read_strings mem view 0 it = Some []"
| "read_strings mem view (Suc n) it = do {
     s \<leftarrow> StringField_Get mem (Array_deref view it) None;
     bs \<leftarrow> slice_bytes mem s;
     it \<leftarrow> Array_next view it;
     rest \<leftarrow> read_strings mem view n it;
     Some (bs # rest)
   }"

definition StringArrayEX_init :: "mem \<Rightarrow> ptr \<Rightarrow> ptr \<Rightarrow> u8 list list option" where
  "StringArrayEX_init mem data end = do {
     view \<leftarrow> Array_init mem data end;
     n \<leftarrow> Array_count view;
     read_strings mem view n (Array_begin view)
   }"

subsection \<open>Maps\<close>

text \<open>
  The pairs from the iterator on, put into the map unless it has the key already.  Keys and values are
  extracted from their fields.
\<close>

primrec extract_pairs :: "(mem \<Rightarrow> Field \<Rightarrow> ptr \<Rightarrow> 'k option) \<Rightarrow> (mem \<Rightarrow> Field \<Rightarrow> ptr \<Rightarrow> 'v option) \<Rightarrow> mem \<Rightarrow> Map \<Rightarrow> ptr \<Rightarrow>
    nat \<Rightarrow> ptr \<Rightarrow> ('k \<times> 'v) list \<Rightarrow> ('k \<times> 'v) list option" where
  "extract_pairs exk exv mem view end 0 it vec = Some vec"
| "extract_pairs exk exv mem view end (Suc n) it vec = do {
     let pair = Map_deref view it;
     k \<leftarrow> exk mem (Pair_Key pair) end;
     f \<leftarrow> Pair_Value pair;
     v \<leftarrow> exv mem f end;
     it \<leftarrow> Map_next view it;
     extract_pairs exk exv mem view end n it (fst (MapEX_emplace k v vec))
   }"

definition MapEX_init :: "(mem \<Rightarrow> Field \<Rightarrow> ptr \<Rightarrow> 'k option) \<Rightarrow> (mem \<Rightarrow> Field \<Rightarrow> ptr \<Rightarrow> 'v option) \<Rightarrow> mem \<Rightarrow> ptr \<Rightarrow> ptr \<Rightarrow> ('k \<times> 'v) list option" where
  "MapEX_init exk exv mem data end = do {
     view \<leftarrow> Map_init mem data end;
     n \<leftarrow> Map_Size view;
     extract_pairs exk exv mem view end (unat n) (Map_begin view) []
   }"

text \<open>\<open>MapKeyReader\<close> over the bytes of the keys; it has the methods of \<open>VectorReader\<close>.\<close>

definition map_key_reader :: "VectorReader KeyReader" where
  "map_key_reader = \<lparr>kr_reset = vr_reset, kr_total = vr_total, kr_read = vr_read\<rparr>"

text \<open>The loop that fills \<open>book\<close>; a position outside of it is the failed assertion.\<close>

fun fill_book :: "PerfectHashObject \<Rightarrow> ('k \<Rightarrow> u8 list) \<Rightarrow> ('k \<times> 'v) list \<Rightarrow> ('k \<times> 'v) option list \<Rightarrow> ('k \<times> 'v) option list option" where
  "fill_book index key_bytes [] book = Some book"
| "fill_book index key_bytes (p # memo) book = do {
     pos \<leftarrow> PerfectHashObject_Locate index (key_bytes (fst p));
     if unat pos < length book then fill_book index key_bytes memo (book[unat pos := Some p]) else None
   }"

text \<open>The pairs from the last to the first; the value goes before the key.  A null entry is a fault.\<close>

fun serialize_book :: "'k serializer \<Rightarrow> 'v serializer \<Rightarrow> ('k \<times> 'v) option list \<Rightarrow> (Unit \<times> Unit) list \<Rightarrow> Buffer \<Rightarrow> ((Unit \<times> Unit) list option \<times> Buffer) option" where
  "serialize_book serk serv [] units buf = Some (Some units, buf)"
| "serialize_book serk serv (None # book) units buf = None"
| "serialize_book serk serv (Some (k, v) # book) units buf = do {
     (ok, buf, uv) \<leftarrow> serv v buf unit_init;
     if \<not> ok then Some (None, buf)
     else do {
       (ok, buf, uk) \<leftarrow> serk k buf unit_init;
       if \<not> ok then Some (None, buf) else serialize_book serk serv book ((uk, uv) # units) buf
     }
   }"

definition MapEX_Serialize :: "u32 \<Rightarrow> (nat \<Rightarrow> nat \<Rightarrow> u32) \<Rightarrow> ('k \<Rightarrow> u8 list) \<Rightarrow> 'k serializer \<Rightarrow> 'v serializer \<Rightarrow> ('k \<times> 'v) list serializer" where
  "MapEX_Serialize gseed junk key_bytes serk serv memo buf u = do {
     (index, r) \<leftarrow> PerfectHashObject_Build map_key_reader gseed junk True \<lparr>vr_keys = map (key_bytes \<circ> fst) memo, vr_idx = 0\<rparr>;
     case ph_data index of
       None \<Rightarrow> Some (False, buf, u)
     | Some data \<Rightarrow> do {
         book \<leftarrow> fill_book index key_bytes memo (replicate (length memo) None);
         let lst = Size buf;
         (r, buf) \<leftarrow> serialize_book serk serv (rev book) [] buf;
         (case r of None \<Rightarrow> Some (False, buf, u) | Some units \<Rightarrow> SerializeMap data units buf lst u)
       }
   }"

subsection \<open>Messages\<close>

text \<open>A copy of serialized words, into the unit when it may be folded and is small.\<close>

definition Copy :: "u32 list \<Rightarrow> Buffer \<Rightarrow> Unit \<Rightarrow> bool \<Rightarrow> (bool \<times> Buffer \<times> Unit) option" where
  "Copy src buf u may_fold =
    (if may_fold \<and> length src < 4 then do { u \<leftarrow> set_data src u; Some (True, buf, u) }
     else do {
       let lst = Size buf;
       buf \<leftarrow> Put_slice src buf;
       Some (True, buf, Segment lst (Size buf))
     })"

text \<open>The words that a slice points to.\<close>

definition slice_words :: "mem \<Rightarrow> Slice \<Rightarrow> u32 list option" where
  "slice_words mem s = (case s_ptr s of None \<Rightarrow> if s_len s = 0 then Some [] else None | Some p \<Rightarrow> rd_range mem p (s_len s))"

record MessageEX =
  x_ptr :: ptr
  x_accessed :: "bool list"

definition MessageEX_init :: "nat \<Rightarrow> mem \<Rightarrow> ptr \<Rightarrow> ptr \<Rightarrow> MessageEX option" where
  "MessageEX_init N mem ptr end = do { m \<leftarrow> Message_init mem ptr end; Some \<lparr>x_ptr = m, x_accessed = replicate N False\<rparr> }"

definition CleanHead :: "MessageEX \<Rightarrow> ptr" where
  "CleanHead x = (if True \<notin> set (x_accessed x) then x_ptr x else None)"

definition MarkNil :: "Unit \<Rightarrow> Unit" where
  "MarkNil u = u\<lparr>u_len := 0, u_data := (u_data u)[1 := 0]\<rparr>"

definition Fold :: "Buffer \<Rightarrow> Unit \<Rightarrow> (bool \<times> Buffer \<times> Unit) option" where
  "Fold buf u = do { (buf, u) \<leftarrow> FoldField buf u; Some (True, buf, u) }"

text \<open>
  \<open>ExtractField\<close>: the bytes of a string, or what \<open>FieldT<T>::Get\<close> gives to the constructor of the type
  (the parameter \<open>conv\<close>).
\<close>

definition ExtractField_string :: "mem \<Rightarrow> MessageEX \<Rightarrow> nat \<Rightarrow> ptr \<Rightarrow> u8 list option" where
  "ExtractField_string mem x fid end = do {
     f \<leftarrow> GetField mem (x_ptr x) fid end;
     view \<leftarrow> StringField_Get mem f end;
     slice_bytes mem view
   }"

definition ExtractField :: "ty \<Rightarrow> (val \<Rightarrow> 'f option) \<Rightarrow> mem \<Rightarrow> MessageEX \<Rightarrow> nat \<Rightarrow> ptr \<Rightarrow> 'f option" where
  "ExtractField T conv mem x fid end = do { v \<leftarrow> GetFieldT T mem (x_ptr x) fid end; conv v }"

text \<open>\<open>GetField\<close>: the field is extracted on the first access only.\<close>

definition MessageEX_GetField :: "(mem \<Rightarrow> MessageEX \<Rightarrow> nat \<Rightarrow> ptr \<Rightarrow> 'f option) \<Rightarrow> mem \<Rightarrow> nat \<Rightarrow> ptr \<Rightarrow> MessageEX \<Rightarrow> 'f \<Rightarrow> (MessageEX \<times> 'f) option" where
  "MessageEX_GetField ex mem fid end x fld = do {
     a \<leftarrow> rd (x_accessed x) fid;
     if a then Some (x, fld)
     else do {
       let x = x\<lparr>x_accessed := (x_accessed x)[fid := True]\<rparr>;
       v \<leftarrow> ex mem x fid end;
       Some (x, v)
     }
   }"

text \<open>\<open>Copy(DetectField<T>(*this, id, end), buf, unit, true)\<close>\<close>

definition CopyField :: "(nat \<Rightarrow> detector) \<Rightarrow> ty \<Rightarrow> mem \<Rightarrow> MessageEX \<Rightarrow> nat \<Rightarrow> ptr \<Rightarrow> Buffer \<Rightarrow> Unit \<Rightarrow> (bool \<times> Buffer \<times> Unit) option" where
  "CopyField md T mem x fid end buf u = do {
     s \<leftarrow> DetectField md T mem (x_ptr x) fid end;
     ws \<leftarrow> slice_words mem s;
     Copy ws buf u True
   }"

definition SerializeField_string :: "(nat \<Rightarrow> detector) \<Rightarrow> mem \<Rightarrow> MessageEX \<Rightarrow> nat \<Rightarrow> ptr \<Rightarrow> u8 list \<Rightarrow> Buffer \<Rightarrow> Unit \<Rightarrow> (bool \<times> Buffer \<times> Unit) option" where
  "SerializeField_string md mem x fid end fld buf u = do {
     a \<leftarrow> rd (x_accessed x) fid;
     if \<not> a then CopyField md TStr mem x fid end buf u
     else if fld = [] then Some (True, buf, MarkNil u)
     else do {
       (ok, buf, u) \<leftarrow> Serialize_str fld buf u;
       if ok then Fold buf u else Some (False, buf, u)
     }
   }"

text \<open>A scalar is given by its one or two words; \<open>zero\<close> says that it compares equal to 0.\<close>

definition SerializeField_scalar :: "(nat \<Rightarrow> detector) \<Rightarrow> nat \<Rightarrow> mem \<Rightarrow> MessageEX \<Rightarrow> nat \<Rightarrow> ptr \<Rightarrow> u32 list \<Rightarrow> bool \<Rightarrow> Buffer \<Rightarrow> Unit \<Rightarrow> (bool \<times> Buffer \<times> Unit) option" where
  "SerializeField_scalar md sz mem x fid end fld zero buf u = do {
     a \<leftarrow> rd (x_accessed x) fid;
     if \<not> a then CopyField md (TScalar sz) mem x fid end buf u
     else if zero then Some (True, buf, MarkNil u)
     else do { u \<leftarrow> Serialize_scalar fld u; Some (True, buf, u) }
   }"

text \<open>An object of one word is an empty one: the field is left out.\<close>

definition drop_empty :: "Buffer \<Rightarrow> Unit \<Rightarrow> (bool \<times> Buffer \<times> Unit) option" where
  "drop_empty buf u =
    (if unit_size u = 1 then
       if u_len u = 0 then Some (True, Shrink 1 buf, u\<lparr>u_data := (u_data u)[1 := 0]\<rparr>)
       else Some (True, buf, u\<lparr>u_len := 0\<rparr>)
     else Fold buf u)"

definition SerializeField_object :: "(nat \<Rightarrow> detector) \<Rightarrow> ty \<Rightarrow> 'f serializer \<Rightarrow> mem \<Rightarrow> MessageEX \<Rightarrow> nat \<Rightarrow> ptr \<Rightarrow> 'f \<Rightarrow> Buffer \<Rightarrow> Unit \<Rightarrow> (bool \<times> Buffer \<times> Unit) option" where
  "SerializeField_object md T ser mem x fid end fld buf u = do {
     a \<leftarrow> rd (x_accessed x) fid;
     (ok, buf, u) \<leftarrow> (if \<not> a then CopyField md T mem x fid end buf u else ser fld buf u);
     if \<not> ok then Some (False, buf, u) else drop_empty buf u
   }"

text \<open>Arrays and maps; \<open>emp\<close> says that the container is empty.\<close>

definition SerializeField_container :: "(nat \<Rightarrow> detector) \<Rightarrow> ty \<Rightarrow> 'f serializer \<Rightarrow> mem \<Rightarrow> MessageEX \<Rightarrow> nat \<Rightarrow> ptr \<Rightarrow> 'f \<Rightarrow> bool \<Rightarrow> Buffer \<Rightarrow> Unit \<Rightarrow> (bool \<times> Buffer \<times> Unit) option" where
  "SerializeField_container md T ser mem x fid end fld emp buf u = do {
     a \<leftarrow> rd (x_accessed x) fid;
     if \<not> a then CopyField md T mem x fid end buf u
     else if emp then Some (True, buf, MarkNil u)
     else do {
       (ok, buf, u) \<leftarrow> ser fld buf u;
       if ok then Fold buf u else Some (False, buf, u)
     }
   }"

end
