(* ===== verification/AccessTSafe.thy ===== *)
theory AccessTSafe
  imports AccessT
begin

text \<open>
  The typed views on arbitrary words: with the end of the block given they read only inside of it, for
  every type, and the views and extents they return lie inside of it.  For the extents, this holds of
  a type whenever it holds of the message classes inside of it.
\<close>

subsection \<open>Values\<close>

fun ty_ok :: "ty \<Rightarrow> bool" where
  "ty_ok (TScalar sz) \<longleftrightarrow> sz \<in> {1, 4, 8}"
| "ty_ok (TArr T) \<longleftrightarrow> ty_ok T"
| "ty_ok (TMap K V) \<longleftrightarrow> ty_ok K \<and> ty_ok V"
| "ty_ok T \<longleftrightarrow> True"

fun val_in :: "mem \<Rightarrow> val \<Rightarrow> bool" where
  "val_in mem (VScalar bs) \<longleftrightarrow> True"
| "val_in mem (VStr s) \<longleftrightarrow> inside (4 * length mem) (s_ptr s) (s_len s)"
| "val_in mem (VMsg m) \<longleftrightarrow> message_in mem m"
| "val_in mem (VArr a) \<longleftrightarrow> array_in mem a"
| "val_in mem (VNums s) \<longleftrightarrow> inside (length mem) (s_ptr s) 0"
| "val_in mem (VMap m) \<longleftrightarrow> map_in mem m"

text \<open>A field that a message or an array with a body gives: null fields have no width.\<close>

definition field_ok :: "mem \<Rightarrow> Field \<Rightarrow> bool" where
  "field_ok mem f \<longleftrightarrow> field_in mem f \<and> (f_ptr f = None \<longrightarrow> f_width f = 0)"

lemma GetField_ok:
  assumes "message_in mem m"
  shows "\<exists>f. GetField mem m fid (Some (length mem)) = Some f \<and> field_ok mem f"
proof -
  obtain f where f: "GetField mem m fid (Some (length mem)) = Some f" "field_in mem f" using GetField_inside [OF assms] by blast
  then have "f_ptr f = None \<longrightarrow> f_width f = 0"
    by (auto simp: GetField_def null_field_def Let_def split: bind_splits option.splits prod.splits if_splits)
  then show ?thesis using f by (simp add: field_ok_def)
qed

lemma ScalarField_Get_total:
  assumes "field_ok mem f" "sz \<in> {1, 4, 8}"
  shows "\<exists>bs. ScalarField_Get sz mem f (Some (length mem)) = Some bs \<and> length bs = sz"
proof (cases "f_ptr f")
  case None
  then show ?thesis using assms by (auto simp: ScalarField_Get_def GetValue_def field_ok_def WordSize_def)
next
  case (Some p)
  then have "p + f_width f \<le> length mem" using assms(1) by (simp add: field_ok_def field_in_def)
  then show ?thesis using Some assms(2) by (auto simp: ScalarField_Get_def GetValue_def slice_def WordSize_def Let_def)
qed

lemma ArrayT_init_inside:
  assumes "inside (length mem) p 1"
  shows "\<exists>v. ArrayT_init T mem p (Some (length mem)) = Some v \<and> val_in mem v"
proof -
  obtain s a where s: "String_init mem p (Some (length mem)) = Some s" "inside (4 * length mem) (s_ptr s) (s_len s)"
    and a: "Array_init mem p (Some (length mem)) = Some a" "array_in mem a"
    using String_init_inside Array_init_inside [OF assms] by blast
  have "inside (length mem) (s_ptr (Array_Numbers sz a)) 0" for sz
    using a(2) by (cases "a_body a") (auto simp: Array_Numbers_def array_in_def null_slice_def)
  then show ?thesis using s a by (auto simp: ArrayT_init_def split: ty.splits)
qed

lemma FieldT_Get_inside:
  assumes "field_ok mem f" "ty_ok T" "length mem < 2 ^ 30"
  shows "\<exists>v. FieldT_Get T mem f (Some (length mem)) = Some v \<and> val_in mem v"
proof -
  obtain q where q: "GetObject mem f (Some (length mem)) = Some q" "inside (length mem) q 1" using GetObject_inside by blast
  show ?thesis
  proof (cases T)
    case (TScalar sz)
    then show ?thesis using ScalarField_Get_total [OF assms(1), of sz] assms(2) by (auto simp: FieldT_Get_def)
  next
    case TStr
    then show ?thesis using String_init_inside [of mem q] q by (auto simp: FieldT_Get_def StringField_Get_def)
  next
    case (TMsg k)
    then show ?thesis using Message_init_inside [OF q(2)] q(1) by (auto simp: FieldT_Get_def)
  next
    case (TArr U)
    then show ?thesis using ArrayT_init_inside [OF q(2)] q(1) by (simp add: FieldT_Get_def)
  next
    case (TMap K V)
    then show ?thesis using Map_init_inside [OF q(2) assms(3)] q(1) by (auto simp: FieldT_Get_def)
  qed
qed

subsection \<open>Extents\<close>

text \<open>A detector that stays in the block and gives an extent in it, from any word of the block.\<close>

definition detects :: "mem \<Rightarrow> detector \<Rightarrow> bool" where
  "detects mem det \<longleftrightarrow> (\<forall>p. inside (length mem) p 1 \<longrightarrow> (\<exists>s. det mem p (Some (length mem)) = Some s \<and> inside (length mem) (s_ptr s) (s_len s)))"

lemma detectsD: "detects mem det \<Longrightarrow> inside (length mem) p 1 \<Longrightarrow> \<exists>s. det mem p (Some (length mem)) = Some s \<and> inside (length mem) (s_ptr s) (s_len s)"
  by (simp add: detects_def)

lemma detects_String: "detects mem String_Detect"
  using String_Detect_inside by (simp add: detects_def)

lemma FieldT_Detect_inside:
  assumes "detects mem det"
  shows "\<exists>s. FieldT_Detect det T mem f (Some (length mem)) = Some s \<and> inside (length mem) (s_ptr s) (s_len s)"
proof -
  obtain q where q: "GetObject mem f (Some (length mem)) = Some q" "inside (length mem) q 1" using GetObject_inside by blast
  then show ?thesis using detectsD [OF assms q(2)] detectsD [OF detects_String q(2)] GetValue_inside [of mem f]
    by (auto simp: FieldT_Detect_def ScalarField_Detect_def StringField_Detect_def split: ty.splits)
qed

lemma extend_inside: "extend view t = Some s \<Longrightarrow> inside k (s_ptr view) (s_len view) \<Longrightarrow> inside k (s_ptr t) (s_len t) \<Longrightarrow> inside k (s_ptr s) (s_len s)"
  by (auto simp: extend_def slice_end_def slice_def split: option.splits if_splits)

lemma elements_loop_inside:
  assumes det: "\<And>f. \<exists>s. det f = Some s \<and> inside k (s_ptr s) (s_len s)" and "inside k (s_ptr view) (s_len view)"
  shows "unat (a_width a) * n \<le> q \<Longrightarrow> \<exists>s. elements_loop det a view n (Some q) = Some s \<and> inside k (s_ptr s) (s_len s)"
proof (induction n arbitrary: q)
  case (Suc n)
  let ?f = "Array_deref a (Some (q - unat (a_width a)))"
  obtain t where t: "det ?f = Some t" "inside k (s_ptr t) (s_len t)" using det by blast
  have "\<exists>s. elements_loop det a view n (Some (q - unat (a_width a))) = Some s \<and> inside k (s_ptr s) (s_len s)"
    using Suc.prems by (intro Suc.IH) simp
  moreover have "unat (a_width a) \<le> q" using Suc.prems by simp
  ultimately show ?case using t extend_inside [OF _ assms(2) t(2)] by (auto simp: Array_prev_def ptr_sub_def split: option.splits)
qed (use assms(2) in simp)

text \<open>The view that \<open>Array::Detect\<close> accepts has a body when it is read without an end.\<close>

lemma Array_Detect_view:
  assumes "inside (length mem) (Some p) 1"
  shows "\<exists>s. Array_Detect mem (Some p) (Some (length mem)) = Some s \<and> inside (length mem) (s_ptr s) (s_len s) \<and>
    (s_ptr s \<noteq> None \<longrightarrow> (\<exists>a. Array_init mem (Some p) None = Some a \<and> a_body a = Some (p + 1) \<and> array_in mem a \<and> a_width a \<noteq> 0 \<and>
      s = slice p (1 + unat (a_width a) * unat (a_size a))))"
proof -
  let ?w = "mem ! p AND 3" and ?n = "drop_bit 2 (mem ! p)"
  have p: "rd mem p = Some (mem ! p)" using assms by simp
  have w: "unat ?w \<le> 3" by (simp add: unat_and_3 less_Suc_eq_le [symmetric])
  have n: "unat ?n < 2 ^ 30" using unat_u32 [of "mem ! p"] by (simp add: unat_drop_bit)
  have prod: "unat (?w * ?n) = unat ?w * unat ?n" using w n by (intro array_product) simp_all
  show ?thesis using w n by (auto simp: Array_Detect_def Array_init_def p Let_def null_slice_def slice_def prod array_in_def)
qed

lemma detects_ArrayT:
  assumes "detects mem det"
  shows "detects mem (ArrayT_Detect det T)"
  unfolding detects_def
proof (intro allI impI)
  fix ptr assume "inside (length mem) ptr 1"
  show "\<exists>s. ArrayT_Detect det T mem ptr (Some (length mem)) = Some s \<and> inside (length mem) (s_ptr s) (s_len s)"
  proof (cases ptr)
    case None
    then show ?thesis using String_Detect_inside [of mem None] by (auto simp: ArrayT_Detect_def Array_Detect_def null_slice_def split: ty.splits)
  next
    case (Some p)
    obtain s where s: "Array_Detect mem (Some p) (Some (length mem)) = Some s" "inside (length mem) (s_ptr s) (s_len s)"
      "s_ptr s \<noteq> None \<Longrightarrow> \<exists>a. Array_init mem (Some p) None = Some a \<and> a_body a = Some (p + 1) \<and> array_in mem a \<and> a_width a \<noteq> 0 \<and>
        s = slice p (1 + unat (a_width a) * unat (a_size a))"
      using Array_Detect_view [of mem p] \<open>inside (length mem) ptr 1\<close> Some by blast
    show ?thesis
    proof (cases "s_ptr s = None \<or> is_scalar T")
      case True
      then show ?thesis using Some s(1,2) String_Detect_inside [of mem "Some p"] by (auto simp: ArrayT_Detect_def is_scalar_def null_slice_def split: ty.splits)
    next
      case False
      then obtain a where a: "Array_init mem (Some p) None = Some a" "a_body a = Some (p + 1)" "array_in mem a" using s(3) by blast
      have e: "Array_end a = Some (Some (p + 1 + unat (a_width a) * unat (a_size a)))"
        using a array_product [of "a_width a" "a_size a"] by (simp add: Array_end_def array_in_def)
      have "\<exists>r. elements_loop (\<lambda>f. FieldT_Detect det T mem f (Some (length mem))) a s (unat (a_size a)) (Some (p + 1 + unat (a_width a) * unat (a_size a))) = Some r \<and>
          inside (length mem) (s_ptr r) (s_len r)"
        by (rule elements_loop_inside [OF FieldT_Detect_inside [OF assms] s(2)]) simp
      then show ?thesis using Some s(1) False a(1) e by (auto simp: ArrayT_Detect_def is_scalar_def split: ty.splits)
    qed
  qed
qed

lemma init_unlimited: "PerfectHash_init data sz = Some ph \<Longrightarrow> ph_data ph \<noteq> None \<Longrightarrow> PerfectHash_init data 0 = Some ph"
  by (auto simp: PerfectHash_init_def Let_def ph_null_def split: bind_splits if_splits)

lemma Map_Detect_view:
  assumes "inside (length mem) (Some p) 1" "length mem < 2 ^ 30"
  shows "\<exists>s. Map_Detect mem (Some p) (Some (length mem)) = Some s \<and> inside (length mem) (s_ptr s) (s_len s) \<and>
    (s_ptr s \<noteq> None \<longrightarrow> (\<exists>m b n. Map_init mem (Some p) None = Some m \<and> m_body m = Some b \<and> Map_Size m = Some n \<and> p \<le> b \<and>
      Map_end m = Some (Some (b + (unat (m_kw m) + unat (m_vw m)) * unat n)) \<and> unat (m_kw m + m_vw m) = unat (m_kw m) + unat (m_vw m) \<and>
      s = slice p (b + (unat (m_kw m) + unat (m_vw m)) * unat n - p)))"
proof -
  let ?kw = "drop_bit 30 (mem ! p) AND 3" and ?vw = "drop_bit 28 (mem ! p) AND 3"
    and ?data = "drop (4 * p) (mem_bytes mem)" and ?sz = "index_limit p (Some (length mem))"
  have p: "rd mem p = Some (mem ! p)" "p < length mem" using assms(1) by auto
  have w: "unat ?kw \<le> 3" "unat ?vw \<le> 3" by (simp_all add: unat_and_3 less_Suc_eq_le [symmetric])
  have s: "unat (?kw + ?vw) = unat ?kw + unat ?vw" using w by (simp add: unat_word_ariths)
  have "\<exists>ph. PerfectHash_init ?data ?sz = Some ph" using drop_mem_bytes_load [OF p(2)] by (auto simp: PerfectHash_init_eq)
  then obtain ph where ph: "PerfectHash_init ?data ?sz = Some ph" ..
  obtain n where n: "PerfectHash_Size ph = Some n" "unat n < 2 ^ 28" using PerfectHash_init_Size [OF ph] by blast
  note prod = map_product [OF w n(2)]
  show ?thesis
  proof (cases "?kw = 0 \<or> ?vw = 0 \<or> ph_data ph = None")
    case True
    then show ?thesis by (auto simp: Map_Detect_def p Let_def ph null_slice_def)
  next
    case False
    then have i: "PerfectHash_init ?data 0 = Some ph" using init_unlimited [OF ph] by simp
    let ?b = "p + WordSize (unat (ph_data_size ph))"
    have m: "Map_init mem (Some p) None = Some \<lparr>m_index = ph, m_body = Some ?b, m_kw = ?kw, m_vw = ?vw\<rparr>"
      using False i n by (simp add: Map_init_def p Let_def index_limit_def)
    show ?thesis
    proof (cases "?b + (unat ?kw + unat ?vw) * unat n > length mem")
      case True
      then show ?thesis using False by (auto simp: Map_Detect_def p Let_def ph n prod null_slice_def)
    next
      case fits: False
      then have "Map_Detect mem (Some p) (Some (length mem)) = Some (slice p (?b + (unat ?kw + unat ?vw) * unat n - p))"
        using False by (auto simp: Map_Detect_def p Let_def ph n prod)
      then show ?thesis using m fits s n prod by (auto simp: slice_def Map_Size_def Map_end_def)
    qed
  qed
qed

lemma pair_extent_inside:
  assumes "detects mem detk" "detects mem detv" "p_ptr pair \<noteq> None" "inside (length mem) (s_ptr view) (s_len view)"
  shows "\<exists>r. pair_extent detk detv K V mem (Some (length mem)) view pair = Some r \<and> (\<forall>s. r = Some s \<longrightarrow> inside (length mem) (s_ptr s) (s_len s))"
proof -
  obtain f where f: "Pair_Value pair = Some f" using assms(3) by (auto simp: Pair_Value_def)
  obtain t where t: "FieldT_Detect detv V mem f (Some (length mem)) = Some t" "inside (length mem) (s_ptr t) (s_len t)"
    using FieldT_Detect_inside [OF assms(2)] by blast
  obtain k where k: "FieldT_Detect detk K mem (Pair_Key pair) (Some (length mem)) = Some k" "inside (length mem) (s_ptr k) (s_len k)"
    using FieldT_Detect_inside [OF assms(1)] by blast
  show ?thesis using f t k extend_inside [OF _ assms(4) t(2)] extend_inside [OF _ assms(4) k(2)]
    by (cases "extend view t") (auto simp: pair_extent_def)
qed

lemma pairs_loop_inside:
  assumes ext: "\<And>pair. p_ptr pair \<noteq> None \<Longrightarrow> \<exists>r. ext pair = Some r \<and> (\<forall>s. r = Some s \<longrightarrow> inside k (s_ptr s) (s_len s))"
    and "inside k (s_ptr view) (s_len view)" and w: "unat (m_kw m + m_vw m) = w"
  shows "w * n \<le> q \<Longrightarrow> \<exists>s. pairs_loop ext m view n (Some q) = Some s \<and> inside k (s_ptr s) (s_len s)"
proof (induction n arbitrary: q)
  case (Suc n)
  obtain r where r: "ext (Map_deref m (Some (q - w))) = Some r" "\<forall>s. r = Some s \<longrightarrow> inside k (s_ptr s) (s_len s)"
    using ext [of "Map_deref m (Some (q - w))"] by (auto simp: Map_deref_def)
  have "\<exists>s. pairs_loop ext m view n (Some (q - w)) = Some s \<and> inside k (s_ptr s) (s_len s)" using Suc.prems by (intro Suc.IH) simp
  moreover have "w \<le> q" using Suc.prems by simp
  ultimately show ?case using r w by (auto simp: Map_prev_def ptr_sub_def split: option.splits)
qed (use assms(2) in simp)

lemma detects_MapT:
  assumes "detects mem detk" "detects mem detv" "length mem < 2 ^ 30"
  shows "detects mem (MapT_Detect detk detv K V)"
  unfolding detects_def
proof (intro allI impI)
  fix ptr assume i: "inside (length mem) ptr 1"
  show "\<exists>s. MapT_Detect detk detv K V mem ptr (Some (length mem)) = Some s \<and> inside (length mem) (s_ptr s) (s_len s)"
  proof (cases ptr)
    case None
    then show ?thesis by (simp add: MapT_Detect_def Map_Detect_def null_slice_def)
  next
    case (Some p)
    obtain s where s: "Map_Detect mem (Some p) (Some (length mem)) = Some s" "inside (length mem) (s_ptr s) (s_len s)"
      "s_ptr s \<noteq> None \<Longrightarrow> \<exists>m b n. Map_init mem (Some p) None = Some m \<and> m_body m = Some b \<and> Map_Size m = Some n \<and>
        Map_end m = Some (Some (b + (unat (m_kw m) + unat (m_vw m)) * unat n)) \<and> unat (m_kw m + m_vw m) = unat (m_kw m) + unat (m_vw m)"
      using Map_Detect_view [of mem p] i Some assms(3) by blast
    show ?thesis
    proof (cases "s_ptr s = None \<or> is_scalar K \<and> is_scalar V")
      case True
      then show ?thesis using Some s by (auto simp: MapT_Detect_def null_slice_def)
    next
      case False
      then obtain m b n where m: "Map_init mem (Some p) None = Some m" "Map_Size m = Some n"
        "Map_end m = Some (Some (b + (unat (m_kw m) + unat (m_vw m)) * unat n))" "unat (m_kw m + m_vw m) = unat (m_kw m) + unat (m_vw m)"
        using s(3) by blast
      have "\<exists>r. pairs_loop (pair_extent detk detv K V mem (Some (length mem)) s) m s (unat n) (Some (b + (unat (m_kw m) + unat (m_vw m)) * unat n)) = Some r \<and>
          inside (length mem) (s_ptr r) (s_len r)"
        by (rule pairs_loop_inside [OF pair_extent_inside [OF assms(1,2) _ s(2)] s(2) m(4)]) simp_all
      then show ?thesis using Some s(1) False m by (auto simp: MapT_Detect_def)
    qed
  qed
qed

lemma detects_T:
  assumes "\<forall>k. detects mem (md k)" "length mem < 2 ^ 30"
  shows "detects mem (T_Detect md T)"
proof (induction T)
  case (TScalar sz)
  then show ?case by (simp add: detects_def null_slice_def)
qed (use assms detects_String detects_ArrayT detects_MapT in auto)

subsection \<open>Properties\<close>

text \<open>
  Reading a field of a message as any type, from a block of arbitrary words and with the end
  of the block, reads only inside of it, and the string, message, array, numbers or map it returns lie
  inside of the block.  The same holds of the elements of an array that has a body.
\<close>

theorem typed_access_safe:
  assumes "p < length mem" "length mem < 2 ^ 30" "ty_ok T"
  shows "\<exists>m. Message_init mem (Some p) (Some (length mem)) = Some m \<and>
    (\<forall>fid. \<exists>v. GetFieldT T mem m fid (Some (length mem)) = Some v \<and> val_in mem v \<and>
      (\<forall>a U i. v = VArr a \<and> T = TArr U \<and> a_body a \<noteq> None \<and> i < a_size a \<longrightarrow>
        (\<exists>e. ArrayT_At U mem a i (Some (length mem)) = Some e \<and> val_in mem e)))"
proof -
  obtain m where m: "Message_init mem (Some p) (Some (length mem)) = Some m" "message_in mem m"
    using Message_init_inside [of mem "Some p"] assms(1) by auto
  have elem: "\<exists>e. ArrayT_At U mem a i (Some (length mem)) = Some e \<and> val_in mem e"
    if a: "val_in mem (VArr a)" "a_body a \<noteq> None" "i < a_size a" "ty_ok U" for a U i
  proof -
    obtain f where f: "Array_at a i = Some f" "field_ok mem f" using Array_at_inside [of mem a i] a by (auto simp: field_ok_def)
    then show ?thesis using FieldT_Get_inside [OF f(2) a(4) assms(2)] by (simp add: ArrayT_At_def)
  qed
  have "\<exists>v. GetFieldT T mem m fid (Some (length mem)) = Some v \<and> val_in mem v" for fid
    using GetField_ok [OF m(2), of fid] FieldT_Get_inside [OF _ assms(3,2)] by (auto simp: GetFieldT_def)
  then show ?thesis using m(1) elem assms(3) by (metis ty_ok.simps(2))
qed


text \<open>Witnesses.\<close>

theorem typed_access_safe_witness:
  "\<exists>m v. Message_init [0x100, 0x6104] (Some 0) (Some 2) = Some m \<and> GetFieldT TStr [0x100, 0x6104] m 0 (Some 2) = Some v \<and> val_in [0x100, 0x6104] v"
proof -
  have "0 < length [0x100, 0x6104 :: u32]" "length [0x100, 0x6104 :: u32] < 2 ^ 30" "ty_ok TStr" by simp_all
  from typed_access_safe [OF this] obtain m where "Message_init [0x100, 0x6104] (Some 0) (Some (length [0x100, 0x6104 :: u32])) = Some m"
    "\<exists>v. GetFieldT TStr [0x100, 0x6104] m 0 (Some (length [0x100, 0x6104 :: u32])) = Some v \<and> val_in [0x100, 0x6104] v" by blast
  then show ?thesis by (auto simp: numeral_2_eq_2)
qed


end
