(* ===== verification/Extent.thy ===== *)
theory Extent
  imports SerialMap AccessTSafe
begin

text \<open>
  \<open>Detect\<close> on serialized data: the extent of an object is the object.  An array or a map ends with the
  last of its elements that did not fit into a cell, which is the first one that the loop of \<open>Detect\<close>
  finds behind the cells.
\<close>

subsection \<open>The element at the end\<close>

lemma width_take_le: "width (take k us) \<le> width us"
  by (metis append_take_drop_id le_add1 width_append)

lemma first_kept_cell:
  assumes "\<forall>(m, u)\<in>set us. fits_cell (length V) m u" "j < length us" "stays (fst (us ! j)) (snd (us ! j))" "\<forall>i<j. \<not> stays (fst (us ! i)) (snd (us ! i))"
  shows "cells_of D (packed V T us) ! (width us - width (take (Suc j) us)) =
    Offset (of_nat (D + width (take (Suc j) us)) - of_nat (T + unit_size (snd (us ! j))))"
  using assms
proof (induction us arbitrary: D j)
  case (Cons mu us)
  obtain m u where mu: "mu = (m, u)" by fastforce
  have fit: "fits_cell (length V) m u" "\<forall>(m, u)\<in>set us. fits_cell (length V) m u" using Cons.prems(1) by (auto simp: mu)
  show ?case
  proof (cases j)
    case 0
    then have st: "stays m u" using Cons.prems(3) by (simp add: mu)
    have "length (u_data u) = 3" "u_len u = 0" using fit(1) st by (auto simp: fits_cell_def unit_ok_def stays_def)
    then show ?thesis using 0 st length_cells [OF fit(2)] by (simp add: mu nth_append cell_words_def seg_pos_relocated)
  next
    case (Suc i)
    have i: "i < length us" "\<not> stays m u" using Cons.prems(2,4) Suc by (auto simp: mu)
    obtain m' u' where x: "us ! i = (m', u')" by fastforce
    then have "1 \<le> m'" using fit(2) nth_mem [OF i(1)] by (auto simp: fits_cell_def)
    moreover have "width (take (Suc i) us) = width (take i us) + m'" using i(1) x by (simp add: take_Suc_conv_app_nth width_append)
    ultimately have "0 < width (take (Suc i) us)" "width (take (Suc i) us) \<le> width us" using width_take_le [of "Suc i" us] by simp_all
    moreover have "cells_of (D + m) (packed V T us) ! (width us - width (take (Suc i) us)) =
        Offset (of_nat (D + m + width (take (Suc i) us)) - of_nat (T + unit_size (snd (us ! i))))"
      by (rule Cons.IH) (use Cons.prems Suc fit(2) in auto)
    ultimately show ?thesis using Suc i(2) length_cells [OF fit(2), of "D + m" T] by (simp add: mu nth_append add.assoc)
  qed
qed simp

lemma kept_ge: "\<forall>(m, u)\<in>set us. fits_cell (length V) m u \<Longrightarrow> (m, u) \<in> set us \<Longrightarrow> stays m u \<Longrightarrow> unit_size u \<le> length (kept V us)"
proof (induction V us rule: kept.induct)
  case (2 V m' u' us)
  have "length (content V u) = unit_size u" using 2(2,3) length_content by (auto simp: fits_cell_def)
  then show ?case using 2 by auto
qed simp

lemma kept_Nil: "\<forall>(m, u)\<in>set us. \<not> stays m u \<Longrightarrow> kept V us = []"
  by (induction V us rule: kept.induct) auto

text \<open>The words of an array that end with the last element that is behind the cells.\<close>

definition array_tight :: "nat \<Rightarrow> u32 list list \<Rightarrow> u32 list \<Rightarrow> bool" where
  "array_tight m wss A \<longleftrightarrow> (\<forall>i<length wss. m < length (wss ! i) \<longrightarrow> 1 + m * length wss < length A) \<and>
    ((\<forall>i<length wss. length (wss ! i) \<le> m) \<longrightarrow> length A = 1 + m * length wss) \<and>
    (\<forall>i<length wss. m < length (wss ! i) \<and> (\<forall>k<length wss. i < k \<longrightarrow> length (wss ! k) \<le> m) \<longrightarrow>
      1 + m * i + unat (drop_bit 2 (A ! (1 + m * i))) + length (wss ! i) = length A)"

lemma SerializeArray_tight:
  assumes ok: "buf_ok buf" "Size buf < 2 ^ 32" and ne: "elements \<noteq> []" and best: "BestArraySize elements = (sz, m)" "sz < 2 ^ 30"
    and st: "stacked (Size buf) lst (rev elements)" and inl: "\<forall>u\<in>set elements. u_len u \<le> m" and room: "lst + 1 + sz < 2 ^ 32"
  obtains buf' A where "SerializeArray elements buf lst u = Some (True, buf', Segment lst (Size buf'))"
    "emitted (drop (Size buf - lst) (View buf)) A buf' (Segment lst (Size buf'))"
    "array_words m (map (content (View buf)) elements) A" "array_tight m (map (content (View buf)) elements) A"
proof -
  let ?us = "map (Pair m) (rev elements)" and ?V = "View buf" and ?n = "length elements"
  let ?K = "kept ?V ?us" and ?wss = "map (content ?V) elements"
  obtain buf' A where s: "SerializeArray elements buf lst u = Some (True, buf', Segment lst (Size buf'))"
      "emitted (drop (Size buf - lst) ?V) A buf' (Segment lst (Size buf'))" "length A = 1 + sz" "array_words m ?wss A"
      "tl A = cells_of (lst + length ?K) (packed ?V lst ?us) @ ?K"
    by (rule SerializeArray_spec [OF assms])
  have m: "1 \<le> m" "m \<le> 3" using s(4) by (auto simp: array_words_def)
  have fit: "\<forall>(m, u)\<in>set ?us. fits_cell (length ?V) m u"
    using stacked_units [OF st] inl m length_View [OF ok(1)] by (auto simp: fits_cell_def)
  have len: "length A = 1 + m * ?n + length ?K" using arg_cong [OF s(5), of length] length_cells [OF fit] s(3) by (simp add: width_Pair)
  have el: "length (content ?V e) = unit_size e" "stays m e \<longleftrightarrow> m < unit_size e" "(m, e) \<in> set ?us" if "e \<in> set elements" for e
    using fit that length_content stays_iff by (auto simp: fits_cell_def)
  have "array_tight m ?wss A" unfolding array_tight_def length_map
  proof (intro conjI allI impI)
    fix i assume "i < ?n" "m < length (?wss ! i)"
    then have "stays m (elements ! i)" "elements ! i \<in> set elements" using el(1,2) [of "elements ! i"] by auto
    then show "1 + m * ?n < length A" using kept_ge [OF fit el(3)] el(2) len m by force
  next
    assume "\<forall>i<?n. length (?wss ! i) \<le> m"
    then have "\<forall>e\<in>set elements. \<not> stays m e" using el(1,2) by (fastforce simp: in_set_conv_nth)
    then have "?K = []" by (intro kept_Nil) auto
    then show "length A = 1 + m * ?n" using len by simp
  next
    fix i assume i: "i < ?n" "m < length (?wss ! i) \<and> (\<forall>k<?n. i < k \<longrightarrow> length (?wss ! k) \<le> m)"
    define j where "j = ?n - 1 - i"
    let ?e = "elements ! i"
    have e: "stays m ?e" "?e \<in> set elements" "length (?wss ! i) = unit_size ?e" using i el(1,2) [of ?e] by auto
    have j: "j < length ?us" "?us ! j = (m, ?e)" "Suc j = ?n - i" using i(1) by (simp_all add: rev_nth j_def)
    have before: "\<not> stays (fst (?us ! k)) (snd (?us ! k))" if "k < j" for k
    proof -
      let ?k = "?n - 1 - k"
      have "?k < ?n" "i < ?k" "?us ! k = (m, elements ! ?k)" using that i(1) by (simp_all add: rev_nth j_def)
      then show ?thesis using i(2) el(1,2) [of "elements ! ?k"] by (auto simp: not_less)
    qed
    have w: "width (take (Suc j) ?us) = m * (?n - i)" "width ?us = m * ?n" unfolding j(3) using i(1) by (simp_all add: width_Pair take_map)
    have "width ?us - width (take (Suc j) ?us) = m * i" unfolding w using i(1) by (simp add: diff_mult_distrib2 [symmetric])
    then have cell: "cells_of (lst + length ?K) (packed ?V lst ?us) ! (m * i) = Offset (of_nat (lst + length ?K + m * (?n - i)) - of_nat (lst + unit_size ?e))"
      using first_kept_cell [OF fit j(1), of "lst + length ?K" lst] before e(1) unfolding j(2) w(1) by simp
    have ge: "unit_size ?e \<le> length ?K" using kept_ge [OF fit el(3) [OF e(2)] e(1)] .
    let ?off = "length ?K + m * (?n - i) - unit_size ?e"
    have "m * (?n - i) \<le> m * ?n" by simp
    then have off: "?off < 2 ^ 30" using len s(3) best(2) ge by linarith
    have "(of_nat (lst + length ?K + m * (?n - i)) - of_nat (lst + unit_size ?e) :: u32) = of_nat ?off" using ge by (simp add: of_nat_diff)
    moreover have "unat (of_nat ?off :: u32) = ?off" using off by (intro unat_of_nat_32) simp
    moreover have "m * i < length (cells_of (lst + length ?K) (packed ?V lst ?us))" using length_cells [OF fit] i(1) m(1) by (simp add: width_Pair)
    moreover have "A ! (1 + m * i) = tl A ! (m * i)" using len by (cases A) auto
    ultimately have "unat (drop_bit 2 (A ! (1 + m * i))) = ?off" using cell off by (simp add: s(5) nth_append Offset_props(2))
    moreover have "m * i + m * (?n - i) = m * ?n" using i(1) by (simp add: add_mult_distrib2 [symmetric])
    ultimately show "1 + m * i + unat (drop_bit 2 (A ! (1 + m * i))) + length (?wss ! i) = length A" using len ge e(3) by linarith
  qed
  then show thesis using that s by blast
qed

subsection \<open>Exact extents\<close>

text \<open>
  The detector gives exactly the words \<open>ws\<close>, wherever they are; they are found in a cell by their first
  word.
\<close>

definition exact :: "detector \<Rightarrow> u32 list \<Rightarrow> bool" where
  "exact det ws \<longleftrightarrow> plain ws \<and> (\<forall>mem q. holds mem q ws \<and> length mem < 2 ^ 30 \<longrightarrow> det mem (Some q) (Some (length mem)) = Some (slice q (length ws)))"

lemma exact_string: "length str < 2 ^ 30 \<Longrightarrow> exact String_Detect (string_words str)"
  unfolding exact_def
proof (intro conjI allI impI)
  fix mem q assume l: "length str < 2 ^ 30" and h: "holds mem q (string_words str) \<and> length mem < 2 ^ 30"
  have "reaches (Some (length mem)) (q + length (string_words str))" using h by (auto simp: holds_def)
  then show "String_Detect mem (Some q) (Some (length mem)) = Some (slice q (length (string_words str)))"
    using string_read [OF l] h by metis
qed (rule string_plain)

lemma cell_exact:
  assumes "cell_ok mem p m ws" "exact det ws" "length mem < 2 ^ 30" "\<not> is_scalar T" "T = TStr \<Longrightarrow> det = String_Detect" "m \<le> 3"
  shows "FieldT_Detect det T mem \<lparr>f_ptr = Some p, f_width = m\<rparr> (Some (length mem)) =
    Some (slice (if length ws \<le> m then p else p + unat (drop_bit 2 (mem ! p))) (length ws))"
proof -
  let ?q = "if length ws \<le> m then p else p + unat (drop_bit 2 (mem ! p))"
  have h: "holds mem ?q ws" using assms(1) holds_prefix by (auto simp: cell_ok_def)
  moreover have ne: "ws \<noteq> []" using assms(2) by (simp add: exact_def plain_def)
  then have "0 < length ws" by simp
  moreover have "?q + length ws \<le> length mem" using h by (simp only: holds_def)
  ultimately have q: "?q < length mem" by linarith
  have p: "p < length mem" using assms(1) by (auto simp: cell_ok_def)
  have "mem ! p AND 3 = 3 \<longleftrightarrow> m < length ws"
  proof (cases "length ws \<le> m")
    case True
    then have "mem ! p = ws ! 0" using h ne by (auto elim!: holdsE simp: nth_append)
    then show ?thesis using True assms(2,6) by (auto simp: exact_def plain_def)
  qed (use assms(1) in \<open>auto simp: cell_ok_def\<close>)
  then have "GetObject mem \<lparr>f_ptr = Some p, f_width = m\<rparr> (Some (length mem)) = Some (Some ?q)" using p q by (auto simp: GetObject_def Let_def)
  moreover have "det mem (Some ?q) (Some (length mem)) = Some (slice ?q (length ws))" using assms(2,3) h by (simp add: exact_def)
  ultimately show ?thesis using assms(4,5) by (auto simp: FieldT_Detect_def StringField_Detect_def is_scalar_def split: ty.splits)
qed

lemma elements_loop_exact:
  assumes A: "array_words m wss A" "array_tight m wss A" and mem: "holds mem P A" "length mem < 2 ^ 30"
    and det: "\<forall>ws\<in>set wss. exact det ws" "\<not> is_scalar T" "T = TStr \<Longrightarrow> det = String_Detect"
    and a: "unat (a_width a) = m"
  shows "k \<le> length wss \<Longrightarrow> \<forall>i<length wss. k \<le> i \<longrightarrow> length (wss ! i) \<le> m \<Longrightarrow>
    elements_loop (\<lambda>f. FieldT_Detect det T mem f (Some (length mem))) a (slice P (1 + m * length wss)) k (Some (P + 1 + m * k)) =
      Some (slice P (length A))"
proof (induction k)
  case 0
  then have "length A = 1 + m * length wss" using A(2) by (auto simp: array_tight_def)
  then show ?case by simp
next
  case (Suc k)
  let ?ws = "wss ! k" and ?p = "P + (1 + m * k)"
  have k: "k < length wss" using Suc.prems(1) by simp
  have A': "m \<le> 3" "cell_ok A (1 + m * k) m ?ws" using A(1) k by (auto simp: array_words_def)
  have cell: "cell_ok mem ?p m ?ws" by (rule cell_ok_trans [OF mem(1) A'(2)])
  have "1 + m * k < length A" using A'(2) by (auto simp: cell_ok_def)
  then have mp: "mem ! ?p = A ! (1 + m * k)" using mem(1) by (auto elim!: holdsE simp: nth_append)
  have d: "FieldT_Detect det T mem \<lparr>f_ptr = Some ?p, f_width = m\<rparr> (Some (length mem)) =
      Some (slice (if length ?ws \<le> m then ?p else ?p + unat (drop_bit 2 (A ! (1 + m * k)))) (length ?ws))"
    using cell_exact [OF cell _ mem(2) det(2,3) A'(1)] det(1) k mp by simp
  have f: "Array_prev a (Some (P + 1 + m * Suc k)) = Some (Some ?p)" "Array_deref a (Some ?p) = \<lparr>f_ptr = Some ?p, f_width = m\<rparr>"
    using a by (simp_all add: Array_prev_def ptr_sub_def Array_deref_def)
  show ?case
  proof (cases "length ?ws \<le> m")
    case True
    have "m * Suc k \<le> m * length wss" using Suc.prems(1) by (rule mult_le_mono2)
    then have "extend (slice P (1 + m * length wss)) (slice ?p (length ?ws)) = None" using True by (simp add: extend_def slice_end_def slice_def)
    moreover have "\<forall>i<length wss. k \<le> i \<longrightarrow> length (wss ! i) \<le> m" using Suc.prems(2) True by (auto simp: Suc_le_eq le_less)
    ultimately show ?thesis using Suc.IH k d f True by simp
  next
    case False
    then have "1 + m * k + unat (drop_bit 2 (A ! (1 + m * k))) + length ?ws = length A" "1 + m * length wss < length A"
      using A(2) k Suc.prems(2) unfolding array_tight_def by (auto simp: Suc_le_eq not_le)
    then have "extend (slice P (1 + m * length wss)) (slice (?p + unat (drop_bit 2 (A ! (1 + m * k)))) (length ?ws)) = Some (slice P (length A))"
      by (simp add: extend_def slice_end_def slice_def)
    then show ?thesis using d f False by simp
  qed
qed

lemma exact_array:
  assumes A: "array_words m wss A" "array_tight m wss A" and det: "\<forall>ws\<in>set wss. exact det ws" "\<not> is_scalar T" "T = TStr \<Longrightarrow> det = String_Detect"
    and ne: "wss \<noteq> []"
  shows "exact (ArrayT_Detect det T) A"
  unfolding exact_def
proof (intro conjI allI impI)
  let ?n = "length wss"
  have h: "1 \<le> m" "m \<le> 3" "?n < 2 ^ 30" "1 + m * ?n \<le> length A" "A ! 0 = push_bit 2 (of_nat ?n) OR of_nat m" using A(1) by (auto simp: array_words_def)
  note head = array_head [OF h(3,2)]
  have m: "unat (of_nat m :: u32) = m" "unat (of_nat ?n :: u32) = ?n" using h by (simp_all add: unat_of_nat)
  show "plain A"
  proof (cases "m = 3")
    case True
    have "0 < ?n" using ne by simp
    then have "3 < length A" using h(4) unfolding True by linarith
    then show ?thesis by (auto simp: plain_def)
  next
    case False
    then have "unat (A ! 0 AND 3) \<noteq> 3" using head(1) m(1) by (simp add: h(5))
    then have "A ! 0 AND 3 \<noteq> 3" by auto
    then show ?thesis using h(4) by (auto simp: plain_def)
  qed
  fix mem q assume mem: "holds mem q A \<and> length mem < 2 ^ 30"
  show "ArrayT_Detect det T mem (Some q) (Some (length mem)) = Some (slice q (length A))"
  proof -
    have q: "q < length mem" "mem ! q = A ! 0" "q + length A \<le> length mem" using mem h(4) by (auto elim!: holdsE simp: nth_append)
    let ?a = "\<lparr>a_body = Some (q + 1), a_size = of_nat ?n, a_width = of_nat m\<rparr>"
    have prod: "unat (of_nat m * of_nat ?n :: u32) = m * ?n" using array_product [of "of_nat m" "of_nat ?n"] m h by simp
    have z: "(of_nat m :: u32) \<noteq> 0" using m(1) h(1) by auto
    have d: "Array_Detect mem (Some q) (Some (length mem)) = Some (slice q (1 + m * ?n))" "Array_init mem (Some q) None = Some ?a"
      using q h(4) z prod head by (simp_all add: Array_Detect_def Array_init_def h(5) Let_def)
    have "elements_loop (\<lambda>f. FieldT_Detect det T mem f (Some (length mem))) ?a (slice q (1 + m * ?n)) ?n (Some (q + 1 + m * ?n)) = Some (slice q (length A))"
      by (rule elements_loop_exact [OF A _ _ det(1-3)]) (use mem m(1) in auto)
    moreover have "Array_end ?a = Some (Some (q + 1 + m * ?n))" using prod by (simp add: Array_end_def)
    ultimately show ?thesis using d m(2) det(2) by (auto simp: ArrayT_Detect_def is_scalar_def slice_def split: ty.splits)
  qed
qed

subsection \<open>Properties\<close>

text \<open>
  Claim C35: \<open>ArrayT::Detect\<close> gives exactly the words of a serialized array: when the extent of every
  element is its words, the extent of the array that \<open>SerializeArray\<close> makes of them is the words of the
  array, wherever they are in memory.  Strings have exact extents, and so have arrays of arrays.
\<close>

theorem array_detect_exact:
  assumes "buf_ok buf" "Size buf < 2 ^ 32" and "elements \<noteq> []" and "BestArraySize elements = (sz, m)" "sz < 2 ^ 30"
    and "stacked (Size buf) lst (rev elements)" and "\<forall>u\<in>set elements. u_len u \<le> m" and "lst + 1 + sz < 2 ^ 32"
    and "\<forall>e\<in>set elements. exact (T_Detect md T) (content (View buf) e)" "\<not> is_scalar T"
  shows "\<exists>buf' A. SerializeArray elements buf lst u = Some (True, buf', Segment lst (Size buf')) \<and>
    View buf' = A @ drop (Size buf - lst) (View buf) \<and> content (View buf') (Segment lst (Size buf')) = A \<and> exact (T_Detect md (TArr T)) A"
proof -
  obtain buf' A where s: "SerializeArray elements buf lst u = Some (True, buf', Segment lst (Size buf'))"
      "emitted (drop (Size buf - lst) (View buf)) A buf' (Segment lst (Size buf'))"
      "array_words m (map (content (View buf)) elements) A" "array_tight m (map (content (View buf)) elements) A"
    by (rule SerializeArray_tight [OF assms(1-8)])
  have "exact (ArrayT_Detect (T_Detect md T) T) A"
    by (rule exact_array [OF s(3,4)]) (use assms(3,9,10) in auto)
  then show ?thesis using s(1,2) by (auto simp: emitted_def)
qed

theorem array_detect_exact_witness:
  "\<exists>buf' A. SerializeArray [unit_word 0x6104] (empty_buffer (\<lambda>i. 0)) 0 unit_init = Some (True, buf', Segment 0 (Size buf')) \<and>
    View buf' = A \<and> exact (T_Detect (\<lambda>k. String_Detect) (TArr TStr)) A"
proof -
  let ?b = "empty_buffer (\<lambda>i. 0)" and ?us = "[unit_word 0x6104]"
  have z: "Size ?b = 0" "View ?b = []" by (rule empty_sizes)+
  have w: "string_words [0x61] = [0x6104]" by code_simp
  have best: "BestArraySize ?us = (1, 1)" by (simp add: BestArraySize_def)
  have e: "\<forall>e\<in>set ?us. exact (T_Detect (\<lambda>k. String_Detect) TStr) (content (View ?b) e)"
    using exact_string [of "[0x61]"] w by (simp add: content_def unit_word_def)
  have "stacked (Size ?b) 0 (rev ?us)" by (simp add: unit_ok_def unit_size_def unit_word_def)
  from array_detect_exact [OF buf_ok_empty _ _ best _ this _ _ e] obtain buf' A where
    "SerializeArray ?us ?b 0 unit_init = Some (True, buf', Segment 0 (Size buf'))" "View buf' = A @ drop (Size ?b - 0) (View ?b)"
    "exact (T_Detect (\<lambda>k. String_Detect) (TArr TStr)) A" by (force simp: z is_scalar_def)
  then show ?thesis using z by auto
qed

end
