(* ===== verification/AccessExSafe.thy ===== *)
theory AccessExSafe
  imports AccessEx Extent "HOL-Library.Multiset"
begin

text \<open>
  The mutable objects: fields that were not accessed are copied word for word, arrays of scalars and
  maps survive a round trip, and what goes wrong on data that is cut off.
\<close>

subsection \<open>Copies\<close>

lemma Copy_spec:
  assumes "buf_ok buf" "length (u_data u) = 3" "src \<noteq> []" "Size buf + length src < 2 ^ 32"
  shows "\<exists>buf' u'. Copy src buf u fld = Some (True, buf', u') \<and> emitted (View buf) src buf' u'"
proof (cases "fld \<and> length src < 4")
  case True
  then show ?thesis using emitted_inline [OF assms(1,2), of src] assms(3) by (auto simp: Copy_def)
next
  case False
  obtain buf' where b: "Put_slice src buf = Some buf'" "buf_ok buf'" "View buf' = src @ View buf"
    using Put_slice_spec [OF assms(1), of src] by blast
  have "Size buf' < 2 ^ 32" using length_View [OF b(2)] length_View [OF assms(1)] assms(4) by (simp add: b(3))
  then show ?thesis using False b emitted_segment [OF b(2,3)] length_View [OF assms(1)] by (auto simp: Copy_def)
qed

lemma holds_read: "holds mem q ws \<Longrightarrow> rd_range mem q (length ws) = Some ws"
  by (auto simp: holds_def rd_range_def)


subsection \<open>Arrays of scalars\<close>

lemma put_numbers_spec:
  assumes "buf_ok buf" "\<forall>ws\<in>set wss. length ws = m"
  shows "\<exists>buf'. put_numbers m wss buf = Some buf' \<and> buf_ok buf' \<and> View buf' = concat (rev wss) @ View buf"
  using assms
proof (induction wss arbitrary: buf)
  case (Cons ws wss)
  have "put_numbers m (ws # wss) buf = Put_slice ws buf \<bind> put_numbers m wss" using Cons.prems(2) by (simp add: Put_slice_def Let_def)
  moreover obtain b where b: "Put_slice ws buf = Some b" "buf_ok b" "View b = ws @ View buf" using Put_slice_spec [OF Cons.prems(1), of ws] by blast
  moreover obtain b' where "put_numbers m wss b = Some b'" "buf_ok b'" "View b' = concat (rev wss) @ View b" using Cons.IH [OF b(2)] Cons.prems(2) by auto
  ultimately show ?case by simp
qed simp

lemma read_numbers_concat:
  "\<forall>ws\<in>set wss. length ws = m \<Longrightarrow> holds mem p (concat wss) \<Longrightarrow> read_numbers mem m p (length wss) = Some wss"
proof (induction wss arbitrary: p)
  case (Cons ws wss)
  have "holds mem p ws" using Cons.prems(2) holds_prefix by simp
  moreover have "holds (ws @ concat wss) m (concat wss)" using Cons.prems(1) by (simp add: holds_def)
  ultimately have "holds mem p ws" "holds mem (p + m) (concat wss)" using holds_trans [of mem p "ws @ concat wss" m] Cons.prems(2) by simp_all
  then show ?case using Cons holds_read [of mem p ws] by simp
qed simp

text \<open>The words of an array of numbers of \<open>m\<close> words.\<close>

definition number_words :: "nat \<Rightarrow> u32 list list \<Rightarrow> u32 list" where
  "number_words m vec = (push_bit 2 (of_nat (length vec)) OR of_nat m) # concat vec"

lemma number_words_length: "\<forall>ws\<in>set vec. length ws = m \<Longrightarrow> length (number_words m vec) = 1 + m * length vec"
  unfolding number_words_def by (induction vec) auto

lemma numbers_emit:
  assumes "buf_ok buf" "length (u_data u) = 3" "sz \<in> {4, 8}" "\<forall>ws\<in>set vec. length ws = sz div 4"
    and "sz div 4 * length vec < 2 ^ 30" "Size buf + 1 + sz div 4 * length vec < 2 ^ 32"
  shows "\<exists>buf' u'. ScalarArrayEX_Serialize sz vec buf u = Some (True, buf', u') \<and> emitted (View buf) (number_words (sz div 4) vec) buf' u' \<and> u_len u' \<le> 1"
proof (cases "vec = []")
  case True
  have w: "number_words (sz div 4) vec = [of_nat (sz div 4)]" using True by (simp add: number_words_def)
  have "\<exists>u'. set_data [of_nat (sz div 4)] u = Some u' \<and> u_len u' = 1 \<and> emitted (View buf) (number_words (sz div 4) vec) buf u'"
    using emitted_inline [OF assms(1,2), of "[of_nat (sz div 4)]"] unfolding w by simp
  then show ?thesis using True by (auto simp: ScalarArrayEX_Serialize_def Let_def)
next
  case False
  let ?m = "sz div 4" and ?h = "push_bit 2 (of_nat (length vec)) OR of_nat (sz div 4) :: u32"
  obtain b where b: "put_numbers ?m (rev vec) buf = Some b" "buf_ok b" "View b = concat vec @ View buf"
    using put_numbers_spec [OF assms(1), of "rev vec" ?m] assms(4) by auto
  obtain b' where b': "Put ?h b = Some b'" "buf_ok b'" "View b' = number_words ?m vec @ View buf"
    using Put_slice_spec [OF b(2), of "[?h]"] b(3) by (auto simp: Put_eq_Put_slice number_words_def)
  have "Size b' < 2 ^ 32" using length_View [OF b'(2)] length_View [OF assms(1)] assms(6) number_words_length [OF assms(4)] by (simp add: b'(3))
  then have "emitted (View buf) (number_words ?m vec) b' (Segment (Size buf) (Size b'))"
    using emitted_segment [OF b'(2,3)] length_View [OF assms(1)] by simp
  then show ?thesis using False assms(5) b(1) b'(1) by (auto simp: ScalarArrayEX_Serialize_def Let_def Segment_def)
qed

lemma numbers_extract:
  assumes "sz \<in> {4, 8}" "\<forall>ws\<in>set vec. length ws = sz div 4" "sz div 4 * length vec < 2 ^ 30" and h: "holds mem P (number_words (sz div 4) vec)"
  shows "ScalarArrayEX_init sz mem (Some P) (Some (length mem)) = Some vec"
proof -
  let ?m = "sz div 4" and ?n = "length vec" and ?h = "push_bit 2 (of_nat (length vec)) OR of_nat (sz div 4) :: u32"
  have m: "1 \<le> ?m" "?m \<le> 3" "WordSize sz = ?m" using assms(1) by (auto simp: WordSize_def)
  have n: "?n < 2 ^ 30" using assms(3) m(1) by (metis le_less_trans mult_le_mono1 nat_mult_1)
  have P: "rd mem P = Some ?h" using h by (auto elim!: holdsE simp: number_words_def)
  have fit: "P + 1 + ?m * ?n \<le> length mem" using h number_words_length [OF assms(2)] by (auto simp: holds_def)
  have "holds (number_words ?m vec) 1 (concat vec)" by (simp add: holds_def number_words_def)
  then have "holds mem (P + 1) (concat vec)" by (rule holds_trans [OF h])
  then have r: "read_numbers mem ?m (P + 1) ?n = Some vec" by (rule read_numbers_concat [OF assms(2)])
  have u: "unat (of_nat ?m :: u32) = ?m" "unat (of_nat ?n :: u32) = ?n" using m n by (simp_all add: unat_of_nat)
  then have p: "unat (of_nat ?m * of_nat ?n :: u32) = ?m * ?n" using array_product [of "of_nat ?m" "of_nat ?n"] m n by simp
  have "(of_nat ?m :: u32) \<noteq> 0" using u(1) m(1) by auto
  then show ?thesis using P fit r u p m(3) array_head [OF n m(2)] by (simp add: ScalarArrayEX_init_def Array_init_def Array_Numbers_def Let_def)
qed

text \<open>
  An array of 32-bit or 64-bit numbers that \<open>ScalarArrayEX\<close> serialized is extracted again
  with the same numbers, wherever its words are, the empty array included.
\<close>

theorem scalar_array_ex_roundtrip:
  assumes "buf_ok buf" "length (u_data u) = 3" "sz \<in> {4, 8}" "\<forall>ws\<in>set vec. length ws = sz div 4"
    and "sz div 4 * length vec < 2 ^ 30" "Size buf + 1 + sz div 4 * length vec < 2 ^ 32"
  shows "\<exists>buf' u' A. ScalarArrayEX_Serialize sz vec buf u = Some (True, buf', u') \<and> emitted (View buf) A buf' u' \<and>
    (\<forall>mem P. holds mem P A \<longrightarrow> ScalarArrayEX_init sz mem (Some P) (Some (length mem)) = Some vec)"
  using numbers_emit [OF assms] numbers_extract [OF assms(3-5)] by blast

subsection \<open>Maps\<close>

lemma fill_book_spec:
  assumes f: "bij_betw f {..<n} {..<n}" "\<forall>i<n. PerfectHashObject_Locate index (key_bytes (fst (memo ! i))) = Some (of_nat (f i))"
    and n: "n = length memo" "n < 2 ^ 32"
  shows "i \<le> n \<Longrightarrow> length book = n \<Longrightarrow> \<forall>j<i. book ! f j = Some (memo ! j) \<Longrightarrow>
    \<exists>book'. fill_book index key_bytes (drop i memo) book = Some book' \<and> length book' = n \<and> (\<forall>j<n. book' ! f j = Some (memo ! j))"
proof (induction "n - i" arbitrary: i book)
  case 0
  then show ?case using n(1) by simp
next
  case (Suc m)
  then have i: "i < n" "drop i memo = memo ! i # drop (Suc i) memo" using n(1) by (simp_all add: Cons_nth_drop_Suc)
  have fn: "f x < n" if "x < n" for x using f(1) that by (auto simp: bij_betw_def)
  have inj: "f x = f y \<longleftrightarrow> x = y" if "x < n" "y < n" for x y using f(1) that by (auto simp: bij_betw_def inj_on_def)
  have u: "unat (of_nat (f i) :: u32) = f i" using fn [OF i(1)] n(2) by (simp add: unat_of_nat)
  have "\<forall>j<Suc i. book[f i := Some (memo ! i)] ! f j = Some (memo ! j)"
    using Suc.prems fn i(1) inj by (auto simp: nth_list_update less_Suc_eq)
  then have "\<exists>book'. fill_book index key_bytes (drop (Suc i) memo) (book[f i := Some (memo ! i)]) = Some book' \<and> length book' = n \<and> (\<forall>j<n. book' ! f j = Some (memo ! j))"
    using Suc.hyps(2) Suc.prems i(1) by (intro Suc.hyps(1)) auto
  then show ?case using f(2) i u fn [OF i(1)] Suc.prems(2) by simp
qed

text \<open>
  Whenever an index is built over the keys, the assertion on the positions holds, no position is left
  without a pair, and the pairs are those of the map in another order.
\<close>

lemma book_spec:
  assumes "PerfectHashObject_Build map_key_reader gseed junk True \<lparr>vr_keys = map (key_bytes \<circ> fst) memo, vr_idx = 0\<rparr> = Some (index, r)"
    and "ph_data index \<noteq> None"
  obtains book where "fill_book index key_bytes memo (replicate (length memo) None) = Some (map Some book)"
    "mset book = mset memo" "distinct (map fst memo)"
proof -
  let ?ks = "map (key_bytes \<circ> fst) memo" and ?n = "length memo"
  have "map_key_reader = vector_reader" by (simp add: map_key_reader_def vector_reader_def)
  then have "indexes index ?ks" and n: "?n < 2 ^ 28" using vector_Build [of gseed junk True ?ks 0] assms by auto
  then obtain f where f: "bij_betw f {..<?n} {..<?n}" "\<forall>i<?n. PerfectHashObject_Locate index (key_bytes (fst (memo ! i))) = Some (of_nat (f i))"
    by (auto simp: indexes_def)
  obtain book where b: "fill_book index key_bytes memo (replicate ?n None) = Some book" "length book = ?n" "\<forall>j<?n. book ! f j = Some (memo ! j)"
    using fill_book_spec [OF f refl, of 0 "replicate ?n None"] n by auto
  have img: "f ` {..<?n} = {..<?n}" "inj_on f {..<?n}" using f(1) by (auto simp: bij_betw_def)
  have "book ! i \<noteq> None" if "i < ?n" for i
  proof -
    have "i \<in> f ` {..<?n}" using img(1) that by simp
    then show ?thesis using b(3) by auto
  qed
  then have some: "map Some (map the book) = book" using b(2) by (intro nth_equalityI) auto
  have "memo = map (\<lambda>j. the (book ! f j)) [0..<?n]" using b(3) by (intro nth_equalityI) simp_all
  then have "mset memo = image_mset (\<lambda>j. the (book ! f j)) (mset_set {..<?n})" by (metis mset_map mset_upt lessThan_atLeast0)
  also have "\<dots> = image_mset (\<lambda>i. the (book ! i)) (image_mset f (mset_set {..<?n}))" by (simp add: multiset.map_comp o_def)
  also have "image_mset f (mset_set {..<?n}) = mset_set {..<?n}" using image_mset_mset_set [OF img(2)] img(1) by simp
  also have "image_mset (\<lambda>i. the (book ! i)) (mset_set {..<?n}) = mset (map (\<lambda>i. the (book ! i)) [0..<?n])" by (simp add: lessThan_atLeast0)
  also have "map (\<lambda>i. the (book ! i)) [0..<?n] = map the book" using b(2) by (intro nth_equalityI) simp_all
  finally have "mset (map the book) = mset memo" by simp
  moreover have "distinct (map fst memo)"
  proof (unfold distinct_conv_nth length_map, intro allI impI)
    fix i j assume ij: "i < ?n" "j < ?n" "i \<noteq> j"
    have lt: "f i < ?n" "f j < ?n" using img(1) ij by auto
    have "f i \<noteq> f j" using inj_onD [OF img(2)] ij by auto
    moreover have "f i = f j" if "(of_nat (f i) :: u32) = of_nat (f j)"
    proof -
      have "unat (of_nat (f i) :: u32) = f i" "unat (of_nat (f j) :: u32) = f j" using lt n by (simp_all add: unat_of_nat)
      then show ?thesis using arg_cong [OF that, of unat] by argo
    qed
    ultimately show "map fst memo ! i \<noteq> map fst memo ! j" using f(2) ij by (metis nth_map option.inject)
  qed
  ultimately show thesis using that [of "map the book"] b(1) some by simp
qed

subsection \<open>Data that is cut off\<close>

text \<open>
  The constructor of \<open>ArrayEX\<close> does not look whether the view has a body: for an array of two
  elements that does not fit before the end, the view is null but has the size 2, and the second element
  is read through a pointer next to null.  The same word is a harmless null view for \<open>Array\<close> itself.
\<close>

theorem array_ex_null_body:
  "Array_init [9] (Some 0) (Some 1) = Some \<lparr>a_body = None, a_size = 2, a_width = 1\<rparr> \<and>
    ArrayEX_init (\<lambda>mem obj end. Message_init mem obj end) [9] (Some 0) (Some 1) = None"
proof -
  have "Array_init [9] (Some 0) (Some 1) = Some \<lparr>a_body = None, a_size = 2, a_width = 1\<rparr>" by code_simp
  moreover have "extract_elements (\<lambda>mem obj end. Message_init mem obj end) [9] \<lparr>a_body = None, a_size = 2, a_width = 1\<rparr> (Some 1) 0 (Suc (Suc 0)) = None"
    by (simp add: Array_at_def ptr_add_def split: bind_splits)
  moreover have "unat (2 :: u32) = Suc (Suc 0)" by simp
  ultimately show ?thesis by (simp only: ArrayEX_init_def bind.simps Array.simps)
qed

text \<open>
  The constructor of the array of strings reads the strings without the end: in a block of
  two words, whose only element says that it has 20 bytes, it reads behind the block, although the end
  of the block was given; with the end the string view refuses the element.
\<close>

theorem string_array_ex_overread:
  "StringField_Get [5, 0x50] \<lparr>f_ptr = Some 1, f_width = 1\<rparr> (Some 2) = Some null_slice \<and> StringArrayEX_init [5, 0x50] (Some 0) (Some 2) = None"
proof
  show "StringField_Get [5, 0x50] \<lparr>f_ptr = Some 1, f_width = 1\<rparr> (Some 2) = Some null_slice" by code_simp
  have "Array_init [5, 0x50] (Some 0) (Some 2) = Some \<lparr>a_body = Some 1, a_size = 1, a_width = 1\<rparr>" by code_simp
  moreover have "Array_count \<lparr>a_body = Some 1, a_size = 1, a_width = 1\<rparr> = Some 1" by code_simp
  moreover have "StringField_Get [5, 0x50] \<lparr>f_ptr = Some 1, f_width = 1\<rparr> None = Some (slice 5 20)" by code_simp
  moreover have "slice_bytes [5, 0x50] (slice 5 20) = None" by code_simp
  ultimately show "StringArrayEX_init [5, 0x50] (Some 0) (Some 2) = None" by (simp add: StringArrayEX_init_def Array_begin_def Array_deref_def)
qed

subsection \<open>Witnesses\<close>


theorem scalar_array_ex_roundtrip_witness:
  "\<exists>buf' u' A. ScalarArrayEX_Serialize 8 [[1, 2], [3, 4]] (empty_buffer (\<lambda>i. 0)) unit_init = Some (True, buf', u') \<and>
    content (View buf') u' = A \<and> ScalarArrayEX_init 8 A (Some 0) (Some (length A)) = Some [[1, 2], [3, 4]]"
proof -
  have "Size (empty_buffer (\<lambda>i. 0)) = 0" by (rule empty_sizes)
  then obtain buf' u' A where "ScalarArrayEX_Serialize 8 [[1, 2], [3, 4]] (empty_buffer (\<lambda>i. 0)) unit_init = Some (True, buf', u')"
      "emitted (View (empty_buffer (\<lambda>i. 0))) A buf' u'" "\<forall>mem P. holds mem P A \<longrightarrow> ScalarArrayEX_init 8 mem (Some P) (Some (length mem)) = Some [[1, 2], [3, 4]]"
    using scalar_array_ex_roundtrip [OF buf_ok_empty, of unit_init 8 "[[1, 2], [3, 4]]" "\<lambda>i. 0"] by (auto simp: unit_init_def)
  moreover have "holds A 0 A" by (simp add: holds_def)
  ultimately show ?thesis by (auto simp: emitted_def)
qed

end
