(* ===== verification/Codec.thy ===== *)
theory Codec
  imports AccessExSafe
begin

text \<open>
  What arrays and maps of the mutable objects need of the class of their elements, as two locales: a
  \<open>writer\<close> serializes a value to words that stand for it, and a \<open>codec\<close> gets the value back from a field
  that holds these words.  Arrays and maps of writers are writers again, and of codecs codecs, so that
  nested containers are interpretations of the same locale.
\<close>

subsection \<open>Units on top of the buffer\<close>

lemma stacked_snoc:
  assumes "stacked n p us" "n \<le> n'" "unit_ok n' u" "0 < unit_size u" "u_len u = 0 \<Longrightarrow> n + unit_size u \<le> unat (seg_pos u)"
  shows "stacked n' p (us @ [u])"
  using assms
proof (induction us arbitrary: p)
  case Nil
  then show ?case by (auto simp: unit_ok_def unit_size_def)
next
  case (Cons x us)
  then show ?case using unit_ok_mono by (auto split: if_splits)
qed

lemma emitted_push:
  assumes "emitted (View buf) ws buf' u" "buf_ok buf" "ws \<noteq> []" "stacked (Size buf) p us"
  shows "buf_ok buf'" "stacked (Size buf') p (us @ [u])" "content (View buf') u = ws" "unit_size u = length ws"
    and "x \<in> set us \<Longrightarrow> content (View buf') x = content (View buf) x"
    and "\<exists>W. View buf' = W @ View buf \<and> length W \<le> length ws"
proof -
  have e: "buf_ok buf'" "unit_ok (Size buf') u" "content (View buf') u = ws"
      "if u_len u \<noteq> 0 then View buf' = View buf else View buf' = ws @ View buf \<and> unat (seg_pos u) = Size buf'"
    using assms(1) by (auto simp: emitted_def)
  show "buf_ok buf'" "content (View buf') u = ws" using e by simp_all
  show sz: "unit_size u = length ws" using length_content [of "View buf'" u] e by simp
  show W: "\<exists>W. View buf' = W @ View buf \<and> length W \<le> length ws" using e(4) by (cases "u_len u = 0") auto
  have "Size buf \<le> Size buf'" using W length_View [OF e(1)] length_View [OF assms(2)] by auto
  moreover have "Size buf + unit_size u \<le> unat (seg_pos u)" if "u_len u = 0"
  proof -
    have "View buf' = ws @ View buf" "unat (seg_pos u) = Size buf'" using e(4) that by simp_all
    then show ?thesis using sz length_View [OF e(1)] length_View [OF assms(2)] by simp
  qed
  moreover have "0 < unit_size u" using sz assms(3) by simp
  ultimately show "stacked (Size buf') p (us @ [u])" by (intro stacked_snoc [OF assms(4)] e(2))
  show "content (View buf') x = content (View buf) x" if x: "x \<in> set us"
  proof -
    have "unit_ok (length (View buf)) x" using stacked_units [OF assms(4)] x length_View [OF assms(2)] by simp
    then show ?thesis using W content_append by metis
  qed
qed

text \<open>The words that cells take, at most twice the words of the elements.\<close>

lemma cost_1_le: "\<forall>u\<in>set us. 0 < unit_size u \<Longrightarrow> cost 1 us \<le> 2 * (\<Sum>u\<leftarrow>us. unit_size u)"
  by (induction us) (auto simp: cost_def)

lemma best_size_le:
  assumes "BestArraySize us = (sz, m)" "\<forall>u\<in>set us. 0 < unit_size u"
  shows "sz \<le> 2 * (\<Sum>u\<leftarrow>us. unit_size u)"
  using BestArraySize_spec [OF assms(1)] cost_1_le [OF assms(2)] by fastforce

subsection \<open>Writers\<close>

text \<open>
  \<open>repr e ws\<close>: the words \<open>ws\<close> stand for the value \<open>e\<close>; \<open>bound e\<close> is a bound on their number.  A unit holds
  at most \<open>w\<close> words itself: one word for objects, the words of the type for scalars.
\<close>

locale writer =
  fixes ser :: "'e serializer" and repr :: "'e \<Rightarrow> u32 list \<Rightarrow> bool" and bound :: "'e \<Rightarrow> nat" and w :: nat
  assumes repr_nonempty: "repr e ws \<Longrightarrow> ws \<noteq> []"
    and width: "w = 1 \<or> w = 2 \<and> (\<forall>e ws. repr e ws \<longrightarrow> length ws = w)"
    and emits: "buf_ok buf \<Longrightarrow> bound e < 2 ^ 30 \<Longrightarrow> Size buf + bound e < 2 ^ 32 \<Longrightarrow>
      \<exists>ws buf' u'. ser e buf unit_init = Some (True, buf', u') \<and> repr e ws \<and> length ws \<le> bound e \<and> emitted (View buf) ws buf' u' \<and> u_len u' \<le> w"
begin

text \<open>Units for the given values, from the first serialized one on, with their words.\<close>

definition units_of :: "Buffer \<Rightarrow> 'e list \<Rightarrow> Unit list \<Rightarrow> bool" where
  "units_of buf es us \<longleftrightarrow> list_all2 (\<lambda>e u. repr e (content (View buf) u) \<and> unit_size u = length (content (View buf) u) \<and>
    unit_size u \<le> bound e \<and> u_len u \<le> w) es us"

lemma units_of_sizes:
  assumes "units_of buf es us"
  shows "\<forall>u\<in>set us. 0 < unit_size u" "(\<Sum>u\<leftarrow>us. unit_size u) \<le> (\<Sum>e\<leftarrow>es. bound e)" "length us = length es"
    "\<forall>u\<in>set us. u_len u \<le> w"
  using assms unfolding units_of_def
  by (induction rule: list_all2_induct) (auto dest: repr_nonempty)

lemma units_of_width:
  assumes "units_of buf es us" "us \<noteq> []" "BestArraySize us = (sz, m)"
  shows "\<forall>u\<in>set us. u_len u \<le> m" "(\<forall>e ws. repr e ws \<longrightarrow> length ws = w) \<longrightarrow> m = w"
proof -
  have w: "w \<in> {1, 2, 3}" using width by auto
  show uni: "(\<forall>e ws. repr e ws \<longrightarrow> length ws = w) \<longrightarrow> m = w"
  proof
    assume "\<forall>e ws. repr e ws \<longrightarrow> length ws = w"
    with assms(1) have "\<forall>u\<in>set us. unit_size u = w" unfolding units_of_def by (induction rule: list_all2_induct) auto
    then show "m = w" using BestArraySize_uniform [OF assms(2) _ w assms(3)] by blast
  qed
  have "w \<le> m" using width uni BestArraySize_spec [OF assms(3)] by auto
  then show "\<forall>u\<in>set us. u_len u \<le> m" using units_of_sizes(4) [OF assms(1)] by auto
qed

lemma units_of_keep:
  assumes "units_of buf es us" "emitted (View buf) ws buf' u" "buf_ok buf" "ws \<noteq> []" "stacked (Size buf) p vs" "set us \<subseteq> set vs"
  shows "units_of buf' es us"
proof -
  have "\<forall>x\<in>set us. content (View buf') x = content (View buf) x" using emitted_push(5) [OF assms(2-5)] assms(6) by auto
  then show ?thesis using assms(1) unfolding units_of_def by (auto simp: list_all2_conv_all_nth)
qed

lemma units_of_push:
  assumes "units_of buf es us" "emitted (View buf) ws buf' u" "buf_ok buf" "repr e ws" "length ws \<le> bound e" "u_len u \<le> w"
    and "stacked (Size buf) p vs" "set us \<subseteq> set vs"
  shows "units_of buf' (e # es) (u # us)"
  using units_of_keep [OF assms(1-3) repr_nonempty [OF assms(4)] assms(7,8)] assms(4-6)
    emitted_push(3,4) [OF assms(2,3) repr_nonempty [OF assms(4)] assms(7)] by (simp add: units_of_def)

lemma serialize_all_spec:
  assumes "buf_ok buf" "(\<Sum>e\<leftarrow>es. bound e) < 2 ^ 30" "Size buf + (\<Sum>e\<leftarrow>es. bound e) < 2 ^ 32"
    and "stacked (Size buf) p (rev us)" "units_of buf fs us"
  shows "\<exists>us' buf' W. serialize_all ser es us buf = Some (Some us', buf') \<and> buf_ok buf' \<and> stacked (Size buf') p (rev us') \<and>
    units_of buf' (rev es @ fs) us' \<and> View buf' = W @ View buf \<and> length W \<le> (\<Sum>e\<leftarrow>es. bound e)"
  using assms
proof (induction es arbitrary: buf us fs)
  case Nil
  then show ?case by simp
next
  case (Cons e es)
  obtain ws b u where s: "ser e buf unit_init = Some (True, b, u)" "repr e ws" "length ws \<le> bound e" "emitted (View buf) ws b u" "u_len u \<le> w"
    using emits [of buf e] Cons.prems by auto
  note p = emitted_push [OF s(4) Cons.prems(1) repr_nonempty [OF s(2)] Cons.prems(4)]
  obtain W where W: "View b = W @ View buf" "length W \<le> length ws" using p(6) by blast
  have "Size b \<le> Size buf + bound e" using W s(3) length_View [OF p(1)] length_View [OF Cons.prems(1)] by simp
  then have "Size b + (\<Sum>e\<leftarrow>es. bound e) < 2 ^ 32" "(\<Sum>e\<leftarrow>es. bound e) < 2 ^ 30" using Cons.prems(2,3) by simp_all
  moreover have "units_of b (e # fs) (u # us)" using units_of_push [OF Cons.prems(5) s(4) Cons.prems(1) s(2,3,5) Cons.prems(4)] by simp
  moreover have "stacked (Size b) p (rev (u # us))" using p(2) by simp
  ultimately obtain us' buf' W' where "serialize_all ser es (u # us) b = Some (Some us', buf')" "buf_ok buf'" "stacked (Size buf') p (rev us')"
      "units_of buf' (rev es @ e # fs) us'" "View buf' = W' @ View b" "length W' \<le> (\<Sum>e\<leftarrow>es. bound e)"
    using Cons.IH [OF p(1)] by blast
  then show ?case using s(1,3) W by (intro exI [of _ us'] exI [of _ buf'] exI [of _ "W' @ W"]) simp
qed

end

subsection \<open>Arrays of writers\<close>

definition array_repr :: "('e \<Rightarrow> u32 list \<Rightarrow> bool) \<Rightarrow> nat \<Rightarrow> 'e list \<Rightarrow> u32 list \<Rightarrow> bool" where
  "array_repr repr w vec A \<longleftrightarrow> plain A \<and> (\<exists>m wss. list_all2 repr vec wss \<and> array_words m wss A \<and>
    (vec \<noteq> [] \<and> (\<forall>e ws. repr e ws \<longrightarrow> length ws = w) \<longrightarrow> m = w))"

definition array_bound :: "('e \<Rightarrow> nat) \<Rightarrow> 'e list \<Rightarrow> nat" where
  "array_bound bound vec = 1 + 2 * (\<Sum>e\<leftarrow>vec. bound e)"

lemma array_repr_Nil: "array_repr repr w [] [1]"
  by (auto simp: array_repr_def plain_def array_words_def intro!: exI [of _ 1])

lemma array_words_plain:
  assumes "array_words m wss A" "wss \<noteq> []"
  shows "plain A"
proof -
  have A: "1 \<le> m" "m \<le> 3" "length wss < 2 ^ 30" "1 + m * length wss \<le> length A" "A ! 0 = push_bit 2 (of_nat (length wss)) OR of_nat m"
    using assms(1) by (auto simp: array_words_def)
  have "A ! 0 AND 3 = of_nat m" using array_head(1) [OF A(3,2)] A(5) by simp
  moreover have "m \<noteq> 3" if "length A \<le> 3"
  proof
    assume "m = 3"
    moreover have "1 \<le> length wss" using assms(2) by (cases wss) auto
    ultimately show False using A(4) that by simp
  qed
  moreover have "(of_nat m :: u32) \<noteq> 3" if "m \<noteq> 3" using A(1,2) that by (auto simp: le_Suc_eq numeral_3_eq_3)
  ultimately show ?thesis using A(4) unfolding plain_def by auto
qed

context writer
begin

lemma array_emits:
  assumes "buf_ok buf" "array_bound bound vec < 2 ^ 30" "Size buf + array_bound bound vec < 2 ^ 32"
  shows "\<exists>A buf' u'. ArrayEX_Serialize ser vec buf unit_init = Some (True, buf', u') \<and> array_repr repr w vec A \<and>
    length A \<le> array_bound bound vec \<and> emitted (View buf) A buf' u' \<and> u_len u' \<le> 1"
proof (cases "vec = []")
  case True
  have "\<exists>u'. set_data [1] unit_init = Some u' \<and> u_len u' = 1 \<and> emitted (View buf) [1] buf u'"
    using emitted_inline [OF assms(1), of unit_init "[1]"] by (simp add: unit_init_def)
  then obtain u' where u: "set_data [1] unit_init = Some u'" "u_len u' = 1" "emitted (View buf) [1] buf u'" by blast
  then have "ArrayEX_Serialize ser vec buf unit_init = Some (True, buf, u')" using True by (simp add: ArrayEX_Serialize_def SerializeArray_def)
  moreover have "array_repr repr w vec [1]" "length [1 :: u32] \<le> array_bound bound vec" using True array_repr_Nil by (simp_all add: array_bound_def)
  ultimately show ?thesis using u(2,3) by (metis order.refl)
next
  case False
  let ?S = "\<Sum>e\<leftarrow>vec. bound e"
  have S: "sum_list (map bound (rev vec)) = ?S" by (simp flip: rev_map add: sum_list_rev)
  obtain us b W where s: "serialize_all ser (rev vec) [] buf = Some (Some us, b)" "buf_ok b" "stacked (Size b) (Size buf) (rev us)"
      "units_of b vec us" "View b = W @ View buf" "length W \<le> ?S"
    using serialize_all_spec [OF assms(1), of "rev vec" "Size buf" "[]" "[]"] assms(2,3) unfolding S
    by (auto simp: units_of_def array_bound_def)
  obtain sz m where best: "BestArraySize us = (sz, m)" by fastforce
  note sizes = units_of_sizes [OF s(4)]
  have us: "us \<noteq> []" using sizes(3) False by auto
  have sz: "sz \<le> 2 * ?S" using best_size_le [OF best sizes(1)] sizes(2) by simp
  have v: "Size b = length W + Size buf" using s(2,5) assms(1) by (metis length_View length_append)
  then have dr: "drop (Size b - Size buf) (View b) = View buf" using s(5) by simp
  have lim: "Size b < 2 ^ 32" "sz < 2 ^ 30" "Size buf + 1 + sz < 2 ^ 32" using assms(2,3) sz v s(6) by (simp_all add: array_bound_def)
  obtain buf' A where a: "SerializeArray us b (Size buf) unit_init = Some (True, buf', Segment (Size buf) (Size buf'))"
      "emitted (View buf) A buf' (Segment (Size buf) (Size buf'))" "length A = 1 + sz" "array_words m (map (content (View b)) us) A"
    using SerializeArray_spec [OF s(2) lim(1) us best lim(2) s(3) units_of_width(1) [OF s(4) us best] lim(3), of unit_init] unfolding dr by metis
  have "list_all2 repr vec (map (content (View b)) us)" using s(4) unfolding units_of_def by (auto simp: list_all2_conv_all_nth)
  moreover have "plain A" using array_words_plain [OF a(4)] us by simp
  ultimately have "array_repr repr w vec A" using a(4) units_of_width(2) [OF s(4) us best] unfolding array_repr_def by blast
  moreover have "ArrayEX_Serialize ser vec buf unit_init = Some (True, buf', Segment (Size buf) (Size buf'))"
    using s(1) a(1) by (simp add: ArrayEX_Serialize_def Let_def)
  ultimately show ?thesis using a(2,3) sz by (auto simp: array_bound_def Segment_def)
qed

end

subsection \<open>Codecs\<close>

locale codec = writer ser repr bound w for ser :: "'e serializer" and repr bound w +
  fixes get :: "mem \<Rightarrow> Field \<Rightarrow> ptr \<Rightarrow> 'e option"
  assumes get_repr: "repr e ws \<Longrightarrow> field_reads mem f ws \<Longrightarrow> ((\<forall>e ws. repr e ws \<longrightarrow> length ws = w) \<longrightarrow> f_width f = w) \<Longrightarrow>
    get mem f (Some (length mem)) = Some e"

text \<open>The value of an object is extracted through its pointer.\<close>

definition object_get :: "'e extractor \<Rightarrow> mem \<Rightarrow> Field \<Rightarrow> ptr \<Rightarrow> 'e option" where
  "object_get extract mem f end = do { obj \<leftarrow> GetObject mem f end; extract mem obj end }"

locale object_codec = writer ser repr bound "1" for ser :: "'e serializer" and repr bound +
  fixes extr :: "'e extractor"
  assumes repr_plain: "repr e ws \<Longrightarrow> plain ws"
    and extract_repr: "repr e ws \<Longrightarrow> holds mem q ws \<Longrightarrow> extr mem (Some q) (Some (length mem)) = Some e"

sublocale object_codec < codec ser repr bound "1" "object_get extr"
proof
  fix e ws mem f
  assume r: "repr e ws" and "field_reads mem f ws"
  then obtain q where "GetObject mem f (Some (length mem)) = Some (Some q)" "holds mem q ws"
    using repr_plain [OF r] by (auto simp: field_reads_def)
  then show "object_get extr mem f (Some (length mem)) = Some e" using extract_repr [OF r] by (simp add: object_get_def)
qed

lemma extract_elements_spec:
  assumes "\<And>j. j < length vec \<Longrightarrow> \<exists>f. Array_at a (of_nat j) = Some f \<and> object_get extract mem f e = Some (vec ! j)"
  shows "i \<le> length vec \<Longrightarrow> extract_elements extract mem a e i (length vec - i) = Some (drop i vec)"
proof (induction "length vec - i" arbitrary: i)
  case (Suc n)
  then have i: "i < length vec" "length vec - i = Suc (length vec - Suc i)" by simp_all
  have "extract_elements extract mem a e (Suc i) (length vec - Suc i) = Some (drop (Suc i) vec)" using Suc.hyps(2) i(1) by (intro Suc.hyps(1)) simp_all
  then show ?case using assms [OF i(1)] i by (auto simp: object_get_def Cons_nth_drop_Suc bind_eq_Some_conv)
qed simp

text \<open>An array of objects is an object of the same kind.\<close>

context object_codec
begin

lemma array_extract:
  assumes "array_repr repr 1 vec A" "holds mem P A"
  shows "ArrayEX_init extr mem (Some P) (Some (length mem)) = Some vec"
proof -
  obtain m wss where A: "list_all2 repr vec wss" "array_words m wss A" "vec \<noteq> [] \<and> (\<forall>e ws. repr e ws \<longrightarrow> length ws = 1) \<longrightarrow> m = 1"
    using assms(1) by (auto simp: array_repr_def)
  note v = array_view_init [OF A(2) assms(2)]
  have len: "length wss = length vec" using A(1) by (simp add: list_all2_lengthD)
  have "\<exists>f. Array_at (array_view P m (length vec)) (of_nat j) = Some f \<and> object_get extr mem f (Some (length mem)) = Some (vec ! j)"
    if j: "j < length vec" for j
  proof -
    have "repr (vec ! j) (wss ! j)" using A(1) j by (simp add: list_all2_conv_all_nth)
    from get_repr [OF this v(5)] show ?thesis using v(4) [of j] A(3) j unfolding len by force
  qed
  from extract_elements_spec [OF this, of 0] show ?thesis using v(1,2) len by (simp add: ArrayEX_init_def array_view_def)
qed

lemma arrays: "object_codec (ArrayEX_Serialize ser) (array_repr repr 1) (array_bound bound) (ArrayEX_init extr)"
  by unfold_locales (use array_emits array_extract in \<open>auto simp: array_repr_def plain_def\<close>)

end

subsection \<open>Maps\<close>

lemma extract_pairs_spec:
  assumes "map_is m body m1 m2 (length ps) loc" "m1 \<le> 3" "m2 \<le> 3" "distinct (map fst ps)"
    and "\<And>j. j < length ps \<Longrightarrow> exk mem \<lparr>f_ptr = Some (body + (m1 + m2) * j), f_width = m1\<rparr> e = Some (fst (ps ! j)) \<and>
      exv mem \<lparr>f_ptr = Some (body + (m1 + m2) * j + m1), f_width = m2\<rparr> e = Some (snd (ps ! j))"
  shows "i \<le> length ps \<Longrightarrow> extract_pairs exk exv mem m e (length ps - i) (Some (body + (m1 + m2) * i)) (take i ps) = Some ps"
proof (induction "length ps - i" arbitrary: i)
  case (Suc n)
  then have i: "i < length ps" "length ps - i = Suc (length ps - Suc i)" by simp_all
  let ?it = "Some (body + (m1 + m2) * i)"
  have kw: "unat (m_kw m) = m1" "unat (m_vw m) = m2" "unat (m_kw m + m_vw m) = m1 + m2"
    using assms(1-3) by (auto simp: map_is_def unat_of_nat simp flip: of_nat_add)
  then have d: "Pair_Key (Map_deref m ?it) = \<lparr>f_ptr = ?it, f_width = m1\<rparr>"
      "Pair_Value (Map_deref m ?it) = Some \<lparr>f_ptr = Some (body + (m1 + m2) * i + m1), f_width = m2\<rparr>"
      "Map_next m ?it = Some (Some (body + (m1 + m2) * Suc i))"
    by (simp_all add: Pair_Key_def Pair_Value_def Map_deref_def Map_next_def ptr_add_def)
  have "fst (ps ! i) \<notin> fst ` set (take i ps)"
  proof
    assume "fst (ps ! i) \<in> fst ` set (take i ps)"
    then obtain j where "j < i" "fst (ps ! i) = fst (ps ! j)" using i(1) by (auto simp: in_set_conv_nth)
    then show False using nth_eq_iff_index_eq [OF assms(4), of i j] i(1) by simp
  qed
  then have t: "fst (MapEX_emplace (fst (ps ! i)) (snd (ps ! i)) (take i ps)) = take (Suc i) ps"
    using i(1) by (simp add: MapEX_emplace_def take_Suc_conv_app_nth)
  have "extract_pairs exk exv mem m e (length ps - Suc i) (Some (body + (m1 + m2) * Suc i)) (take (Suc i) ps) = Some ps"
    using Suc.hyps(2) i(1) by (intro Suc.hyps(1)) simp_all
  then show ?case using assms(5) [OF i(1)] unfolding i(2) by (simp add: d t Let_def del: mult_Suc_right)
qed simp

lemma sum_list_permuted: "mset xs = mset ys \<Longrightarrow> sum_list (map f xs) = sum_list (map f ys)" for f :: "'a \<Rightarrow> nat"
  by (simp flip: sum_mset_sum_list)

lemma flat_units: "map snd (flat m1 m2 ps) = concat (map (\<lambda>(k, v). [v, k]) ps)"
  by (simp add: flat_def map_concat o_def case_prod_unfold)

locale map_codec = key: codec serk reprk boundk wk getk + val: codec serv reprv boundv wv getv
  for serk :: "'k serializer" and reprk boundk wk getk and serv :: "'v serializer" and reprv boundv wv getv
begin

abbreviation pairs_ok :: "Buffer \<Rightarrow> nat \<Rightarrow> ('k \<times> 'v) list \<Rightarrow> (Unit \<times> Unit) list \<Rightarrow> bool" where
  "pairs_ok buf p ps us \<equiv> stacked (Size buf) p (map snd (flat 1 1 (rev us))) \<and>
    key.units_of buf (map fst ps) (map fst us) \<and> val.units_of buf (map snd ps) (map snd us)"

lemma serialize_pair:
  assumes "buf_ok buf" "pairs_ok buf p ps us" "boundk k + boundv v < 2 ^ 30" "Size buf + boundk k + boundv v < 2 ^ 32"
  obtains b uv b' uk W where "serv v buf unit_init = Some (True, b, uv)" "serk k b unit_init = Some (True, b', uk)" "buf_ok b'"
    "pairs_ok b' p ((k, v) # ps) ((uk, uv) # us)" "View b' = W @ View buf" "length W \<le> boundk k + boundv v"
proof -
  let ?vs = "map snd (flat 1 1 (rev us))"
  have sub: "set (map fst us) \<subseteq> set ?vs" "set (map snd us) \<subseteq> set ?vs" by (force simp: flat_def)+
  obtain ws b uv where v: "serv v buf unit_init = Some (True, b, uv)" "reprv v ws" "length ws \<le> boundv v" "emitted (View buf) ws b uv" "u_len uv \<le> wv"
    using val.emits [of buf v] assms by auto
  note ne = val.repr_nonempty [OF v(2)]
  have st: "stacked (Size buf) p ?vs" using assms(2) by blast
  note pv = emitted_push [OF v(4) assms(1) ne st]
  obtain W where W: "View b = W @ View buf" "length W \<le> length ws" using pv(6) by blast
  have "Size b \<le> Size buf + boundv v" using W v(3) length_View [OF pv(1)] length_View [OF assms(1)] by simp
  then obtain zs b' uk where k: "serk k b unit_init = Some (True, b', uk)" "reprk k zs" "length zs \<le> boundk k" "emitted (View b) zs b' uk" "u_len uk \<le> wk"
    using key.emits [of b k] pv(1) assms(3,4) by auto
  note nek = key.repr_nonempty [OF k(2)]
  note pk = emitted_push [OF k(4) pv(1) nek pv(2)]
  obtain W' where W': "View b' = W' @ View b" "length W' \<le> length zs" using pk(6) by blast
  have "val.units_of b (v # map snd ps) (uv # map snd us)"
    using assms(2) by (intro val.units_of_push [OF _ v(4) assms(1) v(2,3,5) st sub(2)]) blast
  then have "val.units_of b' (v # map snd ps) (uv # map snd us)"
    by (rule val.units_of_keep [OF _ k(4) pv(1) nek pv(2)]) (use sub in auto)
  moreover have "key.units_of b (map fst ps) (map fst us)"
    using assms(2) by (intro key.units_of_keep [OF _ v(4) assms(1) ne st sub(1)]) blast
  then have "key.units_of b' (k # map fst ps) (uk # map fst us)"
    by (rule key.units_of_push [OF _ k(4) pv(1) k(2,3,5) pv(2)]) (use sub in auto)
  moreover have "map snd (flat 1 1 (rev ((uk, uv) # us))) = (?vs @ [uv]) @ [uk]" by (simp add: flat_def)
  ultimately have "pairs_ok b' p ((k, v) # ps) ((uk, uv) # us)" using pk(2) by simp
  then show thesis using that [OF v(1) k(1) pk(1), of "W' @ W"] W W' v(3) k(3) by simp
qed

lemma serialize_book_spec:
  assumes "buf_ok buf" "pairs_ok buf p qs us" "(\<Sum>(k, v)\<leftarrow>ps. boundk k + boundv v) < 2 ^ 30" "Size buf + (\<Sum>(k, v)\<leftarrow>ps. boundk k + boundv v) < 2 ^ 32"
  shows "\<exists>us' buf' W. serialize_book serk serv (map Some ps) us buf = Some (Some us', buf') \<and> buf_ok buf' \<and>
    pairs_ok buf' p (rev ps @ qs) us' \<and> View buf' = W @ View buf \<and> length W \<le> (\<Sum>(k, v)\<leftarrow>ps. boundk k + boundv v)"
  using assms
proof (induction ps arbitrary: buf us qs)
  case Nil
  then show ?case by simp
next
  case (Cons x ps)
  obtain k v where x: "x = (k, v)" by fastforce
  obtain b uv b' uk W where s: "serv v buf unit_init = Some (True, b, uv)" "serk k b unit_init = Some (True, b', uk)" "buf_ok b'"
      "pairs_ok b' p ((k, v) # qs) ((uk, uv) # us)" "View b' = W @ View buf" "length W \<le> boundk k + boundv v"
    by (rule serialize_pair [OF Cons.prems(1,2), of k v]) (use Cons.prems(3,4) x in auto)
  have "Size b' = length W + Size buf" using s(3,5) Cons.prems(1) by (metis length_View length_append)
  then have "Size b' + (\<Sum>(k, v)\<leftarrow>ps. boundk k + boundv v) < 2 ^ 32" "(\<Sum>(k, v)\<leftarrow>ps. boundk k + boundv v) < 2 ^ 30"
    using Cons.prems(3,4) x s(6) by simp_all
  then obtain us' buf' W' where "serialize_book serk serv (map Some ps) ((uk, uv) # us) b' = Some (Some us', buf')" "buf_ok buf'"
      "pairs_ok buf' p (rev ps @ (k, v) # qs) us'" "View buf' = W' @ View b'" "length W' \<le> (\<Sum>(k, v)\<leftarrow>ps. boundk k + boundv v)"
    using Cons.IH [OF s(3,4)] by blast
  then show ?case using s(1,2,5,6) by (intro exI [of _ us'] exI [of _ buf'] exI [of _ "W' @ W"]) (simp add: x)
qed

text \<open>The cells of the keys and the values are wide enough, and together not too many.\<close>

lemma pairs_sizes:
  assumes "pairs_ok buf p ps us" "us \<noteq> []" "BestArraySize (map fst us) = (ksz, m1)" "BestArraySize (map snd us) = (vsz, m2)"
  shows "ksz + vsz \<le> 2 * (\<Sum>(k, v)\<leftarrow>ps. boundk k + boundv v)" "\<forall>(k, v)\<in>set us. u_len k \<le> m1 \<and> u_len v \<le> m2" "length us = length ps"
proof -
  have ne: "map fst us \<noteq> []" "map snd us \<noteq> []" using assms(2) by simp_all
  have k: "key.units_of buf (map fst ps) (map fst us)" and v: "val.units_of buf (map snd ps) (map snd us)" using assms(1) by blast+
  have "ksz \<le> 2 * (\<Sum>e\<leftarrow>map fst ps. boundk e)"
    using best_size_le [OF assms(3) key.units_of_sizes(1) [OF k]] key.units_of_sizes(2) [OF k] by simp
  moreover have "vsz \<le> 2 * (\<Sum>e\<leftarrow>map snd ps. boundv e)"
    using best_size_le [OF assms(4) val.units_of_sizes(1) [OF v]] val.units_of_sizes(2) [OF v] by simp
  moreover have "(\<Sum>(k, v)\<leftarrow>ps. boundk k + boundv v) = (\<Sum>e\<leftarrow>map fst ps. boundk e) + (\<Sum>e\<leftarrow>map snd ps. boundv e)" by (induction ps) auto
  ultimately show "ksz + vsz \<le> 2 * (\<Sum>(k, v)\<leftarrow>ps. boundk k + boundv v)" by simp
  show "\<forall>(k, v)\<in>set us. u_len k \<le> m1 \<and> u_len v \<le> m2"
    using key.units_of_width(1) [OF k ne(1) assms(3)] val.units_of_width(1) [OF v ne(2) assms(4)] by fastforce
  show "length us = length ps" using key.units_of_sizes(3) [OF k] by simp
qed

text \<open>Reading the cells of a serialized map gives the pairs.\<close>

lemma cells_extract:
  assumes "pairs_ok buf p ps us" "us \<noteq> []" "BestArraySize (map fst us) = (ksz, m1)" "BestArraySize (map snd us) = (vsz, m2)"
    and "cell_ok mem q m1 (content (View buf) (fst (us ! j)))" "cell_ok mem (q + m1) m2 (content (View buf) (snd (us ! j)))" "j < length ps"
  shows "getk mem \<lparr>f_ptr = Some q, f_width = m1\<rparr> (Some (length mem)) = Some (fst (ps ! j)) \<and>
    getv mem \<lparr>f_ptr = Some (q + m1), f_width = m2\<rparr> (Some (length mem)) = Some (snd (ps ! j))"
proof
  have ne: "map fst us \<noteq> []" "map snd us \<noteq> []" using assms(2) by simp_all
  have k: "key.units_of buf (map fst ps) (map fst us)" and v: "val.units_of buf (map snd ps) (map snd us)" using assms(1) by blast+
  have j: "j < length us" using key.units_of_sizes(3) [OF k] assms(7) by simp
  have m: "m1 \<le> 3" "m2 \<le> 3" using BestArraySize_spec [OF assms(3)] BestArraySize_spec [OF assms(4)] by auto
  have "reprk (fst (ps ! j)) (content (View buf) (fst (us ! j)))" using k j assms(7) unfolding key.units_of_def by (auto simp: list_all2_conv_all_nth)
  from key.get_repr [OF this cell_reads [OF assms(5) m(1)]]
  show "getk mem \<lparr>f_ptr = Some q, f_width = m1\<rparr> (Some (length mem)) = Some (fst (ps ! j))" using key.units_of_width(2) [OF k ne(1) assms(3)] by simp
  have "reprv (snd (ps ! j)) (content (View buf) (snd (us ! j)))" using v j assms(7) unfolding val.units_of_def by (auto simp: list_all2_conv_all_nth)
  from val.get_repr [OF this cell_reads [OF assms(6) m(2)]]
  show "getv mem \<lparr>f_ptr = Some (q + m1), f_width = m2\<rparr> (Some (length mem)) = Some (snd (ps ! j))" using val.units_of_width(2) [OF v ne(2) assms(4)] by simp
qed

text \<open>What \<open>MapEX_Serialize\<close> writes: the index, and the cells of the pairs in the order \<open>book\<close>.\<close>

lemma map_written:
  assumes built: "PerfectHashObject_Build vector_reader gseed junk True \<lparr>vr_keys = map (key_bytes \<circ> fst) memo, vr_idx = 0\<rparr> = Some (po, r)" "ph_data po = Some index"
    and memo: "memo \<noteq> []" and buf: "buf_ok buf"
    and room: "Size buf + WordSize (length index) + 2 * (\<Sum>(k, v)\<leftarrow>memo. boundk k + boundv v) < 2 ^ 30"
  obtains book b us ksz m1 vsz m2 buf' C where "mset book = mset memo" "distinct (map fst book)" "pairs_ok b (Size buf) book us" "us \<noteq> []"
    "BestArraySize (map fst us) = (ksz, m1)" "BestArraySize (map snd us) = (vsz, m2)"
    "MapEX_Serialize gseed junk key_bytes serk serv memo buf u = Some (True, buf', Segment (Size buf) (Size buf'))"
    "emitted (View buf) (index_words index m1 m2 @ C) buf' (Segment (Size buf) (Size buf'))" "(m1 + m2) * length book \<le> length C" "m1 \<in> {1, 2, 3}" "m2 \<in> {1, 2, 3}"
    "\<And>j. j < length book \<Longrightarrow> cell_ok C ((m1 + m2) * j) m1 (content (View b) (fst (us ! j))) \<and>
      cell_ok C ((m1 + m2) * j + m1) m2 (content (View b) (snd (us ! j)))"
proof -
  let ?B = "\<lambda>ps. \<Sum>(k, v)\<leftarrow>ps. boundk k + boundv v"
  have rd: "map_key_reader = vector_reader" by (simp add: map_key_reader_def vector_reader_def)
  obtain book where book: "fill_book po key_bytes memo (replicate (length memo) None) = Some (map Some book)" "mset book = mset memo" "distinct (map fst memo)"
    using book_spec [of gseed junk key_bytes memo po r] built unfolding rd by auto
  have B: "?B (rev book) = ?B memo" "?B book = ?B memo" using book(2) by (intro sum_list_permuted; simp)+
  have "pairs_ok buf (Size buf) [] []" by (simp add: key.units_of_def val.units_of_def)
  from serialize_book_spec [OF buf this, of "rev book"] obtain us b W where
    s: "serialize_book serk serv (map Some (rev book)) [] buf = Some (Some us, b)" "buf_ok b" "pairs_ok b (Size buf) book us"
      "View b = W @ View buf" "length W \<le> ?B memo"
    using room unfolding B(1) by auto
  obtain ksz m1 vsz m2 where best: "BestArraySize (map fst us) = (ksz, m1)" "BestArraySize (map snd us) = (vsz, m2)" by fastforce
  have len: "length book = length memo" using book(2) by (metis size_mset)
  have us: "us \<noteq> []" using s(3) len memo key.units_of_sizes(3) by fastforce
  note sz = pairs_sizes [OF s(3) us best]
  have v: "Size b = length W + Size buf" using s(2,4) buf by (metis length_View length_append)
  have lim: "Size b < 2 ^ 32" "WordSize (length index) + ksz + vsz < 2 ^ 30" "Size buf + WordSize (length index) + ksz + vsz < 2 ^ 32"
    using room sz(1) v s(5) unfolding B(2) by simp_all
  have dr: "drop (Size b - Size buf) (View b) = View buf" using s(4) v by simp
  have "load32 index 0 = Some (of_nat (length memo))"
    using vector_Build [of gseed junk True "map (key_bytes \<circ> fst) memo" 0] built by (auto simp: rereads_def)
  then have ine: "index \<noteq> []" by (auto simp: load32_def rd_range_def split: if_splits)
  have st: "stacked (Size b) (Size buf) (map snd (flat m1 m2 (rev us)))" using s(3) by (simp add: flat_units)
  obtain buf' C where m: "SerializeMap index us b (Size buf) u = Some (True, buf', Segment (Size buf) (Size buf'))"
      "emitted (View buf) (index_words index m1 m2 @ C) buf' (Segment (Size buf) (Size buf'))" "(m1 + m2) * length us \<le> length C" "m1 \<in> {1, 2, 3}" "m2 \<in> {1, 2, 3}"
      "\<And>j. j < length us \<Longrightarrow> cell_ok C ((m1 + m2) * j) m1 (content (View b) (fst (us ! j))) \<and>
        cell_ok C ((m1 + m2) * j + m1) m2 (content (View b) (snd (us ! j)))"
    using SerializeMap_spec [OF s(2) lim(1) us ine best lim(2) st sz(2) lim(3), of u] unfolding dr by metis
  have "MapEX_Serialize gseed junk key_bytes serk serv memo buf u = Some (True, buf', Segment (Size buf) (Size buf'))"
    using built book(1) s(1) m(1) rd by (simp add: MapEX_Serialize_def Let_def rev_map)
  moreover have "distinct (map fst book)" using book(2,3) by (metis mset_eq_imp_distinct_iff mset_map)
  ultimately show thesis using that [OF book(2) _ s(3) us best _ m(2) _ m(4,5)] m(3,6) sz(3) by simp
qed

lemma map_extract:
  assumes built: "PerfectHashObject_Build vector_reader gseed junk True \<lparr>vr_keys = map (key_bytes \<circ> fst) memo, vr_idx = 0\<rparr> = Some (po, r)" "ph_data po = Some index"
    and "memo \<noteq> []" and "buf_ok buf"
    and "Size buf + WordSize (length index) + 2 * (\<Sum>(k, v)\<leftarrow>memo. boundk k + boundv v) < 2 ^ 30"
  shows "\<exists>buf' u' Obj. MapEX_Serialize gseed junk key_bytes serk serv memo buf u = Some (True, buf', u') \<and> emitted (View buf) Obj buf' u' \<and>
    (\<forall>mem P. holds mem P Obj \<and> length mem < 2 ^ 30 \<longrightarrow>
      (\<exists>memo'. MapEX_init getk getv mem (Some P) (Some (length mem)) = Some memo' \<and> mset memo' = mset memo))"
proof (rule map_written [OF assms, of u])
  fix book b us ksz m1 vsz m2 buf' C
  assume bk: "mset book = mset memo" "distinct (map fst book)" and us: "pairs_ok b (Size buf) book us" "us \<noteq> []"
    and best: "BestArraySize (map fst us) = (ksz, m1)" "BestArraySize (map snd us) = (vsz, m2)"
    and s: "MapEX_Serialize gseed junk key_bytes serk serv memo buf u = Some (True, buf', Segment (Size buf) (Size buf'))"
      "emitted (View buf) (index_words index m1 m2 @ C) buf' (Segment (Size buf) (Size buf'))"
    and m: "(m1 + m2) * length book \<le> length C" "m1 \<in> {1, 2, 3}" "m2 \<in> {1, 2, 3}"
    and cells: "\<And>j. j < length book \<Longrightarrow> cell_ok C ((m1 + m2) * j) m1 (content (View b) (fst (us ! j))) \<and>
      cell_ok C ((m1 + m2) * j + m1) m2 (content (View b) (snd (us ! j)))"
  have len: "length book = length memo" using bk(1) by (metis size_mset)
  have "\<exists>memo'. MapEX_init getk getv mem (Some P) (Some (length mem)) = Some memo' \<and> mset memo' = mset memo"
    if mem: "holds mem P (index_words index m1 m2 @ C)" "length mem < 2 ^ 30" for mem P
  proof -
    let ?b = "P + WordSize (length index)"
    have "(m1 + m2) * length (map (key_bytes \<circ> fst) memo) \<le> length C" using m(1) len by simp
    then obtain mp where "Map_init mem (Some P) (Some (length mem)) = Some mp" "length (map (key_bytes \<circ> fst) memo) < 2 ^ 28"
        "map_is mp ?b m1 m2 (length (map (key_bytes \<circ> fst) memo)) (PerfectHashObject_Locate po)"
      by (rule serialized_map [OF built mem _ m(2,3)])
    then have mp: "Map_init mem (Some P) (Some (length mem)) = Some mp" "map_is mp ?b m1 m2 (length book) (PerfectHashObject_Locate po)" "length book < 2 ^ 28"
      using len by simp_all
    have "holds (index_words index m1 m2 @ C) (WordSize (length index)) C" by (simp add: holds_def)
    then have h: "holds mem ?b C" by (rule holds_trans [OF mem(1)])
    have get: "getk mem \<lparr>f_ptr = Some (?b + (m1 + m2) * j), f_width = m1\<rparr> (Some (length mem)) = Some (fst (book ! j)) \<and>
        getv mem \<lparr>f_ptr = Some (?b + (m1 + m2) * j + m1), f_width = m2\<rparr> (Some (length mem)) = Some (snd (book ! j))" if j: "j < length book" for j
    proof -
      have "cell_ok mem (?b + (m1 + m2) * j) m1 (content (View b) (fst (us ! j)))" "cell_ok mem (?b + (m1 + m2) * j + m1) m2 (content (View b) (snd (us ! j)))"
        using cell_ok_trans [OF h] cells [OF j] by (simp_all only: add.assoc)
      from cells_extract [OF us best this j] show ?thesis .
    qed
    have "m1 \<le> 3" "m2 \<le> 3" using m(2,3) by auto
    from extract_pairs_spec [OF mp(2) this bk(2), of getk mem "Some (length mem)" getv 0, OF get]
    have "extract_pairs getk getv mem mp (Some (length mem)) (length book) (Some ?b) [] = Some book" by simp
    moreover have "Map_Size mp = Some (of_nat (length book))" "Map_begin mp = Some ?b" using mp(2) by (simp_all add: map_is_def Map_begin_def)
    moreover have "unat (of_nat (length book) :: u32) = length book" using mp(3) by (simp add: unat_of_nat)
    ultimately have "MapEX_init getk getv mem (Some P) (Some (length mem)) = Some book" using mp(1) by (simp add: MapEX_init_def)
    then show ?thesis using bk(1) by blast
  qed
  then show ?thesis using s by blast
qed

end

end
