(* ===== verification/AccessExRound.thy ===== *)
theory AccessExRound
  imports Codec
begin

text \<open>
  The codecs of the mutable objects of include/protocache/access-ex.h: strings, numbers, arrays of
  numbers and of strings are interpretations of the locales of \<open>Codec\<close>, and the round trips of arrays and
  maps follow for any nesting.
\<close>

subsection \<open>Strings\<close>

definition string_repr :: "u8 list \<Rightarrow> u32 list \<Rightarrow> bool" where
  "string_repr s ws \<longleftrightarrow> length s < 2 ^ 30 \<and> ws = string_words s"

definition string_bound :: "u8 list \<Rightarrow> nat" where
  "string_bound s = length s + 2"

definition string_extract :: "mem \<Rightarrow> ptr \<Rightarrow> ptr \<Rightarrow> u8 list option" where
  "string_extract mem ptr end = do { s \<leftarrow> String_init mem ptr end; slice_bytes mem s }"

lemma WriteVarInt_length: "unat n < 2 ^ (7 * Suc k) \<Longrightarrow> length (WriteVarInt n) \<le> Suc k"
proof (induction k arbitrary: n)
  case 0
  then show ?case by (simp add: WriteVarInt_eq [of n])
next
  case (Suc k)
  have "unat n < 2 ^ (7 * Suc k) * 2 ^ 7" using Suc.prems by (metis power_add mult_Suc_right add.commute)
  then have "unat (drop_bit 7 n) < 2 ^ (7 * Suc k)" by (simp only: unat_drop_bit less_mult_imp_div_less)
  then show ?case using Suc.IH [of "drop_bit 7 n"] by (simp add: WriteVarInt_eq [of n])
qed

lemma string_words_bound: "length s < 2 ^ 30 \<Longrightarrow> length (string_words s) \<le> string_bound s"
proof -
  assume s: "length s < 2 ^ 30"
  have "unat (push_bit 2 (of_nat (length s)) :: u32) < 2 ^ (7 * Suc 4)" using string_mark [OF s] s by simp
  then have "length (string_bytes s) \<le> 5 + length s" using WriteVarInt_length by (fastforce simp: string_bytes_def)
  then have "4 * WordSize (length (string_bytes s)) \<le> 8 + length s" using WordSize_bounds(2) [of "length (string_bytes s)"] by simp
  then show ?thesis using string_words_length(1) [of s] by (simp add: string_bound_def)
qed

interpretation str: object_codec Serialize_str string_repr string_bound string_extract
proof
  show "ws \<noteq> []" if "string_repr e ws" for e ws using that string_words_length(2) [of e] by (auto simp: string_repr_def)
  show "\<exists>ws buf' u'. Serialize_str e buf unit_init = Some (True, buf', u') \<and> string_repr e ws \<and> length ws \<le> string_bound e \<and>
      emitted (View buf) ws buf' u' \<and> u_len u' \<le> 1" if b: "buf_ok buf" "string_bound e < 2 ^ 30" "Size buf + string_bound e < 2 ^ 32" for buf e
  proof -
    have e: "length e < 2 ^ 30" using b(2) by (simp add: string_bound_def)
    note w = string_words_bound [OF e]
    obtain buf' u' where s: "Serialize_str e buf unit_init = Some (True, buf', u')" "emitted (View buf) (string_words e) buf' u'"
      using Serialize_str_spec [OF b(1) _ e, of unit_init] b(3) w by (auto simp: unit_init_def)
    moreover have "u_len u' \<le> 1"
    proof (cases "WordSize (length (string_bytes e)) = 1")
      case True
      have "unit_size u' = 1" using s(2) True length_content [of "View buf'" u'] string_words_length(1) [of e] by (auto simp: emitted_def)
      then show ?thesis by (simp add: unit_size_def split: if_splits)
    next
      case False
      then show ?thesis using s(1) by (auto simp: Serialize_str_def Let_def Segment_def string_bytes_def split: if_splits bind_splits)
    qed
    ultimately show ?thesis using e w by (auto simp: string_repr_def)
  qed
  show "plain ws" if "string_repr e ws" for e ws using that string_plain by (simp add: string_repr_def)
  show "string_extract mem (Some q) (Some (length mem)) = Some e" if "string_repr e ws" "holds mem q ws" for e ws mem q
  proof -
    have e: "length e < 2 ^ 30" "holds mem q (string_words e)" using that by (auto simp: string_repr_def)
    then have "reaches (Some (length mem)) (q + length (string_words e))" by (simp add: holds_def)
    from string_read [OF e this] obtain s where "String_init mem (Some q) (Some (length mem)) = Some s" "slice_bytes mem s = Some e" by metis
    then show ?thesis by (simp add: string_extract_def)
  qed
qed simp

subsection \<open>Arrays of strings\<close>

text \<open>The constructor of the array of strings passes no end; on serialized words it needs none.\<close>

lemma field_reads_string:
  assumes "string_repr s ws" "field_reads mem f ws"
  shows "\<exists>v. StringField_Get mem f None = Some v \<and> slice_bytes mem v = Some s"
proof -
  have s: "length s < 2 ^ 30" "ws = string_words s" using assms(1) by (auto simp: string_repr_def)
  obtain q where q: "GetObject mem f (Some (length mem)) = Some (Some q)" "holds mem q ws"
    using assms(2) str.repr_plain [OF assms(1)] by (auto simp: field_reads_def)
  have "GetObject mem f None = Some (Some q)"
    using q(1) by (auto simp: GetObject_def at_end_def Let_def split: option.splits if_splits bind_splits)
  moreover obtain v where "String_init mem (Some q) None = Some v" "slice_bytes mem v = Some s"
    by (rule string_read [OF s(1) q(2) [unfolded s(2)], of None]) (simp add: past_def)
  ultimately show ?thesis by (simp add: StringField_Get_def)
qed

lemma read_strings_spec:
  assumes "\<And>j. j < length vec \<Longrightarrow> \<exists>v. StringField_Get mem \<lparr>f_ptr = Some (b + unat (a_width a) * j), f_width = unat (a_width a)\<rparr> None = Some v \<and>
      slice_bytes mem v = Some (vec ! j)"
  shows "i \<le> length vec \<Longrightarrow> read_strings mem a (length vec - i) (Some (b + unat (a_width a) * i)) = Some (drop i vec)"
proof (induction "length vec - i" arbitrary: i)
  case (Suc n)
  then have i: "i < length vec" "length vec - i = Suc (length vec - Suc i)" by simp_all
  have "read_strings mem a (length vec - Suc i) (Some (b + unat (a_width a) * Suc i)) = Some (drop (Suc i) vec)"
    using Suc.hyps(2) i(1) by (intro Suc.hyps(1)) simp_all
  moreover have "Array_next a (Some (b + unat (a_width a) * i)) = Some (Some (b + unat (a_width a) * Suc i))" by (simp add: Array_next_def ptr_add_def)
  ultimately show ?case using assms [OF i(1)] i by (auto simp: Array_deref_def Cons_nth_drop_Suc)
qed simp

lemma array_view_count:
  assumes "array_words m wss A" "holds mem P A"
  shows "Array_count (array_view P m (length wss)) = Some (length wss)"
proof -
  have A: "1 \<le> m" "m \<le> 3" "length wss < 2 ^ 30" using assms(1) by (auto simp: array_words_def)
  note u = array_view_init(2,3) [OF assms]
  have "unat (of_nat m * of_nat (length wss) :: u32) = m * length wss" using array_product [of "of_nat m" "of_nat (length wss)"] u A by simp
  then show ?thesis using A(1) u by (auto simp: Array_count_def Array_end_def Array_begin_def array_view_def ptr_add_def)
qed

interpretation strs: object_codec "ArrayEX_Serialize Serialize_str" "array_repr string_repr 1" "array_bound string_bound" StringArrayEX_init
proof (unfold_locales, goal_cases)
  case (1 e ws)
  then show ?case by (auto simp: array_repr_def plain_def)
next
  case (3 buf e)
  then show ?case using str.array_emits by simp
next
  case (4 e ws)
  then show ?case by (simp add: array_repr_def)
next
  case (5 vec A mem P)
  obtain m wss where A: "list_all2 string_repr vec wss" "array_words m wss A" using 5(1) by (auto simp: array_repr_def)
  note v = array_view_init [OF A(2) 5(2)]
  have len: "length wss = length vec" using A(1) by (simp add: list_all2_lengthD)
  let ?a = "array_view P m (length vec)"
  have w: "unat (a_width ?a) = m" "a_body ?a = Some (P + 1)" using v(3) by (simp_all add: array_view_def)
  have "\<exists>v. StringField_Get mem \<lparr>f_ptr = Some (P + 1 + unat (a_width ?a) * j), f_width = unat (a_width ?a)\<rparr> None = Some v \<and> slice_bytes mem v = Some (vec ! j)"
    if j: "j < length vec" for j
    unfolding w using field_reads_string [OF _ v(5) [of j]] A(1) j len by (simp add: list_all2_conv_all_nth)
  moreover have "Array_count ?a = Some (length vec)" using array_view_count [OF A(2) 5(2)] len by simp
  ultimately show ?case using read_strings_spec [of vec mem "P + 1" ?a 0] v(1) len w by (simp add: StringArrayEX_init_def Array_begin_def)
qed simp

subsection \<open>Numbers and arrays of numbers\<close>

text \<open>A scalar of \<open>w\<close> words, given by its bytes.\<close>

definition scalar_ser :: "u8 list serializer" where
  "scalar_ser v buf u = do { u \<leftarrow> Serialize_scalar (words_of v) u; Some (True, buf, u) }"

definition scalar_repr :: "nat \<Rightarrow> u8 list \<Rightarrow> u32 list \<Rightarrow> bool" where
  "scalar_repr w v ws \<longleftrightarrow> length v = 4 * w \<and> ws = words_of v"

definition scalar_bound :: "nat \<Rightarrow> u8 list \<Rightarrow> nat" where
  "scalar_bound w v = (if length v = 4 * w then w else 2 ^ 30)"

lemma scalar_codec:
  assumes w: "w \<in> {1, 2}"
  shows "codec scalar_ser (scalar_repr w) (scalar_bound w) w (ScalarField_Get (4 * w))"
proof
  have len: "length (words_of v) = w" if "length v = 4 * w" for v :: "u8 list"
  proof -
    have "4 * length (words_of v) = length (mem_bytes (words_of v))" by (induction "words_of v") auto
    then show ?thesis using that by (simp add: mem_bytes_words_of WordSize_def)
  qed
  then have l: "length ws = w" if "scalar_repr w v ws" for v ws using that by (auto simp: scalar_repr_def)
  show "ws \<noteq> []" if "scalar_repr w v ws" for v ws using l [OF that] w by auto
  show "w = 1 \<or> w = 2 \<and> (\<forall>v ws. scalar_repr w v ws \<longrightarrow> length ws = w)" using l w by auto
  show "\<exists>ws buf' u'. scalar_ser v buf unit_init = Some (True, buf', u') \<and> scalar_repr w v ws \<and> length ws \<le> scalar_bound w v \<and>
      emitted (View buf) ws buf' u' \<and> u_len u' \<le> w" if b: "buf_ok buf" "scalar_bound w v < 2 ^ 30" "Size buf + scalar_bound w v < 2 ^ 32" for buf v
  proof -
    have v: "length v = 4 * w" using b(2) by (simp add: scalar_bound_def split: if_splits)
    obtain u' where "set_data (words_of v) unit_init = Some u'" "u_len u' = w" "emitted (View buf) (words_of v) buf u'"
      using emitted_inline [OF b(1), of unit_init "words_of v"] len [OF v] w by (auto simp: unit_init_def)
    then show ?thesis using v len [OF v] by (auto simp: scalar_ser_def Serialize_scalar_def scalar_repr_def scalar_bound_def)
  qed
  show "ScalarField_Get (4 * w) mem f (Some (length mem)) = Some v"
    if r: "scalar_repr w v ws" "field_reads mem f ws" "(\<forall>v ws. scalar_repr w v ws \<longrightarrow> length ws = w) \<longrightarrow> f_width f = w" for v ws mem f
  proof -
    have v: "length v = 4 * w" "ws = words_of v" using r(1) by (auto simp: scalar_repr_def)
    have fw: "f_width f = w" using r(3) l by blast
    obtain q where q: "GetValue f (Some (length mem)) = slice q w" "holds mem q (words_of v)"
      using r(2) v fw len [OF v(1)] by (auto simp: field_reads_def)
    obtain rest where rest: "drop (4 * q) (mem_bytes mem) = mem_bytes (words_of v) @ rest" using drop_bytes [OF q(2)] by blast
    have "4 * q + 4 * w \<le> 4 * length mem" using q(2) len [OF v(1)] by (simp add: holds_def)
    then have "rd_range (mem_bytes mem) (4 * q) (4 * w) = Some v"
      using rest v(1) by (simp add: rd_range_def mem_bytes_words_of WordSize_def)
    then show ?thesis using q(1) by (simp add: ScalarField_Get_def slice_def WordSize_def)
  qed
qed

interpretation word: codec scalar_ser "scalar_repr 1" "scalar_bound 1" "1" "ScalarField_Get 4"
  using scalar_codec [of 1] by simp

interpretation long: codec scalar_ser "scalar_repr 2" "scalar_bound 2" "2" "ScalarField_Get 8"
  using scalar_codec [of 2] by simp

text \<open>Arrays of numbers.\<close>

definition numbers_repr :: "nat \<Rightarrow> u32 list list \<Rightarrow> u32 list \<Rightarrow> bool" where
  "numbers_repr sz vec A \<longleftrightarrow> (\<forall>ws\<in>set vec. length ws = sz div 4) \<and> sz div 4 * length vec < 2 ^ 30 \<and> A = number_words (sz div 4) vec"

definition numbers_bound :: "nat \<Rightarrow> u32 list list \<Rightarrow> nat" where
  "numbers_bound sz vec = (if \<forall>ws\<in>set vec. length ws = sz div 4 then 1 + sz div 4 * length vec else 2 ^ 30)"

lemma numbers_codec:
  assumes sz: "sz \<in> {4, 8}"
  shows "object_codec (ScalarArrayEX_Serialize sz) (numbers_repr sz) (numbers_bound sz) (ScalarArrayEX_init sz)"
proof
  have pl: "plain ws" if "numbers_repr sz e ws" for e ws
  proof -
    have m: "sz div 4 \<le> 3" "1 \<le> sz div 4" using sz by auto
    have "length e < 2 ^ 30" using that m(2) unfolding numbers_repr_def by (metis le_less_trans mult_le_mono1 nat_mult_1)
    from array_head(1) [OF this m(1)] have "ws ! 0 AND 3 = of_nat (sz div 4)" "ws \<noteq> []" using that by (auto simp: numbers_repr_def number_words_def)
    then show ?thesis using sz by (auto simp: plain_def)
  qed
  show "plain ws" "ws \<noteq> []" if "numbers_repr sz e ws" for e ws using pl [OF that] by (simp_all add: plain_def)
  show "\<exists>ws buf' u'. ScalarArrayEX_Serialize sz e buf unit_init = Some (True, buf', u') \<and> numbers_repr sz e ws \<and> length ws \<le> numbers_bound sz e \<and>
      emitted (View buf) ws buf' u' \<and> u_len u' \<le> 1" if b: "buf_ok buf" "numbers_bound sz e < 2 ^ 30" "Size buf + numbers_bound sz e < 2 ^ 32" for buf e
  proof -
    have e: "\<forall>ws\<in>set e. length ws = sz div 4" "numbers_bound sz e = 1 + sz div 4 * length e" using b(2) by (auto simp: numbers_bound_def split: if_splits)
    show ?thesis
      using numbers_emit [OF b(1) _ sz e(1), of unit_init] b(2,3) number_words_length [OF e(1)] e
      by (auto simp: unit_init_def numbers_repr_def)
  qed
  show "ScalarArrayEX_init sz mem (Some q) (Some (length mem)) = Some e" if "numbers_repr sz e ws" "holds mem q ws" for e ws mem q
    using that numbers_extract [OF sz] by (auto simp: numbers_repr_def)
qed simp

interpretation nums32: object_codec "ScalarArrayEX_Serialize 4" "numbers_repr 4" "numbers_bound 4" "ScalarArrayEX_init 4"
  by (rule numbers_codec) simp

interpretation nums64: object_codec "ScalarArrayEX_Serialize 8" "numbers_repr 8" "numbers_bound 8" "ScalarArrayEX_init 8"
  by (rule numbers_codec) simp

text \<open>Maps from strings to numbers.\<close>

interpretation dict32: map_codec Serialize_str string_repr string_bound "1" "object_get string_extract" scalar_ser "scalar_repr 1" "scalar_bound 1" "1" "ScalarField_Get 4"
  by unfold_locales

interpretation dict64: map_codec Serialize_str string_repr string_bound "1" "object_get string_extract" scalar_ser "scalar_repr 2" "scalar_bound 2" "2" "ScalarField_Get 8"
  by unfold_locales

subsection \<open>Round trips\<close>

text \<open>
  Claim C7: an array of objects survives serialization and extraction.  For any class of elements that
  writes words from which its constructor gets the same value back (\<open>object_codec\<close>: strings, arrays of
  numbers, arrays of such arrays, ...), \<open>ArrayEX::Serialize\<close> succeeds within the size limits, emits
  words in front of the buffer, and the constructor of \<open>ArrayEX\<close> gives the same elements in the same
  order wherever these words are.  The same holds again for arrays of these arrays.
\<close>

theorem array_ex_roundtrip:
  assumes "object_codec ser repr bound ext"
    and "buf_ok buf" "array_bound bound vec < 2 ^ 30" "Size buf + array_bound bound vec < 2 ^ 32"
  shows "(\<exists>buf' u' A. ArrayEX_Serialize ser vec buf unit_init = Some (True, buf', u') \<and> emitted (View buf) A buf' u' \<and>
      (\<forall>mem P. holds mem P A \<longrightarrow> ArrayEX_init ext mem (Some P) (Some (length mem)) = Some vec)) \<and>
    object_codec (ArrayEX_Serialize ser) (array_repr repr 1) (array_bound bound) (ArrayEX_init ext)"
proof -
  have arr: "object_codec (ArrayEX_Serialize ser) (array_repr repr 1) (array_bound bound) (ArrayEX_init ext)"
    by (rule object_codec.arrays [OF assms(1)])
  moreover obtain A buf' u' where "ArrayEX_Serialize ser vec buf unit_init = Some (True, buf', u')" "array_repr repr 1 vec A" "emitted (View buf) A buf' u'"
    using writer.array_emits [OF object_codec.axioms(1) [OF assms(1)] assms(2-4)] by blast
  ultimately show ?thesis using object_codec.array_extract [OF assms(1)] by blast
qed

text \<open>The same for the array of strings, whose constructor is a specialization of its own.\<close>

theorem string_array_ex_roundtrip:
  assumes "buf_ok buf" "array_bound string_bound vec < 2 ^ 30" "Size buf + array_bound string_bound vec < 2 ^ 32"
  shows "\<exists>buf' u' A. ArrayEX_Serialize Serialize_str vec buf unit_init = Some (True, buf', u') \<and> emitted (View buf) A buf' u' \<and>
    (\<forall>mem P. holds mem P A \<longrightarrow> StringArrayEX_init mem (Some P) (Some (length mem)) = Some vec)"
  using strs.emits [OF assms] strs.extract_repr by blast

text \<open>
  Claim C8: a map with string keys survives serialization and extraction.  When the index over the keys is
  built and the map is within the size limits, \<open>MapEX::Serialize\<close> succeeds, and the constructor of \<open>MapEX\<close>
  on the words it emitted gives the same pairs (in the order of the index), for any class of values
  that is got back from its field.
\<close>

theorem map_ex_roundtrip:
  assumes "codec serv reprv boundv wv getv"
    and "PerfectHashObject_Build map_key_reader gseed junk True \<lparr>vr_keys = map fst memo, vr_idx = 0\<rparr> = Some (po, r)" "ph_data po = Some index"
    and "memo \<noteq> []" "buf_ok buf"
    and "Size buf + WordSize (length index) + 2 * (\<Sum>(k, v)\<leftarrow>memo. string_bound k + boundv v) < 2 ^ 30"
  shows "\<exists>buf' u' Obj. MapEX_Serialize gseed junk (\<lambda>k. k) Serialize_str serv memo buf u = Some (True, buf', u') \<and> emitted (View buf) Obj buf' u' \<and>
    (\<forall>mem P. holds mem P Obj \<and> length mem < 2 ^ 30 \<longrightarrow>
      (\<exists>memo'. MapEX_init (object_get string_extract) getv mem (Some P) (Some (length mem)) = Some memo' \<and> mset memo' = mset memo))"
proof -
  have "map_codec Serialize_str string_repr string_bound 1 (object_get string_extract) serv reprv boundv wv getv"
    by (intro map_codec.intro str.codec_axioms assms(1))
  moreover have "map_key_reader = vector_reader" by (simp add: map_key_reader_def vector_reader_def)
  moreover have "map ((\<lambda>k. k) \<circ> fst) memo = map fst memo" by simp
  ultimately show ?thesis using map_codec.map_extract [of Serialize_str _ _ 1 _ serv _ _ wv _ gseed junk "\<lambda>k. k" memo po r index buf u] assms(2-6) by metis
qed

text \<open>An array of arrays of strings, and a map from a string to a number.\<close>

theorem array_ex_roundtrip_witness:
  "\<exists>buf' u' A. ArrayEX_Serialize (ArrayEX_Serialize Serialize_str) [[[0x61]], []] (empty_buffer (\<lambda>i. 0)) unit_init = Some (True, buf', u') \<and>
    emitted [] A buf' u' \<and> ArrayEX_init StringArrayEX_init A (Some 0) (Some (length A)) = Some [[[0x61]], []]"
proof -
  have z: "Size (empty_buffer (\<lambda>i. 0)) = 0" "View (empty_buffer (\<lambda>i. 0)) = []" by (rule empty_sizes)+
  have "array_bound (array_bound string_bound) [[[0x61]], []] < 2 ^ 30" by (simp add: array_bound_def string_bound_def)
  moreover from this have "Size (empty_buffer (\<lambda>i. 0)) + array_bound (array_bound string_bound) [[[0x61]], []] < 2 ^ 32" by (simp add: z)
  ultimately obtain buf' u' A where "ArrayEX_Serialize (ArrayEX_Serialize Serialize_str) [[[0x61]], []] (empty_buffer (\<lambda>i. 0)) unit_init = Some (True, buf', u')"
      "emitted (View (empty_buffer (\<lambda>i. 0))) A buf' u'" "\<forall>mem P. holds mem P A \<longrightarrow> ArrayEX_init StringArrayEX_init mem (Some P) (Some (length mem)) = Some [[[0x61]], []]"
    using array_ex_roundtrip [OF strs.object_codec_axioms buf_ok_empty] by blast
  moreover have "holds A 0 A" by (simp add: holds_def)
  ultimately show ?thesis unfolding z by blast
qed

theorem map_ex_roundtrip_witness:
  "\<exists>buf' u' Obj. MapEX_Serialize 7 (\<lambda>_ _. 0) (\<lambda>k. k) Serialize_str scalar_ser [([0x61], [7, 0, 0, 0])] (empty_buffer (\<lambda>i. 0)) unit_init = Some (True, buf', u') \<and>
    emitted [] Obj buf' u' \<and>
    (\<forall>mem P. holds mem P Obj \<and> length mem < 2 ^ 30 \<longrightarrow>
      (\<exists>memo'. MapEX_init (object_get string_extract) (ScalarField_Get 4) mem (Some P) (Some (length mem)) = Some memo' \<and> mset memo' = mset [([0x61], [7, 0, 0, 0])]))"
proof -
  let ?memo = "[([0x61], [7, 0, 0, 0])] :: (u8 list \<times> u8 list) list"
  have z: "Size (empty_buffer (\<lambda>i. 0)) = 0" "View (empty_buffer (\<lambda>i. 0)) = []" by (rule empty_sizes)+
  have rd: "map_key_reader = vector_reader" by (simp add: map_key_reader_def vector_reader_def)
  obtain po r where po: "PerfectHashObject_Build vector_reader 7 (\<lambda>_ _. 0) True \<lparr>vr_keys = [[0x61]], vr_idx = 0\<rparr> = Some (po, r)"
      "ph_data po = Some [1, 0, 0, 0]" using one_key_index by blast
  have b: "PerfectHashObject_Build map_key_reader 7 (\<lambda>_ _. 0) True \<lparr>vr_keys = map fst ?memo, vr_idx = 0\<rparr> = Some (po, r)" using po(1) by (simp add: rd)
  have "Size (empty_buffer (\<lambda>i. 0)) + WordSize (length [1, 0, 0, 0 :: u8]) + 2 * (\<Sum>(k, v)\<leftarrow>?memo. string_bound k + scalar_bound 1 v) < 2 ^ 30"
    by (simp add: z string_bound_def scalar_bound_def WordSize_def)
  from map_ex_roundtrip [OF word.codec_axioms b po(2) _ buf_ok_empty this, of unit_init] show ?thesis unfolding z(2) by blast
qed

end
