(* ===== verification/Proto.thy ===== *)
theory Proto
  imports Schema AccessEx
begin

text \<open>
  Protobuf messages written to serialized data: src/extension/serialize.cc.  The messages belong to the
  protobuf library: a message is a value of an arbitrary type with the getters of the \<open>Reflection\<close>
  interface, a parameter.  \<open>None\<close> is an access outside of memory, a missing field of a map entry or a failed
  assertion.
\<close>

subsection \<open>The interface of the library\<close>

text \<open>A field descriptor; \<open>pf_entry\<close> are the fields of the entry type of a map.\<close>

datatype FieldDescriptor = FieldDescriptor
  (pf_name: string) (pf_number: int) (pf_type: ptype) (pf_repeated: bool) (pf_map: bool) (pf_deprecated: bool) (pf_entry: "FieldDescriptor list")

text \<open>
  The getters: a scalar or an enumeration value is given by its one or two words.
\<close>

record 'm Reflection =
  GetDescriptor :: "'m \<Rightarrow> FieldDescriptor list"
  FieldSize :: "'m \<Rightarrow> FieldDescriptor \<Rightarrow> nat"
  PresentField :: "'m \<Rightarrow> FieldDescriptor \<Rightarrow> bool"
  GetMessage :: "'m \<Rightarrow> FieldDescriptor \<Rightarrow> 'm"
  GetRepeatedMessage :: "'m \<Rightarrow> FieldDescriptor \<Rightarrow> nat \<Rightarrow> 'm"
  GetString :: "'m \<Rightarrow> FieldDescriptor \<Rightarrow> u8 list"
  GetRepeatedString :: "'m \<Rightarrow> FieldDescriptor \<Rightarrow> nat \<Rightarrow> u8 list"
  GetScalar :: "'m \<Rightarrow> FieldDescriptor \<Rightarrow> u32 list"
  GetRepeatedScalar :: "'m \<Rightarrow> FieldDescriptor \<Rightarrow> nat \<Rightarrow> u32 list"
  GetBool :: "'m \<Rightarrow> FieldDescriptor \<Rightarrow> bool"
  GetRepeatedBool :: "'m \<Rightarrow> FieldDescriptor \<Rightarrow> nat \<Rightarrow> bool"

text \<open>All elements of a repeated field.\<close>

definition elements_of :: "('m, 'x) Reflection_scheme \<Rightarrow> ('m \<Rightarrow> FieldDescriptor \<Rightarrow> nat \<Rightarrow> 'e) \<Rightarrow> 'm \<Rightarrow> FieldDescriptor \<Rightarrow> 'e list" where
  "elements_of R getter m f = map (getter m f) [0..<FieldSize R m f]"

text \<open>The bytes of the scalar types; 0 for a type that is no scalar of four or eight bytes.\<close>

definition scalar_size :: "ptype \<Rightarrow> nat" where
  "scalar_size t =
    (case t of
       TYPE_DOUBLE \<Rightarrow> 8 | TYPE_FIXED64 \<Rightarrow> 8 | TYPE_UINT64 \<Rightarrow> 8 | TYPE_SFIXED64 \<Rightarrow> 8 | TYPE_SINT64 \<Rightarrow> 8 | TYPE_INT64 \<Rightarrow> 8
     | TYPE_FLOAT \<Rightarrow> 4 | TYPE_FIXED32 \<Rightarrow> 4 | TYPE_UINT32 \<Rightarrow> 4 | TYPE_SFIXED32 \<Rightarrow> 4 | TYPE_SINT32 \<Rightarrow> 4 | TYPE_INT32 \<Rightarrow> 4
     | _ \<Rightarrow> 0)"

subsection \<open>Writing fields\<close>

text \<open>The recursive call for messages is the argument \<open>self\<close>.\<close>

definition SerializeSimpleField :: "'m Reflection \<Rightarrow> 'm serializer \<Rightarrow> 'm \<Rightarrow> FieldDescriptor \<Rightarrow> Buffer \<Rightarrow> Unit \<Rightarrow> (bool \<times> Buffer \<times> Unit) option" where
  "SerializeSimpleField R self m f buf u =
    (case pf_type f of
       TYPE_MESSAGE \<Rightarrow> self (GetMessage R m f) buf u
     | TYPE_BYTES \<Rightarrow> Serialize_str (GetString R m f) buf u
     | TYPE_STRING \<Rightarrow> Serialize_str (GetString R m f) buf u
     | TYPE_BOOL \<Rightarrow> do { u \<leftarrow> Serialize_bool (GetBool R m f) u; Some (True, buf, u) }
     | TYPE_GROUP \<Rightarrow> Some (False, buf, u)
     | _ \<Rightarrow> do { u \<leftarrow> Serialize_scalar (GetScalar R m f) u; Some (True, buf, u) })"

text \<open>\<open>SerializeArray<T>\<close> writes what \<open>ScalarArrayEX\<close> writes.\<close>

definition SerializeArrayField :: "'m Reflection \<Rightarrow> 'm serializer \<Rightarrow> 'm \<Rightarrow> FieldDescriptor \<Rightarrow> Buffer \<Rightarrow> Unit \<Rightarrow> (bool \<times> Buffer \<times> Unit) option" where
  "SerializeArrayField R self m f buf u =
    (case pf_type f of
       TYPE_MESSAGE \<Rightarrow> ArrayEX_Serialize self (elements_of R (GetRepeatedMessage R) m f) buf u
     | TYPE_BYTES \<Rightarrow> ArrayEX_Serialize Serialize_str (elements_of R (GetRepeatedString R) m f) buf u
     | TYPE_STRING \<Rightarrow> ArrayEX_Serialize Serialize_str (elements_of R (GetRepeatedString R) m f) buf u
     | TYPE_BOOL \<Rightarrow> Serialize_str (map (\<lambda>b. if b then 1 else 0) (elements_of R (GetRepeatedBool R) m f)) buf u
     | TYPE_ENUM \<Rightarrow>
         let n = FieldSize R m f; lst = Size buf in
         if n \<ge> 2 ^ 30 then Some (False, buf, u)
         else do {
           buf \<leftarrow> put_numbers 1 (rev (elements_of R (GetRepeatedScalar R) m f)) buf;
           buf \<leftarrow> Put (push_bit 2 (of_nat n) OR 1) buf;
           Some (True, buf, Segment lst (Size buf))
         }
     | TYPE_GROUP \<Rightarrow> Some (False, buf, u)
     | t \<Rightarrow> ScalarArrayEX_Serialize (scalar_size t) (elements_of R (GetRepeatedScalar R) m f) buf u)"

subsection \<open>Writing maps\<close>

text \<open>The key of an entry: a string, or the words of a scalar.\<close>

datatype key = KStr "u8 list" | KNum "u32 list"

definition key_bytes :: "key \<Rightarrow> u8 list" where
  "key_bytes k = (case k of KStr s \<Rightarrow> s | KNum ws \<Rightarrow> mem_bytes ws)"

definition Serialize_key :: "key serializer" where
  "Serialize_key k buf u = (case k of KStr s \<Rightarrow> Serialize_str s buf u | KNum ws \<Rightarrow> do { u \<leftarrow> Serialize_scalar ws u; Some (True, buf, u) })"

text \<open>The numbers of the pairs in the order of the index.\<close>

fun fill_index :: "PerfectHashObject \<Rightarrow> key list \<Rightarrow> nat \<Rightarrow> nat list \<Rightarrow> nat list option" where
  "fill_index index [] i book = Some book"
| "fill_index index (k # ks) i book = do {
     pos \<leftarrow> PerfectHashObject_Locate index (key_bytes k);
     if unat pos < length book then fill_index index ks (i + 1) (book[unat pos := i]) else None
   }"

fun serialize_indexed :: "'m serializer \<Rightarrow> 'm list \<Rightarrow> key list \<Rightarrow> nat list \<Rightarrow> (Unit \<times> Unit) list \<Rightarrow> Buffer \<Rightarrow> ((Unit \<times> Unit) list option \<times> Buffer) option" where
  "serialize_indexed serv pairs ks [] units buf = Some (Some units, buf)"
| "serialize_indexed serv pairs ks (i # book) units buf = do {
     pair \<leftarrow> rd pairs i;
     (ok, buf, uv) \<leftarrow> serv pair buf unit_init;
     if \<not> ok then Some (None, buf)
     else do {
       k \<leftarrow> rd ks i;
       (ok, buf, uk) \<leftarrow> Serialize_key k buf unit_init;
       if \<not> ok then Some (None, buf) else serialize_indexed serv pairs ks book ((uk, uv) # units) buf
     }
   }"

definition SerializeMapFieldByKey :: "u32 \<Rightarrow> (nat \<Rightarrow> nat \<Rightarrow> u32) \<Rightarrow> ('m \<Rightarrow> key) \<Rightarrow> 'm serializer \<Rightarrow> 'm list \<Rightarrow> Buffer \<Rightarrow> Unit \<Rightarrow> (bool \<times> Buffer \<times> Unit) option" where
  "SerializeMapFieldByKey gseed junk getter serv pairs buf u = do {
     let ks = map getter pairs;
     (index, r) \<leftarrow> PerfectHashObject_Build vector_reader gseed junk True \<lparr>vr_keys = map key_bytes ks, vr_idx = 0\<rparr>;
     (case ph_data index of
        None \<Rightarrow> Some (False, buf, u)
      | Some data \<Rightarrow> do {
          book \<leftarrow> fill_index index ks 0 (replicate (length ks) 0);
          let lst = Size buf;
          (r, buf) \<leftarrow> serialize_indexed serv pairs ks (rev book) [] buf;
          (case r of None \<Rightarrow> Some (False, buf, u) | Some units \<Rightarrow> SerializeMap data units buf lst u)
        })
   }"

definition SerializeMapField :: "'m Reflection \<Rightarrow> u32 \<Rightarrow> (nat \<Rightarrow> nat \<Rightarrow> u32) \<Rightarrow> 'm serializer \<Rightarrow> 'm \<Rightarrow> FieldDescriptor \<Rightarrow> Buffer \<Rightarrow> Unit \<Rightarrow> (bool \<times> Buffer \<times> Unit) option" where
  "SerializeMapField R gseed junk self m f buf u =
    (case pf_entry f of
       kf # vf # _ \<Rightarrow>
         let pairs = elements_of R (GetRepeatedMessage R) m f; serv = (\<lambda>pair. SerializeSimpleField R self pair vf) in
         if pf_type kf \<in> {TYPE_BYTES, TYPE_STRING} then SerializeMapFieldByKey gseed junk (\<lambda>pair. KStr (GetString R pair kf)) serv pairs buf u
         else if pf_type kf \<in> {TYPE_FIXED64, TYPE_UINT64, TYPE_FIXED32, TYPE_UINT32, TYPE_SFIXED64, TYPE_SINT64, TYPE_INT64, TYPE_SFIXED32, TYPE_SINT32, TYPE_INT32} then
           SerializeMapFieldByKey gseed junk (\<lambda>pair. KNum (GetScalar R pair kf)) serv pairs buf u
         else Some (False, buf, u)
     | _ \<Rightarrow> None)"

subsection \<open>Writing messages\<close>

definition Proto_SerializeField :: "'m Reflection \<Rightarrow> u32 \<Rightarrow> (nat \<Rightarrow> nat \<Rightarrow> u32) \<Rightarrow> 'm serializer \<Rightarrow> 'm \<Rightarrow> FieldDescriptor \<Rightarrow> Buffer \<Rightarrow> Unit \<Rightarrow> (bool \<times> Buffer \<times> Unit) option" where
  "Proto_SerializeField R gseed junk self m f buf u =
    (if pf_repeated f then
       if FieldSize R m f = 0 then Some (True, buf, unit_init)
       else if pf_map f then SerializeMapField R gseed junk self m f buf u
       else SerializeArrayField R self m f buf u
     else if \<not> PresentField R m f then Some (True, buf, unit_init)
     else do {
       (ok, buf, u) \<leftarrow> SerializeSimpleField R self m f buf u;
       if \<not> ok then Some (False, buf, u)
       else if unit_size u = 1 \<and> pf_type f = TYPE_MESSAGE then
         if u_len u = 0 then Some (True, Shrink 1 buf, u\<lparr>u_data := (u_data u)[1 := 0]\<rparr>)
         else Some (True, buf, u\<lparr>u_len := 0\<rparr>)
       else Some (True, buf, u)
     })"

text \<open>The largest field number, at least 1; \<open>None\<close> where the source returns false.\<close>

fun max_id_loop :: "int \<Rightarrow> FieldDescriptor list \<Rightarrow> int option" where
  "max_id_loop max_id [] = Some max_id"
| "max_id_loop max_id (f # fs) = (if pf_number f \<le> 0 then None else max_id_loop (max max_id (pf_number f)) fs)"

text \<open>The fields by their number, without the deprecated ones; \<open>None\<close> for two fields with the same number.\<close>

fun place_fields :: "FieldDescriptor list \<Rightarrow> FieldDescriptor option list \<Rightarrow> FieldDescriptor option list option" where
  "place_fields [] tab = Some tab"
| "place_fields (f # fs) tab =
    (if pf_deprecated f then place_fields fs tab
     else
       let j = nat (pf_number f - 1) in
       if tab ! j \<noteq> None then None else place_fields fs (tab[j := Some f]))"

definition field_table :: "FieldDescriptor list \<Rightarrow> FieldDescriptor option list option" where
  "field_table desc =
    (let count = int (length desc) in
     if count \<le> 0 then None
     else do {
       max_id \<leftarrow> max_id_loop 1 desc;
       if max_id > 12 + 25 * 255 \<or> (max_id - count > 6 \<and> max_id > count * 2) then None
       else place_fields desc (replicate (nat max_id) None)
     })"

text \<open>The parts from the last field to the first.\<close>

fun serialize_parts :: "(FieldDescriptor \<Rightarrow> Buffer \<Rightarrow> Unit \<Rightarrow> (bool \<times> Buffer \<times> Unit) option) \<Rightarrow> FieldDescriptor option list \<Rightarrow> Unit list \<Rightarrow> Buffer \<Rightarrow>
    (Unit list option \<times> Buffer) option" where
  "serialize_parts ser [] parts buf = Some (Some parts, buf)"
| "serialize_parts ser (None # fs) parts buf = serialize_parts ser fs (unit_init # parts) buf"
| "serialize_parts ser (Some f # fs) parts buf = do {
     (ok, buf, u) \<leftarrow> ser f buf unit_init;
     if \<not> ok then Some (None, buf)
     else do {
       (buf, u) \<leftarrow> FoldField buf u;
       serialize_parts ser fs (u # parts) buf
     }
   }"

text \<open>A message whose only field is named \<open>_\<close> stands for its container.\<close>

definition alias_field :: "FieldDescriptor option list \<Rightarrow> FieldDescriptor option" where
  "alias_field tab = (case tab of [Some f] \<Rightarrow> if pf_name f = ''_'' then Some f else None | _ \<Rightarrow> None)"

definition SerializeAlias :: "'m Reflection \<Rightarrow> u32 \<Rightarrow> (nat \<Rightarrow> nat \<Rightarrow> u32) \<Rightarrow> 'm serializer \<Rightarrow> 'm \<Rightarrow> FieldDescriptor \<Rightarrow> Buffer \<Rightarrow> Unit \<Rightarrow> (bool \<times> Buffer \<times> Unit) option" where
  "SerializeAlias R gseed junk self m f buf u =
    (if \<not> pf_repeated f then Some (False, buf, u)
     else do {
       (ok, buf, u) \<leftarrow> Proto_SerializeField R gseed junk self m f buf u;
       if \<not> ok then Some (False, buf, u)
       else if u_len u \<noteq> 0 then None
       else if seg_len u = 0 then Some (True, buf, u\<lparr>u_len := 1, u_data := (u_data u)[0 := (if pf_map f then push_bit 28 5 else 1)]\<rparr>)
       else Some (True, buf, u)
     })"

text \<open>\<open>SerializeContext::Serialize\<close>; the first argument bounds the nesting of the message.\<close>

fun Serialize_message :: "nat \<Rightarrow> 'm Reflection \<Rightarrow> u32 \<Rightarrow> (nat \<Rightarrow> nat \<Rightarrow> u32) \<Rightarrow> 'm serializer" where
  "Serialize_message 0 R gseed junk m buf u = None"
| "Serialize_message (Suc depth) R gseed junk m buf u =
    (case field_table (GetDescriptor R m) of
       None \<Rightarrow> Some (False, buf, u)
     | Some tab \<Rightarrow>
         (case alias_field tab of
            Some f \<Rightarrow> SerializeAlias R gseed junk (Serialize_message depth R gseed junk) m f buf u
          | None \<Rightarrow> do {
              let lst = Size buf;
              (r, buf) \<leftarrow> serialize_parts (Proto_SerializeField R gseed junk (Serialize_message depth R gseed junk) m) (rev tab) [] buf;
              (case r of None \<Rightarrow> Some (False, buf, u) | Some parts \<Rightarrow> SerializeMessage parts buf lst u)
            }))"

text \<open>The exported function keeps the buffer and forgets the unit.\<close>

definition Serialize_top :: "nat \<Rightarrow> 'm Reflection \<Rightarrow> u32 \<Rightarrow> (nat \<Rightarrow> nat \<Rightarrow> u32) \<Rightarrow> 'm \<Rightarrow> Buffer \<Rightarrow> (bool \<times> Buffer) option" where
  "Serialize_top depth R gseed junk m buf = do { (ok, buf, u) \<leftarrow> Serialize_message depth R gseed junk m buf unit_init; Some (ok, buf) }"

end
