(* ===== verification/ProtoRead.thy ===== *)
theory ProtoRead
  imports Proto
begin

text \<open>
  Protobuf messages read from serialized data: src/extension/deserialize.cc.  The result is the list of the
  calls that are made on the message, in their order, with False where the source returns false; the calls
  on a submessage are part of the call that creates it.  The fields of a message type belong to the protobuf
  library: they are the parameter \<open>mtype\<close>.  \<open>None\<close> is an access outside of memory.
\<close>

datatype call =
    ClearField FieldDescriptor
  | SetScalar FieldDescriptor "u32 list"
  | SetBool FieldDescriptor bool
  | SetString FieldDescriptor "u8 list"
  | MutableMessage FieldDescriptor "call list"
  | AddScalar FieldDescriptor "u32 list"
  | AddBool FieldDescriptor bool
  | AddString FieldDescriptor "u8 list"
  | AddMessage FieldDescriptor "call list"

type_synonym outcome = "(bool \<times> call list) option"

text \<open>The recursive call for a message at a pointer, given the fields of its type.\<close>

type_synonym message_reader = "ptr \<Rightarrow> FieldDescriptor list \<Rightarrow> outcome"

text \<open>The bytes of the scalar that a field is read as.\<close>

definition read_size :: "ptype \<Rightarrow> nat" where
  "read_size t = (if t = TYPE_ENUM then 4 else scalar_size t)"

definition DeserializeSingleScalar :: "nat \<Rightarrow> mem \<Rightarrow> Field \<Rightarrow> ptr \<Rightarrow> FieldDescriptor \<Rightarrow> outcome" where
  "DeserializeSingleScalar sz mem src end f = do { bs \<leftarrow> ScalarField_Get sz mem src end; Some (True, [SetScalar f (words_of bs)]) }"

definition DeserializeString :: "mem \<Rightarrow> Field \<Rightarrow> ptr \<Rightarrow> FieldDescriptor \<Rightarrow> outcome" where
  "DeserializeString mem src end f = do { view \<leftarrow> StringField_Get mem src end; bs \<leftarrow> slice_bytes mem view; Some (True, [SetString f bs]) }"

definition DeserializeSingle :: "message_reader \<Rightarrow> (FieldDescriptor \<Rightarrow> FieldDescriptor list) \<Rightarrow> mem \<Rightarrow> Field \<Rightarrow> ptr \<Rightarrow> FieldDescriptor \<Rightarrow> outcome" where
  "DeserializeSingle self mtype mem src end f =
    (case pf_type f of
       TYPE_MESSAGE \<Rightarrow> do { obj \<leftarrow> GetObject mem src end; (ok, cs) \<leftarrow> self obj (mtype f); Some (ok, [MutableMessage f cs]) }
     | TYPE_BYTES \<Rightarrow> DeserializeString mem src end f
     | TYPE_STRING \<Rightarrow> DeserializeString mem src end f
     | TYPE_BOOL \<Rightarrow> do { bs \<leftarrow> ScalarField_Get 1 mem src end; Some (True, [SetBool f (bs \<noteq> [0])]) }
     | TYPE_GROUP \<Rightarrow> Some (False, [])
     | t \<Rightarrow> DeserializeSingleScalar (read_size t) mem src end f)"

subsection \<open>Arrays\<close>

primrec deserialize_elements :: "message_reader \<Rightarrow> FieldDescriptor list \<Rightarrow> mem \<Rightarrow> Array \<Rightarrow> ptr \<Rightarrow> FieldDescriptor \<Rightarrow> nat \<Rightarrow> ptr \<Rightarrow> outcome" where
  "deserialize_elements self desc mem view end f 0 it = Some (True, [])"
| "deserialize_elements self desc mem view end f (Suc n) it = do {
     obj \<leftarrow> GetObject mem (Array_deref view it) end;
     (ok, cs) \<leftarrow> self obj desc;
     if \<not> ok then Some (False, [AddMessage f cs])
     else do {
       it \<leftarrow> Array_next view it;
       (ok, rest) \<leftarrow> deserialize_elements self desc mem view end f n it;
       Some (ok, AddMessage f cs # rest)
     }
   }"

text \<open>
  The views of numbers, of booleans and of strings are those the mutable arrays are constructed from; the
  strings are read by iterators that are not given the end.
\<close>

definition DeserializeArray :: "message_reader \<Rightarrow> (FieldDescriptor \<Rightarrow> FieldDescriptor list) \<Rightarrow> mem \<Rightarrow> ptr \<Rightarrow> ptr \<Rightarrow> FieldDescriptor \<Rightarrow> outcome" where
  "DeserializeArray self mtype mem data end f = do {
     (ok, cs) \<leftarrow>
       (case pf_type f of
          TYPE_MESSAGE \<Rightarrow> do {
            view \<leftarrow> Array_init mem data end;
            n \<leftarrow> Array_count view;
            deserialize_elements self (mtype f) mem view end f n (Array_begin view)
          }
        | TYPE_BYTES \<Rightarrow> do { vec \<leftarrow> StringArrayEX_init mem data end; Some (True, map (AddString f) vec) }
        | TYPE_STRING \<Rightarrow> do { vec \<leftarrow> StringArrayEX_init mem data end; Some (True, map (AddString f) vec) }
        | TYPE_BOOL \<Rightarrow> do { vec \<leftarrow> BoolArrayEX_init mem data end; Some (True, map (\<lambda>b. AddBool f (b \<noteq> 0)) vec) }
        | TYPE_GROUP \<Rightarrow> Some (False, [])
        | t \<Rightarrow> do { vec \<leftarrow> ScalarArrayEX_init (read_size t) mem data end; Some (True, map (AddScalar f) vec) });
     Some (ok, ClearField f # cs)
   }"

subsection \<open>Maps\<close>

text \<open>The switch over the type of the key.\<close>

definition SetMapKey :: "mem \<Rightarrow> Pair \<Rightarrow> ptr \<Rightarrow> FieldDescriptor \<Rightarrow> outcome" where
  "SetMapKey mem pair end kf =
    (if pf_type kf \<in> {TYPE_BYTES, TYPE_STRING} then DeserializeString mem (Pair_Key pair) end kf
     else if pf_type kf \<in> {TYPE_FIXED64, TYPE_UINT64, TYPE_FIXED32, TYPE_UINT32, TYPE_SFIXED64, TYPE_SINT64, TYPE_INT64, TYPE_SFIXED32, TYPE_SINT32, TYPE_INT32}
     then DeserializeSingleScalar (scalar_size (pf_type kf)) mem (Pair_Key pair) end kf
     else Some (False, []))"

primrec deserialize_pairs :: "message_reader \<Rightarrow> (FieldDescriptor \<Rightarrow> FieldDescriptor list) \<Rightarrow> mem \<Rightarrow> Map \<Rightarrow> ptr \<Rightarrow> FieldDescriptor \<Rightarrow>
    FieldDescriptor \<Rightarrow> FieldDescriptor \<Rightarrow> nat \<Rightarrow> ptr \<Rightarrow> outcome" where
  "deserialize_pairs self mtype mem view end f kf vf 0 it = Some (True, [])"
| "deserialize_pairs self mtype mem view end f kf vf (Suc n) it = do {
     let pair = Map_deref view it;
     (ok, ks) \<leftarrow> SetMapKey mem pair end kf;
     if \<not> ok then Some (False, [AddMessage f ks])
     else do {
       src \<leftarrow> Pair_Value pair;
       (ok, vs) \<leftarrow> DeserializeSingle self mtype mem src end vf;
       if \<not> ok then Some (False, [AddMessage f (ks @ vs)])
       else do {
         it \<leftarrow> Map_next view it;
         (ok, rest) \<leftarrow> deserialize_pairs self mtype mem view end f kf vf n it;
         Some (ok, AddMessage f (ks @ vs) # rest)
       }
     }
   }"

definition DeserializeMap :: "message_reader \<Rightarrow> (FieldDescriptor \<Rightarrow> FieldDescriptor list) \<Rightarrow> mem \<Rightarrow> ptr \<Rightarrow> ptr \<Rightarrow> FieldDescriptor \<Rightarrow> outcome" where
  "DeserializeMap self mtype mem data end f = do {
     view \<leftarrow> Map_init mem data end;
     if m_body view = None then Some (False, [])
     else
       (case pf_entry f of
          kf # vf # _ \<Rightarrow> do {
            n \<leftarrow> Map_Size view;
            (ok, cs) \<leftarrow> deserialize_pairs self mtype mem view end f kf vf (unat n) (Map_begin view);
            Some (ok, ClearField f # cs)
          }
        | _ \<Rightarrow> None)
   }"

subsection \<open>Messages\<close>

definition wrapper_field :: "FieldDescriptor list \<Rightarrow> FieldDescriptor option" where
  "wrapper_field desc = (case desc of [f] \<Rightarrow> if pf_name f = ''_'' \<and> pf_number f = 1 then Some f else None | _ \<Rightarrow> None)"

definition DeserializeContainer :: "message_reader \<Rightarrow> (FieldDescriptor \<Rightarrow> FieldDescriptor list) \<Rightarrow> mem \<Rightarrow> ptr \<Rightarrow> ptr \<Rightarrow> FieldDescriptor \<Rightarrow> outcome" where
  "DeserializeContainer self mtype mem data end f =
    (if pf_map f then DeserializeMap self mtype mem data end f else DeserializeArray self mtype mem data end f)"

fun deserialize_fields :: "message_reader \<Rightarrow> (FieldDescriptor \<Rightarrow> FieldDescriptor list) \<Rightarrow> mem \<Rightarrow> ptr \<Rightarrow> ptr \<Rightarrow> FieldDescriptor list \<Rightarrow> outcome" where
  "deserialize_fields self mtype mem src end [] = Some (True, [])"
| "deserialize_fields self mtype mem src end (f # fs) =
    (if pf_deprecated f then deserialize_fields self mtype mem src end fs
     else do {
       sf \<leftarrow> GetField mem src (unat (of_int (pf_number f - 1) :: u32)) end;
       if f_ptr sf = None then deserialize_fields self mtype mem src end fs
       else do {
         (ok, cs) \<leftarrow>
           (if \<not> pf_repeated f then DeserializeSingle self mtype mem sf end f
            else do { obj \<leftarrow> GetObject mem sf end; DeserializeContainer self mtype mem obj end f });
         if \<not> ok then Some (False, cs)
         else do { (ok, rest) \<leftarrow> deserialize_fields self mtype mem src end fs; Some (ok, cs @ rest) }
       }
     })"

text \<open>The first argument bounds the depth of the recursion.\<close>

fun Deserialize :: "nat \<Rightarrow> (FieldDescriptor \<Rightarrow> FieldDescriptor list) \<Rightarrow> mem \<Rightarrow> ptr \<Rightarrow> ptr \<Rightarrow> FieldDescriptor list \<Rightarrow> outcome" where
  "Deserialize 0 mtype mem data end desc = None"
| "Deserialize (Suc fuel) mtype mem data end desc =
    (let self = (\<lambda>obj. Deserialize fuel mtype mem obj end) in
     case wrapper_field desc of
       Some f \<Rightarrow> if \<not> pf_repeated f then Some (False, []) else DeserializeContainer self mtype mem data end f
     | None \<Rightarrow> do {
         src \<leftarrow> Message_init mem data end;
         if src = None then Some (False, []) else deserialize_fields self mtype mem src end desc
       })"

text \<open>The exported function, on a view of all words; the message is cleared first.\<close>

definition Deserialize_top :: "nat \<Rightarrow> (FieldDescriptor \<Rightarrow> FieldDescriptor list) \<Rightarrow> u32 list \<Rightarrow> FieldDescriptor list \<Rightarrow> outcome" where
  "Deserialize_top fuel mtype raw desc = Deserialize fuel mtype raw (Some 0) (Some (length raw)) desc"

end
