(* ===== verification/ProtoSafe.thy ===== *)
theory ProtoSafe
  imports Proto SerialUnit
begin

text \<open>
  Which schemas src/extension/serialize.cc accepts, the table of fields it works with, and what it writes for a
  message that stands for an empty container.
\<close>

subsection \<open>The schemas that are accepted\<close>

text \<open>
  The contract in extension/utils.h: the message has fields, their numbers fit and are not too sparse, and the
  fields that are not deprecated have distinct numbers.
\<close>

definition representable :: "FieldDescriptor list \<Rightarrow> bool" where
  "representable desc \<longleftrightarrow>
    (let top = Max (pf_number ` set desc); n = int (length desc) in
     desc \<noteq> [] \<and> (\<forall>f\<in>set desc. 0 < pf_number f) \<and> top \<le> 6387 \<and> (top \<le> n + 6 \<or> top \<le> 2 * n) \<and>
     distinct (map pf_number (filter (\<lambda>f. \<not> pf_deprecated f) desc)))"

lemma max_id_loop_eq:
  "max_id_loop k fs = (if \<forall>f\<in>set fs. 0 < pf_number f then Some (Max (insert k (pf_number ` set fs))) else None)"
proof (induction fs arbitrary: k)
  case (Cons f fs)
  have "Max (insert (max k (pf_number f)) (pf_number ` set fs)) = Max (insert k (insert (pf_number f) (pf_number ` set fs)))"
    by (cases "fs = []") (simp_all add: max.assoc)
  then show ?case using Cons.IH [of "max k (pf_number f)"] by auto
qed simp

text \<open>The table that the loop over the fields leaves.\<close>

definition table_of :: "FieldDescriptor list \<Rightarrow> FieldDescriptor option list \<Rightarrow> bool" where
  "table_of fs tab \<longleftrightarrow> (\<forall>j < length tab. \<forall>f. tab ! j = Some f \<longleftrightarrow> f \<in> set fs \<and> \<not> pf_deprecated f \<and> pf_number f = int j + 1)"

lemma table_of_snoc:
  assumes "table_of fs tab" "nat (pf_number f - 1) < length tab" "0 < pf_number f" "pf_deprecated f \<or> tab ! nat (pf_number f - 1) = None"
  shows "table_of (fs @ [f]) (if pf_deprecated f then tab else tab[nat (pf_number f - 1) := Some f])"
proof (cases "pf_deprecated f")
  case False
  let ?j = "nat (pf_number f - 1)"
  have j: "pf_number f = int k + 1 \<longleftrightarrow> k = ?j" for k using assms(3) by auto
  have "g \<notin> set fs \<or> pf_deprecated g \<or> pf_number g \<noteq> int ?j + 1" for g
    using assms(1,2,4) False unfolding table_of_def by (metis option.distinct(1))
  moreover have "tab ! k = Some g \<longleftrightarrow> g \<in> set fs \<and> \<not> pf_deprecated g \<and> pf_number g = int k + 1" if "k < length tab" for k g
    using assms(1) that unfolding table_of_def by blast
  ultimately have "(tab[?j := Some f]) ! k = Some g \<longleftrightarrow> (g \<in> set fs \<or> g = f) \<and> \<not> pf_deprecated g \<and> pf_number g = int k + 1"
    if "k < length tab" for k g
    using assms(2) j [of k] False that by (cases "k = ?j"; cases "g = f") (simp_all add: j)
  then show ?thesis using False unfolding table_of_def by auto
qed (use assms(1) in \<open>auto simp: table_of_def\<close>)

lemma place_fields_spec:
  assumes "table_of done_fs tab" "\<forall>f\<in>set fs. 0 < pf_number f \<and> pf_number f \<le> int (length tab)"
    "distinct (map pf_number (filter (\<lambda>f. \<not> pf_deprecated f) done_fs))"
  shows "case place_fields fs tab of
      None \<Rightarrow> \<not> distinct (map pf_number (filter (\<lambda>f. \<not> pf_deprecated f) (done_fs @ fs)))
    | Some tab' \<Rightarrow> distinct (map pf_number (filter (\<lambda>f. \<not> pf_deprecated f) (done_fs @ fs))) \<and> length tab' = length tab \<and> table_of (done_fs @ fs) tab'"
  using assms
proof (induction fs arbitrary: done_fs tab)
  case (Cons f fs)
  let ?j = "nat (pf_number f - 1)"
  have j: "?j < length tab" "0 < pf_number f" "int ?j + 1 = pf_number f" using Cons.prems(2) by auto
  have free: "tab ! ?j = None \<longleftrightarrow> pf_number f \<notin> pf_number ` {g \<in> set done_fs. \<not> pf_deprecated g}"
  proof -
    have "tab ! ?j = None \<longleftrightarrow> (\<nexists>g. tab ! ?j = Some g)" by auto
    also have "\<dots> \<longleftrightarrow> (\<nexists>g. g \<in> set done_fs \<and> \<not> pf_deprecated g \<and> pf_number g = pf_number f)"
      using Cons.prems(1) j unfolding table_of_def by auto
    finally show ?thesis by (auto simp: image_iff)
  qed
  consider "pf_deprecated f" | "\<not> pf_deprecated f" "tab ! ?j = None" | "\<not> pf_deprecated f" "tab ! ?j \<noteq> None" by blast
  then show ?case
  proof cases
    case 1
    then show ?thesis using Cons.IH [of "done_fs @ [f]" tab] Cons.prems table_of_snoc [OF Cons.prems(1) j(1,2)] by (simp split: option.splits)
  next
    case 2
    then show ?thesis
      using Cons.IH [of "done_fs @ [f]" "tab[?j := Some f]"] Cons.prems table_of_snoc [OF Cons.prems(1) j(1,2)] free by (simp split: option.splits)
  next
    case 3
    then show ?thesis using free by (auto simp: Let_def)
  qed
qed simp

lemma field_table_spec:
  "case field_table desc of
     None \<Rightarrow> \<not> representable desc
   | Some tab \<Rightarrow> representable desc \<and> int (length tab) = Max (pf_number ` set desc) \<and>
       (\<forall>j f. j < length tab \<and> tab ! j = Some f \<longleftrightarrow> f \<in> set desc \<and> \<not> pf_deprecated f \<and> pf_number f = int j + 1)"
proof (cases "desc \<noteq> [] \<and> (\<forall>f\<in>set desc. 0 < pf_number f)")
  case True
  let ?top = "Max (pf_number ` set desc)"
  have top: "\<forall>f\<in>set desc. pf_number f \<le> ?top" by simp
  then have pos: "0 < ?top" using True by (metis hd_in_set less_le_trans)
  have max: "max_id_loop 1 desc = Some ?top" using True pos by (simp add: max_id_loop_eq)
  show ?thesis
  proof (cases "?top \<le> 6387 \<and> (?top \<le> int (length desc) + 6 \<or> ?top \<le> 2 * int (length desc))")
    case fits: True
    have tab: "table_of [] (replicate (nat ?top) None)" by (simp add: table_of_def)
    have "(case place_fields desc (replicate (nat ?top) None) of None \<Rightarrow> \<not> representable desc
        | Some tab \<Rightarrow> representable desc \<and> int (length tab) = ?top \<and> table_of desc tab)"
      using place_fields_spec [OF tab, of desc] True fits top pos unfolding representable_def Let_def by (simp split: option.splits)
    moreover have "\<not> (?top > 12 + 25 * 255 \<or> (?top - int (length desc) > 6 \<and> ?top > int (length desc) * 2))" using fits by linarith
    then have "field_table desc = place_fields desc (replicate (nat ?top) None)"
      using max True unfolding field_table_def Let_def by (simp; blast)
    moreover have "(\<forall>j f. j < length tab \<and> tab ! j = Some f \<longleftrightarrow> f \<in> set desc \<and> \<not> pf_deprecated f \<and> pf_number f = int j + 1)"
      if "table_of desc tab" "int (length tab) = ?top" for tab
    proof -
      have "j < length tab" if "f \<in> set desc" "pf_number f = int j + 1" for j f
        using that top \<open>int (length tab) = ?top\<close> by fastforce
      then show ?thesis using that(1) unfolding table_of_def by blast
    qed
    ultimately show ?thesis by (simp split: option.splits)
  next
    case False
    then have "?top > 12 + 25 * 255 \<or> (?top - int (length desc) > 6 \<and> ?top > int (length desc) * 2)" by linarith
    then have "field_table desc = None" using max True unfolding field_table_def Let_def by simp
    then show ?thesis using False by (auto simp: representable_def Let_def)
  qed
next
  case False
  then have "field_table desc = None" by (auto simp: field_table_def max_id_loop_eq Let_def)
  then show ?thesis using False by (auto simp: representable_def Let_def)
qed


subsection \<open>Messages that stand for a container\<close>

text \<open>The field of a message that stands for an array of booleans.\<close>

definition alias_bools :: FieldDescriptor where
  "alias_bools = FieldDescriptor ''_'' 1 TYPE_BOOL True False False []"

lemma alias_table:
  "field_table [alias_bools] = Some [Some alias_bools]" "alias_field [Some alias_bools] = Some alias_bools"
  by (simp_all add: field_table_def alias_field_def alias_bools_def)

lemma short_string_inline:
  assumes "length s < 4"
  shows "Serialize_str s buf unit_init = Some (True, buf, \<lparr>u_len = 1, u_data = [hd (string_words s), 0, 0]\<rparr>)"
proof -
  have u: "unat (push_bit 2 (of_nat (length s)) :: u32) = 4 * length s"
    using assms by (simp add: push_bit_eq_mult unat_word_ariths unat_of_nat)
  then have v: "WriteVarInt (push_bit 2 (of_nat (length s))) = [ucast (push_bit 2 (of_nat (length s)) :: u32)]"
    using assms by (subst WriteVarInt_eq) simp
  then have one: "WordSize (length (string_bytes s)) = 1" using assms by (simp add: string_bytes_def WordSize_def)
  then obtain w where w: "string_words s = [w]"
    by (metis length_words_of string_words_def length_0_conv length_Suc_conv One_nat_def)
  have "string_bytes s \<noteq> []" using one by (auto simp: WordSize_def)
  then have "fill_bytes (string_bytes s) [0] = Some [w]"
    using fill_bytes_eq [of "[0]" "string_bytes s"] one w by (simp add: string_words_def)
  then show ?thesis
    using one w assms by (simp add: Serialize_str_def string_bytes_def unit_init_def set_data_eq rd_range_def Let_def)
qed

text \<open>
  Claim C37: a message whose only field is the repeated boolean field \<open>_\<close> cannot be written when it has one, two
  or three elements: the array fits into one word and is stored in the unit, which the assertion after it
  excludes.  Built without assertions, the function would replace this word by that of an empty array, since the
  test for an empty container only looks at the second word of the unit.
\<close>

theorem alias_bools_assertion:
  assumes "GetDescriptor R m = [alias_bools]" "0 < FieldSize R m alias_bools" "FieldSize R m alias_bools < 4"
  shows "Serialize_message (Suc d) R gseed junk m buf unit_init = None \<and>
    (\<exists>u. Proto_SerializeField R gseed junk (Serialize_message d R gseed junk) m alias_bools buf unit_init = Some (True, buf, u) \<and> u_len u = 1 \<and> seg_len u = 0)"
proof
  let ?s = "map (\<lambda>b. if b then 1 else 0) (elements_of R (GetRepeatedBool R) m alias_bools)"
  have "length ?s < 4" using assms(3) by (simp add: elements_of_def)
  from short_string_inline [OF this]
  have f: "Proto_SerializeField R gseed junk self m alias_bools buf unit_init = Some (True, buf, \<lparr>u_len = 1, u_data = [hd (string_words ?s), 0, 0]\<rparr>)" for self
    using assms(2) by (simp add: Proto_SerializeField_def SerializeArrayField_def alias_bools_def)
  then show "Serialize_message (Suc d) R gseed junk m buf unit_init = None"
    using assms(1) alias_table by (simp add: SerializeAlias_def) (simp add: alias_bools_def)
  show "\<exists>u. Proto_SerializeField R gseed junk (Serialize_message d R gseed junk) m alias_bools buf unit_init = Some (True, buf, u) \<and> u_len u = 1 \<and> seg_len u = 0"
    using f by (simp add: seg_len_def)
qed

text \<open>A message with one repeated field of \<open>n\<close> elements, all of them zero.\<close>

definition one_field :: "FieldDescriptor \<Rightarrow> nat \<Rightarrow> unit Reflection" where
  "one_field f n = \<lparr>GetDescriptor = (\<lambda>m. [f]), FieldSize = (\<lambda>m f. n), PresentField = (\<lambda>m f. False), GetMessage = (\<lambda>m f. m), GetRepeatedMessage = (\<lambda>m f i. m),
    GetString = (\<lambda>m f. []), GetRepeatedString = (\<lambda>m f i. []), GetScalar = (\<lambda>m f. [0]), GetRepeatedScalar = (\<lambda>m f i. [0]),
    GetBool = (\<lambda>m f. False), GetRepeatedBool = (\<lambda>m f i. False)\<rparr>"

theorem alias_bools_assertion_witness:
  "Serialize_message 1 (one_field alias_bools 2) 7 (\<lambda>_ _. 0) () (empty_buffer (\<lambda>i. 0)) unit_init = None"
  using alias_bools_assertion [of "one_field alias_bools 2" "()" 0] by (simp add: one_field_def)

end
