(* ===== verification/ProtoReadSafe.thy ===== *)
theory ProtoReadSafe
  imports ProtoRead AccessTSafe ProtoSafe
begin

text \<open>
  The recursion of src/extension/deserialize.cc: every object is read through a pointer that is greater than that of
  the object it belongs to, so that the depth is bounded by the size of the data.
\<close>

subsection \<open>Nested objects are behind their parents\<close>

text \<open>A pointer that is null or behind \<open>p\<close>, and one that is in the block as well.\<close>

definition behind :: "nat \<Rightarrow> ptr \<Rightarrow> bool" where
  "behind p q = (case q of None \<Rightarrow> True | Some q \<Rightarrow> p < q)"

definition nested :: "mem \<Rightarrow> nat \<Rightarrow> ptr \<Rightarrow> bool" where
  "nested mem p obj = (case obj of None \<Rightarrow> True | Some q \<Rightarrow> p < q \<and> q < length mem)"

lemma behind_add: "ptr_add it n = Some it' \<Longrightarrow> behind p it \<Longrightarrow> behind p it'"
  by (auto simp: ptr_add_def behind_def split: option.splits if_splits)

lemma behind_GetObject: "GetObject mem f (Some (length mem)) = Some obj \<Longrightarrow> behind p (f_ptr f) \<Longrightarrow> nested mem p obj"
  by (auto simp: GetObject_def behind_def nested_def Let_def split: option.splits if_splits bind_splits)

lemma behind_GetField: "GetField mem (Some p) fid end = Some f \<Longrightarrow> behind p (f_ptr f)"
  by (auto simp: GetField_def behind_def null_field_def Let_def split: option.splits if_splits bind_splits prod.splits)

lemma behind_Array: "Array_init mem (Some p) end = Some a \<Longrightarrow> behind p (a_body a)"
  by (auto simp: Array_init_def behind_def Let_def split: bind_splits)

lemma index_words_positive:
  assumes "PerfectHash_init data sz = Some ph" "ph_data ph \<noteq> None"
  shows "0 < WordSize (unat (ph_data_size ph))"
proof -
  obtain hs where hs: "load32 data 0 = Some hs" using assms by (auto simp: PerfectHash_init_eq ph_null_def split: if_splits bind_splits)
  have "unat (RealSize hs) < 2 ^ 28" by (simp add: RealSize_nat)
  then have "0 < unat (index_size (RealSize hs))" if "RealSize hs > 1"
    using index_size_nat [of "RealSize hs"] that by (simp add: word_less_nat_alt)
  then have "0 < unat (ph_data_size ph)" using assms hs by (auto simp: PerfectHash_init_eq ph_null_def split: if_splits)
  then show ?thesis by (simp add: WordSize_def)
qed

lemma behind_Map:
  assumes "Map_init mem (Some p) end = Some m"
  shows "behind p (m_body m)"
  using assms index_words_positive
  by (fastforce simp: Map_init_def behind_def Let_def split: bind_splits if_splits)

subsection \<open>The recursive call only matters on nested objects\<close>

abbreviation agree :: "mem \<Rightarrow> nat \<Rightarrow> message_reader \<Rightarrow> message_reader \<Rightarrow> bool" where
  "agree mem p self self' \<equiv> \<forall>obj desc. nested mem p obj \<longrightarrow> self obj desc = self' obj desc"

lemma DeserializeSingle_agree:
  assumes "agree mem p self self'" "behind p (f_ptr src)"
  shows "DeserializeSingle self mtype mem src (Some (length mem)) f = DeserializeSingle self' mtype mem src (Some (length mem)) f"
  using assms behind_GetObject [of mem src]
  by (cases "GetObject mem src (Some (length mem))") (auto simp: DeserializeSingle_def split: ptype.splits)

lemma deserialize_elements_agree:
  assumes "agree mem p self self'" "behind p it"
  shows "deserialize_elements self desc mem view (Some (length mem)) f n it = deserialize_elements self' desc mem view (Some (length mem)) f n it"
  using assms(2)
proof (induction n arbitrary: it)
  case (Suc n)
  have "self obj desc = self' obj desc" if "GetObject mem (Array_deref view it) (Some (length mem)) = Some obj" for obj
    using assms(1) behind_GetObject [OF that] Suc.prems by (simp add: Array_deref_def)
  moreover have "behind p it'" if "Array_next view it = Some it'" for it'
    using that behind_add Suc.prems by (auto simp: Array_next_def)
  ultimately show ?case using Suc.IH by (auto intro!: Option.bind_cong)
qed simp

lemma deserialize_pairs_agree:
  assumes "agree mem p self self'" "behind p it"
  shows "deserialize_pairs self mtype mem view (Some (length mem)) f kf vf n it = deserialize_pairs self' mtype mem view (Some (length mem)) f kf vf n it"
  using assms(2)
proof (induction n arbitrary: it)
  case (Suc n)
  have "DeserializeSingle self mtype mem src (Some (length mem)) vf = DeserializeSingle self' mtype mem src (Some (length mem)) vf"
    if "Pair_Value (Map_deref view it) = Some src" for src
    using that Suc.prems behind_add by (intro DeserializeSingle_agree [OF assms(1)]) (auto simp: Pair_Value_def Map_deref_def split: bind_splits)
  moreover have "behind p it'" if "Map_next view it = Some it'" for it'
    using that behind_add Suc.prems by (auto simp: Map_next_def)
  ultimately show ?case using Suc.IH by (auto simp: Let_def intro!: Option.bind_cong)
qed simp

lemma DeserializeContainer_agree:
  assumes "agree mem p self self'"
  shows "DeserializeContainer self mtype mem (Some p) (Some (length mem)) f = DeserializeContainer self' mtype mem (Some p) (Some (length mem)) f"
proof -
  have "DeserializeMap self mtype mem (Some p) (Some (length mem)) f = DeserializeMap self' mtype mem (Some p) (Some (length mem)) f"
    using deserialize_pairs_agree [OF assms] behind_Map
    by (auto simp: DeserializeMap_def Map_begin_def intro!: Option.bind_cong split: list.splits)
  moreover have "DeserializeArray self mtype mem (Some p) (Some (length mem)) f = DeserializeArray self' mtype mem (Some p) (Some (length mem)) f"
    using deserialize_elements_agree [OF assms] behind_Array
    by (auto simp: DeserializeArray_def Array_begin_def intro!: Option.bind_cong split: ptype.splits)
  ultimately show ?thesis by (simp add: DeserializeContainer_def)
qed

lemma null_container: "DeserializeContainer self mtype mem None end f = DeserializeContainer self' mtype mem None end f"
proof -
  have "Array_count null_array = Some 0" by (simp add: Array_count_def Array_end_def Array_begin_def null_array_def ptr_add_def)
  then show ?thesis
    by (simp add: DeserializeContainer_def DeserializeMap_def DeserializeArray_def Map_init_def null_map_def Array_init_def split: ptype.splits)
qed

lemma nested_container:
  assumes "agree mem p self self'" "nested mem p obj"
  shows "DeserializeContainer self mtype mem obj (Some (length mem)) f = DeserializeContainer self' mtype mem obj (Some (length mem)) f"
proof (cases obj)
  case None
  then show ?thesis using null_container by blast
next
  case (Some q)
  then have "agree mem q self self'" using assms by (auto simp: nested_def split: option.splits)
  then show ?thesis using DeserializeContainer_agree Some by blast
qed

lemma deserialize_fields_agree:
  assumes "agree mem p self self'"
  shows "deserialize_fields self mtype mem (Some p) (Some (length mem)) fs = deserialize_fields self' mtype mem (Some p) (Some (length mem)) fs"
proof (induction fs)
  case (Cons f fs)
  have "DeserializeSingle self mtype mem sf (Some (length mem)) f = DeserializeSingle self' mtype mem sf (Some (length mem)) f"
      "GetObject mem sf (Some (length mem)) = Some obj \<Longrightarrow>
        DeserializeContainer self mtype mem obj (Some (length mem)) f = DeserializeContainer self' mtype mem obj (Some (length mem)) f"
    if "GetField mem (Some p) fid (Some (length mem)) = Some sf" for sf fid obj
    using DeserializeSingle_agree [OF assms behind_GetField [OF that]] nested_container [OF assms behind_GetObject [OF _ behind_GetField [OF that]]] by auto
  then show ?case using Cons.IH by (auto intro!: Option.bind_cong)
qed simp

subsection \<open>Termination\<close>

text \<open>The depth that is enough for an object.\<close>

definition depth_of :: "mem \<Rightarrow> ptr \<Rightarrow> nat" where
  "depth_of mem obj = (case obj of None \<Rightarrow> 1 | Some p \<Rightarrow> length mem - p + 2)"

lemma deserialize_enough:
  "depth_of mem data \<le> n \<Longrightarrow> Deserialize (n + k) mtype mem data (Some (length mem)) desc = Deserialize n mtype mem data (Some (length mem)) desc"
proof (induction n arbitrary: data desc)
  case 0
  then show ?case by (auto simp: depth_of_def split: option.splits)
next
  case (Suc n)
  let ?D = "\<lambda>n obj. Deserialize n mtype mem obj (Some (length mem))"
  show ?case
  proof (cases data)
    case None
    then show ?thesis using null_container [of "?D (n + k)" mtype mem "Some (length mem)" _ "?D n"]
      by (simp add: Message_init_def Let_def split: option.splits)
  next
    case (Some p)
    have "?D (n + k) obj desc = ?D n obj desc" if "nested mem p obj" for obj desc
      using that Suc.prems Some by (intro Suc.IH) (auto simp: depth_of_def nested_def split: option.splits)
    then have "agree mem p (?D (n + k)) (?D n)" by blast
    note a = DeserializeContainer_agree [OF this] deserialize_fields_agree [OF this]
    have "src = None \<or> src = Some p" if "Message_init mem (Some p) (Some (length mem)) = Some src" for src
      using that by (auto simp: Message_init_def Let_def split: bind_splits if_splits)
    then show ?thesis using a Some by (auto simp: Let_def split: option.splits intro!: Option.bind_cong)
  qed
qed


subsection \<open>Untrusted data\<close>

text \<open>
  Schemas whose only repeated fields are maps and booleans.  \<open>S\<close> are the field lists of the message types, closed
  under the types of fields and of map entries.
\<close>

definition plain_field :: "FieldDescriptor \<Rightarrow> bool" where
  "plain_field f \<longleftrightarrow> pf_repeated f \<longrightarrow> (if pf_map f then 2 \<le> length (pf_entry f) else pf_type f = TYPE_BOOL)"

definition plain_schema :: "(FieldDescriptor \<Rightarrow> FieldDescriptor list) \<Rightarrow> FieldDescriptor list set \<Rightarrow> bool" where
  "plain_schema mtype S \<longleftrightarrow> (\<forall>desc\<in>S. \<forall>f\<in>set desc. plain_field f \<and> mtype f \<in> S \<and> (\<forall>g\<in>set (pf_entry f). mtype g \<in> S))"

lemma DeserializeString_total: "\<exists>r. DeserializeString mem src (Some (length mem)) f = Some r"
proof -
  obtain q where q: "GetObject mem src (Some (length mem)) = Some q" using GetObject_inside by blast
  obtain s where s: "String_init mem q (Some (length mem)) = Some s" "inside (4 * length mem) (s_ptr s) (s_len s)" using String_init_inside by blast
  then obtain bs where "slice_bytes mem s = Some bs" using slice_bytes_total by blast
  then show ?thesis using q s by (auto simp: DeserializeString_def StringField_Get_def)
qed

lemma DeserializeSingleScalar_total:
  "field_ok mem src \<Longrightarrow> sz \<in> {1, 4, 8} \<Longrightarrow> \<exists>r. DeserializeSingleScalar sz mem src (Some (length mem)) f = Some r"
  using ScalarField_Get_total by (fastforce simp: DeserializeSingleScalar_def)

text \<open>What the recursive call has to do for the fields of the types in \<open>S\<close>.\<close>

abbreviation reads :: "mem \<Rightarrow> nat \<Rightarrow> FieldDescriptor list set \<Rightarrow> message_reader \<Rightarrow> bool" where
  "reads mem p S self \<equiv> \<forall>obj desc. nested mem p obj \<and> desc \<in> S \<longrightarrow> (\<exists>r. self obj desc = Some r)"

lemma DeserializeSingle_total:
  assumes "reads mem p S self" "behind p (f_ptr src)" "field_ok mem src" "mtype f \<in> S"
  shows "\<exists>r. DeserializeSingle self mtype mem src (Some (length mem)) f = Some r"
proof -
  obtain obj where obj: "GetObject mem src (Some (length mem)) = Some obj" using GetObject_inside by blast
  then have "\<exists>r. self obj (mtype f) = Some r" using assms behind_GetObject by blast
  moreover have "\<exists>bs. ScalarField_Get 1 mem src (Some (length mem)) = Some bs" using ScalarField_Get_total [OF assms(3), of 1] by auto
  moreover have "\<exists>r. DeserializeSingleScalar 4 mem src (Some (length mem)) f = Some r" "\<exists>r. DeserializeSingleScalar 8 mem src (Some (length mem)) f = Some r"
    using DeserializeSingleScalar_total [OF assms(3)] by simp_all
  ultimately show ?thesis
    using obj DeserializeString_total [of mem src f]
    by (auto simp: DeserializeSingle_def read_size_def scalar_size_def split: ptype.splits)
qed

lemma SetMapKey_total:
  assumes "field_ok mem (Pair_Key pair)"
  shows "\<exists>r. SetMapKey mem pair (Some (length mem)) kf = Some r"
  using DeserializeString_total [of mem "Pair_Key pair" kf] DeserializeSingleScalar_total [OF assms, of 4 kf] DeserializeSingleScalar_total [OF assms, of 8 kf]
  by (auto simp: SetMapKey_def scalar_size_def)

lemma deserialize_pairs_total:
  assumes "reads mem p S self" "mtype vf \<in> S" "unat (m_kw view + m_vw view) = unat (m_kw view) + unat (m_vw view)"
  shows "p < q \<Longrightarrow> q + (unat (m_kw view) + unat (m_vw view)) * n \<le> length mem \<Longrightarrow>
    \<exists>r. deserialize_pairs self mtype mem view (Some (length mem)) f kf vf n (Some q) = Some r"
proof (induction n arbitrary: q)
  case (Suc n)
  let ?pair = "Map_deref view (Some q)" and ?w = "unat (m_kw view) + unat (m_vw view)"
  have "field_ok mem (Pair_Key ?pair)" using Suc.prems by (simp add: field_ok_def field_in_def Pair_Key_def Map_deref_def)
  then obtain r where r: "SetMapKey mem ?pair (Some (length mem)) kf = Some r" using SetMapKey_total by blast
  let ?src = "\<lparr>f_ptr = Some (q + unat (m_kw view)), f_width = unat (m_vw view)\<rparr>"
  have src: "Pair_Value ?pair = Some ?src" by (simp add: Pair_Value_def Map_deref_def)
  have "field_ok mem ?src" "behind p (f_ptr ?src)" using Suc.prems by (simp_all add: field_ok_def field_in_def behind_def)
  then obtain v where v: "DeserializeSingle self mtype mem ?src (Some (length mem)) vf = Some v"
    using DeserializeSingle_total [where f = vf and mtype = mtype, OF assms(1) _ _ assms(2)] by blast
  have "\<exists>r. deserialize_pairs self mtype mem view (Some (length mem)) f kf vf n (Some (q + ?w)) = Some r"
    using Suc.prems by (intro Suc.IH) simp_all
  then show ?case using r src v assms(3) by (auto simp: Map_next_def split: prod.splits)
qed auto

lemma DeserializeContainer_total:
  assumes "reads mem p S self" "plain_schema mtype S" "f \<in> set desc" "desc \<in> S" "pf_repeated f" "p < length mem" "length mem < 2 ^ 30"
  shows "\<exists>r. DeserializeContainer self mtype mem (Some p) (Some (length mem)) f = Some r"
proof (cases "pf_map f")
  case False
  have t: "pf_type f = TYPE_BOOL" using assms False by (auto simp: plain_schema_def plain_field_def)
  obtain s where s: "String_init mem (Some p) (Some (length mem)) = Some s" "inside (4 * length mem) (s_ptr s) (s_len s)" using String_init_inside by blast
  then obtain bs where "slice_bytes mem s = Some bs" using slice_bytes_total by blast
  then show ?thesis using False t s by (auto simp: DeserializeContainer_def DeserializeArray_def BoolArrayEX_init_def)
next
  case True
  then have "2 \<le> length (pf_entry f)" using assms(2-5) by (auto simp: plain_schema_def plain_field_def)
  then obtain kf vf rest where e: "pf_entry f = kf # vf # rest" by (cases "pf_entry f" rule: remdups_adj.cases) auto
  have vf: "mtype vf \<in> S" using assms(2-4) e by (auto simp: plain_schema_def)
  obtain m where m: "Map_init mem (Some p) (Some (length mem)) = Some m" "map_in mem m" using Map_init_inside [of mem "Some p"] assms(6,7) by auto
  then obtain n where n: "Map_Size m = Some n" "inside (length mem) (m_body m) ((unat (m_kw m) + unat (m_vw m)) * unat n)" by (auto simp: map_in_def)
  have w: "unat (m_kw m + m_vw m) = unat (m_kw m) + unat (m_vw m)" using m(2) by (simp add: map_in_def unat_word_ariths)
  show ?thesis
  proof (cases "m_body m")
    case None
    then show ?thesis using True m e by (auto simp: DeserializeContainer_def DeserializeMap_def)
  next
    case (Some b)
    have "p < b" using behind_Map [OF m(1)] Some by (simp add: behind_def)
    moreover have "b + (unat (m_kw m) + unat (m_vw m)) * unat n \<le> length mem" using n(2) Some by simp
    ultimately obtain r where "deserialize_pairs self mtype mem m (Some (length mem)) f kf vf (unat n) (Some b) = Some r"
      using deserialize_pairs_total [where vf = vf and mtype = mtype, OF assms(1) vf w] by blast
    then show ?thesis using True m e n Some by (simp add: DeserializeContainer_def DeserializeMap_def Map_begin_def split: prod.splits)
  qed
qed

lemma deserialize_fields_total:
  assumes "reads mem p S self" "plain_schema mtype S" "desc \<in> S" "message_in mem (Some p)" "length mem < 2 ^ 30"
  shows "set fs \<subseteq> set desc \<Longrightarrow> \<exists>r. deserialize_fields self mtype mem (Some p) (Some (length mem)) fs = Some r"
proof (induction fs)
  case (Cons f fs)
  then obtain r where r: "deserialize_fields self mtype mem (Some p) (Some (length mem)) fs = Some r" by auto
  let ?i = "unat (of_int (pf_number f - 1) :: u32)"
  obtain sf where sf: "GetField mem (Some p) ?i (Some (length mem)) = Some sf" "field_ok mem sf" using GetField_ok [OF assms(4)] by blast
  note ab = behind_GetField [OF sf(1)]
  obtain obj where obj: "GetObject mem sf (Some (length mem)) = Some obj" using GetObject_inside by blast
  have f: "f \<in> set desc" "mtype f \<in> S" using Cons.prems assms(2,3) by (auto simp: plain_schema_def)
  have "\<exists>r. DeserializeContainer self mtype mem obj (Some (length mem)) f = Some r" if "pf_repeated f"
  proof (cases obj)
    case None
    have "pf_map f \<or> pf_type f = TYPE_BOOL" using assms(2,3) f(1) that by (auto simp: plain_schema_def plain_field_def split: if_splits)
    then show ?thesis using None
      by (auto simp: DeserializeContainer_def DeserializeMap_def DeserializeArray_def Map_init_def null_map_def BoolArrayEX_init_def String_init_def null_slice_def slice_bytes_def)
  next
    case (Some q)
    then have "p < q" "q < length mem" using behind_GetObject [OF obj ab] by (simp_all add: nested_def)
    moreover from this have "reads mem q S self" using assms(1) by (auto simp: nested_def split: option.splits)
    ultimately show ?thesis using DeserializeContainer_total [OF _ assms(2) f(1) assms(3) that _ assms(5)] Some by blast
  qed
  moreover have "\<exists>r. DeserializeSingle self mtype mem sf (Some (length mem)) f = Some r"
    using DeserializeSingle_total [where f = f and mtype = mtype, OF assms(1) ab sf(2) f(2)] .
  ultimately show ?case using r sf(1) obj by (cases "pf_repeated f") (auto split: prod.splits)
qed auto

lemma deserialize_total:
  assumes "plain_schema mtype S" "length mem < 2 ^ 30"
  shows "depth_of mem data \<le> n \<Longrightarrow> inside (length mem) data 1 \<Longrightarrow> desc \<in> S \<Longrightarrow> \<exists>r. Deserialize n mtype mem data (Some (length mem)) desc = Some r"
proof (induction n arbitrary: data desc)
  case 0
  then show ?case by (auto simp: depth_of_def split: option.splits)
next
  case (Suc n)
  let ?self = "\<lambda>obj. Deserialize n mtype mem obj (Some (length mem))"
  have w: "f \<in> set desc" if "wrapper_field desc = Some f" for f using that by (auto simp: wrapper_field_def split: list.splits if_splits)
  show ?case
  proof (cases data)
    case None
    have "\<exists>r. DeserializeContainer ?self mtype mem None (Some (length mem)) f = Some r" if "wrapper_field desc = Some f" "pf_repeated f" for f
      using assms(1) Suc.prems(3) w [OF that(1)] that(2)
      by (auto simp: plain_schema_def plain_field_def DeserializeContainer_def DeserializeMap_def DeserializeArray_def Map_init_def null_map_def
          BoolArrayEX_init_def String_init_def null_slice_def slice_bytes_def split: if_splits)
    then show ?thesis using None by (auto simp: Message_init_def Let_def split: option.splits)
  next
    case (Some p)
    have p: "p < length mem" using Suc.prems(2) Some by simp
    have rd: "reads mem p S ?self"
      using Suc.prems(1) Some by (intro allI impI, intro Suc.IH) (auto simp: depth_of_def nested_def split: option.splits)
    obtain m where m: "Message_init mem (Some p) (Some (length mem)) = Some m" "message_in mem m" "m = None \<or> m = Some p"
      using Message_init_inside [of mem "Some p"] p by (auto simp: Message_init_def Let_def)
    have "\<exists>r. deserialize_fields ?self mtype mem m (Some (length mem)) desc = Some r" if "m \<noteq> None"
      using deserialize_fields_total [OF rd assms(1) Suc.prems(3) _ assms(2), of desc] m that by auto
    then show ?thesis using m Some DeserializeContainer_total [OF rd assms(1) w Suc.prems(3) _ p assms(2)]
      by (auto simp: Let_def split: option.splits)
  qed
qed

text \<open>
  Claim C17: for schemas whose only repeated fields are maps and booleans, reading a message from any words stays in
  these words and returns: true with the calls for the message, or false.
\<close>

theorem deserialize_untrusted_safe:
  assumes "plain_schema mtype S" "desc \<in> S" "raw \<noteq> []" "length raw < 2 ^ 30"
  shows "\<exists>ok cs. Deserialize_top (length raw + 2) mtype raw desc = Some (ok, cs)"
proof -
  have "depth_of raw (Some 0) \<le> length raw + 2" "inside (length raw) (Some 0) 1"
    using assms(3) by (simp_all add: depth_of_def Suc_le_eq)
  from deserialize_total [OF assms(1,4) this assms(2)] show ?thesis by (simp add: Deserialize_top_def)
qed

text \<open>
  Without the restriction on repeated fields this fails.  An array of numbers that is said to be longer
  than the data has no body but keeps its length, and the loop over it reads through the null pointer.
\<close>

theorem deserialize_null_array:
  assumes "pf_name f = ''_''" "pf_number f = 1" "pf_repeated f" "\<not> pf_map f" "pf_type f = TYPE_INT32"
    and "w AND 3 = 1" "drop_bit 2 w \<noteq> 0"
  shows "Deserialize_top (Suc n) mtype [w] [f] = None"
proof -
  have "0 < unat (drop_bit 2 w)" using assms(7) by (simp add: unat_gt_0)
  moreover have "(1 :: u32) * drop_bit 2 w = drop_bit 2 w" by simp
  ultimately show ?thesis using assms
    by (simp add: Deserialize_top_def wrapper_field_def DeserializeContainer_def DeserializeArray_def read_size_def scalar_size_def
        ScalarArrayEX_init_def Array_init_def Array_Numbers_def WordSize_def Let_def)
qed


theorem deserialize_untrusted_safe_witness:
  "\<exists>ok cs. Deserialize_top (length [0xdeadbeef, 7 :: u32] + 2) (\<lambda>f. [alias_bools]) [0xdeadbeef, 7] [alias_bools] = Some (ok, cs)"
proof -
  have "plain_schema (\<lambda>f. [alias_bools]) {[alias_bools]}" by (simp add: plain_schema_def plain_field_def alias_bools_def)
  from deserialize_untrusted_safe [OF this, of "[alias_bools]" "[0xdeadbeef, 7]"] show ?thesis by simp
qed

definition alias_ints :: FieldDescriptor where
  "alias_ints = FieldDescriptor ''_'' 1 TYPE_INT32 True False False []"

theorem deserialize_null_array_witness:
  "Deserialize_top 3 (\<lambda>f. []) [5] [alias_ints] = None"
  using deserialize_null_array [of alias_ints 5 2 "\<lambda>f. []"] by (simp add: alias_ints_def drop_bit_eq_div)


end
