(* ===== verification/ProtoRound.thy ===== *)
theory ProtoRound
  imports AccessExRound ProtoReadSafe
begin

text \<open>
  The round trip of protobuf messages through src/extension/serialize.cc and src/extension/deserialize.cc: the calls
  that \<open>Deserialize\<close> makes on the words that \<open>Serialize\<close> wrote rebuild the message.
\<close>

subsection \<open>The calls that rebuild a message\<close>

text \<open>
  A field in a message and the elements of a repeated one; \<open>rb\<close> relates a submessage to the calls that rebuild it.
\<close>

definition simple_calls :: "('m \<Rightarrow> call list \<Rightarrow> bool) \<Rightarrow> 'm Reflection \<Rightarrow> 'm \<Rightarrow> FieldDescriptor \<Rightarrow> call list \<Rightarrow> bool" where
  "simple_calls rb R m f cs \<longleftrightarrow>
    (case pf_type f of
       TYPE_MESSAGE \<Rightarrow> \<exists>c. rb (GetMessage R m f) c \<and> cs = [MutableMessage f c]
     | TYPE_BYTES \<Rightarrow> cs = [SetString f (GetString R m f)]
     | TYPE_STRING \<Rightarrow> cs = [SetString f (GetString R m f)]
     | TYPE_BOOL \<Rightarrow> cs = [SetBool f (GetBool R m f)]
     | _ \<Rightarrow> cs = [SetScalar f (GetScalar R m f)])"

definition array_calls :: "('m \<Rightarrow> call list \<Rightarrow> bool) \<Rightarrow> 'm Reflection \<Rightarrow> 'm \<Rightarrow> FieldDescriptor \<Rightarrow> call list \<Rightarrow> bool" where
  "array_calls rb R m f cs \<longleftrightarrow>
    (case pf_type f of
       TYPE_MESSAGE \<Rightarrow> \<exists>css. list_all2 rb (elements_of R (GetRepeatedMessage R) m f) css \<and> cs = ClearField f # map (AddMessage f) css
     | TYPE_BYTES \<Rightarrow> cs = ClearField f # map (AddString f) (elements_of R (GetRepeatedString R) m f)
     | TYPE_STRING \<Rightarrow> cs = ClearField f # map (AddString f) (elements_of R (GetRepeatedString R) m f)
     | TYPE_BOOL \<Rightarrow> cs = ClearField f # map (AddBool f) (elements_of R (GetRepeatedBool R) m f)
     | _ \<Rightarrow> cs = ClearField f # map (AddScalar f) (elements_of R (GetRepeatedScalar R) m f))"

text \<open>A field that leaves no trace; \<open>hol\<close> says that a submessage does not.\<close>

definition absent :: "('m \<Rightarrow> bool) \<Rightarrow> 'm Reflection \<Rightarrow> 'm \<Rightarrow> FieldDescriptor \<Rightarrow> bool" where
  "absent hol R m f \<longleftrightarrow>
    (if pf_repeated f then FieldSize R m f = 0 else \<not> PresentField R m f \<or> pf_type f = TYPE_MESSAGE \<and> hol (GetMessage R m f))"

definition field_calls :: "('m \<Rightarrow> bool) \<Rightarrow> ('m \<Rightarrow> call list \<Rightarrow> bool) \<Rightarrow> 'm Reflection \<Rightarrow> 'm \<Rightarrow> FieldDescriptor \<Rightarrow> call list \<Rightarrow> bool" where
  "field_calls hol rb R m f cs \<longleftrightarrow>
    (if pf_deprecated f \<or> absent hol R m f then cs = []
     else if pf_repeated f then array_calls rb R m f cs
     else simple_calls rb R m f cs)"

text \<open>An empty message: it is dropped where it is the value of a field.\<close>

primrec hollow :: "nat \<Rightarrow> 'm Reflection \<Rightarrow> 'm \<Rightarrow> bool" where
  "hollow 0 R m = False"
| "hollow (Suc d) R m =
    (case wrapper_field (GetDescriptor R m) of
       Some f \<Rightarrow> FieldSize R m f = 0
     | None \<Rightarrow> \<forall>f\<in>set (GetDescriptor R m). pf_deprecated f \<or> absent (hollow d R) R m f)"

primrec rebuilds :: "nat \<Rightarrow> 'm Reflection \<Rightarrow> 'm \<Rightarrow> call list \<Rightarrow> bool" where
  "rebuilds 0 R m cs = False"
| "rebuilds (Suc d) R m cs =
    (case wrapper_field (GetDescriptor R m) of
       Some f \<Rightarrow> array_calls (rebuilds d R) R m f cs
     | None \<Rightarrow> \<exists>css. list_all2 (field_calls (hollow d R) (rebuilds d R) R m) (GetDescriptor R m) css \<and> cs = concat css)"

subsection \<open>Messages that can be written\<close>

text \<open>
  The schema is accepted and its numbers are distinct, the submessages have the type of their field, scalars have
  the words of their type, and container messages are repeated fields in use that do not fail the assertion.  Field
  numbers above 5461 could need more than \<open>2 ^ 14\<close> words of fields in front of a section.
\<close>

definition schema_ok :: "FieldDescriptor list \<Rightarrow> bool" where
  "schema_ok desc \<longleftrightarrow> representable desc \<and> distinct (map pf_number desc) \<and> (\<forall>f\<in>set desc. pf_number f \<le> 5461) \<and>
    (\<forall>f. wrapper_field desc = Some f \<longrightarrow> pf_repeated f \<and> \<not> pf_deprecated f)"

definition simple_ok :: "(FieldDescriptor \<Rightarrow> FieldDescriptor list) \<Rightarrow> ('m \<Rightarrow> bool) \<Rightarrow> 'm Reflection \<Rightarrow> 'm \<Rightarrow> FieldDescriptor \<Rightarrow> bool" where
  "simple_ok mtype ok R m f \<longleftrightarrow>
    (case pf_type f of
       TYPE_MESSAGE \<Rightarrow> GetDescriptor R (GetMessage R m f) = mtype f \<and> ok (GetMessage R m f)
     | TYPE_BYTES \<Rightarrow> True | TYPE_STRING \<Rightarrow> True | TYPE_BOOL \<Rightarrow> True | TYPE_GROUP \<Rightarrow> False
     | t \<Rightarrow> length (GetScalar R m f) = read_size t div 4)"

definition array_ok :: "(FieldDescriptor \<Rightarrow> FieldDescriptor list) \<Rightarrow> ('m \<Rightarrow> bool) \<Rightarrow> 'm Reflection \<Rightarrow> 'm \<Rightarrow> FieldDescriptor \<Rightarrow> bool" where
  "array_ok mtype ok R m f \<longleftrightarrow> \<not> pf_map f \<and>
    (case pf_type f of
       TYPE_MESSAGE \<Rightarrow> \<forall>e\<in>set (elements_of R (GetRepeatedMessage R) m f). GetDescriptor R e = mtype f \<and> ok e
     | TYPE_BYTES \<Rightarrow> True | TYPE_STRING \<Rightarrow> True | TYPE_BOOL \<Rightarrow> True | TYPE_GROUP \<Rightarrow> False
     | t \<Rightarrow> \<forall>ws\<in>set (elements_of R (GetRepeatedScalar R) m f). length ws = read_size t div 4)"

definition proto_field_ok :: "(FieldDescriptor \<Rightarrow> FieldDescriptor list) \<Rightarrow> ('m \<Rightarrow> bool) \<Rightarrow> 'm Reflection \<Rightarrow> 'm \<Rightarrow> FieldDescriptor \<Rightarrow> bool" where
  "proto_field_ok mtype ok R m f \<longleftrightarrow>
    (if pf_repeated f then FieldSize R m f = 0 \<or> array_ok mtype ok R m f else PresentField R m f \<longrightarrow> simple_ok mtype ok R m f)"

primrec proto_ok :: "nat \<Rightarrow> (FieldDescriptor \<Rightarrow> FieldDescriptor list) \<Rightarrow> 'm Reflection \<Rightarrow> 'm \<Rightarrow> bool" where
  "proto_ok 0 mtype R m = False"
| "proto_ok (Suc d) mtype R m \<longleftrightarrow> schema_ok (GetDescriptor R m) \<and>
    (case wrapper_field (GetDescriptor R m) of
       Some f \<Rightarrow> array_ok mtype (proto_ok d mtype R) R m f \<and> (pf_type f = TYPE_BOOL \<longrightarrow> FieldSize R m f \<notin> {1, 2, 3})
     | None \<Rightarrow> \<forall>f\<in>set (GetDescriptor R m). pf_deprecated f \<or> proto_field_ok mtype (proto_ok d mtype R) R m f)"

text \<open>A bound on the words of a message.\<close>

definition simple_bound :: "('m \<Rightarrow> nat) \<Rightarrow> 'm Reflection \<Rightarrow> 'm \<Rightarrow> FieldDescriptor \<Rightarrow> nat" where
  "simple_bound bnd R m f =
    (case pf_type f of
       TYPE_MESSAGE \<Rightarrow> bnd (GetMessage R m f)
     | TYPE_BYTES \<Rightarrow> string_bound (GetString R m f)
     | TYPE_STRING \<Rightarrow> string_bound (GetString R m f)
     | _ \<Rightarrow> 2)"

definition elements_bound :: "('m \<Rightarrow> nat) \<Rightarrow> 'm Reflection \<Rightarrow> 'm \<Rightarrow> FieldDescriptor \<Rightarrow> nat" where
  "elements_bound bnd R m f =
    (case pf_type f of
       TYPE_MESSAGE \<Rightarrow> array_bound bnd (elements_of R (GetRepeatedMessage R) m f)
     | TYPE_BYTES \<Rightarrow> array_bound string_bound (elements_of R (GetRepeatedString R) m f)
     | TYPE_STRING \<Rightarrow> array_bound string_bound (elements_of R (GetRepeatedString R) m f)
     | TYPE_BOOL \<Rightarrow> FieldSize R m f + 2
     | _ \<Rightarrow> 1 + 2 * FieldSize R m f)"

definition proto_field_bound :: "('m \<Rightarrow> nat) \<Rightarrow> 'm Reflection \<Rightarrow> 'm \<Rightarrow> FieldDescriptor \<Rightarrow> nat" where
  "proto_field_bound bnd R m f =
    (if pf_deprecated f then 0
     else if pf_repeated f then if FieldSize R m f = 0 then 0 else elements_bound bnd R m f
     else if PresentField R m f then simple_bound bnd R m f else 0)"

primrec proto_bound :: "nat \<Rightarrow> 'm Reflection \<Rightarrow> 'm \<Rightarrow> nat" where
  "proto_bound 0 R m = 0"
| "proto_bound (Suc d) R m =
    (case wrapper_field (GetDescriptor R m) of
       Some f \<Rightarrow> elements_bound (proto_bound d R) R m f
     | None \<Rightarrow> 1 + 5 * nat (Max (pf_number ` set (GetDescriptor R m))) + (\<Sum>f\<leftarrow>GetDescriptor R m. proto_field_bound (proto_bound d R) R m f))"

subsection \<open>Fields that hold given words\<close>

text \<open>What a reader makes of every field that stands for the words \<open>ws\<close>, by value if \<open>inline\<close>.\<close>

definition reads_field :: "(mem \<Rightarrow> Field \<Rightarrow> outcome) \<Rightarrow> (call list \<Rightarrow> bool) \<Rightarrow> bool \<Rightarrow> u32 list \<Rightarrow> bool" where
  "reads_field get P inline ws \<longleftrightarrow>
    (\<forall>mem g u. (inline \<longrightarrow> u_len u \<noteq> 0) \<and> field_gets mem g u ws \<longrightarrow> (\<exists>cs. get mem g = Some (True, cs) \<and> P cs))"

lemma field_gets_object:
  "plain ws \<Longrightarrow> field_gets mem g u ws \<Longrightarrow> \<exists>q. GetObject mem g (Some (length mem)) = Some (Some q) \<and> holds mem q ws"
  by (auto simp: field_gets_def field_reads_def split: if_splits)

lemma reads_object:
  assumes "plain ws" "\<And>mem g q. GetObject mem g (Some (length mem)) = Some (Some q) \<Longrightarrow> holds mem q ws \<Longrightarrow> \<exists>cs. get mem g = Some (True, cs) \<and> P cs"
  shows "reads_field get P inline ws"
  using assms field_gets_object unfolding reads_field_def by blast

lemma scalar_reads:
  assumes "field_gets mem g u ws" "u_len u \<noteq> 0" "length ws \<in> {1, 2}"
  shows "ScalarField_Get (4 * length ws) mem g (Some (length mem)) = Some (mem_bytes ws)"
proof -
  have g: "f_width g = length ws" "field_reads mem g ws" using assms(1,2) by (auto simp: field_gets_def)
  have r: "scalar_repr (length ws) (mem_bytes ws) ws" using words_of_mem_bytes [of ws "[]"] by (simp add: scalar_repr_def)
  show ?thesis
    using word.get_repr [of "mem_bytes ws" ws mem g] long.get_repr [of "mem_bytes ws" ws mem g] g r assms(3) by auto
qed

lemma bool_reads:
  assumes "field_gets mem g u [if b then 1 else 0]" "u_len u \<noteq> 0"
  shows "\<exists>bs. ScalarField_Get 1 mem g (Some (length mem)) = Some bs \<and> (bs \<noteq> [0]) = b"
proof -
  let ?w = "if b then 1 else 0 :: u32"
  obtain q where q: "GetValue g (Some (length mem)) = slice q 1" "holds mem q [?w]" using assms by (auto simp: field_gets_def field_reads_def)
  obtain rest where "drop (4 * q) (mem_bytes mem) = mem_bytes [?w] @ rest" using drop_bytes [OF q(2)] by blast
  moreover have "4 * q + 1 \<le> length (mem_bytes mem)" using q(2) by (simp add: holds_def)
  ultimately have "rd_range (mem_bytes mem) (4 * q) 1 = Some [if b then 1 else 0]" by (simp add: rd_range_def)
  then show ?thesis using q(1) by (simp add: ScalarField_Get_def slice_def WordSize_def)
qed

lemma emitted_scalar:
  assumes "buf_ok buf" "length ws \<in> {1, 2}"
  shows "\<exists>u'. set_data ws unit_init = Some u' \<and> u_len u' = length ws \<and> emitted (View buf) ws buf u'"
proof -
  have "ws \<noteq> []" "length ws \<le> 3" using assms(2) by auto
  then show ?thesis using emitted_inline [OF assms(1), of unit_init ws] by (simp add: unit_init_def)
qed

lemma field_gets_pointer: "field_gets mem g u ws \<Longrightarrow> f_ptr g \<noteq> None"
  by (cases "f_ptr g") (auto simp: field_gets_def field_reads_def GetValue_def GetObject_def slice_def split: if_splits)

lemma message_readsD:
  assumes "message_reads mem q V parts" "j < length parts" "unit_size (parts ! j) \<noteq> 0"
  shows "\<exists>g. GetField mem (Some q) j (Some (length mem)) = Some g \<and> field_gets mem g (parts ! j) (content V (parts ! j))"
  using assms unfolding message_reads_def by metis

lemma field_sizes_sum: "fst (field_sizes us) = (\<Sum>u\<leftarrow>us. unit_size u)"
  by (induction us) (auto simp: unit_size_def Let_def split: prod.splits)

lemma trim_fields_sum: "(\<Sum>u\<leftarrow>trim_fields us. unit_size u) = (\<Sum>u\<leftarrow>us. unit_size u)"
proof -
  obtain zs where z: "us = trim_fields us @ zs" "\<forall>u\<in>set zs. unit_size u = 0" by (rule trim_fields_split)
  have "(\<Sum>u\<leftarrow>zs. unit_size u) = 0" using z(2) by (induction zs) auto
  then show ?thesis using arg_cong [OF z(1), of "\<lambda>us. \<Sum>u\<leftarrow>us. unit_size u"] by simp
qed

lemma trim_fields_Nil: "trim_fields us = [] \<longleftrightarrow> (\<forall>u\<in>set us. unit_size u = 0)"
  by (auto simp: trim_fields_def dropWhile_eq_Nil_conv)

lemma trim_fields_positive:
  assumes "trim_fields us \<noteq> []"
  shows "0 < fwsum (trim_fields us)"
proof (rule ccontr)
  assume "\<not> 0 < fwsum (trim_fields us)"
  then have "\<forall>u\<in>set (trim_fields us). fw u = 0" by (auto simp: fwsum_def sum_list_eq_0_iff)
  then have "(\<Sum>u\<leftarrow>trim_fields us. unit_size u) = 0" by (auto simp: sum_list_eq_0_iff fw_size)
  then have "\<forall>u\<in>set us. unit_size u = 0" unfolding trim_fields_sum by (auto simp: sum_list_eq_0_iff)
  then show False using assms trim_fields_Nil by blast
qed

lemma fwsum_le: "\<forall>u\<in>set us. unit_ok n u \<Longrightarrow> fwsum us \<le> 3 * length us"
  by (induction us) (auto dest: fw_bound)

text \<open>The table of an accepted schema.\<close>

lemma schema_table:
  assumes "schema_ok desc"
  obtains tab where "field_table desc = Some tab" "int (length tab) = Max (pf_number ` set desc)" "0 < length tab" "length tab \<le> 5461"
    "\<And>j f. j < length tab \<and> tab ! j = Some f \<longleftrightarrow> f \<in> set desc \<and> \<not> pf_deprecated f \<and> pf_number f = int j + 1"
proof -
  have r: "representable desc" "desc \<noteq> []" "\<forall>f\<in>set desc. 0 < pf_number f \<and> pf_number f \<le> 5461" using assms by (auto simp: schema_ok_def representable_def Let_def)
  then obtain tab where t: "field_table desc = Some tab" "int (length tab) = Max (pf_number ` set desc)"
      "\<forall>j f. j < length tab \<and> tab ! j = Some f \<longleftrightarrow> f \<in> set desc \<and> \<not> pf_deprecated f \<and> pf_number f = int j + 1"
    using field_table_spec [of desc] by (auto split: option.splits)
  have "Max (pf_number ` set desc) \<in> pf_number ` set desc" using r(2) by (intro Max_in) simp_all
  then have "0 < Max (pf_number ` set desc)" "Max (pf_number ` set desc) \<le> 5461" using r(3) by auto
  then have "0 < length tab" "length tab \<le> 5461" using t(2) by linarith+
  then show thesis using that t by blast
qed

lemma table_sum:
  fixes c :: "FieldDescriptor \<Rightarrow> nat"
  assumes "\<And>j f. j < length tab \<and> tab ! j = Some f \<Longrightarrow> f \<in> set desc \<and> pf_number f = int j + 1" "distinct (map pf_number desc)"
  shows "(\<Sum>e\<leftarrow>tab. case e of None \<Rightarrow> 0 | Some f \<Rightarrow> c f) \<le> (\<Sum>f\<leftarrow>desc. c f)"
proof -
  let ?c = "\<lambda>e. case e of None \<Rightarrow> 0 | Some f \<Rightarrow> c f" and ?J = "{j. j < length tab \<and> tab ! j \<noteq> None}"
  have "(\<Sum>e\<leftarrow>tab. ?c e) = (\<Sum>j<length tab. ?c (tab ! j))" by (simp add: sum_list_sum_nth atLeast0LessThan)
  also have "\<dots> = (\<Sum>j\<in>?J. ?c (tab ! j))" by (rule sum.mono_neutral_right) (auto split: option.splits)
  also have "\<dots> = (\<Sum>j\<in>?J. c (the (tab ! j)))" by (intro sum.cong) auto
  also have "\<dots> = sum c ((\<lambda>j. the (tab ! j)) ` ?J)"
  proof (rule sum.reindex [symmetric, unfolded comp_def])
    have "pf_number (the (tab ! j)) = int j + 1" if "j \<in> ?J" for j using that assms(1) by auto
    then show "inj_on (\<lambda>j. the (tab ! j)) ?J" by (intro inj_onI) (metis add_right_cancel of_nat_eq_iff)
  qed
  also have "\<dots> \<le> sum c (set desc)" by (rule sum_mono2) (use assms(1) in auto)
  also have "\<dots> = (\<Sum>f\<leftarrow>desc. c f)" using assms(2) by (simp add: sum_list_distinct_conv_sum_set distinct_map)
  finally show ?thesis .
qed

lemma alias_wrapper:
  assumes "schema_ok desc" "field_table desc = Some tab"
  shows "alias_field tab = wrapper_field desc"
proof -
  obtain tab' where "field_table desc = Some tab'" and m: "int (length tab') = Max (pf_number ` set desc)" "0 < length tab'"
      and t: "\<And>j f. j < length tab' \<and> tab' ! j = Some f \<longleftrightarrow> f \<in> set desc \<and> \<not> pf_deprecated f \<and> pf_number f = int j + 1"
    by (rule schema_table [OF assms(1)]) blast
  then have tt: "tab' = tab" using assms(2) by simp
  have pos: "\<forall>f\<in>set desc. 0 < pf_number f" using assms(1) by (auto simp: schema_ok_def representable_def Let_def)
  show ?thesis
  proof (cases "wrapper_field desc")
    case (Some f)
    then have f: "desc = [f]" "pf_name f = ''_''" "pf_number f = 1" "\<not> pf_deprecated f"
      using assms(1) by (auto simp: schema_ok_def wrapper_field_def split: list.splits if_splits)
    then have "length tab = 1" "tab ! 0 = Some f" using m(1) t [of 0 f] tt by simp_all
    then have "tab = [Some f]" by (cases tab) auto
    then show ?thesis using Some f by (simp add: alias_field_def)
  next
    case None
    have "alias_field tab \<noteq> Some f" for f
    proof
      assume "alias_field tab = Some f"
      then have f: "tab = [Some f]" "pf_name f = ''_''" by (auto simp: alias_field_def split: list.splits option.splits if_splits)
      then have in1: "f \<in> set desc" "pf_number f = 1" using t [of 0 f] tt by auto
      have "pf_number g = 1" if "g \<in> set desc" for g
      proof -
        have "pf_number g \<le> Max (pf_number ` set desc)" using that by simp
        also have "\<dots> = 1" using m(1) tt f(1) by simp
        finally show ?thesis using pos that by fastforce
      qed
      moreover have "distinct (map pf_number desc)" using assms(1) by (simp add: schema_ok_def)
      ultimately have "desc = [f]" using in1(1) by (cases desc rule: remdups_adj.cases) auto
      then show False using None f(2) in1(2) by (simp add: wrapper_field_def)
    qed
    then show ?thesis using None by (metis option.exhaust)
  qed
qed

subsection \<open>Submessages\<close>

text \<open>The words that stand for a message: they are read back, and they are a single word for an empty message only.\<close>

definition describes :: "'m Reflection \<Rightarrow> (mem \<Rightarrow> message_reader) \<Rightarrow> ('m \<Rightarrow> bool) \<Rightarrow> ('m \<Rightarrow> call list \<Rightarrow> bool) \<Rightarrow> 'm \<Rightarrow> u32 list \<Rightarrow> bool" where
  "describes R rdm hol rb m ws \<longleftrightarrow> plain ws \<and> (length ws = 1 \<longleftrightarrow> hol m) \<and>
    (\<forall>mem q. holds mem q ws \<longrightarrow> (\<exists>cs. rdm mem (Some q) (GetDescriptor R m) = Some (True, cs) \<and> rb m cs))"

definition empty_alias :: "'m Reflection \<Rightarrow> 'm \<Rightarrow> bool" where
  "empty_alias R m \<longleftrightarrow> (\<exists>f. wrapper_field (GetDescriptor R m) = Some f \<and> FieldSize R m f = 0)"

text \<open>
  What writing and reading a message needs of its submessages.
\<close>

locale submessages =
  fixes R :: "'m Reflection" and mtype :: "FieldDescriptor \<Rightarrow> FieldDescriptor list" and ser :: "'m serializer" and rdm :: "mem \<Rightarrow> message_reader"
    and ok :: "'m \<Rightarrow> bool" and bnd :: "'m \<Rightarrow> nat" and hol :: "'m \<Rightarrow> bool" and rb :: "'m \<Rightarrow> call list \<Rightarrow> bool"
  assumes message_emits: "ok m \<Longrightarrow> buf_ok buf \<Longrightarrow> bnd m < 2 ^ 30 \<Longrightarrow> Size buf + bnd m < 2 ^ 32 \<Longrightarrow>
    \<exists>ws buf' u'. ser m buf unit_init = Some (True, buf', u') \<and> describes R rdm hol rb m ws \<and> length ws \<le> bnd m \<and> emitted (View buf) ws buf' u' \<and>
      u_len u' \<le> 1 \<and> (u_len u' \<noteq> 0 \<longrightarrow> seg_len u' = 0 \<and> empty_alias R m)"
begin

lemma simple_message:
  assumes "pf_type f = TYPE_MESSAGE" "simple_ok mtype ok R m f" "buf_ok buf" "simple_bound bnd R m f < 2 ^ 30" "Size buf + simple_bound bnd R m f < 2 ^ 32"
  shows "\<exists>ws buf' u'. SerializeSimpleField R ser m f buf unit_init = Some (True, buf', u') \<and> plain ws \<and> length ws \<le> simple_bound bnd R m f \<and> emitted (View buf) ws buf' u' \<and>
    u_len u' \<le> 1 \<and> (u_len u' \<noteq> 0 \<longrightarrow> seg_len u' = 0) \<and> (length ws = 1 \<longleftrightarrow> hol (GetMessage R m f)) \<and>
    reads_field (\<lambda>mem g. DeserializeSingle (rdm mem) mtype mem g (Some (length mem)) f) (simple_calls rb R m f) False ws"
proof -
  let ?s = "GetMessage R m f"
  have s: "ok ?s" "GetDescriptor R ?s = mtype f" "simple_bound bnd R m f = bnd ?s" using assms(1,2) by (simp_all add: simple_ok_def simple_bound_def)
  obtain ws buf' u' where e: "ser ?s buf unit_init = Some (True, buf', u')" "describes R rdm hol rb ?s ws" "length ws \<le> bnd ?s" "emitted (View buf) ws buf' u'"
      "u_len u' \<le> 1" "u_len u' \<noteq> 0 \<longrightarrow> seg_len u' = 0"
    using message_emits [OF s(1) assms(3)] assms(4,5) s(3) by auto
  have d: "plain ws" "length ws = 1 \<longleftrightarrow> hol ?s" "\<And>mem q. holds mem q ws \<Longrightarrow> \<exists>cs. rdm mem (Some q) (mtype f) = Some (True, cs) \<and> rb ?s cs"
    using e(2) s(2) by (auto simp: describes_def)
  have "reads_field (\<lambda>mem g. DeserializeSingle (rdm mem) mtype mem g (Some (length mem)) f) (simple_calls rb R m f) False ws"
    by (rule reads_object [OF d(1)]) (use d(3) assms(1) in \<open>fastforce simp: DeserializeSingle_def simple_calls_def\<close>)
  then show ?thesis using e d assms(1) s(3) by (auto simp: SerializeSimpleField_def)
qed

lemma simple_value:
  assumes "pf_type f \<noteq> TYPE_MESSAGE" "simple_ok mtype ok R m f" "buf_ok buf" "simple_bound bnd R m f < 2 ^ 30" "Size buf + simple_bound bnd R m f < 2 ^ 32"
  shows "\<exists>ws buf' u'. SerializeSimpleField R ser m f buf unit_init = Some (True, buf', u') \<and> ws \<noteq> [] \<and> length ws \<le> simple_bound bnd R m f \<and> emitted (View buf) ws buf' u' \<and>
    reads_field (\<lambda>mem g. DeserializeSingle (rdm mem) mtype mem g (Some (length mem)) f) (simple_calls rb R m f) (u_len u' \<noteq> 0) ws"
proof -
  let ?rd = "\<lambda>mem g. DeserializeSingle (rdm mem) mtype mem g (Some (length mem)) f"
  consider (str) "pf_type f \<in> {TYPE_BYTES, TYPE_STRING}" | (bool) "pf_type f = TYPE_BOOL" | (num) "pf_type f \<notin> {TYPE_BYTES, TYPE_STRING, TYPE_BOOL}" by blast
  then show ?thesis
  proof cases
    case str
    let ?v = "GetString R m f"
    have b: "simple_bound bnd R m f = string_bound ?v" using str by (auto simp: simple_bound_def)
    obtain ws buf' u' where e: "Serialize_str ?v buf unit_init = Some (True, buf', u')" "string_repr ?v ws" "length ws \<le> string_bound ?v" "emitted (View buf) ws buf' u'"
      using str.emits [OF assms(3), of ?v] assms(4,5) b by auto
    have "\<exists>cs. ?rd mem g = Some (True, cs) \<and> simple_calls rb R m f cs" if "GetObject mem g (Some (length mem)) = Some (Some q)" "holds mem q ws" for mem g q
      using str.extract_repr [OF e(2) that(2)] that(1) str
      by (auto simp: string_extract_def DeserializeSingle_def DeserializeString_def StringField_Get_def simple_calls_def split: bind_splits)
    then have "reads_field ?rd (simple_calls rb R m f) (u_len u' \<noteq> 0) ws" by (intro reads_object str.repr_plain [OF e(2)]) blast
    then show ?thesis using e str.repr_nonempty [OF e(2)] b str by (auto simp: SerializeSimpleField_def)
  next
    case bool
    let ?ws = "[if GetBool R m f then 1 else 0 :: u32]"
    obtain u' where u: "set_data ?ws unit_init = Some u'" "u_len u' = 1" "emitted (View buf) ?ws buf u'" using emitted_scalar [OF assms(3), of ?ws] by auto
    have "reads_field ?rd (simple_calls rb R m f) True ?ws"
      unfolding reads_field_def
    proof (intro allI impI)
      fix mem g u assume "(True \<longrightarrow> u_len u \<noteq> 0) \<and> field_gets mem g u ?ws"
      then obtain bs where "ScalarField_Get 1 mem g (Some (length mem)) = Some bs" "(bs \<noteq> [0]) = GetBool R m f" using bool_reads by blast
      then show "\<exists>cs. ?rd mem g = Some (True, cs) \<and> simple_calls rb R m f cs" using bool by (simp add: DeserializeSingle_def simple_calls_def)
    qed
    then show ?thesis using u bool by (intro exI [of _ ?ws] exI [of _ buf] exI [of _ u']) (auto simp: SerializeSimpleField_def Serialize_bool_def simple_bound_def)
  next
    case num
    let ?ws = "GetScalar R m f"
    have t: "read_size (pf_type f) = 4 * length ?ws" "length ?ws \<in> {1, 2}" "simple_bound bnd R m f = 2"
      using num assms(1,2) by (auto simp: simple_ok_def simple_bound_def read_size_def scalar_size_def split: ptype.splits)
    obtain u' where u: "set_data ?ws unit_init = Some u'" "u_len u' = length ?ws" "emitted (View buf) ?ws buf u'" using emitted_scalar [OF assms(3) t(2)] by auto
    have w: "words_of (mem_bytes ?ws) = ?ws" using words_of_mem_bytes [of ?ws "[]"] by simp
    have "?rd mem g = DeserializeSingleScalar (read_size (pf_type f)) mem g (Some (length mem)) f" for mem g
      using num assms(1,2) by (auto simp: DeserializeSingle_def simple_ok_def split: ptype.splits)
    moreover have "simple_calls rb R m f [SetScalar f ?ws]" using num assms(1) by (auto simp: simple_calls_def split: ptype.splits)
    ultimately have "reads_field ?rd (simple_calls rb R m f) True ?ws"
      using scalar_reads [OF _ _ t(2)] w unfolding t(1) by (fastforce simp: reads_field_def DeserializeSingleScalar_def)
    moreover have "SerializeSimpleField R ser m f buf unit_init = Some (True, buf, u')"
      using num assms(1,2) u(1) by (auto simp: SerializeSimpleField_def Serialize_scalar_def simple_ok_def split: ptype.splits)
    moreover have "?ws \<noteq> []" "u_len u' \<noteq> 0" "length ?ws \<le> 2" using u(2) t(2) by auto
    ultimately show ?thesis using u(3) t(3) by (intro exI [of _ ?ws] exI [of _ buf] exI [of _ u']) (simp del: length_greater_0_conv)
  qed
qed

text \<open>Repeated fields.\<close>

lemma as_writer: "writer ser (\<lambda>m ws. ok m \<and> describes R rdm hol rb m ws) (\<lambda>m. if ok m then bnd m else 2 ^ 30) 1"
proof
  show "ws \<noteq> []" if "ok m \<and> describes R rdm hol rb m ws" for m ws using that by (auto simp: describes_def plain_def)
  show "\<exists>ws buf' u'. ser m buf unit_init = Some (True, buf', u') \<and> (ok m \<and> describes R rdm hol rb m ws) \<and> length ws \<le> (if ok m then bnd m else 2 ^ 30) \<and>
      emitted (View buf) ws buf' u' \<and> u_len u' \<le> 1"
    if "buf_ok buf" "(if ok m then bnd m else 2 ^ 30) < 2 ^ 30" "Size buf + (if ok m then bnd m else 2 ^ 30) < 2 ^ 32" for buf m
    using that message_emits [of m buf] by (cases "ok m") auto
qed simp

lemma read_elements:
  assumes "list_all2 (describes R rdm hol rb) vec wss" "array_words w wss A" "holds mem P A" "\<forall>e\<in>set vec. GetDescriptor R e = mtype f"
  shows "i \<le> length vec \<Longrightarrow> \<exists>css. deserialize_elements (rdm mem) (mtype f) mem (array_view P w (length wss)) (Some (length mem)) f (length vec - i) (Some (P + (1 + w * i))) =
      Some (True, map (AddMessage f) css) \<and> list_all2 rb (drop i vec) css"
proof (induction "length vec - i" arbitrary: i)
  case (Suc n)
  let ?a = "array_view P w (length wss)"
  note v = array_view_init [OF assms(2,3)]
  have len: "length wss = length vec" using assms(1) by (simp add: list_all2_lengthD)
  have i: "i < length vec" "length vec - i = Suc (length vec - Suc i)" using Suc.hyps(2) by simp_all
  have d: "describes R rdm hol rb (vec ! i) (wss ! i)" "GetDescriptor R (vec ! i) = mtype f" using assms(1,4) i(1) by (auto simp: list_all2_conv_all_nth)
  have dr: "Array_deref ?a (Some (P + (1 + w * i))) = \<lparr>f_ptr = Some (P + (1 + w * i)), f_width = w\<rparr>" using v(3) by (simp add: Array_deref_def array_view_def)
  obtain q where q: "GetObject mem (Array_deref ?a (Some (P + (1 + w * i)))) (Some (length mem)) = Some (Some q)" "holds mem q (wss ! i)"
    unfolding dr using v(5) [of i] i(1) len d(1) by (auto simp: field_reads_def describes_def)
  obtain cs where cs: "rdm mem (Some q) (mtype f) = Some (True, cs)" "rb (vec ! i) cs" using d q(2) by (auto simp: describes_def)
  have nx: "Array_next ?a (Some (P + (1 + w * i))) = Some (Some (P + (1 + w * Suc i)))" using v(3) by (simp add: Array_next_def array_view_def)
  obtain css where "deserialize_elements (rdm mem) (mtype f) mem ?a (Some (length mem)) f (length vec - Suc i) (Some (P + (1 + w * Suc i))) =
      Some (True, map (AddMessage f) css)" "list_all2 rb (drop (Suc i) vec) css" using Suc.hyps i by (metis Suc_leI diff_Suc_1 diff_diff_left plus_1_eq_Suc add.commute)
  then show ?case using q(1) cs nx i by (intro exI [of _ "cs # css"]) (simp add: Cons_nth_drop_Suc [symmetric])
qed simp

abbreviation reads_array :: "'m \<Rightarrow> FieldDescriptor \<Rightarrow> u32 list \<Rightarrow> bool" where
  "reads_array m f ws \<equiv> \<forall>mem q. holds mem q ws \<longrightarrow>
    (\<exists>cs. DeserializeArray (rdm mem) mtype mem (Some q) (Some (length mem)) f = Some (True, cs) \<and> array_calls rb R m f cs)"

lemma array_repr_length: "array_repr repr w vec A \<Longrightarrow> vec \<noteq> [] \<Longrightarrow> 2 \<le> length A"
  by (cases vec) (auto simp: array_repr_def array_words_def list_all2_Cons1 intro: order_trans [OF _ add_le_mono [OF order.refl mult_le_mono1]])

lemma elements_message:
  assumes "pf_type f = TYPE_MESSAGE" "array_ok mtype ok R m f" "FieldSize R m f \<noteq> 0" "buf_ok buf"
    and "elements_bound bnd R m f < 2 ^ 30" "Size buf + elements_bound bnd R m f < 2 ^ 32"
  shows "\<exists>ws buf' u'. SerializeArrayField R ser m f buf unit_init = Some (True, buf', u') \<and> plain ws \<and> length ws \<le> elements_bound bnd R m f \<and>
    emitted (View buf) ws buf' u' \<and> u_len u' \<le> 1 \<and> 2 \<le> length ws \<and> reads_array m f ws"
proof -
  let ?vec = "elements_of R (GetRepeatedMessage R) m f" and ?repr = "\<lambda>m ws. ok m \<and> describes R rdm hol rb m ws"
  have v: "\<forall>e\<in>set ?vec. GetDescriptor R e = mtype f \<and> ok e" "?vec \<noteq> []" using assms(1-3) by (auto simp: array_ok_def elements_of_def)
  have b: "array_bound (\<lambda>m. if ok m then bnd m else 2 ^ 30) ?vec = elements_bound bnd R m f"
    using v(1) assms(1) by (simp add: array_bound_def elements_bound_def cong: map_cong)
  obtain A buf' u' where e: "ArrayEX_Serialize ser ?vec buf unit_init = Some (True, buf', u')" "array_repr ?repr 1 ?vec A" "length A \<le> elements_bound bnd R m f"
      "emitted (View buf) A buf' u'" "u_len u' \<le> 1"
    using writer.array_emits [OF as_writer assms(4), of ?vec] assms(5,6) unfolding b by blast
  obtain w wss where A: "list_all2 ?repr ?vec wss" "array_words w wss A" "plain A" using e(2) by (auto simp: array_repr_def)
  have d: "list_all2 (describes R rdm hol rb) ?vec wss" using A(1) by (rule list_all2_mono) simp
  have len: "length wss = length ?vec" using A(1) by (simp add: list_all2_lengthD)
  have "\<exists>cs. DeserializeArray (rdm mem) mtype mem (Some q) (Some (length mem)) f = Some (True, cs) \<and> array_calls rb R m f cs" if h: "holds mem q A" for mem q
  proof -
    obtain css where "deserialize_elements (rdm mem) (mtype f) mem (array_view q w (length wss)) (Some (length mem)) f (length ?vec) (Some (q + 1)) =
        Some (True, map (AddMessage f) css)" "list_all2 rb ?vec css"
      using read_elements [OF d A(2) h, of f 0] v(1) by auto
    then show ?thesis using array_view_init(1) [OF A(2) h] array_view_count [OF A(2) h] len assms(1)
      by (auto simp: DeserializeArray_def Array_begin_def array_view_def array_calls_def)
  qed
  then show ?thesis using e A(3) array_repr_length [OF e(2) v(2)] assms(1) by (auto simp: SerializeArrayField_def)
qed

lemma elements_string:
  assumes "pf_type f \<in> {TYPE_BYTES, TYPE_STRING}" "FieldSize R m f \<noteq> 0" "buf_ok buf"
    and "elements_bound bnd R m f < 2 ^ 30" "Size buf + elements_bound bnd R m f < 2 ^ 32"
  shows "\<exists>ws buf' u'. SerializeArrayField R ser m f buf unit_init = Some (True, buf', u') \<and> plain ws \<and> length ws \<le> elements_bound bnd R m f \<and>
    emitted (View buf) ws buf' u' \<and> u_len u' \<le> 1 \<and> 2 \<le> length ws \<and> reads_array m f ws"
proof -
  let ?vec = "elements_of R (GetRepeatedString R) m f"
  have v: "?vec \<noteq> []" "elements_bound bnd R m f = array_bound string_bound ?vec" using assms(1,2) by (auto simp: elements_of_def elements_bound_def)
  obtain A buf' u' where e: "ArrayEX_Serialize Serialize_str ?vec buf unit_init = Some (True, buf', u')" "array_repr string_repr 1 ?vec A"
      "length A \<le> elements_bound bnd R m f" "emitted (View buf) A buf' u'" "u_len u' \<le> 1"
    using strs.emits [OF assms(3), of ?vec] assms(4,5) unfolding v(2) by blast
  have "reads_array m f A"
    using strs.extract_repr [OF e(2)] assms(1) by (auto simp: DeserializeArray_def array_calls_def)
  then show ?thesis using e strs.repr_plain [OF e(2)] array_repr_length [OF e(2) v(1)] assms(1) by (auto simp: SerializeArrayField_def)
qed

lemma elements_bool:
  assumes "pf_type f = TYPE_BOOL" "buf_ok buf" "elements_bound bnd R m f < 2 ^ 30" "Size buf + elements_bound bnd R m f < 2 ^ 32"
  shows "\<exists>ws buf' u'. SerializeArrayField R ser m f buf unit_init = Some (True, buf', u') \<and> plain ws \<and> length ws \<le> elements_bound bnd R m f \<and>
    emitted (View buf) ws buf' u' \<and> u_len u' \<le> 1 \<and> (4 \<le> FieldSize R m f \<longrightarrow> 2 \<le> length ws) \<and> reads_array m f ws"
proof -
  let ?vec = "elements_of R (GetRepeatedBool R) m f" and ?bit = "\<lambda>b. if b then 1 else 0 :: u8"
  have n: "length (map ?bit ?vec) = FieldSize R m f" by (simp add: elements_of_def)
  have b: "elements_bound bnd R m f = string_bound (map ?bit ?vec)" using assms(1) by (simp add: elements_bound_def string_bound_def elements_of_def)
  obtain A buf' u' where e: "Serialize_str (map ?bit ?vec) buf unit_init = Some (True, buf', u')" "string_repr (map ?bit ?vec) A"
      "length A \<le> elements_bound bnd R m f" "emitted (View buf) A buf' u'" "u_len u' \<le> 1"
    using str.emits [OF assms(2), of "map ?bit ?vec"] assms(3,4) unfolding b by blast
  have "map (\<lambda>b. AddBool f (b \<noteq> 0)) (map ?bit ?vec) = map (AddBool f) ?vec" by simp
  then have "reads_array m f A"
    using str.extract_repr [OF e(2)] assms(1) by (auto simp: DeserializeArray_def BoolArrayEX_init_def string_extract_def array_calls_def split: bind_splits)
  moreover have "2 \<le> length A" if "4 \<le> FieldSize R m f"
  proof -
    have "5 \<le> length (string_bytes (map ?bit ?vec))"
      using that length_WriteVarInt [of "push_bit 2 (of_nat (length (map ?bit ?vec)))"] n unfolding string_bytes_def length_append by linarith
    then have "5 \<le> 4 * WordSize (length (string_bytes (map ?bit ?vec)))" using WordSize_bounds(1) order_trans by blast
    moreover have "length A = WordSize (length (string_bytes (map ?bit ?vec)))" using e(2) by (simp add: string_repr_def string_words_def)
    ultimately show ?thesis by linarith
  qed
  ultimately show ?thesis using e str.repr_plain [OF e(2)] assms(1) by (auto simp: SerializeArrayField_def)
qed

lemma elements_number:
  assumes "pf_type f \<notin> {TYPE_MESSAGE, TYPE_BYTES, TYPE_STRING, TYPE_BOOL}" "array_ok mtype ok R m f" "FieldSize R m f \<noteq> 0" "buf_ok buf"
    and "elements_bound bnd R m f < 2 ^ 30" "Size buf + elements_bound bnd R m f < 2 ^ 32"
  shows "\<exists>ws buf' u'. SerializeArrayField R ser m f buf unit_init = Some (True, buf', u') \<and> plain ws \<and> length ws \<le> elements_bound bnd R m f \<and>
    emitted (View buf) ws buf' u' \<and> u_len u' \<le> 1 \<and> 2 \<le> length ws \<and> reads_array m f ws"
proof -
  let ?vec = "elements_of R (GetRepeatedScalar R) m f" and ?sz = "read_size (pf_type f)"
  have n: "length ?vec = FieldSize R m f" "?vec \<noteq> []" using assms(3) by (simp_all add: elements_of_def)
  have t: "?sz \<in> {4, 8}" "\<forall>ws\<in>set ?vec. length ws = ?sz div 4" "elements_bound bnd R m f = 1 + 2 * length ?vec"
    using assms(1,2) n(1) by (auto simp: array_ok_def read_size_def scalar_size_def elements_bound_def split: ptype.splits)
  have nc: "object_codec (ScalarArrayEX_Serialize ?sz) (numbers_repr ?sz) (numbers_bound ?sz) (ScalarArrayEX_init ?sz)" by (rule numbers_codec [OF t(1)])
  have b: "numbers_bound ?sz ?vec = 1 + ?sz div 4 * length ?vec" "numbers_bound ?sz ?vec \<le> elements_bound bnd R m f"
    using t by (auto simp: numbers_bound_def)
  obtain A buf' u' where e: "ScalarArrayEX_Serialize ?sz ?vec buf unit_init = Some (True, buf', u')" "numbers_repr ?sz ?vec A"
      "length A \<le> numbers_bound ?sz ?vec" "emitted (View buf) A buf' u'" "u_len u' \<le> 1"
    using writer.emits [OF object_codec.axioms(1) [OF nc] assms(4), of ?vec] assms(5,6) b(2) by auto
  have "SerializeArrayField R ser m f buf unit_init = ScalarArrayEX_Serialize ?sz ?vec buf unit_init"
    using assms(1,2) n by (cases "pf_type f") (simp_all add: SerializeArrayField_def ScalarArrayEX_Serialize_def read_size_def array_ok_def Let_def)
  moreover have "reads_array m f A"
  proof (intro allI impI)
    fix mem q assume "holds mem q A"
    from object_codec.extract_repr [OF nc e(2) this] assms(1,2)
    have "DeserializeArray (rdm mem) mtype mem (Some q) (Some (length mem)) f = Some (True, ClearField f # map (AddScalar f) ?vec)"
      by (cases "pf_type f") (simp_all add: DeserializeArray_def array_ok_def)
    moreover have "array_calls rb R m f (ClearField f # map (AddScalar f) ?vec)" using assms(1) by (cases "pf_type f") (simp_all add: array_calls_def)
    ultimately show "\<exists>cs. DeserializeArray (rdm mem) mtype mem (Some q) (Some (length mem)) f = Some (True, cs) \<and> array_calls rb R m f cs" by blast
  qed
  moreover have "2 \<le> length A"
  proof -
    have "length A = 1 + ?sz div 4 * length ?vec" using e(2) number_words_length [OF t(2)] by (simp add: numbers_repr_def)
    moreover have "1 \<le> ?sz div 4 * length ?vec" using t(1) n(2) by (cases ?vec) auto
    ultimately show ?thesis by simp
  qed
  ultimately show ?thesis using e b(2) object_codec.repr_plain [OF nc e(2)] by (intro exI [of _ A] exI [of _ buf'] exI [of _ u']) simp
qed

lemma elements_emit:
  assumes "array_ok mtype ok R m f" "FieldSize R m f \<noteq> 0" "buf_ok buf" "elements_bound bnd R m f < 2 ^ 30" "Size buf + elements_bound bnd R m f < 2 ^ 32"
  obtains ws buf' u' where "SerializeArrayField R ser m f buf unit_init = Some (True, buf', u')" "plain ws" "length ws \<le> elements_bound bnd R m f"
    "emitted (View buf) ws buf' u'" "u_len u' \<le> 1" "pf_type f = TYPE_BOOL \<and> FieldSize R m f < 4 \<or> 2 \<le> length ws" "reads_array m f ws"
proof -
  consider "pf_type f = TYPE_MESSAGE" | "pf_type f \<in> {TYPE_BYTES, TYPE_STRING}" | "pf_type f = TYPE_BOOL" | "pf_type f \<notin> {TYPE_MESSAGE, TYPE_BYTES, TYPE_STRING, TYPE_BOOL}"
    by blast
  then show thesis
  proof cases
    case 1
    from elements_message [OF 1 assms] show thesis using that by blast
  next
    case 2
    from elements_string [OF 2 assms(2-5)] show thesis using that by blast
  next
    case 3
    from elements_bool [OF 3 assms(3-5)] show thesis using that 3 by (metis not_le)
  next
    case 4
    from elements_number [OF 4 assms] show thesis using that by blast
  qed
qed

text \<open>The part of one field in a message: the unit, after folding.\<close>

definition read_field :: "FieldDescriptor \<Rightarrow> mem \<Rightarrow> Field \<Rightarrow> outcome" where
  "read_field f mem g =
    (if \<not> pf_repeated f then DeserializeSingle (rdm mem) mtype mem g (Some (length mem)) f
     else do { obj \<leftarrow> GetObject mem g (Some (length mem)); DeserializeContainer (rdm mem) mtype mem obj (Some (length mem)) f })"

definition part_ok :: "'m \<Rightarrow> u32 list \<Rightarrow> FieldDescriptor \<Rightarrow> Unit \<Rightarrow> bool" where
  "part_ok m V f u \<longleftrightarrow> (unit_size u = 0 \<longleftrightarrow> absent hol R m f) \<and>
    (unit_size u \<noteq> 0 \<longrightarrow> reads_field (read_field f) (field_calls hol rb R m f) (u_len u \<noteq> 0) (content V u))"

lemma reads_field_mono: "reads_field get P inline ws \<Longrightarrow> (inline \<longrightarrow> inline') \<Longrightarrow> reads_field get P inline' ws"
  unfolding reads_field_def by blast

lemma fold_part:
  assumes "emitted (View buf) ws b0 u0" "ws \<noteq> []" "buf_ok buf"
  shows "\<exists>b u W. FoldField b0 u0 = Some (b, u) \<and> buf_ok b \<and> View b = W @ View buf \<and> length W \<le> length ws \<and> unit_ok (Size b) u \<and> content (View b) u = ws \<and>
    unit_size u = length ws \<and> (u_len u = 0 \<longrightarrow> Size buf + unat (seg_len u) \<le> unat (seg_pos u)) \<and> (u_len u0 \<noteq> 0 \<longrightarrow> u_len u \<noteq> 0)"
proof -
  have e: "buf_ok b0" "unit_ok (Size b0) u0" "content (View b0) u0 = ws"
      "if u_len u0 \<noteq> 0 then View b0 = View buf else View b0 = ws @ View buf \<and> unat (seg_pos u0) = Size b0"
    using assms(1) by (simp_all add: emitted_def)
  have sz: "unit_size u0 = length ws" using length_content [of "View b0" u0] e by simp
  obtain b u where f: "FoldField b0 u0 = Some (b, u)" "buf_ok b" "content (View b) u = ws" "length (u_data u) = 3"
      "if length ws < 4 then View b = View buf \<and> u_len u = length ws else b = b0 \<and> u = u0"
    using fold_field_exact [OF assms(1,2)] by blast
  show ?thesis
  proof (cases "length ws < 4")
    case True
    then show ?thesis using f assms(2) by (intro exI [of _ b] exI [of _ u] exI [of _ "[]"]) (auto simp: unit_ok_def unit_size_def)
  next
    case False
    then have u0: "u_len u0 = 0" using sz e(2) by (auto simp: unit_size_def unit_ok_def split: if_splits)
    then have "View b0 = ws @ View buf" "unat (seg_pos u0) = Size b0" "unat (seg_len u0) = length ws" using e(4) sz by (simp_all add: unit_size_def)
    moreover from this have "Size b0 = length ws + Size buf" using length_View [OF e(1)] length_View [OF assms(3)] by simp
    ultimately show ?thesis using False f e u0 sz by (intro exI [of _ b] exI [of _ u] exI [of _ ws]) simp
  qed
qed

text \<open>What writing a field leaves: the unit \<open>u\<close> and the words \<open>W\<close> in front of the buffer.\<close>

definition part_written :: "'m \<Rightarrow> FieldDescriptor \<Rightarrow> Buffer \<Rightarrow> Buffer \<Rightarrow> Unit \<Rightarrow> bool" where
  "part_written m f buf b u \<longleftrightarrow> buf_ok b \<and> unit_ok (Size b) u \<and> (u_len u = 0 \<and> seg_len u \<noteq> 0 \<longrightarrow> Size buf + unat (seg_len u) \<le> unat (seg_pos u)) \<and>
    unit_size u \<le> proto_field_bound bnd R m f \<and> part_ok m (View b) f u \<and> (unit_size u = 0 \<longrightarrow> View b = View buf) \<and> (\<exists>W. View b = W @ View buf \<and> length W \<le> proto_field_bound bnd R m f)"

lemma part_fold:
  assumes "emitted (View buf) ws b0 u0" "ws \<noteq> []" "buf_ok buf" "length ws \<le> proto_field_bound bnd R m f"
    and "\<not> absent hol R m f" "reads_field (read_field f) (field_calls hol rb R m f) (u_len u0 \<noteq> 0) ws"
  shows "\<exists>b u. FoldField b0 u0 = Some (b, u) \<and> part_written m f buf b u"
proof -
  obtain b u W where f: "FoldField b0 u0 = Some (b, u)" "buf_ok b" "View b = W @ View buf" "length W \<le> length ws" "unit_ok (Size b) u" "content (View b) u = ws"
      "unit_size u = length ws" "u_len u = 0 \<longrightarrow> Size buf + unat (seg_len u) \<le> unat (seg_pos u)" "u_len u0 \<noteq> 0 \<longrightarrow> u_len u \<noteq> 0"
    using fold_part [OF assms(1-3)] by metis
  moreover have "part_ok m (View b) f u" using f(6,7,9) assms(2,5) reads_field_mono [OF assms(6)] unfolding part_ok_def by auto
  moreover have "unit_size u \<noteq> 0" using f(7) assms(2) by simp
  ultimately show ?thesis using assms(4) unfolding part_written_def by auto
qed

lemma part_absent:
  assumes "buf_ok b" "View b = View buf" "length (u_data u) = 3" "u_len u = 0" "seg_len u = 0" "absent hol R m f"
  shows "FoldField b u = Some (b, u) \<and> part_written m f buf b u"
  using assms by (simp add: FoldField_def part_written_def part_ok_def unit_ok_def unit_size_def)

lemma field_repeated:
  assumes "pf_repeated f" "\<not> pf_deprecated f" "FieldSize R m f \<noteq> 0" "array_ok mtype ok R m f" "buf_ok buf"
    and "proto_field_bound bnd R m f < 2 ^ 30" "Size buf + proto_field_bound bnd R m f < 2 ^ 32"
  shows "\<exists>b0 u0 b u. Proto_SerializeField R gseed junk ser m f buf unit_init = Some (True, b0, u0) \<and> FoldField b0 u0 = Some (b, u) \<and> part_written m f buf b u"
proof -
  have bd: "proto_field_bound bnd R m f = elements_bound bnd R m f" using assms(1-3) by (simp add: proto_field_bound_def)
  have nm: "\<not> pf_map f" using assms(4) by (simp add: array_ok_def)
  obtain ws b0 u0 where e: "SerializeArrayField R ser m f buf unit_init = Some (True, b0, u0)" "plain ws" "length ws \<le> elements_bound bnd R m f"
      "emitted (View buf) ws b0 u0" "reads_array m f ws"
    using elements_emit [OF assms(4,3,5) assms(6,7) [unfolded bd]] by metis
  have ab: "\<not> absent hol R m f" using assms(1,3) by (simp add: absent_def)
  have "reads_field (read_field f) (field_calls hol rb R m f) (u_len u0 \<noteq> 0) ws"
    by (rule reads_object [OF e(2)]) (use e(5) ab assms(1,2) nm in \<open>auto simp: read_field_def DeserializeContainer_def field_calls_def\<close>)
  then obtain b u where "FoldField b0 u0 = Some (b, u)" "part_written m f buf b u"
    using part_fold [OF e(4) _ assms(5) _ ab] e(2,3) bd by (auto simp: plain_def)
  moreover have "Proto_SerializeField R gseed junk ser m f buf unit_init = Some (True, b0, u0)"
    using e(1) assms(1,3) nm by (simp add: Proto_SerializeField_def)
  ultimately show ?thesis by blast
qed

lemma field_message:
  assumes "pf_type f = TYPE_MESSAGE" "\<not> pf_repeated f" "\<not> pf_deprecated f" "PresentField R m f" "simple_ok mtype ok R m f" "buf_ok buf"
    and "proto_field_bound bnd R m f < 2 ^ 30" "Size buf + proto_field_bound bnd R m f < 2 ^ 32"
  shows "\<exists>b0 u0 b u. Proto_SerializeField R gseed junk ser m f buf unit_init = Some (True, b0, u0) \<and> FoldField b0 u0 = Some (b, u) \<and> part_written m f buf b u"
proof -
  have bd: "proto_field_bound bnd R m f = simple_bound bnd R m f" using assms(2-4) by (simp add: proto_field_bound_def)
  obtain ws b0 u0 where e: "SerializeSimpleField R ser m f buf unit_init = Some (True, b0, u0)" "plain ws" "length ws \<le> simple_bound bnd R m f"
      "emitted (View buf) ws b0 u0" "u_len u0 \<le> 1" "u_len u0 \<noteq> 0 \<longrightarrow> seg_len u0 = 0" "length ws = 1 \<longleftrightarrow> hol (GetMessage R m f)"
      "reads_field (\<lambda>mem g. DeserializeSingle (rdm mem) mtype mem g (Some (length mem)) f) (simple_calls rb R m f) False ws"
    using simple_message [OF assms(1,5,6) assms(7,8) [unfolded bd]] by blast
  have em: "buf_ok b0" "unit_ok (Size b0) u0" "content (View b0) u0 = ws"
      "if u_len u0 \<noteq> 0 then View b0 = View buf else View b0 = ws @ View buf \<and> unat (seg_pos u0) = Size b0"
    using e(4) by (simp_all add: emitted_def)
  have sz: "unit_size u0 = length ws" using length_content [of "View b0" u0] em by simp
  show ?thesis
  proof (cases "length ws = 1")
    case False
    then have ab: "\<not> absent hol R m f" using e(7) assms(1,2,4) by (simp add: absent_def)
    have "reads_field (read_field f) (field_calls hol rb R m f) (u_len u0 \<noteq> 0) ws"
      using e(8) ab assms(2,3) unfolding reads_field_def read_field_def field_calls_def by auto
    then obtain b u where "FoldField b0 u0 = Some (b, u)" "part_written m f buf b u"
      using part_fold [OF e(4) _ assms(6) _ ab] e(2,3) bd by (auto simp: plain_def)
    moreover have "Proto_SerializeField R gseed junk ser m f buf unit_init = Some (True, b0, u0)"
      using e(1) assms(2,4) False sz by (simp add: Proto_SerializeField_def)
    ultimately show ?thesis by blast
  next
    case True
    then have ab: "absent hol R m f" using e(7) assms(1,2) by (simp add: absent_def)
    show ?thesis
    proof (cases "u_len u0 = 0")
      case False
      let ?u = "u0\<lparr>u_len := 0\<rparr>"
      have "Proto_SerializeField R gseed junk ser m f buf unit_init = Some (True, b0, ?u)"
        using e(1) assms(1,2,4) True sz False by (simp add: Proto_SerializeField_def)
      moreover have "FoldField b0 ?u = Some (b0, ?u) \<and> part_written m f buf b0 ?u"
        by (rule part_absent) (use em False e(6) ab in \<open>simp_all add: unit_ok_def seg_len_def\<close>)
      ultimately show ?thesis by blast
    next
      case seg: True
      let ?u = "u0\<lparr>u_data := (u_data u0)[1 := 0]\<rparr>"
      have "Proto_SerializeField R gseed junk ser m f buf unit_init = Some (True, Shrink 1 b0, ?u)"
        using e(1) assms(1,2,4) True sz seg by (simp add: Proto_SerializeField_def)
      moreover have "FoldField (Shrink 1 b0) ?u = Some (Shrink 1 b0, ?u) \<and> part_written m f buf (Shrink 1 b0) ?u"
      proof (rule part_absent)
        have v: "View b0 = ws @ View buf" using em(4) seg by simp
        then have "1 \<le> Size b0" using length_View [OF em(1)] True by simp
        from Shrink_spec [OF em(1) this] show "buf_ok (Shrink 1 b0)" "View (Shrink 1 b0) = View buf" using v True by simp_all
      qed (use em(2) seg ab in \<open>simp_all add: unit_ok_def seg_len_def\<close>)
      ultimately show ?thesis by blast
    qed
  qed
qed

lemma field_value:
  assumes "pf_type f \<noteq> TYPE_MESSAGE" "\<not> pf_repeated f" "\<not> pf_deprecated f" "PresentField R m f" "simple_ok mtype ok R m f" "buf_ok buf"
    and "proto_field_bound bnd R m f < 2 ^ 30" "Size buf + proto_field_bound bnd R m f < 2 ^ 32"
  shows "\<exists>b0 u0 b u. Proto_SerializeField R gseed junk ser m f buf unit_init = Some (True, b0, u0) \<and> FoldField b0 u0 = Some (b, u) \<and> part_written m f buf b u"
proof -
  have bd: "proto_field_bound bnd R m f = simple_bound bnd R m f" using assms(2-4) by (simp add: proto_field_bound_def)
  obtain ws b0 u0 where e: "SerializeSimpleField R ser m f buf unit_init = Some (True, b0, u0)" "ws \<noteq> []" "length ws \<le> simple_bound bnd R m f" "emitted (View buf) ws b0 u0"
      "reads_field (\<lambda>mem g. DeserializeSingle (rdm mem) mtype mem g (Some (length mem)) f) (simple_calls rb R m f) (u_len u0 \<noteq> 0) ws"
    using simple_value [OF assms(1,5,6) assms(7,8) [unfolded bd]] by blast
  have ab: "\<not> absent hol R m f" using assms(1,2,4) by (simp add: absent_def)
  have "reads_field (read_field f) (field_calls hol rb R m f) (u_len u0 \<noteq> 0) ws"
    using e(5) ab assms(2,3) unfolding reads_field_def read_field_def field_calls_def by simp
  then obtain b u where "FoldField b0 u0 = Some (b, u)" "part_written m f buf b u"
    using part_fold [OF e(4,2) assms(6) _ ab] e(3) bd by auto
  moreover have "Proto_SerializeField R gseed junk ser m f buf unit_init = Some (True, b0, u0)"
    using e(1) assms(1,2,4) by (simp add: Proto_SerializeField_def)
  ultimately show ?thesis by blast
qed

lemma field_emits:
  assumes "proto_field_ok mtype ok R m f" "\<not> pf_deprecated f" "buf_ok buf" "proto_field_bound bnd R m f < 2 ^ 30" "Size buf + proto_field_bound bnd R m f < 2 ^ 32"
  shows "\<exists>b0 u0 b u. Proto_SerializeField R gseed junk ser m f buf unit_init = Some (True, b0, u0) \<and> FoldField b0 u0 = Some (b, u) \<and> part_written m f buf b u"
proof -
  have nil: ?thesis if "Proto_SerializeField R gseed junk ser m f buf unit_init = Some (True, buf, unit_init)" "absent hol R m f"
    using part_absent [OF assms(3) refl, of unit_init m f] that by (auto simp: unit_init_def seg_len_def)
  show ?thesis
  proof (cases "pf_repeated f")
    case True
    show ?thesis
    proof (cases "FieldSize R m f = 0")
      case zero: True
      show ?thesis by (rule nil) (use True zero in \<open>simp_all add: Proto_SerializeField_def absent_def\<close>)
    next
      case False
      then show ?thesis using field_repeated [OF True assms(2) False _ assms(3-5)] assms(1) True by (auto simp: proto_field_ok_def)
    qed
  next
    case False
    show ?thesis
    proof (cases "PresentField R m f")
      case present: False
      show ?thesis by (rule nil) (use False present in \<open>simp_all add: Proto_SerializeField_def absent_def\<close>)
    next
      case True
      then have s: "simple_ok mtype ok R m f" using assms(1) False by (simp add: proto_field_ok_def)
      show ?thesis using field_message [OF _ False assms(2) True s assms(3-5)] field_value [OF _ False assms(2) True s assms(3-5)] by blast
    qed
  qed
qed

text \<open>All fields of the table.\<close>

definition entry_ok :: "'m \<Rightarrow> u32 list \<Rightarrow> FieldDescriptor option \<Rightarrow> Unit \<Rightarrow> bool" where
  "entry_ok m V e u \<longleftrightarrow> (case e of None \<Rightarrow> unit_size u = 0 | Some f \<Rightarrow> part_ok m V f u)"

definition parts_ok :: "'m \<Rightarrow> nat \<Rightarrow> Buffer \<Rightarrow> FieldDescriptor option list \<Rightarrow> Unit list \<Rightarrow> bool" where
  "parts_ok m lst buf tab parts \<longleftrightarrow> list_all2 (entry_ok m (View buf)) tab parts \<and>
    (\<forall>u\<in>set parts. unit_ok (Size buf) u \<and> (u_len u = 0 \<and> seg_len u \<noteq> 0 \<longrightarrow> lst + unat (seg_len u) \<le> unat (seg_pos u)))"

definition entry_bound :: "'m \<Rightarrow> FieldDescriptor option \<Rightarrow> nat" where
  "entry_bound m e = (case e of None \<Rightarrow> 0 | Some f \<Rightarrow> proto_field_bound bnd R m f)"

lemma parts_ok_append:
  assumes "parts_ok m lst buf tab parts" "buf_ok buf" "buf_ok b" "View b = W @ View buf"
  shows "parts_ok m lst b tab parts"
proof -
  have sz: "Size buf = length (View buf)" "Size buf \<le> Size b" using length_View [OF assms(2)] length_View [OF assms(3)] assms(4) by auto
  have "content (View b) u = content (View buf) u" "unit_ok (Size b) u" if "u \<in> set parts" for u
    using assms(1,4) that content_append sz unit_ok_mono by (auto simp: parts_ok_def)
  moreover have "u \<in> set parts" if "(e, u) \<in> set (zip tab parts)" for e u using that by (rule set_zip_rightD)
  ultimately show ?thesis using assms(1) by (auto simp: parts_ok_def list_all2_iff entry_ok_def part_ok_def split: option.splits)
qed

lemma parts_emit:
  assumes "\<forall>f. Some f \<in> set fs \<longrightarrow> \<not> pf_deprecated f \<and> proto_field_ok mtype ok R m f" "buf_ok buf" "lst \<le> Size buf"
    and "(\<Sum>e\<leftarrow>fs. entry_bound m e) < 2 ^ 30" "Size buf + (\<Sum>e\<leftarrow>fs. entry_bound m e) < 2 ^ 32" "parts_ok m lst buf es parts"
  shows "\<exists>parts' b W. serialize_parts (Proto_SerializeField R gseed junk ser m) fs parts buf = Some (Some parts', b) \<and> buf_ok b \<and> View b = W @ View buf \<and>
    length W \<le> (\<Sum>e\<leftarrow>fs. entry_bound m e) \<and> parts_ok m lst b (rev fs @ es) parts' \<and>
    (\<Sum>u\<leftarrow>parts'. unit_size u) \<le> (\<Sum>e\<leftarrow>fs. entry_bound m e) + (\<Sum>u\<leftarrow>parts. unit_size u) \<and> ((\<forall>u\<in>set parts'. unit_size u = 0) \<longrightarrow> W = []) \<and> set parts \<subseteq> set parts'"
  using assms
proof (induction fs arbitrary: buf es parts)
  case Nil
  then show ?case by simp
next
  case (Cons e fs)
  show ?case
  proof (cases e)
    case None
    have p: "parts_ok m lst buf (None # es) (unit_init # parts)"
      using Cons.prems(6) by (simp add: parts_ok_def entry_ok_def unit_init_def unit_size_def unit_ok_def seg_len_def)
    have z: "unit_size unit_init = 0" by (simp add: unit_init_def unit_size_def seg_len_def)
    have e: "entry_bound m e = 0" using None by (simp add: entry_bound_def)
    then have "(\<Sum>e\<leftarrow>fs. entry_bound m e) < 2 ^ 30" "Size buf + (\<Sum>e\<leftarrow>fs. entry_bound m e) < 2 ^ 32" using Cons.prems(4,5) by simp_all
    from Cons.IH [OF _ Cons.prems(2,3) this p] Cons.prems(1) obtain parts' b W where
      "serialize_parts (Proto_SerializeField R gseed junk ser m) fs (unit_init # parts) buf = Some (Some parts', b)" "buf_ok b" "View b = W @ View buf"
        "length W \<le> (\<Sum>e\<leftarrow>fs. entry_bound m e)" "parts_ok m lst b (rev fs @ None # es) parts'"
        "(\<Sum>u\<leftarrow>parts'. unit_size u) \<le> (\<Sum>e\<leftarrow>fs. entry_bound m e) + (\<Sum>u\<leftarrow>unit_init # parts. unit_size u)" "(\<forall>u\<in>set parts'. unit_size u = 0) \<longrightarrow> W = []"
        "set (unit_init # parts) \<subseteq> set parts'"
      by auto
    then show ?thesis using None e z by (intro exI [of _ parts'] exI [of _ b] exI [of _ W]) auto
  next
    case (Some f)
    have bd: "proto_field_bound bnd R m f \<le> (\<Sum>e\<leftarrow>e # fs. entry_bound m e)" using Some by (simp add: entry_bound_def)
    obtain b0 u0 b u where w: "Proto_SerializeField R gseed junk ser m f buf unit_init = Some (True, b0, u0)" "FoldField b0 u0 = Some (b, u)" "part_written m f buf b u"
      using field_emits [of m f buf] Cons.prems(1,2,4,5) bd Some by fastforce
    then obtain W where W: "View b = W @ View buf" "length W \<le> proto_field_bound bnd R m f" "buf_ok b" "unit_size u = 0 \<longrightarrow> W = []"
        "unit_size u \<le> proto_field_bound bnd R m f" by (auto simp: part_written_def)
    have sz: "Size b = length W + Size buf" using W(1,3) Cons.prems(2) by (metis length_View length_append)
    have "parts_ok m lst b (e # es) (u # parts)"
      using parts_ok_append [OF Cons.prems(6,2) W(3,1)] w(3) Cons.prems(3) Some by (auto simp: parts_ok_def entry_ok_def part_written_def)
    then obtain parts' b' W' where r: "serialize_parts (Proto_SerializeField R gseed junk ser m) fs (u # parts) b = Some (Some parts', b')" "buf_ok b'" "View b' = W' @ View b"
        "length W' \<le> (\<Sum>e\<leftarrow>fs. entry_bound m e)" "parts_ok m lst b' (rev fs @ e # es) parts'"
        "(\<Sum>u\<leftarrow>parts'. unit_size u) \<le> (\<Sum>e\<leftarrow>fs. entry_bound m e) + (\<Sum>u\<leftarrow>u # parts. unit_size u)" "(\<forall>u\<in>set parts'. unit_size u = 0) \<longrightarrow> W' = []" "set (u # parts) \<subseteq> set parts'"
      using Cons.IH [of b "e # es" "u # parts"] Cons.prems(1,3-5) W sz Some by (auto simp: entry_bound_def)
    then show ?thesis using w W Some by (intro exI [of _ parts'] exI [of _ b'] exI [of _ "W' @ W"]) (auto simp: entry_bound_def)
  qed
qed

text \<open>Reading the fields of a message whose parts are known.\<close>

lemma read_fields:
  assumes "message_reads mem q V parts" "list_all2 (entry_ok m V) tab parts" "length tab \<le> 5461"
    and tab: "\<And>j f. j < length tab \<and> tab ! j = Some f \<longleftrightarrow> f \<in> set desc \<and> \<not> pf_deprecated f \<and> pf_number f = int j + 1" "\<forall>f\<in>set desc. 0 < pf_number f"
  shows "set fs \<subseteq> set desc \<Longrightarrow> \<exists>css. deserialize_fields (rdm mem) mtype mem (Some q) (Some (length mem)) fs = Some (True, concat css) \<and> list_all2 (field_calls hol rb R m) fs css"
proof (induction fs)
  case (Cons f fs)
  then obtain css where css: "deserialize_fields (rdm mem) mtype mem (Some q) (Some (length mem)) fs = Some (True, concat css)" "list_all2 (field_calls hol rb R m) fs css" by auto
  show ?case
  proof (cases "pf_deprecated f")
    case True
    then have "field_calls hol rb R m f []" by (simp add: field_calls_def)
    then show ?thesis using css True by (intro exI [of _ "[] # css"]) simp
  next
    case False
    let ?j = "nat (pf_number f - 1)" and ?g = "GetField mem (Some q) (unat (of_int (pf_number f - 1) :: u32)) (Some (length mem))"
    have f: "f \<in> set desc" "int ?j + 1 = pf_number f" using Cons.prems tab(2) by auto
    have j: "?j < length tab" "tab ! ?j = Some f" using tab(1) [of ?j f] f False by auto
    have "of_int (pf_number f - 1) = (of_nat ?j :: u32)" using f(2) by (metis add_diff_cancel_right' of_int_of_nat_eq)
    moreover have "unat (of_nat ?j :: u32) = ?j" using j(1) assms(3) unat_of_nat_32 [of ?j] by simp
    ultimately have id: "unat (of_int (pf_number f - 1) :: u32) = ?j" by simp
    have len: "length parts = length tab" using assms(2) by (simp add: list_all2_lengthD)
    have p: "part_ok m V f (parts ! ?j)" using assms(2) j by (auto simp: list_all2_conv_all_nth entry_ok_def)
    show ?thesis
    proof (cases "unit_size (parts ! ?j) = 0")
      case True
      then have "?g = Some null_field" "field_calls hol rb R m f []" using assms(1) p unfolding id by (auto simp: message_reads_def part_ok_def field_calls_def)
      then show ?thesis using css False by (intro exI [of _ "[] # css"]) (simp add: null_field_def)
    next
      case nz: False
      then obtain g where g: "?g = Some g" "field_gets mem g (parts ! ?j) (content V (parts ! ?j))"
        using message_readsD [OF assms(1), of ?j] j(1) len unfolding id by auto
      then obtain cs where "read_field f mem g = Some (True, cs)" "field_calls hol rb R m f cs" using p nz by (auto simp: part_ok_def reads_field_def)
      moreover have "f_ptr g \<noteq> None" using field_gets_pointer [OF g(2)] .
      ultimately show ?thesis using css False g(1) by (intro exI [of _ "cs # css"]) (auto simp: read_field_def split: if_splits)
    qed
  qed
qed simp

lemma read_empty_message:
  assumes "holds mem q [0]" "\<forall>u\<in>set us. unit_size u = 0"
  shows "message_reads mem q V us"
proof -
  have q: "q < length mem" "mem ! q = 0" using assms(1) by (auto elim!: holdsE simp: nth_append)
  then have "GetField mem (Some q) fid (Some (length mem)) = Some null_field" "HasField mem (Some q) fid = Some False" for fid
    by (auto simp: GetField_def HasField_def msg_word_def Let_def null_field_def)
  moreover have "Message_init mem (Some q) (Some (length mem)) = Some (Some q)" using q by (simp add: Message_init_def Let_def)
  ultimately show ?thesis using assms(2) by (auto simp: message_reads_def)
qed

text \<open>The words of a message from its parts.\<close>

lemma message_object:
  assumes ok: "buf_ok b" "buf_ok buf" "View b = W @ View buf" "(\<forall>u\<in>set parts. unit_size u = 0) \<longrightarrow> W = []"
    and parts: "\<forall>u\<in>set parts. unit_ok (Size b) u \<and> (u_len u = 0 \<and> seg_len u \<noteq> 0 \<longrightarrow> Size buf + unat (seg_len u) \<le> unat (seg_pos u))"
    and n: "0 < length parts" "length parts \<le> 5461" "length W \<le> S" "(\<Sum>u\<leftarrow>parts. unit_size u) \<le> S"
    and lim: "1 + 5 * length parts + S < 2 ^ 30" "Size buf + (1 + 5 * length parts + S) < 2 ^ 32"
  obtains ws buf' u' where "SerializeMessage parts b (Size buf) unit_init = Some (True, buf', u')" "emitted (View buf) ws buf' u'" "u_len u' = 0" "plain ws"
    "length ws \<le> 1 + 5 * length parts + S" "length ws = 1 \<longleftrightarrow> (\<forall>u\<in>set parts. unit_size u = 0)" "\<And>mem q. holds mem q ws \<Longrightarrow> message_reads mem q (View b) parts"
proof (cases "trim_fields parts = []")
  case True
  then have z: "\<forall>u\<in>set parts. unit_size u = 0" using trim_fields_Nil by blast
  obtain buf' where p: "Put 0 b = Some buf'" "buf_ok buf'" "View buf' = [0] @ View buf"
    using Put_slice_spec [OF ok(1), of "[0]"] ok(3,4) z by (auto simp: Put_eq_Put_slice)
  have "Size buf' < 2 ^ 32" using length_View [OF p(2)] length_View [OF ok(2)] p(3) lim(2) by simp
  then have "emitted (View buf) [0] buf' (Segment (Size buf) (Size buf'))" using emitted_segment [OF p(2,3)] length_View [OF ok(2)] by simp
  moreover have "SerializeMessage parts b (Size buf) unit_init = Some (True, buf', Segment (Size buf) (Size buf'))"
    using n(1) True p(1) by (simp add: SerializeMessage_def)
  ultimately show thesis using that [of buf' _ "[0]"] z read_empty_message by (simp add: plain_def)
next
  case False
  let ?fs = "trim_fields parts"
  have len: "length ?fs \<le> length parts" by (rule trim_fields_split [of parts]) (metis le_add1 length_append)
  have sec: "sections ?fs \<le> length parts" "sections ?fs \<le> 255" using len n(1,2) by (auto simp: sections_def)
  have fw: "fwsum ?fs \<le> 3 * length parts" using fwsum_le [of ?fs "Size b"] trim_units [OF parts] len by (meson le_trans mult_le_mono2)
  have sz: "Size b = length W + Size buf" using length_View [OF ok(1)] length_View [OF ok(2)] ok(3) by simp
  have bf: "before (widths ?fs) k < 2 ^ 14" for k
    using fwsum_split [of ?fs k] fw n(2) by (simp add: fwsum_before)
  have "fst (field_sizes ?fs) < 2 ^ 30" using n(4) lim(1) by (simp add: field_sizes_sum trim_fields_sum)
  moreover have "Size b - Size buf + fwsum ?fs < 2 ^ 30" "Size b + 1 + 2 * sections ?fs + fwsum ?fs < 2 ^ 32" "Size buf \<le> Size b"
    using sz fw sec(1) n(3) lim by simp_all
  ultimately obtain buf' Obj where s: "SerializeMessage parts b (Size buf) unit_init = Some (True, buf', Segment (Size buf) (Size buf'))"
      "emitted (drop (Size b - Size buf) (View b)) Obj buf' (Segment (Size buf) (Size buf'))"
      "length Obj = 1 + 2 * sections ?fs + fwsum ?fs + (Size b - Size buf)" "unat (Obj ! 0) mod 256 = sections ?fs"
      "\<And>mem P. holds mem P Obj \<Longrightarrow> message_reads mem P (View b) parts"
    using message_written [OF ok(1) _ False parts _ sec(2), of unit_init] bf by metis
  have pos: "0 < fwsum ?fs" using trim_fields_positive [OF False] .
  have "plain Obj"
  proof -
    have "unat (Obj ! 0 AND 3) = 0" if "length Obj \<le> 3"
    proof -
      have "unat (Obj ! 0) mod 256 = 0" using s(3,4) pos that by simp
      then have "unat (Obj ! 0) mod 4 = 0" by presburger
      then show ?thesis by (simp add: unat_and_3)
    qed
    then show ?thesis using s(3) by (force simp: plain_def)
  qed
  moreover have "length Obj \<noteq> 1" using s(3) pos by simp
  moreover have "\<not> (\<forall>u\<in>set parts. unit_size u = 0)" using False trim_fields_Nil by blast
  moreover have "drop (Size b - Size buf) (View b) = View buf" using ok(3) sz by simp
  moreover have "length Obj \<le> 1 + 5 * length parts + S" using s(3) sec(1) fw sz n(3) by simp
  ultimately show thesis using that [of buf' "Segment (Size buf) (Size buf')" Obj] s(1,2,5) by simp
qed

lemma plain_message:
  assumes desc: "schema_ok desc" "wrapper_field desc = None" "\<forall>f\<in>set desc. pf_deprecated f \<or> proto_field_ok mtype ok R m f" and buf: "buf_ok buf"
    and tab: "field_table desc = Some tab"
    and lim: "1 + 5 * nat (Max (pf_number ` set desc)) + (\<Sum>f\<leftarrow>desc. proto_field_bound bnd R m f) < 2 ^ 30"
      "Size buf + (1 + 5 * nat (Max (pf_number ` set desc)) + (\<Sum>f\<leftarrow>desc. proto_field_bound bnd R m f)) < 2 ^ 32"
  obtains parts b ws buf' u' where "serialize_parts (Proto_SerializeField R gseed junk ser m) (rev tab) [] buf = Some (Some parts, b)"
    "SerializeMessage parts b (Size buf) unit_init = Some (True, buf', u')" "emitted (View buf) ws buf' u'" "u_len u' = 0" "plain ws"
    "length ws \<le> 1 + 5 * nat (Max (pf_number ` set desc)) + (\<Sum>f\<leftarrow>desc. proto_field_bound bnd R m f)"
    "length ws = 1 \<longleftrightarrow> (\<forall>f\<in>set desc. pf_deprecated f \<or> absent hol R m f)"
    "\<And>mem q. holds mem q ws \<Longrightarrow> Message_init mem (Some q) (Some (length mem)) = Some (Some q) \<and>
      (\<exists>css. deserialize_fields (rdm mem) mtype mem (Some q) (Some (length mem)) desc = Some (True, concat css) \<and> list_all2 (field_calls hol rb R m) desc css)"
proof -
  have pos: "\<forall>f\<in>set desc. 0 < pf_number f" using desc(1) by (auto simp: schema_ok_def representable_def Let_def)
  obtain tab' where "field_table desc = Some tab'" and t: "int (length tab') = Max (pf_number ` set desc)" "0 < length tab'" "length tab' \<le> 5461"
      "\<And>j f. j < length tab' \<and> tab' ! j = Some f \<longleftrightarrow> f \<in> set desc \<and> \<not> pf_deprecated f \<and> pf_number f = int j + 1"
    by (rule schema_table [OF desc(1)]) blast
  then have tt: "tab' = tab" using tab by simp
  let ?S = "\<Sum>e\<leftarrow>rev tab. entry_bound m e" and ?n = "nat (Max (pf_number ` set desc))" and ?B = "\<Sum>f\<leftarrow>desc. proto_field_bound bnd R m f"
  have n: "length tab = ?n" using t(1) tt by simp
  have some: "Some f \<in> set tab \<longleftrightarrow> f \<in> set desc \<and> \<not> pf_deprecated f" for f
  proof
    assume "f \<in> set desc \<and> \<not> pf_deprecated f"
    then show "Some f \<in> set tab" using t(4) [of "nat (pf_number f - 1)" f] pos tt by (fastforce simp: in_set_conv_nth)
  qed (use t(4) tt in \<open>auto simp: in_set_conv_nth\<close>)
  have "(\<Sum>e\<leftarrow>tab. entry_bound m e) \<le> ?B"
    unfolding entry_bound_def by (rule table_sum) (use t(4) tt desc(1) in \<open>auto simp: schema_ok_def\<close>)
  then have S: "?S \<le> ?B" by (simp flip: rev_map add: sum_list_rev)
  have p0: "parts_ok m (Size buf) buf [] []" by (simp add: parts_ok_def)
  have fs: "\<forall>f. Some f \<in> set (rev tab) \<longrightarrow> \<not> pf_deprecated f \<and> proto_field_ok mtype ok R m f" using some desc(3) by auto
  have "?S < 2 ^ 30" "Size buf + ?S < 2 ^ 32" using S lim by linarith+
  from parts_emit [OF fs buf order.refl this p0, where gseed = gseed and junk = junk] obtain parts b W where
    r: "serialize_parts (Proto_SerializeField R gseed junk ser m) (rev tab) [] buf = Some (Some parts, b)" "buf_ok b" "View b = W @ View buf" "length W \<le> ?S"
      "parts_ok m (Size buf) b tab parts" "(\<Sum>u\<leftarrow>parts. unit_size u) \<le> ?S" "(\<forall>u\<in>set parts. unit_size u = 0) \<longrightarrow> W = []"
    by auto
  have la: "list_all2 (entry_ok m (View b)) tab parts" and us: "\<forall>u\<in>set parts. unit_ok (Size b) u \<and> (u_len u = 0 \<and> seg_len u \<noteq> 0 \<longrightarrow> Size buf + unat (seg_len u) \<le> unat (seg_pos u))"
    using r(5) by (auto simp: parts_ok_def)
  have len: "length parts = ?n" using la n by (simp add: list_all2_lengthD)
  have "length W \<le> ?B" "(\<Sum>u\<leftarrow>parts. unit_size u) \<le> ?B" "1 + 5 * length parts + ?B < 2 ^ 30" "Size buf + (1 + 5 * length parts + ?B) < 2 ^ 32"
    using r(4,6) S lim len by simp_all
  then obtain ws buf' u' where o: "SerializeMessage parts b (Size buf) unit_init = Some (True, buf', u')" "emitted (View buf) ws buf' u'" "u_len u' = 0" "plain ws"
      "length ws \<le> 1 + 5 * length parts + ?B" "length ws = 1 \<longleftrightarrow> (\<forall>u\<in>set parts. unit_size u = 0)" "\<And>mem q. holds mem q ws \<Longrightarrow> message_reads mem q (View b) parts"
    using message_object [OF r(2) buf r(3,7) us] t(2,3) tt n len by metis
  have "(\<forall>u\<in>set parts. unit_size u = 0) \<longleftrightarrow> (\<forall>f. Some f \<in> set tab \<longrightarrow> absent hol R m f)"
    using la by (induction rule: list_all2_induct) (auto simp: entry_ok_def part_ok_def split: option.splits)
  then have "length ws = 1 \<longleftrightarrow> (\<forall>f\<in>set desc. pf_deprecated f \<or> absent hol R m f)" using o(6) some by blast
  moreover have "\<exists>css. deserialize_fields (rdm mem) mtype mem (Some q) (Some (length mem)) desc = Some (True, concat css) \<and> list_all2 (field_calls hol rb R m) desc css"
    if "message_reads mem q (View b) parts" for mem q
    using read_fields [OF that la _ t(4) [unfolded tt] pos, of desc] t(3) tt by simp
  ultimately show thesis using that [OF r(1) o(1-4)] o(5,7) len by (auto simp: message_reads_def)
qed

lemma empty_array_reads:
  assumes "array_ok mtype ok R m f" "FieldSize R m f = 0"
  shows "reads_array m f [1]"
proof (intro allI impI)
  fix mem q assume h: "holds mem q [1 :: u32]"
  have w: "array_words 1 [] [1]" by (simp add: array_words_def)
  note v = array_view_init(1) [OF w h] array_view_count [OF w h]
  have s: "StringArrayEX_init mem (Some q) (Some (length mem)) = Some []" by (rule strs.extract_repr [OF array_repr_Nil h])
  have q: "q < length mem" "mem ! q = 1" using h by (auto elim!: holdsE simp: nth_append)
  then have n: "ScalarArrayEX_init sz mem (Some q) (Some (length mem)) = Some []" for sz
    using v(1) by (simp add: ScalarArrayEX_init_def Array_Numbers_def array_view_def null_slice_def)
  obtain rest where "drop (4 * q) (mem_bytes mem) = mem_bytes [1] @ rest" using drop_bytes [OF h] by blast
  moreover have "4 * q < length (mem_bytes mem)" using q(1) by simp
  ultimately have "rd (mem_bytes mem) (4 * q) = Some 1" by (simp add: rd_def flip: hd_drop_conv_nth)
  then have b: "BoolArrayEX_init mem (Some q) (Some (length mem)) = Some []"
    using q(1) by (simp add: BoolArrayEX_init_def String_init_def at_end_def slice_bytes_def null_slice_def)
  have "\<not> pf_map f" "pf_type f \<noteq> TYPE_GROUP" "elements_of R g m f = []" for g :: "'m \<Rightarrow> FieldDescriptor \<Rightarrow> nat \<Rightarrow> 'x" using assms by (auto simp: array_ok_def elements_of_def)
  then show "\<exists>cs. DeserializeArray (rdm mem) mtype mem (Some q) (Some (length mem)) f = Some (True, cs) \<and> array_calls rb R m f cs"
    using v s n b by (cases "pf_type f") (simp_all add: DeserializeArray_def array_calls_def elements_of_def assms(2))
qed

lemma alias_message:
  assumes f: "pf_repeated f" "array_ok mtype ok R m f" "pf_type f = TYPE_BOOL \<longrightarrow> FieldSize R m f \<notin> {1, 2, 3}" and buf: "buf_ok buf"
    and lim: "elements_bound bnd R m f < 2 ^ 30" "Size buf + elements_bound bnd R m f < 2 ^ 32"
  obtains ws buf' u' where "SerializeAlias R gseed junk ser m f buf unit_init = Some (True, buf', u')" "emitted (View buf) ws buf' u'" "u_len u' \<le> 1"
    "u_len u' \<noteq> 0 \<longrightarrow> seg_len u' = 0 \<and> FieldSize R m f = 0" "plain ws" "length ws \<le> elements_bound bnd R m f" "length ws = 1 \<longleftrightarrow> FieldSize R m f = 0" "reads_array m f ws"
proof (cases "FieldSize R m f = 0")
  case True
  let ?u = "\<lparr>u_len = 1, u_data = [1, 0, 0]\<rparr>"
  have nm: "\<not> pf_map f" using f(2) by (simp add: array_ok_def)
  have "SerializeAlias R gseed junk ser m f buf unit_init = Some (True, buf, ?u)"
    using True f(1) nm by (simp add: SerializeAlias_def Proto_SerializeField_def unit_init_def seg_len_def)
  moreover have "emitted (View buf) [1] buf ?u" using buf by (simp add: emitted_def unit_ok_def content_def)
  moreover have "1 \<le> elements_bound bnd R m f" using True by (cases "pf_type f") (simp_all add: elements_bound_def array_bound_def)
  ultimately show thesis using that [of buf ?u "[1]"] empty_array_reads [OF f(2) True] True by (simp add: plain_def seg_len_def)
next
  case False
  have nm: "\<not> pf_map f" using f(2) by (simp add: array_ok_def)
  obtain ws b u where e: "SerializeArrayField R ser m f buf unit_init = Some (True, b, u)" "plain ws" "length ws \<le> elements_bound bnd R m f"
    "emitted (View buf) ws b u" "u_len u \<le> 1" "pf_type f = TYPE_BOOL \<and> FieldSize R m f < 4 \<or> 2 \<le> length ws" "reads_array m f ws"
    by (rule elements_emit [OF f(2) False buf lim]) blast
  have two: "2 \<le> length ws" using e(6) f(3) False by auto
  have "unit_size u = length ws" using length_content [of "View b" u] e(4) by (auto simp: emitted_def)
  then have u: "u_len u = 0" "seg_len u \<noteq> 0" using two e(5) by (auto simp: unit_size_def split: if_splits)
  then have "SerializeAlias R gseed junk ser m f buf unit_init = Some (True, b, u)"
    using False f(1) nm e(1) by (simp add: SerializeAlias_def Proto_SerializeField_def)
  then show thesis using that [of b u ws] e u two False by simp
qed

end

subsection \<open>Messages\<close>

abbreviation read_message :: "nat \<Rightarrow> (FieldDescriptor \<Rightarrow> FieldDescriptor list) \<Rightarrow> mem \<Rightarrow> message_reader" where
  "read_message d mtype mem \<equiv> (\<lambda>obj. Deserialize d mtype mem obj (Some (length mem)))"

abbreviation message_codec :: "nat \<Rightarrow> (FieldDescriptor \<Rightarrow> FieldDescriptor list) \<Rightarrow> 'm Reflection \<Rightarrow> u32 \<Rightarrow> (nat \<Rightarrow> nat \<Rightarrow> u32) \<Rightarrow> bool" where
  "message_codec d mtype R gseed junk \<equiv>
    submessages R (Serialize_message d R gseed junk) (read_message d mtype) (proto_ok d mtype R) (proto_bound d R) (hollow d R) (rebuilds d R)"

lemma message_codec_Suc:
  assumes sub: "message_codec d mtype R gseed junk" and m: "proto_ok (Suc d) mtype R m" "buf_ok buf"
    and lim: "proto_bound (Suc d) R m < 2 ^ 30" "Size buf + proto_bound (Suc d) R m < 2 ^ 32"
  shows "\<exists>ws buf' u'. Serialize_message (Suc d) R gseed junk m buf unit_init = Some (True, buf', u') \<and>
    describes R (read_message (Suc d) mtype) (hollow (Suc d) R) (rebuilds (Suc d) R) m ws \<and> length ws \<le> proto_bound (Suc d) R m \<and> emitted (View buf) ws buf' u' \<and>
    u_len u' \<le> 1 \<and> (u_len u' \<noteq> 0 \<longrightarrow> seg_len u' = 0 \<and> empty_alias R m)"
proof -
  let ?desc = "GetDescriptor R m"
  have s: "schema_ok ?desc" using m(1) by simp
  obtain tab where t: "field_table ?desc = Some tab" by (rule schema_table [OF s]) blast
  note a = alias_wrapper [OF s t]
  show ?thesis
  proof (cases "wrapper_field ?desc")
    case (Some f)
    have f: "pf_repeated f" "array_ok mtype (proto_ok d mtype R) R m f" "pf_type f = TYPE_BOOL \<longrightarrow> FieldSize R m f \<notin> {1, 2, 3}" "\<not> pf_map f"
      using Some s m(1) by (auto simp: schema_ok_def array_ok_def)
    have b: "elements_bound (proto_bound d R) R m f = proto_bound (Suc d) R m" using Some by simp
    obtain ws buf' u' where e: "SerializeAlias R gseed junk (Serialize_message d R gseed junk) m f buf unit_init = Some (True, buf', u')" "emitted (View buf) ws buf' u'"
        "u_len u' \<le> 1" "u_len u' \<noteq> 0 \<longrightarrow> seg_len u' = 0 \<and> FieldSize R m f = 0" "plain ws" "length ws \<le> proto_bound (Suc d) R m" "length ws = 1 \<longleftrightarrow> FieldSize R m f = 0"
        "\<forall>mem q. holds mem q ws \<longrightarrow> (\<exists>cs. DeserializeArray (read_message d mtype mem) mtype mem (Some q) (Some (length mem)) f = Some (True, cs) \<and> array_calls (rebuilds d R) R m f cs)"
      by (rule submessages.alias_message [OF sub f(1-3) m(2) lim [folded b], where gseed = gseed and junk = junk]) (rule that, (assumption | simp only: b)+)
    have "\<exists>cs. read_message (Suc d) mtype mem (Some q) ?desc = Some (True, cs) \<and> rebuilds (Suc d) R m cs" if "holds mem q ws" for mem q
      using e(8) that Some f by (simp add: DeserializeContainer_def)
    then have "describes R (read_message (Suc d) mtype) (hollow (Suc d) R) (rebuilds (Suc d) R) m ws" using e(5,7) Some unfolding describes_def by simp
    moreover have "Serialize_message (Suc d) R gseed junk m buf unit_init = Some (True, buf', u')" using e(1) t a Some by simp
    moreover have "u_len u' \<noteq> 0 \<longrightarrow> seg_len u' = 0 \<and> empty_alias R m" using e(4) Some by (simp add: empty_alias_def)
    ultimately show ?thesis using e(2,3,6) by blast
  next
    case None
    have f: "\<forall>f\<in>set ?desc. pf_deprecated f \<or> proto_field_ok mtype (proto_ok d mtype R) R m f" using None m(1) by simp
    have b: "1 + 5 * nat (Max (pf_number ` set ?desc)) + (\<Sum>f\<leftarrow>?desc. proto_field_bound (proto_bound d R) R m f) = proto_bound (Suc d) R m"
      and h: "(\<forall>f\<in>set ?desc. pf_deprecated f \<or> absent (hollow d R) R m f) = hollow (Suc d) R m" using None by simp_all
    obtain parts b ws buf' u' where e: "serialize_parts (Proto_SerializeField R gseed junk (Serialize_message d R gseed junk) m) (rev tab) [] buf = Some (Some parts, b)"
        "SerializeMessage parts b (Size buf) unit_init = Some (True, buf', u')" "emitted (View buf) ws buf' u'" "u_len u' = 0" "plain ws" "length ws \<le> proto_bound (Suc d) R m"
        "length ws = 1 \<longleftrightarrow> hollow (Suc d) R m"
      and r: "\<And>mem q. holds mem q ws \<Longrightarrow> Message_init mem (Some q) (Some (length mem)) = Some (Some q) \<and>
        (\<exists>css. deserialize_fields (read_message d mtype mem) mtype mem (Some q) (Some (length mem)) ?desc = Some (True, concat css) \<and>
          list_all2 (field_calls (hollow d R) (rebuilds d R) R m) ?desc css)"
      by (rule submessages.plain_message [OF sub s None f m(2) t lim [folded b], where gseed = gseed and junk = junk]) (rule that, (assumption | simp only: b h)+)
    have "\<exists>cs. read_message (Suc d) mtype mem (Some q) ?desc = Some (True, cs) \<and> rebuilds (Suc d) R m cs" if "holds mem q ws" for mem q
      using r [OF that] None by fastforce
    then have "describes R (read_message (Suc d) mtype) (hollow (Suc d) R) (rebuilds (Suc d) R) m ws" using e(5,7) unfolding describes_def by blast
    moreover have "Serialize_message (Suc d) R gseed junk m buf unit_init = Some (True, buf', u')" using e(1,2) t a None by simp
    moreover have "u_len u' \<le> 1" "u_len u' \<noteq> 0 \<longrightarrow> seg_len u' = 0 \<and> empty_alias R m" using e(4) by simp_all
    ultimately show ?thesis using e(3,6) by blast
  qed
qed

lemma messages: "message_codec d mtype R gseed junk"
proof (induction d)
  case 0
  then show ?case by unfold_locales simp
next
  case (Suc d)
  then show ?case by unfold_locales (rule message_codec_Suc)
qed

interpretation msgs: submessages R mtype "Serialize_message d R gseed junk" "read_message d mtype" "proto_ok d mtype R" "proto_bound d R" "hollow d R" "rebuilds d R"
  for R :: "'m Reflection" and mtype d gseed junk
  by (rule messages)


text \<open>A chain of messages that have a name and the next of the chain: the message \<open>Suc n\<close> holds the message \<open>n\<close>.\<close>

definition name_field :: FieldDescriptor where
  "name_field = FieldDescriptor ''name'' 1 TYPE_STRING False False False []"

definition next_field :: FieldDescriptor where
  "next_field = FieldDescriptor ''next'' 2 TYPE_MESSAGE False False False []"

definition chain :: "nat Reflection" where
  "chain = \<lparr>GetDescriptor = (\<lambda>m. [name_field, next_field]), FieldSize = (\<lambda>m f. 0), PresentField = (\<lambda>m f. f = name_field \<or> 0 < m),
    GetMessage = (\<lambda>m f. m - 1), GetRepeatedMessage = (\<lambda>m f i. m), GetString = (\<lambda>m f. [0x61]), GetRepeatedString = (\<lambda>m f i. []),
    GetScalar = (\<lambda>m f. [0]), GetRepeatedScalar = (\<lambda>m f i. [0]), GetBool = (\<lambda>m f. False), GetRepeatedBool = (\<lambda>m f i. False)\<rparr>"


end
