(* ===== verification/Spec2Isabelle.thy ===== *)
theory Spec2Isabelle
  imports Divisor Bits Buffer Compress Hash SerialMap DecodeAgree ArenaSafe WasmSafe ReflectionSafe GenUtilsSpec ProtoRound
begin

text \<open>
  \<^bold>\<open>ProtoCache\<close> is a serialization format that is read in place.  A serialized object is a block of
  32-bit words; strings, arrays, maps and messages refer to each other by relative word offsets.  This
  is a verification library for its C++ core: the writer, the readers, the perfect hash that the maps
  carry, the compression of blocks, the mutable objects, the conversion from and to protobuf messages,
  the descriptor pool, the schema checks of the code generators, and the WebAssembly module.

  \<^bold>\<open>How the parts work together.\<close>  A writer serializes the parts of an object from the last to the first
  into a \<open>Buffer\<close>, which grows towards lower addresses, and describes each by a \<open>Unit\<close>, which holds up to
  three words itself or names a segment of the buffer.  \<open>SerializeArray\<close>, \<open>SerializeMap\<close> and
  \<open>SerializeMessage\<close> combine units into a new one; for a map they follow the order of a minimal perfect
  hash over its keys, which \<open>PerfectHashObject::Build\<close> makes with \<open>Hash128\<close>, \<open>XorShift\<close> and \<open>Divisor\<close> and
  which is written in front of the pairs.  The views (\<open>String\<close>, \<open>Field\<close>, \<open>Message\<close>, \<open>Array\<close>, \<open>Map\<close>) read the
  block with an optional end pointer that bounds what they may touch; the typed templates (\<open>FieldT\<close>,
  \<open>ArrayT\<close>, \<open>MapT\<close>) are built from them, and the mutable objects (\<open>ArrayEX\<close>, \<open>MapEX\<close>, \<open>MessageEX\<close>) extract
  through them and serialize through the writer, copying what was not accessed.  The extension writes
  protobuf messages with the same writer and reads them back through the views, field by field; a message
  with a single field that is called \<open>_\<close> stands for a container.  The descriptor pool collects parsed schema
  files and binds the names of types in them, and the generators check a schema before they print code
  for it.  The WebAssembly module
  exports the compression and the index construction on linear memory, a decoder that checks a block
  against schemas and writes a flat tape for the host, and a serializer for trees that the host lays
  out in an arena.

  \<^bold>\<open>Conventions.\<close>  Words of 8, 32 and 64 bits are the types \<open>u8\<close>, \<open>u32\<close> and \<open>u64\<close>, with the wrap-around of
  the source; values of type \<open>size_t\<close> and pointer differences are \<open>nat\<close>.  Memory is a list; a read or write
  outside of it, and a failed assertion, is \<open>None\<close>.  A pointer is an optional index (\<open>None\<close> is null), and an
  end pointer that is \<open>Some (length mem)\<close> is the end of the block.  Where a function of the source
  returns false, the result carries a flag; exported functions return their status.  Code that is not
  part of the sources is a parameter: the contents of fresh memory (\<open>b_fresh\<close>, \<open>junk\<close>), the random seed
  (\<open>gseed\<close>), whether an allocation succeeds (\<open>alloc\<close>, \<open>small\<close>), the C++ heap behind the WebAssembly
  functions (\<open>new\<close>, with the hypothesis that a fresh block is inside of memory and apart from the
  others), what generated message classes do (\<open>md\<close>, \<open>extract\<close>, \<open>ser\<close>), and the protobuf library: the getters
  of a message (the record \<open>Reflection\<close>) and the fields of the message type of a field (\<open>mtype\<close>).

  \<^bold>\<open>The theories.\<close>
  \<^item> \<open>Prelude\<close>: the word types, checked list access (\<open>rd\<close>, \<open>rd_range\<close>, \<open>wr_range\<close>), and shared lemmas.
  \<^item> \<open>Divisor\<close>, \<open>Bits\<close>, \<open>Bitmaps\<close>, \<open>Hash\<close>: the arithmetic of src/perfect_hash.cc, include/protocache/access.h
    and src/hash.cc.  The reciprocal division is exact for all operands, and both variants of the packed
    counters agree with the sums they stand for.
  \<^item> \<open>Buffer\<close> and \<open>Compress\<close>: the buffer of include/protocache/utils.h refines a stack of words;
    decompression of src/utils.cc inverts compression and is safe on arbitrary input whose declared size
    is below \<open>2 ^ 32 - 7\<close> (above, it is not).
  \<^item> \<open>PerfectHash\<close>, \<open>PH_Graph\<close>, \<open>PH_Peel\<close>, \<open>PH_Mapping\<close>, \<open>PH_Rank\<close>, \<open>PH_Locate\<close>, \<open>PH_Build\<close>: construction
    and lookup of src/perfect_hash.cc.  The peeling finds exactly the keys outside of the core of the
    hypergraph; a built index is a bijection onto the positions; it survives being written and read; on
    arbitrary bytes the lookup stays inside.
  \<^item> \<open>Access\<close>, \<open>AccessSafe\<close>, \<open>AccessT\<close>, \<open>AccessTSafe\<close>: the views and the typed templates of
    include/protocache/access.h, with safety of every accessor on arbitrary blocks.
  \<^item> \<open>Serialize\<close>, \<open>SerialUnit\<close>, \<open>SerialString\<close>, \<open>SerialPack\<close>, \<open>SerialArray\<close>, \<open>SerialMap\<close>, \<open>MessageRead\<close>,
    \<open>SerialMessage\<close>, \<open>Extent\<close>: the writer of src/serialize.cc and include/protocache/serialize.h.  What was
    written is read back by the views wherever the words are placed: strings, arrays, maps with all their
    keys and no others, messages with all their fields.  The extents that \<open>Detect\<close> computes are exact.
  \<^item> \<open>AccessEx\<close>, \<open>AccessExSafe\<close>, \<open>Codec\<close>, \<open>AccessExRound\<close>: the mutable objects of include/protocache/access-ex.h.
    A field that was not accessed is copied as it is; arrays and maps of any nesting are extracted as
    they were serialized.
  \<^item> \<open>Proto\<close>, \<open>ProtoSafe\<close>, \<open>ProtoRead\<close>, \<open>ProtoReadSafe\<close>, \<open>ProtoRound\<close>: src/extension/serialize.cc and
    src/extension/deserialize.cc.  Exactly the documented schemas are accepted; reading ends on any words
    and, for schemas whose only repeated fields are maps and booleans, stays inside of them; the calls that reading makes rebuild the
    message that was written, for all messages without map fields.  What fails is stated as well: container
    messages of few booleans, empty container messages, null arrays.
  \<^item> \<open>Schema\<close>, \<open>Reflection\<close>, \<open>ReflectionSafe\<close>: the descriptor pool of src/extension/reflection.cc.  A type name
    is looked up in the scopes from the inside to the outside; the invariant of the pool holds after any
    calls, and a registration that succeeds has bound every name that is known.
  \<^item> \<open>GenUtils\<close>, \<open>GenUtilsSpec\<close>: tools/proto-gen-utils.h, with an exact description of the schemas that the
    generators accept.
  \<^item> \<open>DecodeTape\<close>, \<open>DecodeApi\<close>, \<open>DecodeSafe\<close>, \<open>DecodeState\<close>, \<open>DecodeAgree\<close>: the decoder of
    typescript/wasm/decode_tape.cc.  Its exported functions are the steps of a transition system over the
    globals of the module; in every reachable state each call is safe, committed schemas are closed, and
    an accepted tape follows its schema with all spans inside of the input.
  \<^item> \<open>Arena\<close>, \<open>ArenaSafe\<close>: the arena serializer of typescript/wasm/serialize_arena.cc.
  \<^item> \<open>WasmApi\<close>, \<open>WasmSafe\<close>: typescript/wasm/protocache_wasm.cc on a linear memory of 32-bit addresses.

  \<^bold>\<open>Interfaces.\<close>  The contract of a key source (\<open>key_reader\<close> in \<open>PH_Graph\<close>) is a locale, interpreted on the
  reader of the serializer and on the packed keys of the WebAssembly function; the correctness of the
  construction is proved once inside of it.  The buffer is an interpretation of a locale of stacks
  (\<open>word_stack\<close>).  What containers need of their elements are the locales \<open>writer\<close>, \<open>codec\<close>, \<open>object_codec\<close>
  and \<open>map_codec\<close> in \<open>Codec\<close>, interpreted on strings, numbers, arrays and maps in \<open>AccessExRound\<close>; what a
  protobuf message needs of its submessages is the locale \<open>submessages\<close> in \<open>ProtoRound\<close>, interpreted on the
  messages of every depth by induction.

  \<^bold>\<open>Bounds and fuel.\<close>  The recursion of the decoder is bounded by the source itself (\<open>kMaximumDepth\<close>, 256
  levels); the model gives it one unit of fuel more (\<open>walk_fuel\<close>) and proves that it is never used up.
  The doubling loops of the reserve functions get 33 steps for 32-bit sizes, and a theorem that they end
  earlier.  The arena walk gets a unit for every 16 bytes of the arena (\<open>arena_fuel\<close>): a child node lies
  strictly inside of its parent and a node has a head of 16 bytes.  \<open>Deserialize\<close> gets a bound on the depth
  of its recursion; the length of the data and two more is always enough, since every object is behind the
  one that refers to it.  The bound of \<open>Serialize_message\<close> is the depth of the message.

  \<^bold>\<open>Not modelled.\<close>  src/extension/utils.cc hands files and text to the parser and the JSON converter of the
  protobuf library; the Python binding is written against the CPython interface; the protoc plugins print
  source text for other compilers, and the classes they generate are parameters here; the TypeScript runtime is
  the caller of the modelled module; \<open>LoadFile\<close> is I/O; the seed of the default \<open>XorShift\<close> is the operating
  system's.  The round trip of protobuf messages leaves out map fields, for which it would depend on the
  seed with which the index over the keys is found; that of the maps themselves is in \<open>AccessExRound\<close>.
\<close>

end
